(* ===== verification/Prelude.thy ===== *)
theory Prelude
  imports Main "HOL-Library.Word" "HOL-Library.Monad_Syntax"
begin

text \<open>
  What the component theories share: the names of the C integer types, 32-bit wrap-around on
  natural numbers, the bit scans the kernel uses (\<open>__builtin_clz\<close>, \<open>__builtin_ctz\<close>), and doubly linked
  lists as paths through a memory.
\<close>

unbundle bit_operations_syntax

type_synonym byte = "8 word"
type_synonym u16 = "16 word"
type_synonym u32 = "32 word"
type_synonym u64 = "64 word"

named_theorems heap_simps \<open>the fields each heap operation leaves alone\<close>
named_theorems ring_simps \<open>ring buffers read as lists\<close>


section \<open>Machine arithmetic on natural numbers\<close>

text \<open>
  A \<open>uint32_t\<close> kept as a natural number: sums are reduced with \<open>wrap32\<close> wherever the C code adds,
  differences with \<open>sub32\<close> wherever it subtracts.
\<close>

definition wrap32 :: "nat \<Rightarrow> nat" where
  "wrap32 n = n mod 2 ^ 32"

definition sub32 :: "nat \<Rightarrow> nat \<Rightarrow> nat" where
  "sub32 a b = (a + (2 ^ 32 - b mod 2 ^ 32)) mod 2 ^ 32"

lemma wrap32_id [simp]: "n < 2 ^ 32 \<Longrightarrow> wrap32 n = n"
  by (simp add: wrap32_def)

lemma wrap32_less [simp]: "wrap32 n < 2 ^ 32" "wrap32 n < 4294967296"
  by (simp_all add: wrap32_def)

lemma sub32_less [simp]: "sub32 a b < 2 ^ 32" "sub32 a b < 4294967296"
  by (simp_all add: sub32_def)

lemma sub32_eq: "b \<le> a \<Longrightarrow> a < 2 ^ 32 \<Longrightarrow> sub32 a b = a - b"
proof -
  assume le: "b \<le> a" and lt: "a < 2 ^ 32"
  then have "a + (2 ^ 32 - b mod 2 ^ 32) = (a - b) + 2 ^ 32" by simp
  then show ?thesis using lt by (simp add: sub32_def)
qed

lemma wrap32_add_sub32: "wrap32 (sub32 a b + b) = wrap32 a"
proof -
  define r q where "r = b mod 2 ^ 32" and "q = b div 2 ^ 32"
  then have "r < 2 ^ 32" "b = q * 2 ^ 32 + r" by auto
  then have "(a + (2 ^ 32 - r)) + b = a + (q + 1) * 2 ^ 32" by simp
  then have "(a + (2 ^ 32 - b mod 2 ^ 32)) + b = a + (q + 1) * 2 ^ 32" by (simp only: r_def)
  then have "((a + (2 ^ 32 - b mod 2 ^ 32)) + b) mod 2 ^ 32 = a mod 2 ^ 32"
    by (metis mod_mult_self1)
  then show ?thesis
    by (simp add: wrap32_def sub32_def mod_simps)
qed


lemma wrap32_wrap32_add [simp]: "wrap32 (wrap32 a + b) = wrap32 (a + b)" "wrap32 (a + wrap32 b) = wrap32 (a + b)"
  by (simp_all add: wrap32_def mod_simps)

lemma sub32_wrap32_add: "sub32 (wrap32 (a + b)) b = wrap32 a"
proof -
  define r q where "r = b mod 2 ^ 32" and "q = b div 2 ^ 32"
  then have b: "r < 2 ^ 32" "b = q * 2 ^ 32 + r" by auto
  have "((a + b) mod 2 ^ 32 + (2 ^ 32 - r)) mod 2 ^ 32 = ((a + b) + (2 ^ 32 - r)) mod 2 ^ 32"
    by (rule mod_add_left_eq)
  also have "(a + b) + (2 ^ 32 - r) = a + (q + 1) * 2 ^ 32" using b by simp
  also have "\<dots> mod 2 ^ 32 = a mod 2 ^ 32" by (metis mod_mult_self1)
  finally show ?thesis by (simp add: sub32_def wrap32_def r_def)
qed


text \<open>The same for 64 bits: addresses (\<open>uintptr_t\<close>).\<close>

definition wrap64 :: "nat \<Rightarrow> nat" where
  "wrap64 n = n mod 2 ^ 64"

definition sub64 :: "nat \<Rightarrow> nat \<Rightarrow> nat" where
  "sub64 a b = (a + (2 ^ 64 - b mod 2 ^ 64)) mod 2 ^ 64"

lemma wrap64_id [simp]: "n < 2 ^ 64 \<Longrightarrow> wrap64 n = n"
  by (simp add: wrap64_def)

lemma sub64_eq: "b \<le> a \<Longrightarrow> a < 2 ^ 64 \<Longrightarrow> sub64 a b = a - b"
proof -
  assume le: "b \<le> a" and lt: "a < 2 ^ 64"
  then have "a + (2 ^ 64 - b mod 2 ^ 64) = (a - b) + 2 ^ 64" by simp
  then show ?thesis using lt by (simp add: sub64_def)
qed


section \<open>Bit scans\<close>

text \<open>Masking off the low bits rounds down.\<close>

lemma and_not_mask: "w AND NOT (mask k) = push_bit k (drop_bit k (w :: 'a::len word))"
  by (rule bit_eqI) (auto simp: bit_simps)

lemma unat_round_down: "unat (push_bit k (drop_bit k w)) = unat (w :: 'a::len word) div 2 ^ k * 2 ^ k"
proof -
  have "unat w div 2 ^ k * 2 ^ k \<le> unat w" by simp
  also have "\<dots> < 2 ^ LENGTH('a)" by simp
  finally show ?thesis
    by (subst unsigned_push_bit_eq, subst unat_drop_bit_eq)
      (simp only: drop_bit_eq_div push_bit_eq_mult take_bit_nat_eq_self)
qed

text \<open>
  \<open>__builtin_ctz\<close> counts the zero bits below the lowest set bit, \<open>31 - __builtin_clz\<close> is the place of
  the highest set bit; both are undefined on 0, where the code never calls them.
\<close>

fun bit_length :: "nat \<Rightarrow> nat" where
  "bit_length v = (if v = 0 then 0 else Suc (bit_length (v div 2)))"

declare bit_length.simps [simp del]

definition clz32 :: "nat \<Rightarrow> nat" where
  "clz32 v = 32 - bit_length v"

definition ctz32 :: "u32 \<Rightarrow> nat" where
  "ctz32 w = length (takeWhile (\<lambda>i. \<not> bit w i) [0..<32])"

lemma bit_length_range: "0 < v \<Longrightarrow> 2 ^ (bit_length v - 1) \<le> v \<and> v < 2 ^ bit_length v \<and> 0 < bit_length v"
proof (induction v rule: bit_length.induct)
  case (1 v)
  show ?case
  proof (cases "v div 2 = 0")
    case True
    with "1.prems" have "v = 1" by presburger
    then show ?thesis by (simp add: bit_length.simps)
  next
    case False
    with "1.IH" "1.prems" have ih: "2 ^ (bit_length (v div 2) - 1) \<le> v div 2"
      "v div 2 < 2 ^ bit_length (v div 2)" "0 < bit_length (v div 2)" by auto
    obtain k where k: "bit_length (v div 2) = Suc k" using ih(3) by (cases "bit_length (v div 2)") auto
    have "bit_length v = Suc (Suc k)" using "1.prems" k by (subst bit_length.simps) simp
    moreover have "2 * 2 ^ k \<le> v" and "v < 2 * (2 * 2 ^ k)" using ih(1,2) k by auto
    ultimately show ?thesis by simp
  qed
qed

lemma bit_length_le: "v < 2 ^ n \<Longrightarrow> bit_length v \<le> n"
proof (cases "v = 0")
  case False
  assume lt: "v < 2 ^ n"
  from False have "2 ^ (bit_length v - 1) \<le> v" and pos: "0 < bit_length v" using bit_length_range by auto
  from this(1) have "(2::nat) ^ (bit_length v - 1) < 2 ^ n" using lt by (rule le_less_trans)
  then show ?thesis using pos by simp
qed (simp add: bit_length.simps)

lemma takeWhile_upt_least:
  assumes "P k" and "k < n"
  shows "length (takeWhile (\<lambda>i. \<not> P i) [0..<n]) \<le> k" and "P (length (takeWhile (\<lambda>i. \<not> P i) [0..<n]))"
proof -
  let ?l = "length (takeWhile (\<lambda>i. \<not> P i) [0..<n])"
  show le: "?l \<le> k"
  proof (rule ccontr)
    assume "\<not> ?l \<le> k"
    then have "k < ?l" by simp
    then have "\<not> P (takeWhile (\<lambda>i. \<not> P i) [0..<n] ! k)"
      using set_takeWhileD nth_mem by metis
    moreover have "takeWhile (\<lambda>i. \<not> P i) [0..<n] ! k = k"
      using \<open>k < ?l\<close> assms by (simp add: takeWhile_nth)
    ultimately show False using assms by simp
  qed
  then have l: "?l < length [0..<n]" using assms by simp
  have "\<not> \<not> P ([0..<n] ! ?l)" by (rule nth_length_takeWhile [OF l])
  then show "P ?l" using l by simp
qed

lemma ctz32_bit: "w \<noteq> 0 \<Longrightarrow> bit w (ctz32 w) \<and> ctz32 w < 32"
proof -
  assume "w \<noteq> 0"
  then obtain k where "bit w k" by (auto simp: bit_eq_iff)
  moreover from this have "k < 32" using bit_imp_le_length by fastforce
  ultimately show ?thesis
    using takeWhile_upt_least [of "bit w" k 32] by (auto simp: ctz32_def)
qed

lemma ctz32_least: "bit w k \<Longrightarrow> ctz32 w \<le> k"
proof -
  assume b: "bit w k"
  then have "k < 32" using bit_imp_le_length by fastforce
  then show ?thesis using takeWhile_upt_least [of "bit w" k 32] b by (simp add: ctz32_def)
qed

lemma clz32_range:
  assumes "0 < v" and "v < 2 ^ 32"
  shows "clz32 v < 32" and "2 ^ (31 - clz32 v) \<le> v" and "v < 2 ^ (32 - clz32 v)"
proof -
  have l: "bit_length v \<le> 32" "0 < bit_length v" "2 ^ (bit_length v - 1) \<le> v" "v < 2 ^ bit_length v"
    using assms bit_length_le bit_length_range by auto
  then have "31 - clz32 v = bit_length v - 1" "32 - clz32 v = bit_length v"
    by (auto simp: clz32_def)
  with l show "clz32 v < 32" and "2 ^ (31 - clz32 v) \<le> v" and "v < 2 ^ (32 - clz32 v)"
    by (auto simp: clz32_def)
qed


section \<open>Doubly linked lists in memory\<close>

text \<open>
  \<open>dseg nx pv p a xs b\<close>: following \<open>nx\<close> from \<open>a\<close> visits exactly the nodes \<open>xs\<close> and stops at \<open>b\<close>;
  the \<open>pv\<close> link of each node is the node before it, that of the first is \<open>p\<close>. Address 0 is NULL,
  so a whole list is \<open>dll nx pv h xs\<close>.
\<close>

primrec dseg :: "(nat \<Rightarrow> nat) \<Rightarrow> (nat \<Rightarrow> nat) \<Rightarrow> nat \<Rightarrow> nat \<Rightarrow> nat list \<Rightarrow> nat \<Rightarrow> bool" where
  "dseg nx pv p a [] b \<longleftrightarrow> a = b"
| "dseg nx pv p a (x # xs) b \<longleftrightarrow> a = x \<and> x \<noteq> 0 \<and> pv x = p \<and> dseg nx pv x (nx x) xs b"

definition dll :: "(nat \<Rightarrow> nat) \<Rightarrow> (nat \<Rightarrow> nat) \<Rightarrow> nat \<Rightarrow> nat list \<Rightarrow> bool" where
  "dll nx pv h xs \<longleftrightarrow> dseg nx pv 0 h xs 0"

text \<open>The first and last node of a list, 0 for none: what a link field holds.\<close>

definition hd0 :: "nat list \<Rightarrow> nat" where
  "hd0 xs = (case xs of [] \<Rightarrow> 0 | x # _ \<Rightarrow> x)"

definition last0 :: "nat list \<Rightarrow> nat" where
  "last0 xs = (if xs = [] then 0 else last xs)"

lemma hd0_simps [simp]: "hd0 [] = 0" "hd0 (x # xs) = x"
  by (simp_all add: hd0_def)

lemma last0_simps [simp]: "last0 [] = 0" "last0 (xs @ [x]) = x"
  by (simp_all add: last0_def)

lemma dseg_append: "dseg nx pv p a (xs @ ys) c \<longleftrightarrow>
    (\<exists>b. dseg nx pv p a xs b \<and> dseg nx pv (last (p # xs)) b ys c)"
  by (induction xs arbitrary: p a) auto

lemma dseg_cong:
  assumes "\<And>x. x \<in> set xs \<Longrightarrow> nx x = nx' x" and "\<And>x. x \<in> set xs \<Longrightarrow> pv x = pv' x"
  shows "dseg nx pv p a xs b \<longleftrightarrow> dseg nx' pv' p a xs b"
  using assms by (induction xs arbitrary: p a) auto

lemma dll_cong:
  assumes "\<And>x. x \<in> set xs \<Longrightarrow> nx x = nx' x" and "\<And>x. x \<in> set xs \<Longrightarrow> pv x = pv' x"
  shows "dll nx pv h xs \<longleftrightarrow> dll nx' pv' h xs"
  unfolding dll_def by (rule dseg_cong) (use assms in auto)

lemma dseg_nonzero: "dseg nx pv p a xs b \<Longrightarrow> 0 \<notin> set xs"
  by (induction xs arbitrary: p a) auto

lemma dll_head: "dll nx pv h xs \<Longrightarrow> h = hd0 xs"
  by (cases xs) (auto simp: dll_def)

lemma dll_unique: "dll nx pv h xs \<Longrightarrow> dll nx pv h ys \<Longrightarrow> xs = ys"
proof -
  have "dseg nx pv p a xs 0 \<Longrightarrow> dseg nx pv p a ys 0 \<Longrightarrow> xs = ys" for p a
  proof (induction xs arbitrary: p a ys)
    case Nil
    then show ?case by (cases ys) auto
  next
    case (Cons x xs)
    then obtain z zs where ys: "ys = z # zs" by (cases ys) auto
    with Cons.prems have "dseg nx pv x (nx x) xs 0" "dseg nx pv x (nx x) zs 0" "z = x" by auto
    with Cons.IH ys show ?case by blast
  qed
  then show "dll nx pv h xs \<Longrightarrow> dll nx pv h ys \<Longrightarrow> xs = ys" unfolding dll_def by blast
qed

text \<open>No node is visited twice: the rest of the list from a node is always the same.\<close>

lemma dseg_distinct: "dseg nx pv p a xs 0 \<Longrightarrow> distinct xs"
proof (induction xs arbitrary: p a)
  case (Cons x xs)
  have "x \<notin> set xs"
  proof
    assume "x \<in> set xs"
    then obtain ys zs where xs: "xs = ys @ x # zs" by (auto simp: in_set_conv_decomp)
    have tail: "dseg nx pv q b us 0 \<Longrightarrow> dseg nx pv q' b vs 0 \<Longrightarrow> us = vs" for q q' b us vs
    proof (induction us arbitrary: q q' b vs)
      case Nil
      then show ?case by (cases vs) auto
    next
      case (Cons u us)
      then obtain v ws where vs: "vs = v # ws" by (cases vs) auto
      with Cons.prems have "dseg nx pv u (nx u) us 0" "dseg nx pv u (nx u) ws 0" "v = u" by auto
      with Cons.IH vs show ?case by blast
    qed
    from Cons.prems have whole: "dseg nx pv x (nx x) xs 0" by simp
    then have "dseg nx pv x (nx x) zs 0" by (auto simp: xs dseg_append)
    with whole have "xs = zs" by (rule tail)
    with xs have "length zs = length (ys @ x # zs)" by simp
    then show False by simp
  qed
  with Cons show ?case by auto
qed simp

lemma dll_distinct: "dll nx pv h xs \<Longrightarrow> distinct xs"
  by (simp add: dll_def dseg_distinct)

lemma dll_nonzero: "dll nx pv h xs \<Longrightarrow> 0 \<notin> set xs"
  by (auto simp: dll_def dest: dseg_nonzero)

lemma dll_links:
  assumes "dll nx pv h (ys @ x # zs)"
  shows "nx x = hd0 zs" and "pv x = last0 ys"
proof -
  from assms have "pv x = last (0 # ys)" and "dseg nx pv x (nx x) zs 0"
    by (auto simp: dll_def dseg_append)
  then show "nx x = hd0 zs" and "pv x = last0 ys"
    by (cases zs; auto simp: last0_def)+
qed

lemma dll_decomp:
  "dll nx pv h (ys @ x # zs) \<longleftrightarrow>
     dseg nx pv 0 h ys x \<and> x \<noteq> 0 \<and> pv x = last0 ys \<and> dseg nx pv x (nx x) zs 0"
  by (auto simp: dll_def dseg_append last0_def)

text \<open>A node put in after \<open>b\<close>, one taken out, one put in front.\<close>

lemma dll_insert_after:
  assumes old: "dll nx pv h (ys @ b # zs)" and n: "n \<noteq> 0" "n \<notin> set (ys @ b # zs)"
    and nx: "nx' b = n" "nx' n = nx b" "\<And>x. x \<in> set ys \<union> set zs \<Longrightarrow> nx' x = nx x"
    and pv: "pv' n = b" "zs \<noteq> [] \<Longrightarrow> pv' (hd zs) = n"
      "\<And>x. x \<in> set ys \<union> {b} \<union> set (tl zs) \<Longrightarrow> pv' x = pv x"
  shows "dll nx' pv' h (ys @ b # n # zs)"
proof -
  from old have o: "dseg nx pv 0 h ys b" "b \<noteq> 0" "pv b = last0 ys" "dseg nx pv b (nx b) zs 0"
    by (auto simp: dll_decomp)
  have "dseg nx' pv' 0 h ys b" using o(1) nx pv by (subst dseg_cong [of _ nx' nx pv' pv]) auto
  moreover have "dseg nx' pv' n (nx b) zs 0"
  proof (cases zs)
    case (Cons z zs')
    with o(4) have "nx b = z" "z \<noteq> 0" "dseg nx pv z (nx z) zs' 0" by auto
    then show ?thesis using Cons nx pv by (simp, subst dseg_cong [of _ nx' nx pv' pv]) auto
  qed (use o(4) in simp)
  ultimately show ?thesis using o n nx pv by (simp add: dll_decomp)
qed

lemma dll_remove:
  assumes old: "dll nx pv h (ys @ b # zs)"
    and h: "h' = (if ys = [] then nx b else h)"
    and nx: "ys \<noteq> [] \<Longrightarrow> nx' (last ys) = nx b" "\<And>x. x \<in> set (butlast ys) \<union> set zs \<Longrightarrow> nx' x = nx x"
    and pv: "zs \<noteq> [] \<Longrightarrow> pv' (hd zs) = pv b" "\<And>x. x \<in> set ys \<union> set (tl zs) \<Longrightarrow> pv' x = pv x"
  shows "dll nx' pv' h' (ys @ zs)"
proof -
  from old have o: "dseg nx pv 0 h ys b" "pv b = last0 ys" "dseg nx pv b (nx b) zs 0"
    by (auto simp: dll_decomp)
  have tail: "dseg nx' pv' (last0 ys) (nx b) zs 0"
  proof (cases zs)
    case (Cons z zs')
    with o have "nx b = z" "z \<noteq> 0" "dseg nx pv z (nx z) zs' 0" by auto
    then show ?thesis using Cons nx pv o(2) by (simp, subst dseg_cong [of _ nx' nx pv' pv]) auto
  qed (use o(3) in simp)
  show ?thesis
  proof (cases ys rule: rev_cases)
    case Nil
    with tail h show ?thesis by (simp add: dll_def)
  next
    case (snoc us u)
    from o(1) snoc have u: "dseg nx pv 0 h us u" "u \<noteq> 0" "pv u = last0 us"
      by (auto simp: dseg_append last0_def split: if_splits)
    have "dseg nx' pv' 0 h us u" using u(1) nx pv snoc by (subst dseg_cong [of _ nx' nx pv' pv]) auto
    with tail u nx pv snoc h show ?thesis by (auto simp: dll_decomp)
  qed
qed

lemma dll_push:
  assumes old: "dll nx pv h xs" and n: "n \<noteq> 0" "n \<notin> set xs"
    and nx: "nx' n = h" "\<And>x. x \<in> set xs \<Longrightarrow> nx' x = nx x"
    and pv: "pv' n = 0" "xs \<noteq> [] \<Longrightarrow> pv' (hd xs) = n" "\<And>x. x \<in> set (tl xs) \<Longrightarrow> pv' x = pv x"
  shows "dll nx' pv' n (n # xs)"
proof (cases xs)
  case (Cons z zs)
  with old have "h = z" "z \<noteq> 0" "dseg nx pv z (nx z) zs 0" by (auto simp: dll_def)
  then show ?thesis using Cons n nx pv by (simp add: dll_def, subst dseg_cong [of _ nx' nx pv' pv]) auto
qed (use old n nx pv in \<open>simp add: dll_def\<close>)

text \<open>Another list put at the end.\<close>

lemma dll_append:
  assumes a: "dll nx pv h xs" "xs \<noteq> []" and b: "dseg nx' pv' (last xs) c zs 0"
    and nx: "nx' (last xs) = c" "\<And>x. x \<in> set (butlast xs) \<Longrightarrow> nx' x = nx x"
    and pv: "\<And>x. x \<in> set xs \<Longrightarrow> pv' x = pv x"
  shows "dll nx' pv' h (xs @ zs)"
proof -
  obtain us u where xs: "xs = us @ [u]" using a(2) by (cases xs rule: rev_cases) auto
  from a(1) have "dseg nx pv 0 h us u" "u \<noteq> 0" "pv u = last0 us" by (auto simp: xs dll_decomp)
  moreover from this have "dseg nx' pv' 0 h us u" using nx pv by (subst dseg_cong [of _ nx' nx pv' pv]) (auto simp: xs)
  ultimately show ?thesis using b nx pv by (simp add: xs dll_decomp)
qed

end
