(* ===== verification/Kheap_Model.thy ===== *)
theory Kheap_Model
  imports Prelude
begin

text \<open>
  The kernel heap, \<open>kernel/kheap.c\<close>, as the 64-bit kernel has it: every block starts with a header
  (\<open>block\<close>), the blocks form a doubly linked list from \<open>g_head\<close>, and every free block is also in one
  bin of a two-level segregated fit, linked through its own payload (\<open>flink\<close>), with a bitmap of the
  bins that hold something. Pointers are addresses, NULL is 0.

  The memory is split by what the code keeps where: \<open>blk\<close> holds the headers, \<open>links\<close> the bin links of
  free blocks, \<open>mem\<close> the bytes the heap's users see. \<open>uint32_t\<close> fields are natural numbers, reduced with
  \<open>wrap32\<close> and \<open>sub32\<close> at every addition and subtraction of the code. Each function runs under \<open>g_lock\<close>,
  so one call is one step.
\<close>

section \<open>State\<close>

record block =
  bsize :: nat
  bused :: nat
  bprev :: nat
  bnext :: nat

record flink =
  lnext :: nat
  lprev :: nat

record kheap =
  g_head :: nat
  blk :: "nat \<Rightarrow> block"
  links :: "nat \<Rightarrow> flink"
  g_bin :: "nat \<Rightarrow> nat \<Rightarrow> nat"
  g_flmap :: u32
  g_slmap :: "nat \<Rightarrow> u32"
  g_total :: nat
  g_used :: nat
  g_reclaiming :: bool
  mem :: "nat \<Rightarrow> byte"

definition HEAP_MAGIC :: nat where "HEAP_MAGIC = 0xB16B00B5"
definition HDR :: nat where "HDR = 32"
definition ALIGN :: nat where "ALIGN = 16"
definition MIN_SPLIT :: nat where "MIN_SPLIT = 64"
definition SL_LOG :: nat where "SL_LOG = 4"
definition SL_N :: nat where "SL_N = 16"
definition FL_SHIFT :: nat where "FL_SHIFT = 8"
definition FL_N :: nat where "FL_N = 25"
definition HEAP_MIN_ADDR :: nat where "HEAP_MIN_ADDR = 0x100000"
definition HEAP_MAX_ADDR :: nat where "HEAP_MAX_ADDR = 0xE0000000"

text \<open>Single fields of a header or a link written through a pointer.\<close>

definition set_size :: "nat \<Rightarrow> nat \<Rightarrow> kheap \<Rightarrow> kheap" where
  "set_size b v s = s\<lparr>blk := (blk s)(b := (blk s b)\<lparr>bsize := v\<rparr>)\<rparr>"

definition set_used :: "nat \<Rightarrow> nat \<Rightarrow> kheap \<Rightarrow> kheap" where
  "set_used b v s = s\<lparr>blk := (blk s)(b := (blk s b)\<lparr>bused := v\<rparr>)\<rparr>"

definition set_prev :: "nat \<Rightarrow> nat \<Rightarrow> kheap \<Rightarrow> kheap" where
  "set_prev b v s = s\<lparr>blk := (blk s)(b := (blk s b)\<lparr>bprev := v\<rparr>)\<rparr>"

definition set_next :: "nat \<Rightarrow> nat \<Rightarrow> kheap \<Rightarrow> kheap" where
  "set_next b v s = s\<lparr>blk := (blk s)(b := (blk s b)\<lparr>bnext := v\<rparr>)\<rparr>"

definition set_lnext :: "nat \<Rightarrow> nat \<Rightarrow> kheap \<Rightarrow> kheap" where
  "set_lnext b v s = s\<lparr>links := (links s)(b := (links s b)\<lparr>lnext := v\<rparr>)\<rparr>"

definition set_lprev :: "nat \<Rightarrow> nat \<Rightarrow> kheap \<Rightarrow> kheap" where
  "set_lprev b v s = s\<lparr>links := (links s)(b := (links s b)\<lparr>lprev := v\<rparr>)\<rparr>"

definition set_bin :: "nat \<Rightarrow> nat \<Rightarrow> nat \<Rightarrow> kheap \<Rightarrow> kheap" where
  "set_bin fl sl v s = s\<lparr>g_bin := (g_bin s)(fl := (g_bin s fl)(sl := v))\<rparr>"


section \<open>The bins\<close>

definition log2u :: "nat \<Rightarrow> nat" where
  "log2u v = 31 - clz32 v"

definition bin_of :: "nat \<Rightarrow> nat \<times> nat" where
  "bin_of sz =
     (if sz < 2 ^ FL_SHIFT then (0, drop_bit (FL_SHIFT - SL_LOG) sz)
      else let f = log2u sz in (f - (FL_SHIFT - 1), drop_bit (f - SL_LOG) sz XOR SL_N))"

definition bin_insert :: "nat \<Rightarrow> kheap \<Rightarrow> kheap" where
  "bin_insert b s =
     (let (fl, sl) = bin_of (bsize (blk s b));
          nx = g_bin s fl sl;
          s = set_lnext b nx (set_lprev b 0 s);
          s = (if nx \<noteq> 0 then set_lprev nx b s else s);
          s = set_bin fl sl b s;
          s = s\<lparr>g_flmap := g_flmap s OR push_bit fl 1\<rparr>
      in s\<lparr>g_slmap := (g_slmap s)(fl := g_slmap s fl OR push_bit sl 1)\<rparr>)"

definition bin_remove :: "nat \<Rightarrow> kheap \<Rightarrow> kheap" where
  "bin_remove b s =
     (let (fl, sl) = bin_of (bsize (blk s b));
          nx = lnext (links s b);
          pv = lprev (links s b);
          s = (if pv \<noteq> 0 then set_lnext pv nx s else set_bin fl sl nx s);
          s = (if nx \<noteq> 0 then set_lprev nx pv s else s)
      in if g_bin s fl sl = 0
         then let s = s\<lparr>g_slmap := (g_slmap s)(fl := g_slmap s fl AND NOT (push_bit sl 1))\<rparr>
              in if g_slmap s fl = 0
                 then s\<lparr>g_flmap := g_flmap s AND NOT (push_bit fl 1)\<rparr> else s
         else s)"

text \<open>The rounding of a request up to the next bin boundary; \<open>None\<close> where it leaves 32 bits.\<close>

definition bin_want :: "nat \<Rightarrow> nat option" where
  "bin_want need =
     (if 2 ^ FL_SHIFT \<le> need
      then let round = 2 ^ (log2u need - SL_LOG) - 1
           in if wrap32 (need + round) < need then None else Some (wrap32 (need + round))
      else Some need)"

text \<open>The bin a search from \<open>(fl, sl)\<close> ends in: this level from \<open>sl\<close> on, else a level above.\<close>

definition bin_scan :: "nat \<Rightarrow> nat \<Rightarrow> kheap \<Rightarrow> (nat \<times> nat) option" where
  "bin_scan fl sl s =
     (let slm = g_slmap s fl AND push_bit sl (NOT 0)
      in if slm \<noteq> 0 then Some (fl, ctz32 slm)
         else let flm = (if fl + 1 < 32 then g_flmap s AND push_bit (fl + 1) (NOT 0) else 0)
              in if flm = 0 then None
                 else Some (ctz32 flm, ctz32 (g_slmap s (ctz32 flm))))"

definition bin_take :: "nat \<Rightarrow> kheap \<Rightarrow> nat \<times> kheap" where
  "bin_take need s =
     (case bin_want need of
        None \<Rightarrow> (0, s)
      | Some want \<Rightarrow>
          (let (fl, sl) = bin_of want
           in if FL_N \<le> fl then (0, s)
              else case bin_scan fl sl s of
                     None \<Rightarrow> (0, s)
                   | Some (fl', sl') \<Rightarrow>
                       (let b = g_bin s fl' sl' in (b, bin_remove b s))))"


section \<open>Blocks\<close>

definition align_up :: "nat \<Rightarrow> nat \<Rightarrow> nat" where
  "align_up v a = unat ((of_nat v + of_nat a - 1) AND NOT (of_nat a - 1) :: u32)"

definition split_block :: "nat \<Rightarrow> nat \<Rightarrow> kheap \<Rightarrow> kheap" where
  "split_block b sz s =
     (if bsize (blk s b) < wrap32 (sz + HDR + MIN_SPLIT) then s
      else let n = b + HDR + sz;
               s = set_size n (sub32 (sub32 (bsize (blk s b)) sz) HDR) s;
               s = set_used n 0 s;
               s = set_prev n b s;
               s = set_next n (bnext (blk s b)) s;
               s = (if bnext (blk s b) \<noteq> 0 then set_prev (bnext (blk s b)) n s else s);
               s = set_next b n s;
               s = set_size b sz s;
               after = bnext (blk s n);
               s = (if after \<noteq> 0 \<and> bused (blk s after) = 0
                    then let s = bin_remove after s;
                             s = set_size n (wrap32 (bsize (blk s n) + HDR + bsize (blk s after))) s;
                             s = set_next n (bnext (blk s after)) s
                         in if bnext (blk s after) \<noteq> 0
                            then set_prev (bnext (blk s after)) n s else s
                    else s)
           in bin_insert n s)"

definition merge_next :: "nat \<Rightarrow> kheap \<Rightarrow> kheap" where
  "merge_next b s =
     (let n = bnext (blk s b)
      in if n = 0 \<or> bused (blk s n) \<noteq> 0 then s
         else let s = bin_remove n s;
                  s = set_size b (wrap32 (bsize (blk s b) + HDR + bsize (blk s n))) s;
                  s = set_next b (bnext (blk s n)) s
              in if bnext (blk s n) \<noteq> 0 then set_prev (bnext (blk s n)) b s else s)"

text \<open>A block handed out: what \<open>find_fit\<close> and \<open>take_aligned\<close> end with.\<close>

definition hand_out :: "nat \<Rightarrow> nat \<Rightarrow> kheap \<Rightarrow> nat \<times> kheap" where
  "hand_out b need s =
     (let s = split_block b need s;
          s = set_used b HEAP_MAGIC s;
          s = s\<lparr>g_used := wrap32 (g_used s + bsize (blk s b))\<rparr>
      in (b + HDR, s))"

definition find_fit :: "nat \<Rightarrow> kheap \<Rightarrow> nat \<times> kheap" where
  "find_fit need s =
     (let (b, s) = bin_take need s in if b = 0 then (0, s) else hand_out b need s)"

text \<open>
  What decides whether a failed allocation may ask for memory back: the hook (\<open>kheap_set_reclaim\<close>),
  the processor's interrupt flag and the core.
\<close>

record kenv =
  g_reclaim :: "(nat \<Rightarrow> kheap \<Rightarrow> kheap) option"
  irqs_on :: bool
  cpu_id :: nat

definition may_reclaim :: "kenv \<Rightarrow> kheap \<Rightarrow> bool" where
  "may_reclaim e s \<longleftrightarrow> g_reclaim e \<noteq> None \<and> \<not> g_reclaiming s \<and> irqs_on e \<and> cpu_id e = 0"

definition run_reclaim :: "kenv \<Rightarrow> nat \<Rightarrow> kheap \<Rightarrow> kheap" where
  "run_reclaim e need s = (the (g_reclaim e) need (s\<lparr>g_reclaiming := True\<rparr>))\<lparr>g_reclaiming := False\<rparr>"

definition kmalloc :: "kenv \<Rightarrow> nat \<Rightarrow> kheap \<Rightarrow> nat \<times> kheap" where
  "kmalloc e sz s =
     (if g_head s = 0 \<or> sz = 0 \<or> 0xF0000000 < sz then (0, s)
      else let need = align_up (wrap32 sz) ALIGN;
               (p, s) = find_fit need s
           in if p = 0 \<and> may_reclaim e s
              then find_fit need (run_reclaim e (wrap32 (need + HDR)) s)
              else (p, s))"

definition kzalloc :: "kenv \<Rightarrow> nat \<Rightarrow> kheap \<Rightarrow> nat \<times> kheap" where
  "kzalloc e sz s =
     (let (p, s) = kmalloc e sz s
      in (p, if p \<noteq> 0 then s\<lparr>mem := (\<lambda>a. if p \<le> a \<and> a < p + sz then 0 else mem s a)\<rparr> else s))"

definition hdr_of :: "nat \<Rightarrow> kheap \<Rightarrow> nat" where
  "hdr_of p s = (if bused (blk s (p - HDR)) = HEAP_MAGIC then p - HDR else 0)"

definition kfree :: "nat \<Rightarrow> kheap \<Rightarrow> kheap" where
  "kfree ptr s =
     (if ptr = 0 then s
      else let b = hdr_of ptr s
           in if b = 0 then s
              else let s = s\<lparr>g_used := sub32 (g_used s) (bsize (blk s b))\<rparr>;
                       s = set_used b 0 s;
                       s = merge_next b s;
                       p = bprev (blk s b)
                   in if p \<noteq> 0 \<and> bused (blk s p) = 0
                      then let s = bin_remove p s;
                               s = set_size p (wrap32 (bsize (blk s p) + HDR + bsize (blk s b))) s;
                               s = set_next p (bnext (blk s b)) s;
                               s = (if bnext (blk s b) \<noteq> 0 then set_prev (bnext (blk s b)) p s else s)
                           in bin_insert p s
                      else bin_insert b s)"

definition memcpy_mem :: "nat \<Rightarrow> nat \<Rightarrow> nat \<Rightarrow> kheap \<Rightarrow> kheap" where
  "memcpy_mem dst src n s =
     s\<lparr>mem := (\<lambda>a. if dst \<le> a \<and> a < dst + n then mem s (src + (a - dst)) else mem s a)\<rparr>"

definition krealloc :: "kenv \<Rightarrow> nat \<Rightarrow> nat \<Rightarrow> kheap \<Rightarrow> nat \<times> kheap" where
  "krealloc e ptr sz s =
     (if ptr = 0 then kmalloc e sz s
      else if sz = 0 then (0, kfree ptr s)
      else let b = hdr_of ptr s
           in if b = 0 then (0, s)
              else let need = align_up (wrap32 sz) ALIGN;
                       old = bsize (blk s b);
                       n = bnext (blk s b)
                   in if need \<le> old then (ptr, s)
                      else if n \<noteq> 0 \<and> bused (blk s n) = 0 \<and> need \<le> wrap32 (old + HDR + bsize (blk s n))
                      then let s = s\<lparr>g_used := sub32 (g_used s) (bsize (blk s b))\<rparr>;
                               s = merge_next b s;
                               s = split_block b need s
                           in (ptr, s\<lparr>g_used := wrap32 (g_used s + bsize (blk s b))\<rparr>)
                      else let (np, s) = kmalloc e sz s
                           in if np = 0 then (0, s)
                              else (np, kfree ptr (memcpy_mem np ptr old s)))"


section \<open>Start\<close>

text \<open>The heap before \<open>kheap_init\<close>: the zeroed static data of the kernel.\<close>

definition kheap0 :: "(nat \<Rightarrow> byte) \<Rightarrow> kheap" where
  "kheap0 m = \<lparr>g_head = 0, blk = (\<lambda>_. \<lparr>bsize = 0, bused = 0, bprev = 0, bnext = 0\<rparr>),
     links = (\<lambda>_. \<lparr>lnext = 0, lprev = 0\<rparr>), g_bin = (\<lambda>_ _. 0), g_flmap = 0, g_slmap = (\<lambda>_. 0),
     g_total = 0, g_used = 0, g_reclaiming = False, mem = m\<rparr>"

text \<open>The end of \<open>kheap_init\<close>, once the region is known: one free block.\<close>

definition kheap_setup :: "nat \<Rightarrow> nat \<Rightarrow> kheap \<Rightarrow> kheap" where
  "kheap_setup start end0 s =
     (let e = end0 - end0 mod ALIGN;
          s = s\<lparr>g_head := start\<rparr>;
          s = set_size start (sub32 (sub32 e start) HDR) s;
          s = set_used start 0 s;
          s = set_prev start 0 s;
          s = set_next start 0 s;
          s = s\<lparr>g_total := bsize (blk s start), g_used := 0\<rparr>
      in bin_insert start s)"

end
