(* ===== verification/Kheap_Bins.thy ===== *)
theory Kheap_Bins
  imports Kheap_Model
begin

text \<open>
  The bins of the heap: which sizes a bin holds, that a search above the rounded request only meets
  blocks that are big enough, and that inserting and removing a block keep the bins, their links and
  the two bitmaps together (\<open>bins_ok\<close>).
\<close>

section \<open>Sizes and bins\<close>

text \<open>The smallest size a bin may hold.\<close>

definition bin_lo :: "nat \<Rightarrow> nat \<Rightarrow> nat" where
  "bin_lo fl sl = (if fl = 0 then 16 * sl else (16 + sl) * 2 ^ (fl + 3))"

definition bin_le :: "nat \<times> nat \<Rightarrow> nat \<times> nat \<Rightarrow> bool" where
  "bin_le a b \<longleftrightarrow> fst a < fst b \<or> (fst a = fst b \<and> snd a \<le> snd b)"

lemmas kheap_consts = FL_SHIFT_def SL_LOG_def SL_N_def FL_N_def

lemma log2u_range:
  assumes "0 < v" and "v < 2 ^ 32"
  shows "2 ^ log2u v \<le> v" and "v < 2 * 2 ^ log2u v" and "log2u v < 32"
proof -
  from clz32_range [OF assms] have c: "clz32 v < 32" "2 ^ (31 - clz32 v) \<le> v" "v < 2 ^ (32 - clz32 v)"
    by auto
  have "32 - clz32 v = Suc (31 - clz32 v)" using c(1) by simp
  with c show "2 ^ log2u v \<le> v" and "v < 2 * 2 ^ log2u v" and "log2u v < 32"
    by (auto simp: log2u_def)
qed

lemma log2u_ge8: "256 \<le> v \<Longrightarrow> v < 2 ^ 32 \<Longrightarrow> 8 \<le> log2u v"
proof (rule ccontr)
  assume v: "256 \<le> v" "v < 2 ^ 32" and "\<not> 8 \<le> log2u v"
  then have "log2u v \<le> 7" by simp
  then have "(2::nat) ^ log2u v \<le> 2 ^ 7" by (rule power_increasing) simp
  with log2u_range [of v] v show False by simp
qed

lemma log2u_unique: "2 ^ k \<le> v \<Longrightarrow> v < 2 * 2 ^ k \<Longrightarrow> v < 2 ^ 32 \<Longrightarrow> log2u v = k"
proof -
  assume v: "2 ^ k \<le> v" "v < 2 * 2 ^ k" "v < 2 ^ 32"
  then have "0 < v" by (metis gr0I not_le zero_less_numeral zero_less_power)
  from log2u_range [OF this v(3)] v have "(2::nat) ^ log2u v < 2 ^ Suc k" "(2::nat) ^ k < 2 ^ Suc (log2u v)"
    by auto
  then have "log2u v < Suc k" "k < Suc (log2u v)" by (simp_all only: power_strict_increasing_iff)
  then show ?thesis by simp
qed

lemma xor_16: "16 \<le> q \<Longrightarrow> q < 32 \<Longrightarrow> (q::nat) XOR 16 = q - 16"
proof -
  assume "16 \<le> q" "q < 32"
  then have "q \<in> set [16..<32]" by (simp only: set_upt atLeastLessThan_iff)
  moreover have "\<forall>q\<in>set [16..<32]. (q::nat) XOR 16 = q - 16" by code_simp
  ultimately show ?thesis by blast
qed

text \<open>Sizes from 256 on: the level is the power of two, the bin a sixteenth of it.\<close>

lemma bin_of_large:
  assumes "256 \<le> sz" and "sz < 2 ^ 32"
  defines "f \<equiv> log2u sz"
  shows "bin_of sz = (f - 7, sz div 2 ^ (f - 4) - 16)" and "16 \<le> sz div 2 ^ (f - 4)"
    and "sz div 2 ^ (f - 4) < 32" and "8 \<le> f" and "f < 32"
proof -
  have f: "8 \<le> f" "f < 32" "2 ^ f \<le> sz" "sz < 2 * 2 ^ f"
    using assms log2u_ge8 log2u_range by auto
  have p: "(2::nat) ^ f = 16 * 2 ^ (f - 4)"
  proof -
    have "(2::nat) ^ f = 2 ^ (4 + (f - 4))" using f by simp
    also have "\<dots> = 16 * 2 ^ (f - 4)" by (simp only: power_add) simp
    finally show ?thesis .
  qed
  have q: "16 \<le> sz div 2 ^ (f - 4)" using f(3) p by (simp add: less_eq_div_iff_mult_less_eq)
  have q': "sz div 2 ^ (f - 4) < 32" using f(4) p by (simp add: div_less_iff_less_mult)
  from q q' f show "16 \<le> sz div 2 ^ (f - 4)" "sz div 2 ^ (f - 4) < 32" "8 \<le> f" "f < 32"
    by auto
  show "bin_of sz = (f - 7, sz div 2 ^ (f - 4) - 16)"
    using assms(1) q q' by (simp add: bin_of_def kheap_consts Let_def f_def drop_bit_eq_div xor_16)
qed

lemma bin_of_small: "sz < 256 \<Longrightarrow> bin_of sz = (0, sz div 16)"
  by (simp add: bin_of_def kheap_consts drop_bit_eq_div)

lemma bin_of_range:
  assumes "sz < 2 ^ 32"
  shows "fst (bin_of sz) < FL_N" and "snd (bin_of sz) < SL_N"
proof -
  show "fst (bin_of sz) < FL_N"
    using bin_of_large [of sz] bin_of_small [of sz] assms by (cases "sz < 256") (auto simp: kheap_consts)
  show "snd (bin_of sz) < SL_N"
    using bin_of_large [of sz] bin_of_small [of sz] assms by (cases "sz < 256") (auto simp: kheap_consts)
qed

lemma bin_lo_le:
  assumes "sz < 2 ^ 32"
  shows "bin_lo (fst (bin_of sz)) (snd (bin_of sz)) \<le> sz"
proof (cases "sz < 256")
  case True
  then show ?thesis by (simp add: bin_of_small bin_lo_def)
next
  case False
  define f where "f = log2u sz"
  have b: "bin_of sz = (f - 7, sz div 2 ^ (f - 4) - 16)" "16 \<le> sz div 2 ^ (f - 4)" "8 \<le> f"
    using bin_of_large [of sz] False assms by (auto simp: f_def)
  have "f - 7 + 3 = f - 4" using b(3) by simp
  then have "bin_lo (f - 7) (sz div 2 ^ (f - 4) - 16) = (sz div 2 ^ (f - 4)) * 2 ^ (f - 4)"
    using b by (simp add: bin_lo_def)
  then show ?thesis using b(1) by simp
qed

lemma bin_lo_mono:
  assumes "bin_le (fl, sl) (fl', sl')" and "sl < 16"
  shows "bin_lo fl sl \<le> bin_lo fl' sl'"
proof (cases "fl = fl'")
  case True
  with assms show ?thesis by (auto simp: bin_lo_def bin_le_def)
next
  case False
  with assms have lt: "fl < fl'" by (simp add: bin_le_def)
  show ?thesis
  proof (cases "fl = 0")
    case True
    have "(2::nat) ^ 4 \<le> 2 ^ (fl' + 3)" using lt by (intro power_increasing) auto
    then have "16 * 16 \<le> (16 + sl') * 2 ^ (fl' + 3)" by (intro mult_mono) auto
    with True lt assms(2) show ?thesis by (simp add: bin_lo_def)
  next
    case False
    have "(16 + sl) * 2 ^ (fl + 3) \<le> 32 * 2 ^ (fl + 3)" using assms(2) by (intro mult_right_mono) auto
    also have "\<dots> = 16 * (2::nat) ^ (fl + 4)" by (simp add: eval_nat_numeral)
    also have "\<dots> \<le> 16 * 2 ^ (fl' + 3)" using lt by (intro mult_left_mono power_increasing) auto
    also have "\<dots> \<le> (16 + sl') * 2 ^ (fl' + 3)" by (intro mult_right_mono) auto
    finally show ?thesis using False lt by (simp add: bin_lo_def)
  qed
qed

lemma bin_of_mono:
  assumes "a \<le> b" and "b < 2 ^ 32"
  shows "bin_le (bin_of a) (bin_of b)"
proof (cases "a < 256")
  case True
  show ?thesis
  proof (cases "b < 256")
    case True
    with \<open>a < 256\<close> assms show ?thesis by (auto simp: bin_of_small bin_le_def div_le_mono)
  next
    case False
    with bin_of_large [of b] assms(2) have "0 < fst (bin_of b)" by auto
    with \<open>a < 256\<close> show ?thesis by (simp add: bin_of_small bin_le_def)
  qed
next
  case False
  then have big: "256 \<le> a" "256 \<le> b" "a < 2 ^ 32" using assms by auto
  define f g where "f = log2u a" and "g = log2u b"
  have A: "bin_of a = (f - 7, a div 2 ^ (f - 4) - 16)" "8 \<le> f"
    using bin_of_large [of a] big by (auto simp: f_def)
  have B: "bin_of b = (g - 7, b div 2 ^ (g - 4) - 16)" "8 \<le> g"
    using bin_of_large [of b] big assms(2) by (auto simp: g_def)
  have "(2::nat) ^ f \<le> a" "b < 2 * 2 ^ g"
    using log2u_range [of a] log2u_range [of b] big assms(2) by (auto simp: f_def g_def)
  then have "(2::nat) ^ f < 2 ^ Suc g" using assms(1) by simp
  then have "f < Suc g" by (simp only: power_strict_increasing_iff)
  then show ?thesis using A B assms(1)
    by (cases "f = g") (auto simp: bin_le_def div_le_mono diff_le_mono)
qed

text \<open>The rounded request lies in a bin whose smallest size is already enough.\<close>

lemma bin_want_enough:
  assumes "bin_want need = Some want" and "need < 2 ^ 32" and "16 dvd need"
  shows "want < 2 ^ 32" and "need \<le> want" and "need \<le> bin_lo (fst (bin_of want)) (snd (bin_of want))"
proof -
  consider "need < 256" | "256 \<le> need" by linarith
  then show "need \<le> bin_lo (fst (bin_of want)) (snd (bin_of want))"
  proof cases
    case 1
    then have "want = need" using assms(1) by (simp add: bin_want_def kheap_consts)
    then show ?thesis using 1 assms(3) by (simp add: bin_of_small bin_lo_def)
  next
    case 2
    define f where "f = log2u need"
    define g :: nat where "g = 2 ^ (f - 4)"
    have f: "8 \<le> f" "f < 32" "2 ^ f \<le> need" "need < 2 * 2 ^ f"
      using 2 assms(2) log2u_ge8 log2u_range by (auto simp: f_def)
    have g: "0 < g" "2 ^ f = 16 * g"
    proof -
      have "(2::nat) ^ f = 2 ^ (4 + (f - 4))" using f by simp
      also have "\<dots> = 16 * 2 ^ (f - 4)" by (simp only: power_add) simp
      finally show "2 ^ f = 16 * g" by (simp add: g_def)
    qed (simp add: g_def)
    have w: "want = wrap32 (need + (g - 1))" "need \<le> want"
      using assms(1) 2 by (auto simp: bin_want_def kheap_consts Let_def f_def g_def split: if_splits)
    have lt: "want < 2 ^ 32" by (simp add: w)
    have "need + (g - 1) < 2 ^ 33" using f g assms(2) by simp
    moreover have "g < 2 ^ 32" using f g assms(2) by simp
    ultimately have weq: "want = need + (g - 1)"
      using w(2) by (simp add: w(1) wrap32_def mod_if split: if_splits)
    have f': "f = log2u want \<or> Suc f = log2u want"
    proof (cases "want < 2 * 2 ^ f")
      case True
      then have "log2u want = f" using f(3) w(2) lt by (intro log2u_unique) auto
      then show ?thesis by simp
    next
      case False
      then have "2 ^ Suc f \<le> want" by simp
      moreover have "want < 2 * 2 ^ Suc f" using weq f(4) g by simp
      ultimately have "log2u want = Suc f" using lt by (intro log2u_unique) auto
      then show ?thesis by simp
    qed
    have big: "256 \<le> want" using 2 w(2) by simp
    define F where "F = log2u want"
    have b: "bin_of want = (F - 7, want div 2 ^ (F - 4) - 16)" "16 \<le> want div 2 ^ (F - 4)" "8 \<le> F"
      using bin_of_large [OF big lt] by (auto simp: F_def)
    have "F - 7 + 3 = F - 4" using b(3) by simp
    then have lo: "bin_lo (fst (bin_of want)) (snd (bin_of want)) = (want div 2 ^ (F - 4)) * 2 ^ (F - 4)"
      using b by (simp add: bin_lo_def)
    from f' show ?thesis
    proof
      assume "f = log2u want"
      then have "F = f" by (simp add: F_def)
      have "need \<le> ((need + (g - 1)) div g) * g"
      proof -
        have "need + (g - 1) = ((need + (g - 1)) div g) * g + (need + (g - 1)) mod g" by simp
        moreover have "(need + (g - 1)) mod g \<le> g - 1" using g(1) by (simp add: Suc_pred' less_Suc_eq_le flip: less_Suc_eq_le)
        ultimately show ?thesis by linarith
      qed
      then show ?thesis using lo weq \<open>F = f\<close> by (simp add: g_def)
    next
      assume "Suc f = log2u want"
      then have F: "F - 4 = Suc (f - 4)" using f by (simp add: F_def)
      have "16 * 2 ^ (F - 4) \<le> (want div 2 ^ (F - 4)) * 2 ^ (F - 4)"
        using b(2) by (rule mult_right_mono) simp
      moreover have "16 * 2 ^ (F - 4) = 2 * (2::nat) ^ f" using F g by (simp add: g_def)
      ultimately show ?thesis using lo f(4) by simp
    qed
  qed
  show "want < 2 ^ 32" and "need \<le> want"
    using assms by (auto simp: bin_want_def Let_def split: if_splits)
qed


section \<open>The bins and their bitmaps\<close>

text \<open>
  \<open>bins_ok s F\<close>: the blocks of \<open>F\<close>, and no others, are in the bins, each in the bin of its size, every
  bin a proper doubly linked list; a bit of the second level is set exactly where a bin holds
  something, one of the first exactly where a level does.
\<close>

abbreviation lnx :: "kheap \<Rightarrow> nat \<Rightarrow> nat" where "lnx s \<equiv> (\<lambda>x. lnext (links s x))"
abbreviation lpv :: "kheap \<Rightarrow> nat \<Rightarrow> nat" where "lpv s \<equiv> (\<lambda>x. lprev (links s x))"
abbreviation bsz :: "kheap \<Rightarrow> nat \<Rightarrow> nat" where "bsz s \<equiv> (\<lambda>x. bsize (blk s x))"

definition bin_members :: "kheap \<Rightarrow> nat set \<Rightarrow> nat \<Rightarrow> nat \<Rightarrow> nat set" where
  "bin_members s F fl sl = {x \<in> F. bin_of (bsz s x) = (fl, sl)}"

definition bin_lists :: "kheap \<Rightarrow> nat set \<Rightarrow> bool" where
  "bin_lists s F \<longleftrightarrow> (\<forall>fl<FL_N. \<forall>sl<SL_N. \<exists>xs.
     dll (lnx s) (lpv s) (g_bin s fl sl) xs \<and> set xs = bin_members s F fl sl)"

definition bin_maps :: "kheap \<Rightarrow> bool" where
  "bin_maps s \<longleftrightarrow> (\<forall>fl<FL_N. \<forall>sl. bit (g_slmap s fl) sl \<longleftrightarrow> sl < SL_N \<and> g_bin s fl sl \<noteq> 0) \<and>
     (\<forall>fl. bit (g_flmap s) fl \<longleftrightarrow> fl < FL_N \<and> g_slmap s fl \<noteq> 0)"

definition bins_ok :: "kheap \<Rightarrow> nat set \<Rightarrow> bool" where
  "bins_ok s F \<longleftrightarrow> bin_lists s F \<and> bin_maps s \<and> (\<forall>x\<in>F. x \<noteq> 0 \<and> bsz s x < 2 ^ 32)"

text \<open>Only the sizes of the binned blocks and the bins' own fields matter.\<close>

lemma bins_ok_cong:
  assumes "bins_ok s F" and "links t = links s" "g_bin t = g_bin s" "g_flmap t = g_flmap s" "g_slmap t = g_slmap s"
    and "\<And>x. x \<in> F \<Longrightarrow> bsz t x = bsz s x"
  shows "bins_ok t F"
proof -
  have "bin_members t F fl sl = bin_members s F fl sl" for fl sl
    using assms(6) by (auto simp: bin_members_def)
  then show ?thesis using assms by (auto simp: bins_ok_def bin_lists_def bin_maps_def)
qed

text \<open>What the bin operations never touch.\<close>

lemma setters [heap_simps]:
  "blk (set_lnext b v s) = blk s" "blk (set_lprev b v s) = blk s" "blk (set_bin fl sl v s) = blk s"
  "g_head (set_lnext b v s) = g_head s" "g_head (set_lprev b v s) = g_head s" "g_head (set_bin fl sl v s) = g_head s"
  "g_used (set_lnext b v s) = g_used s" "g_used (set_lprev b v s) = g_used s" "g_used (set_bin fl sl v s) = g_used s"
  "g_total (set_lnext b v s) = g_total s" "g_total (set_lprev b v s) = g_total s" "g_total (set_bin fl sl v s) = g_total s"
  "mem (set_lnext b v s) = mem s" "mem (set_lprev b v s) = mem s" "mem (set_bin fl sl v s) = mem s"
  "g_reclaiming (set_lnext b v s) = g_reclaiming s" "g_reclaiming (set_lprev b v s) = g_reclaiming s"
  "g_reclaiming (set_bin fl sl v s) = g_reclaiming s"
  by (simp_all add: set_lnext_def set_lprev_def set_bin_def)

lemma bin_insert_frame [heap_simps]:
  "blk (bin_insert b s) = blk s" "g_head (bin_insert b s) = g_head s" "g_used (bin_insert b s) = g_used s"
  "g_total (bin_insert b s) = g_total s" "mem (bin_insert b s) = mem s" "g_reclaiming (bin_insert b s) = g_reclaiming s"
  by (simp_all add: bin_insert_def Let_def heap_simps split: prod.split)

lemma bin_remove_frame [heap_simps]:
  "blk (bin_remove b s) = blk s" "g_head (bin_remove b s) = g_head s" "g_used (bin_remove b s) = g_used s"
  "g_total (bin_remove b s) = g_total s" "mem (bin_remove b s) = mem s" "g_reclaiming (bin_remove b s) = g_reclaiming s"
  by (simp_all add: bin_remove_def Let_def heap_simps split: prod.split)

lemma bit_set_exp: "k < 32 \<Longrightarrow> bit ((w::u32) OR 2 ^ k) n \<longleftrightarrow> bit w n \<or> n = k"
  by (auto simp: bit_simps)

lemma bit_clear_exp: "k < 32 \<Longrightarrow> bit ((w::u32) AND NOT (2 ^ k)) n \<longleftrightarrow> bit w n \<and> n \<noteq> k"
  by (auto simp: bit_simps dest: bit_imp_le_length)

lemma word_zero_bit: "(w::u32) = 0 \<longleftrightarrow> (\<forall>k. \<not> bit w k)"
  by (metis bit_0_eq bot_apply bot_bool_def ctz32_bit)

lemmas map_bits = bit_set_exp bit_clear_exp word_zero_bit

text \<open>The list of one bin.\<close>

lemma bins_okE:
  assumes "bins_ok s F" and "fl < FL_N" and "sl < SL_N"
  obtains xs where "dll (lnx s) (lpv s) (g_bin s fl sl) xs" "set xs = bin_members s F fl sl"
proof -
  have "\<exists>xs. dll (lnx s) (lpv s) (g_bin s fl sl) xs \<and> set xs = bin_members s F fl sl"
    using assms by (simp add: bins_ok_def bin_lists_def)
  then show ?thesis using that by blast
qed

lemma bin_head_member:
  assumes "bins_ok s F" and "fl < FL_N" and "sl < SL_N" and "g_bin s fl sl \<noteq> 0"
  shows "g_bin s fl sl \<in> bin_members s F fl sl"
proof -
  obtain xs where xs: "dll (lnx s) (lpv s) (g_bin s fl sl) xs" "set xs = bin_members s F fl sl"
    using assms bins_okE by blast
  with assms(4) have "xs \<noteq> []" by (auto dest: dll_head)
  then show ?thesis using xs dll_head [OF xs(1)] by (cases xs) auto
qed

lemma bin_insert_fields:
  assumes bo: "bin_of (bsz s b) = (f, g)" and nb: "g_bin s f g \<noteq> b"
  shows "lnx (bin_insert b s) x = (if x = b then g_bin s f g else lnx s x)"
    and "lpv (bin_insert b s) x = (if x = b then 0 else if x = g_bin s f g \<and> x \<noteq> 0 then b else lpv s x)"
    and "g_bin (bin_insert b s) = (g_bin s)(f := (g_bin s f)(g := b))"
    and "g_flmap (bin_insert b s) = g_flmap s OR push_bit f 1"
    and "g_slmap (bin_insert b s) = (g_slmap s)(f := g_slmap s f OR push_bit g 1)"
  using nb by (auto simp: bin_insert_def bo Let_def set_lnext_def set_lprev_def set_bin_def)

lemma bin_insert_maps:
  assumes "bin_maps s" and bo: "bin_of (bsz s b) = (f, g)" and r: "f < FL_N" "g < SL_N"
    and "g_bin s f g \<noteq> b" and "b \<noteq> 0"
  shows "bin_maps (bin_insert b s)"
  using assms(1,6) r
  by (auto simp: bin_maps_def bin_insert_fields [OF bo assms(5)] kheap_consts map_bits)

lemma bin_insert_ok:
  assumes ok: "bins_ok s F" and b: "b \<notin> F" "b \<noteq> 0" "bsz s b < 2 ^ 32"
  shows "bins_ok (bin_insert b s) (insert b F)"
proof -
  obtain f g where bo: "bin_of (bsz s b) = (f, g)" by force
  have r: "f < FL_N" "g < SL_N" using bin_of_range [OF b(3)] bo by auto
  have head: "g_bin s f g \<noteq> 0 \<Longrightarrow> g_bin s f g \<in> bin_members s F f g"
    using bin_head_member ok r by blast
  then have nb: "g_bin s f g \<noteq> b" using b by (auto simp: bin_members_def)
  note fields = bin_insert_fields [OF bo nb]
  have "\<exists>xs. dll (lnx (bin_insert b s)) (lpv (bin_insert b s)) (g_bin (bin_insert b s) fl sl) xs \<and>
      set xs = bin_members (bin_insert b s) (insert b F) fl sl" if lt: "fl < FL_N" "sl < SL_N" for fl sl
  proof -
    obtain xs where xs: "dll (lnx s) (lpv s) (g_bin s fl sl) xs" "set xs = bin_members s F fl sl"
      using ok lt bins_okE by blast
    have nin: "b \<notin> set xs" using xs(2) b by (auto simp: bin_members_def)
    show ?thesis
    proof (cases "fl = f \<and> sl = g")
      case True
      have "dll (lnx (bin_insert b s)) (lpv (bin_insert b s)) b (b # xs)"
      proof (rule dll_push [OF xs(1) b(2) nin])
        show "xs \<noteq> [] \<Longrightarrow> lpv (bin_insert b s) (hd xs) = b"
          using dll_head [OF xs(1)] dll_nonzero [OF xs(1)] True nin by (cases xs) (auto simp: fields)
        show "x \<in> set (tl xs) \<Longrightarrow> lpv (bin_insert b s) x = lpv s x" for x
          using dll_head [OF xs(1)] dll_distinct [OF xs(1)] True nin by (cases xs) (auto simp: fields)
      qed (use nin True in \<open>auto simp: fields\<close>)
      moreover have "set (b # xs) = bin_members (bin_insert b s) (insert b F) fl sl"
        using xs(2) bo True by (auto simp: bin_members_def heap_simps)
      ultimately show ?thesis using True by (auto simp: fields)
    next
      case False
      have "g_bin s f g \<notin> set xs \<or> g_bin s f g = 0"
        using head xs(2) False by (cases "g_bin s f g = 0") (auto simp: bin_members_def)
      moreover have "0 \<notin> set xs" using xs(1) by (rule dll_nonzero)
      ultimately have "dll (lnx (bin_insert b s)) (lpv (bin_insert b s)) (g_bin s fl sl) xs"
        using xs(1) nin by (subst dll_cong [of _ _ "lnx s" _ "lpv s"]) (auto simp: fields)
      moreover have "bin_members (bin_insert b s) (insert b F) fl sl = bin_members s F fl sl"
        using bo False by (auto simp: bin_members_def heap_simps)
      ultimately show ?thesis using xs(2) False by (auto simp: fields)
    qed
  qed
  moreover have "bin_maps (bin_insert b s)"
    using ok bin_insert_maps [OF _ bo r nb b(2)] by (simp add: bins_ok_def)
  ultimately show ?thesis using ok b by (auto simp: bins_ok_def bin_lists_def heap_simps)
qed

lemma bin_remove_fields:
  assumes bo: "bin_of (bsz s b) = (f, g)"
  shows "lnx (bin_remove b s) x = (if x = lpv s b \<and> x \<noteq> 0 then lnx s b else lnx s x)"
    and "lpv (bin_remove b s) x = (if x = lnx s b \<and> x \<noteq> 0 then lpv s b else lpv s x)"
    and "g_bin (bin_remove b s) = (if lpv s b = 0 then (g_bin s)(f := (g_bin s f)(g := lnx s b)) else g_bin s)"
  by (auto simp: bin_remove_def bo Let_def set_lnext_def set_lprev_def set_bin_def)

lemma bin_remove_bits:
  assumes bo: "bin_of (bsz s b) = (f, g)"
  shows "g_slmap (bin_remove b s) =
      (if g_bin (bin_remove b s) f g = 0 then (g_slmap s)(f := g_slmap s f AND NOT (push_bit g 1)) else g_slmap s)"
    and "g_flmap (bin_remove b s) =
      (if g_bin (bin_remove b s) f g = 0 \<and> g_slmap (bin_remove b s) f = 0
       then g_flmap s AND NOT (push_bit f 1) else g_flmap s)"
  by (auto simp: bin_remove_def bo Let_def set_lnext_def set_lprev_def set_bin_def)

lemma bin_remove_ok:
  assumes ok: "bins_ok s F" and b: "b \<in> F"
  shows "bins_ok (bin_remove b s) (F - {b})"
proof -
  let ?t = "bin_remove b s"
  obtain f g where bo: "bin_of (bsz s b) = (f, g)" by force
  have "bsz s b < 2 ^ 32" using ok b by (auto simp: bins_ok_def)
  then have r: "f < FL_N" "g < SL_N" using bin_of_range [of "bsz s b"] bo by auto
  note fields = bin_remove_fields [OF bo]
  obtain xs0 where xs0: "dll (lnx s) (lpv s) (g_bin s f g) xs0" "set xs0 = bin_members s F f g"
    using ok r bins_okE by blast
  have "b \<in> set xs0" using xs0(2) b bo by (simp add: bin_members_def)
  then obtain ys zs where dec: "xs0 = ys @ b # zs" by (auto simp: in_set_conv_decomp)
  have lk: "lnx s b = hd0 zs" "lpv s b = last0 ys" using dll_links [of "lnx s" "lpv s" _ ys b zs] xs0(1) dec by auto
  have dist: "distinct (ys @ b # zs)" "0 \<notin> set (ys @ b # zs)"
    using dll_distinct [OF xs0(1)] dll_nonzero [OF xs0(1)] dec by auto
  have "\<exists>xs. dll (lnx ?t) (lpv ?t) (g_bin ?t fl sl) xs \<and> set xs = bin_members ?t (F - {b}) fl sl"
    if lt: "fl < FL_N" "sl < SL_N" for fl sl
  proof (cases "fl = f \<and> sl = g")
    case True
    have "dll (lnx ?t) (lpv ?t) (g_bin ?t f g) (ys @ zs)"
    proof (rule dll_remove [where nx = "lnx s" and pv = "lpv s" and b = b and h = "g_bin s f g"])
      show "dll (lnx s) (lpv s) (g_bin s f g) (ys @ b # zs)" using xs0 dec by simp
      show "g_bin ?t f g = (if ys = [] then lnx s b else g_bin s f g)"
        using lk dist by (cases ys rule: rev_cases) (auto simp: fields last0_def)
      show "ys \<noteq> [] \<Longrightarrow> lnx ?t (last ys) = lnx s b"
        using lk dist by (cases ys rule: rev_cases) (auto simp: fields)
      show "x \<in> set (butlast ys) \<union> set zs \<Longrightarrow> lnx ?t x = lnx s x" for x
        using lk dist by (cases ys rule: rev_cases) (auto simp: fields)
      show "zs \<noteq> [] \<Longrightarrow> lpv ?t (hd zs) = lpv s b"
        using lk dist by (cases zs) (auto simp: fields)
      show "x \<in> set ys \<union> set (tl zs) \<Longrightarrow> lpv ?t x = lpv s x" for x
        using lk dist by (cases zs) (auto simp: fields)
    qed
    moreover have "set (ys @ zs) = bin_members ?t (F - {b}) f g"
      using xs0(2) dec dist by (auto simp: bin_members_def heap_simps)
    ultimately show ?thesis using True by blast
  next
    case False
    obtain xs where xs: "dll (lnx s) (lpv s) (g_bin s fl sl) xs" "set xs = bin_members s F fl sl"
      using ok lt bins_okE by blast
    have disj: "set xs \<inter> set xs0 = {}" using xs(2) xs0(2) False by (auto simp: bin_members_def)
    have "0 \<notin> set xs" using xs(1) by (rule dll_nonzero)
    moreover have "lnx s b = 0 \<or> lnx s b \<in> set xs0" using lk dec by (cases zs) auto
    moreover have "lpv s b = 0 \<or> lpv s b \<in> set xs0" using lk dec by (cases ys rule: rev_cases) auto
    ultimately have "dll (lnx ?t) (lpv ?t) (g_bin s fl sl) xs"
      using xs(1) disj by (subst dll_cong [of _ _ "lnx s" _ "lpv s"]) (auto simp: fields)
    moreover have "bin_members ?t (F - {b}) fl sl = bin_members s F fl sl"
      using bo False by (auto simp: bin_members_def heap_simps)
    ultimately show ?thesis using xs(2) False by (auto simp: fields)
  qed
  moreover have "bin_maps ?t"
  proof -
    have m: "bin_maps s" using ok by (simp add: bins_ok_def)
    have gb: "g_bin ?t fl sl = (if fl = f \<and> sl = g \<and> ys = [] then hd0 zs else g_bin s fl sl)" for fl sl
      using lk dist by (cases ys rule: rev_cases) (auto simp: fields)
    have "g_bin s f g \<noteq> 0" using dll_head [OF xs0(1)] dec dist by (cases ys) auto
    with m r have "bit (g_slmap s f) g" by (simp add: bin_maps_def)
    with m r show ?thesis
      by (auto simp: bin_maps_def bin_remove_bits [OF bo] gb kheap_consts map_bits split: if_splits)
  qed
  ultimately show ?thesis using ok by (auto simp: bins_ok_def bin_lists_def heap_simps)
qed


section \<open>Taking a block\<close>

lemma bin_scan_Some:
  assumes ok: "bins_ok s F" and r: "fl < FL_N" "sl < SL_N" and scan: "bin_scan fl sl s = Some (f, g)"
  shows "f < FL_N" and "g < SL_N" and "g_bin s f g \<noteq> 0" and "bin_le (fl, sl) (f, g)"
proof -
  have m: "\<And>fl sl. fl < FL_N \<Longrightarrow> bit (g_slmap s fl) sl \<longleftrightarrow> sl < SL_N \<and> g_bin s fl sl \<noteq> 0"
    "\<And>fl. bit (g_flmap s) fl \<longleftrightarrow> fl < FL_N \<and> g_slmap s fl \<noteq> 0"
    using ok by (auto simp: bins_ok_def bin_maps_def)
  define slm where "slm = g_slmap s fl AND push_bit sl (NOT 0)"
  have slm: "bit slm k \<longleftrightarrow> bit (g_slmap s fl) k \<and> sl \<le> k" for k
    by (auto simp: slm_def bit_simps dest: bit_imp_le_length)
  have "f < FL_N \<and> g < SL_N \<and> g_bin s f g \<noteq> 0 \<and> bin_le (fl, sl) (f, g)"
  proof (cases "slm = 0")
    case False
    then have "f = fl" "g = ctz32 slm" using scan by (auto simp: bin_scan_def slm_def Let_def)
    moreover have "bit slm (ctz32 slm)" using False ctz32_bit by blast
    ultimately show ?thesis using slm m(1) r by (auto simp: bin_le_def)
  next
    case True
    define flm where "flm = g_flmap s AND push_bit (fl + 1) (NOT 0)"
    have flm: "bit flm k \<longleftrightarrow> bit (g_flmap s) k \<and> fl < k" for k
      by (auto simp: flm_def bit_simps dest: bit_imp_le_length)
    have nz: "flm \<noteq> 0" "f = ctz32 flm" "g = ctz32 (g_slmap s f)"
      using scan True r by (auto simp: bin_scan_def slm_def flm_def Let_def kheap_consts split: if_splits)
    then have f: "bit (g_flmap s) f" "fl < f" using ctz32_bit flm by auto
    then have "f < FL_N" "g_slmap s f \<noteq> 0" using m(2) by auto
    moreover from this have "bit (g_slmap s f) g" using ctz32_bit nz by auto
    ultimately show ?thesis using f m(1) by (auto simp: bin_le_def)
  qed
  then show "f < FL_N" and "g < SL_N" and "g_bin s f g \<noteq> 0" and "bin_le (fl, sl) (f, g)" by auto
qed

lemma bin_scan_None:
  assumes ok: "bins_ok s F" and r: "fl < FL_N" "sl < SL_N" and scan: "bin_scan fl sl s = None"
    and f: "f < FL_N" "g < SL_N" and le: "bin_le (fl, sl) (f, g)"
  shows "g_bin s f g = 0"
proof (rule ccontr)
  assume nz: "g_bin s f g \<noteq> 0"
  have m: "\<And>fl sl. fl < FL_N \<Longrightarrow> bit (g_slmap s fl) sl \<longleftrightarrow> sl < SL_N \<and> g_bin s fl sl \<noteq> 0"
    "\<And>fl. bit (g_flmap s) fl \<longleftrightarrow> fl < FL_N \<and> g_slmap s fl \<noteq> 0"
    using ok by (auto simp: bins_ok_def bin_maps_def)
  have bit: "bit (g_slmap s f) g" using m(1) f nz by simp
  have slz: "g_slmap s fl AND push_bit sl (NOT 0) = 0"
    and flz: "g_flmap s AND push_bit (fl + 1) (NOT 0) = 0"
    using scan r by (auto simp: bin_scan_def Let_def kheap_consts split: if_splits)
  show False
  proof (cases "f = fl")
    case True
    then have "bit (g_slmap s fl AND push_bit sl (NOT 0)) g"
      using bit le f by (auto simp: bit_simps bin_le_def kheap_consts)
    with slz show False by simp
  next
    case False
    then have "fl < f" using le by (simp add: bin_le_def)
    moreover have "bit (g_flmap s) f" using m(2) f bit by (auto simp: word_zero_bit)
    ultimately have "bit (g_flmap s AND push_bit (fl + 1) (NOT 0)) f"
      using f by (auto simp: bit_simps kheap_consts)
    with flz show False by simp
  qed
qed

text \<open>What \<open>bin_take\<close> gives is a binned block that is big enough, now out of its bin.\<close>

lemma bin_take_Some:
  assumes ok: "bins_ok s F" and need: "need < 2 ^ 32" "16 dvd need"
    and take: "bin_take need s = (b, t)" and b: "b \<noteq> 0"
  shows "b \<in> F" and "need \<le> bsz s b" and "t = bin_remove b s"
proof -
  obtain want where want: "bin_want need = Some want"
    using take b by (auto simp: bin_take_def split: option.splits)
  obtain fl sl where bo: "bin_of want = (fl, sl)" by force
  note enough = bin_want_enough [OF want need]
  then have r: "fl < FL_N" "sl < SL_N" using bin_of_range [of want] bo by auto
  obtain f g where scan: "bin_scan fl sl s = Some (f, g)" and bt: "b = g_bin s f g" "t = bin_remove b s"
    using take b want bo by (auto simp: bin_take_def Let_def split: option.splits if_splits)
  note sc = bin_scan_Some [OF ok r scan]
  then have mem: "b \<in> bin_members s F f g" using bin_head_member [OF ok] bt by simp
  then show "b \<in> F" by (simp add: bin_members_def)
  have "need \<le> bin_lo fl sl" using enough(3) bo by simp
  also have "\<dots> \<le> bin_lo f g" using bin_lo_mono [OF sc(4)] r by (simp add: kheap_consts)
  also have "\<dots> \<le> bsz s b"
  proof -
    have "bsz s b < 2 ^ 32" using ok \<open>b \<in> F\<close> by (auto simp: bins_ok_def)
    from bin_lo_le [OF this] show ?thesis using mem by (simp add: bin_members_def)
  qed
  finally show "need \<le> bsz s b" .
  show "t = bin_remove b s" by (rule bt)
qed

text \<open>It gives up only when every binned block is smaller than the request rounded up.\<close>

lemma bin_take_None:
  assumes ok: "bins_ok s F" and need: "need < 2 ^ 32" "16 dvd need" and take: "bin_take need s = (0, t)"
  shows "t = s" and "bin_want need = Some want \<Longrightarrow> x \<in> F \<Longrightarrow> bsz s x < want"
proof -
  have scan: "bin_scan (fst (bin_of w)) (snd (bin_of w)) s = None" if w: "bin_want need = Some w" for w
  proof (rule ccontr)
    assume "bin_scan (fst (bin_of w)) (snd (bin_of w)) s \<noteq> None"
    then obtain f g where sc: "bin_scan (fst (bin_of w)) (snd (bin_of w)) s = Some (f, g)" by auto
    have r: "fst (bin_of w) < FL_N" "snd (bin_of w) < SL_N"
      using bin_of_range [of w] bin_want_enough [OF w need] by auto
    from sc take w r have "g_bin s f g = 0"
      by (auto simp: bin_take_def Let_def case_prod_beta split: option.splits if_splits)
    with bin_scan_Some [OF ok r sc] show False by simp
  qed
  show "t = s"
    using take scan by (auto simp: bin_take_def Let_def case_prod_beta split: option.splits if_splits)
  assume w: "bin_want need = Some want" and x: "x \<in> F"
  show "bsz s x < want"
  proof (rule ccontr)
    assume "\<not> bsz s x < want"
    then have ge: "want \<le> bsz s x" by simp
    have lt: "bsz s x < 2 ^ 32" using ok x by (auto simp: bins_ok_def)
    obtain f g where bo: "bin_of (bsz s x) = (f, g)" by force
    have fg: "f < FL_N" "g < SL_N" using bin_of_range [OF lt] bo by auto
    have r: "fst (bin_of want) < FL_N" "snd (bin_of want) < SL_N"
      using bin_of_range [of want] bin_want_enough [OF w need] by auto
    have "bin_le (fst (bin_of want), snd (bin_of want)) (f, g)" using bin_of_mono [OF ge lt] bo by simp
    from bin_scan_None [OF ok r scan [OF w] fg this] have "g_bin s f g = 0" .
    moreover obtain xs where "dll (lnx s) (lpv s) (g_bin s f g) xs" "set xs = bin_members s F f g"
      using bins_okE [OF ok fg] by blast
    moreover have "x \<in> bin_members s F f g" using x bo by (simp add: bin_members_def)
    ultimately show False using dll_head dll_nonzero by (cases xs) fastforce+
  qed
qed

end
