(* ===== verification/Kheap_Blocks.thy ===== *)
theory Kheap_Blocks
  imports Kheap_Bins
begin

text \<open>
  The list of blocks: what makes it well formed (\<open>list_ok\<close>), that cutting a block in two and joining
  two neighbours keep it so, and with the bins the whole invariant of the heap (\<open>heap_ok\<close>). Between
  taking a block and handing it out the block is in no bin (\<open>in_flight\<close>).
\<close>

section \<open>Well-formed block lists\<close>

abbreviation bnx :: "kheap \<Rightarrow> nat \<Rightarrow> nat" where "bnx s \<equiv> (\<lambda>x. bnext (blk s x))"
abbreviation bpv :: "kheap \<Rightarrow> nat \<Rightarrow> nat" where "bpv s \<equiv> (\<lambda>x. bprev (blk s x))"
abbreviation bus :: "kheap \<Rightarrow> nat \<Rightarrow> nat" where "bus s \<equiv> (\<lambda>x. bused (blk s x))"

definition blk_end :: "kheap \<Rightarrow> nat \<Rightarrow> nat" where
  "blk_end s x = x + HDR + bsz s x"

text \<open>
  The block after a block starts where it ends, or is the marker at the start of a region added
  later (\<open>kheap_add_region\<close>): a used block of no size.
\<close>

definition follows :: "kheap \<Rightarrow> nat \<Rightarrow> nat \<Rightarrow> bool" where
  "follows s x y \<longleftrightarrow> y = blk_end s x \<or> (bus s y = HEAP_MAGIC \<and> bsz s y = 0)"

definition block_ok :: "kheap \<Rightarrow> nat \<Rightarrow> bool" where
  "block_ok s x \<longleftrightarrow> (bus s x = 0 \<or> bus s x = HEAP_MAGIC) \<and> 16 dvd x \<and> 16 dvd bsz s x \<and>
     blk_end s x \<le> HEAP_MAX_ADDR \<and> (bus s x = 0 \<longrightarrow> 16 \<le> bsz s x)"

definition apart :: "kheap \<Rightarrow> nat \<Rightarrow> nat \<Rightarrow> bool" where
  "apart s x y \<longleftrightarrow> blk_end s x \<le> y \<or> blk_end s y \<le> x"

definition list_ok :: "kheap \<Rightarrow> nat list \<Rightarrow> bool" where
  "list_ok s bs \<longleftrightarrow> dll (bnx s) (bpv s) (g_head s) bs \<and> (\<forall>x\<in>set bs. block_ok s x) \<and>
     successively (follows s) bs \<and> (\<forall>x\<in>set bs. \<forall>y\<in>set bs. x \<noteq> y \<longrightarrow> apart s x y)"

lemma HEAP_MAGIC_nonzero [simp]: "HEAP_MAGIC \<noteq> 0" "0 < HEAP_MAGIC"
  by (simp_all add: HEAP_MAGIC_def)

lemma HDR_pos [simp]: "0 < HDR" "16 dvd HDR"
  by (simp_all add: HDR_def)

lemma successively_mid:
  "successively P (ys @ b # zs) \<longleftrightarrow>
     successively P ys \<and> (ys \<noteq> [] \<longrightarrow> P (last ys) b) \<and> (zs \<noteq> [] \<longrightarrow> P b (hd zs)) \<and> successively P zs"
  by (auto simp: successively_append_iff successively_Cons)

lemma apart_sym: "apart s x y = apart s y x"
  by (auto simp: apart_def)

lemma list_okD:
  assumes "list_ok s bs"
  shows "dll (bnx s) (bpv s) (g_head s) bs" and "x \<in> set bs \<Longrightarrow> block_ok s x"
    and "successively (follows s) bs" and "x \<in> set bs \<Longrightarrow> y \<in> set bs \<Longrightarrow> x \<noteq> y \<Longrightarrow> apart s x y"
    and "distinct bs" and "0 \<notin> set bs"
proof -
  show d: "dll (bnx s) (bpv s) (g_head s) bs" using assms by (simp add: list_ok_def)
  show "x \<in> set bs \<Longrightarrow> block_ok s x" using assms by (simp add: list_ok_def)
  show "successively (follows s) bs" using assms by (simp add: list_ok_def)
  show "x \<in> set bs \<Longrightarrow> y \<in> set bs \<Longrightarrow> x \<noteq> y \<Longrightarrow> apart s x y" using assms by (simp add: list_ok_def)
  show "distinct bs" using d by (rule dll_distinct)
  show "0 \<notin> set bs" using d by (rule dll_nonzero)
qed

text \<open>A list stays well formed as far as sizes and marks are the same.\<close>

lemma follows_cong: "bsz t x = bsz s x \<Longrightarrow> bsz t y = bsz s y \<Longrightarrow> bus t y = bus s y \<Longrightarrow> follows t x y = follows s x y"
  by (simp add: follows_def blk_end_def)

lemma successively_follows_cong:
  assumes "successively (follows s) xs" and "\<And>x. x \<in> set xs \<Longrightarrow> bsz t x = bsz s x \<and> bus t x = bus s x"
  shows "successively (follows t) xs"
  using assms(1) by (rule successively_mono) (use assms(2) in \<open>simp add: follows_def blk_end_def\<close>)

lemma block_ok_cong: "bsz t x = bsz s x \<Longrightarrow> bus t x = bus s x \<Longrightarrow> block_ok t x = block_ok s x"
  by (simp add: block_ok_def blk_end_def)

text \<open>Two neighbours become one block.\<close>

lemma list_ok_fuse:
  assumes ok: "list_ok s (ys @ b # n # zs)" and next_to: "n = blk_end s b" and pos: "0 < bsz s b"
    and sz: "bsz t b = bsz s b + HDR + bsz s n" "\<And>x. x \<in> set (ys @ zs) \<Longrightarrow> bsz t x = bsz s x"
    and us: "\<And>x. x \<in> set (ys @ b # zs) \<Longrightarrow> bus t x = bus s x"
    and nx: "bnx t b = bnx s n" "\<And>x. x \<in> set (ys @ zs) \<Longrightarrow> bnx t x = bnx s x"
    and pv: "zs \<noteq> [] \<Longrightarrow> bpv t (hd zs) = b" "\<And>x. x \<in> set (ys @ b # tl zs) \<Longrightarrow> bpv t x = bpv s x"
    and hd: "g_head t = g_head s"
  shows "list_ok t (ys @ b # zs)"
proof -
  note L = list_okD [OF ok]
  have d: "dll (bnx s) (bpv s) (g_head s) ((ys @ [b]) @ n # zs)" using L(1) by simp
  have dist: "distinct (ys @ b # n # zs)" by (rule L(5))
  have pvn: "bpv s n = b" using dll_links(2) [OF d] by simp
  have D: "dll (bnx t) (bpv t) (g_head t) (ys @ b # zs)"
    using dll_remove [OF d, of "g_head t" "bnx t" "bpv t"] nx pv hd pvn by auto
  have endb: "blk_end t b = blk_end s n" using sz next_to by (simp add: blk_end_def)
  have ends: "\<And>x. x \<in> set (ys @ zs) \<Longrightarrow> blk_end t x = blk_end s x" using sz by (simp add: blk_end_def)
  have B: "block_ok t x" if x: "x \<in> set (ys @ b # zs)" for x
  proof (cases "x = b")
    case True
    then show ?thesis using L(2) [of b] L(2) [of n] endb sz(1) us [of b] by (auto simp: block_ok_def)
  next
    case False
    then show ?thesis using x L(2) [of x] us [of x] sz(2) [of x] by (subst block_ok_cong [of _ _ s]) auto
  qed
  have F: "successively (follows t) (ys @ b # zs)"
  proof -
    have S: "successively (follows s) ys" "ys \<noteq> [] \<Longrightarrow> follows s (last ys) b"
      "zs \<noteq> [] \<Longrightarrow> follows s n (hd zs)" "successively (follows s) zs"
      using L(3) by (auto simp: successively_mid [of _ ys] successively_Cons)
    have "ys \<noteq> [] \<Longrightarrow> follows t (last ys) b" using S(2) pos ends [of "last ys"] by (simp add: follows_def)
    moreover have "zs \<noteq> [] \<Longrightarrow> follows t b (hd zs)"
      using S(3) endb us [of "hd zs"] sz(2) [of "hd zs"] by (simp add: follows_def)
    moreover have "successively (follows t) ys"
      using successively_follows_cong [OF S(1)] sz us by simp
    moreover have "successively (follows t) zs"
      using successively_follows_cong [OF S(4)] sz us by simp
    ultimately show ?thesis by (simp add: successively_mid)
  qed
  have bx: "apart t b x" if x: "x \<in> set (ys @ zs)" for x
  proof -
    have "x \<noteq> b" "x \<noteq> n" using x dist by auto
    then have "apart s b x" "apart s n x" using L(4) [of b x] L(4) [of n x] x by auto
    moreover have "x < blk_end s x" by (simp add: blk_end_def HDR_def)
    ultimately show ?thesis using endb ends [OF x] next_to by (auto simp: apart_def)
  qed
  have "apart t x y" if "x \<in> set (ys @ b # zs)" "y \<in> set (ys @ b # zs)" "x \<noteq> y" for x y
  proof -
    consider "x = b" | "y = b" | "x \<noteq> b" "y \<noteq> b" by blast
    then show ?thesis
    proof cases
      case 1
      then show ?thesis using bx [of y] that by auto
    next
      case 2
      then show ?thesis using bx [of x] that by (auto simp: apart_sym [of t x])
    next
      case 3
      then have "x \<in> set (ys @ zs)" "y \<in> set (ys @ zs)" using that by auto
      then show ?thesis using L(4) [of x y] that(3) ends by (auto simp: apart_def)
    qed
  qed
  with D B F show ?thesis unfolding list_ok_def by blast
qed

text \<open>A block is cut in two, the second part free.\<close>

lemma list_ok_carve:
  assumes ok: "list_ok s (ys @ b # zs)" and n: "n = b + HDR + k" and k: "16 dvd k" "0 < k" "k + HDR + 16 \<le> bsz s b"
    and sz: "bsz t b = k" "bsz t n = bsz s b - k - HDR" "\<And>x. x \<in> set (ys @ zs) \<Longrightarrow> bsz t x = bsz s x"
    and us: "bus t n = 0" "\<And>x. x \<in> set (ys @ b # zs) \<Longrightarrow> bus t x = bus s x"
    and nx: "bnx t b = n" "bnx t n = bnx s b" "\<And>x. x \<in> set (ys @ zs) \<Longrightarrow> bnx t x = bnx s x"
    and pv: "bpv t n = b" "zs \<noteq> [] \<Longrightarrow> bpv t (hd zs) = n" "\<And>x. x \<in> set (ys @ b # tl zs) \<Longrightarrow> bpv t x = bpv s x"
    and hd: "g_head t = g_head s"
  shows "list_ok t (ys @ b # n # zs)" and "n \<notin> set (ys @ b # zs)"
proof -
  note L = list_okD [OF ok]
  have nlt: "b < n" "n < blk_end s b" "blk_end t n = blk_end s b" "blk_end t b = n"
    using n k sz by (auto simp: blk_end_def HDR_def)
  show fresh: "n \<notin> set (ys @ b # zs)"
  proof
    assume "n \<in> set (ys @ b # zs)"
    then have "apart s b n" using L(4) [of b n] nlt by auto
    then show False using nlt by (auto simp: apart_def blk_end_def HDR_def)
  qed
  have D: "dll (bnx t) (bpv t) (g_head t) (ys @ b # n # zs)"
    using dll_insert_after [OF L(1), of n "bnx t" "bpv t"] fresh nlt nx pv hd by auto
  have ends: "\<And>x. x \<in> set (ys @ zs) \<Longrightarrow> blk_end t x = blk_end s x" using sz by (simp add: blk_end_def)
  have bok: "block_ok s b" using L(2) by simp
  have B: "block_ok t x" if x: "x \<in> set (ys @ b # n # zs)" for x
  proof -
    consider "x = b" | "x = n" | "x \<in> set (ys @ zs)" using x by auto
    then show ?thesis
    proof cases
      case 1
      then show ?thesis using bok us(2) [of b] sz(1) k nlt by (auto simp: block_ok_def blk_end_def dvd_imp_le)
    next
      case 2
      have "16 dvd bsz s b - k - HDR" using bok k by (auto simp: block_ok_def intro: dvd_diff_nat)
      moreover have "16 dvd n" using bok k n by (auto simp: block_ok_def)
      ultimately show ?thesis using 2 bok us(1) sz(2) nlt k by (auto simp: block_ok_def)
    next
      case 3
      then show ?thesis using L(2) [of x] us(2) [of x] sz(3) [of x] by (subst block_ok_cong [of _ _ s]) auto
    qed
  qed
  have F: "successively (follows t) (ys @ b # n # zs)"
  proof -
    have S: "successively (follows s) ys" "ys \<noteq> [] \<Longrightarrow> follows s (last ys) b"
      "zs \<noteq> [] \<Longrightarrow> follows s b (hd zs)" "successively (follows s) zs"
      using L(3) by (auto simp: successively_mid [of _ ys])
    have "ys \<noteq> [] \<Longrightarrow> follows t (last ys) b"
      using S(2) k ends [of "last ys"] by (simp add: follows_def)
    moreover have "zs \<noteq> [] \<Longrightarrow> follows t n (hd zs)"
      using S(3) nlt us(2) [of "hd zs"] sz(3) [of "hd zs"] by (simp add: follows_def)
    moreover have "follows t b n" using nlt by (simp add: follows_def)
    moreover have "successively (follows t) ys" using successively_follows_cong [OF S(1)] sz(3) us(2) by simp
    moreover have "successively (follows t) zs" using successively_follows_cong [OF S(4)] sz(3) us(2) by simp
    ultimately show ?thesis by (auto simp: successively_mid successively_Cons)
  qed
  have bx: "apart t b x \<and> apart t n x" if x: "x \<in> set (ys @ zs)" for x
  proof -
    have "x \<noteq> b" using x L(5) by auto
    then have "apart s b x" using L(4) [of b x] x by auto
    then show ?thesis using nlt ends [OF x] by (auto simp: apart_def)
  qed
  have bn: "apart t b n" using nlt by (simp add: apart_def)
  have "apart t x y" if xy: "x \<in> set (ys @ b # n # zs)" "y \<in> set (ys @ b # n # zs)" "x \<noteq> y" for x y
  proof -
    have cases: "z = b \<or> z = n \<or> z \<in> set (ys @ zs)" if "z \<in> set (ys @ b # n # zs)" for z using that by auto
    have old: "apart t x y" if "x \<in> set (ys @ zs)" "y \<in> set (ys @ zs)"
      using that L(4) [of x y] xy(3) ends by (auto simp: apart_def)
    show ?thesis using cases [OF xy(1)] cases [OF xy(2)] xy(3) bx bn old by (metis apart_sym)
  qed
  with D B F show "list_ok t (ys @ b # n # zs)" unfolding list_ok_def by blast
qed

text \<open>A mark changes.\<close>

lemma list_ok_mark:
  assumes ok: "list_ok s bs" and sz: "\<And>x. x \<in> set bs \<Longrightarrow> bsz t x = bsz s x"
    and lk: "\<And>x. x \<in> set bs \<Longrightarrow> bnx t x = bnx s x \<and> bpv t x = bpv s x" "g_head t = g_head s"
    and us: "\<And>x. x \<in> set bs \<Longrightarrow> x \<noteq> b \<Longrightarrow> bus t x = bus s x"
    and b: "bus t b = 0 \<or> bus t b = HEAP_MAGIC" "0 < bsz s b" "b \<in> set bs"
  shows "list_ok t bs"
proof -
  note L = list_okD [OF ok]
  have "dll (bnx t) (bpv t) (g_head t) bs"
    using L(1) lk by (subst dll_cong [of _ _ "bnx s" _ "bpv s"]) auto
  moreover have "block_ok t x" if "x \<in> set bs" for x
  proof (cases "x = b")
    case True
    have "16 \<le> bsz s b" using L(2) [OF b(3)] b(2) by (auto simp: block_ok_def dvd_imp_le)
    then show ?thesis using True L(2) [OF that] sz [OF that] b by (auto simp: block_ok_def blk_end_def)
  next
    case False
    then show ?thesis using L(2) [OF that] sz [OF that] us [OF that] by (subst block_ok_cong [of _ _ s]) auto
  qed
  moreover have "successively (follows t) bs"
  proof (rule successively_mono [OF L(3)])
    fix x y assume xy: "x \<in> set bs" "y \<in> set bs" "follows s x y"
    then show "follows t x y"
      using sz [of x] sz [of y] us [of y] b by (cases "y = b") (auto simp: follows_def blk_end_def)
  qed
  moreover have "apart t x y" if "x \<in> set bs" "y \<in> set bs" "x \<noteq> y" for x y
    using L(4) [OF that] sz that by (simp add: apart_def blk_end_def)
  ultimately show ?thesis unfolding list_ok_def by blast
qed

end
