(* ===== verification/Kheap.thy ===== *)
theory Kheap
  imports Kheap_Blocks
begin

text \<open>
  The heap's operations and its invariant \<open>heap_ok\<close>: allocating, freeing and resizing keep the block
  list, the bins and the bitmaps together, hand out blocks that overlap nothing else, and leave every
  other allocated block alone.
\<close>

section \<open>The invariant\<close>

definition free_set :: "kheap \<Rightarrow> nat list \<Rightarrow> nat set" where
  "free_set s bs = {x \<in> set bs. bus s x = 0}"

definition used_set :: "kheap \<Rightarrow> nat list \<Rightarrow> nat set" where
  "used_set s bs = {x \<in> set bs. bus s x \<noteq> 0}"

text \<open>No two free blocks side by side, but for the blocks of \<open>X\<close>, which are being worked on.\<close>

definition no_meet :: "kheap \<Rightarrow> nat set \<Rightarrow> nat list \<Rightarrow> bool" where
  "no_meet s X bs = successively (\<lambda>x y. x \<in> X \<or> y \<in> X \<or> bus s x \<noteq> 0 \<or> bus s y \<noteq> 0) bs"

definition in_flight :: "kheap \<Rightarrow> nat list \<Rightarrow> nat set \<Rightarrow> bool" where
  "in_flight s bs X \<longleftrightarrow> list_ok s bs \<and> X \<subseteq> set bs \<and> bins_ok s (free_set s bs - X) \<and> no_meet s X bs"

definition heap_ok :: "kheap \<Rightarrow> nat list \<Rightarrow> bool" where
  "heap_ok s bs \<longleftrightarrow> in_flight s bs {} \<and> bs \<noteq> [] \<and> g_used s = wrap32 (sum (bsz s) (used_set s bs))"

text \<open>Every allocated block but \<open>b\<close> is as it was.\<close>

definition same_others :: "nat \<Rightarrow> kheap \<Rightarrow> nat list \<Rightarrow> kheap \<Rightarrow> nat list \<Rightarrow> bool" where
  "same_others b s bs t bs' \<longleftrightarrow>
     (\<forall>x. x \<noteq> b \<longrightarrow> (x \<in> used_set s bs \<longleftrightarrow> x \<in> used_set t bs') \<and> (x \<in> used_set s bs \<longrightarrow> bsz t x = bsz s x))"

text \<open>The fields block operations leave alone.\<close>

definition same_rest :: "kheap \<Rightarrow> kheap \<Rightarrow> bool" where
  "same_rest s t \<longleftrightarrow> g_used t = g_used s \<and> g_total t = g_total s \<and> mem t = mem s \<and> g_reclaiming t = g_reclaiming s"

lemma same_others_trans: "same_others b s bs t bs' \<Longrightarrow> same_others b t bs' u bs'' \<Longrightarrow> same_others b s bs u bs''"
  by (auto simp: same_others_def)

lemma same_rest_trans: "same_rest s t \<Longrightarrow> same_rest t u \<Longrightarrow> same_rest s u"
  by (simp add: same_rest_def)

lemma no_meet_mid:
  "no_meet s X (ys @ b # zs) \<longleftrightarrow> no_meet s X ys \<and> no_meet s X zs \<and>
     (ys \<noteq> [] \<longrightarrow> last ys \<in> X \<or> b \<in> X \<or> bus s (last ys) \<noteq> 0 \<or> bus s b \<noteq> 0) \<and>
     (zs \<noteq> [] \<longrightarrow> b \<in> X \<or> hd zs \<in> X \<or> bus s b \<noteq> 0 \<or> bus s (hd zs) \<noteq> 0)"
  by (auto simp: no_meet_def successively_mid)

lemma no_meet_Nil [simp]: "no_meet s X []"
  by (simp add: no_meet_def)

lemma no_meet_cong:
  assumes "no_meet s X xs" and "\<And>x. x \<in> set xs \<Longrightarrow> x \<notin> Y \<Longrightarrow> bus t x = bus s x" and "X \<inter> set xs \<subseteq> Y"
  shows "no_meet t Y xs"
  using assms(1) unfolding no_meet_def by (rule successively_mono) (use assms(2,3) in auto)

lemma in_flightD:
  assumes "in_flight s bs X"
  shows "list_ok s bs" and "X \<subseteq> set bs" and "bins_ok s (free_set s bs - X)" and "no_meet s X bs"
  using assms by (auto simp: in_flight_def)

lemma list_ok_same: "list_ok s bs \<Longrightarrow> blk t = blk s \<Longrightarrow> g_head t = g_head s \<Longrightarrow> list_ok t bs"
  by (simp add: list_ok_def block_ok_def follows_def apart_def blk_end_def)


section \<open>Blocks in and out of their bins\<close>

text \<open>A free block leaves its bin, or enters it once its neighbours are known to be in use.\<close>

lemma bin_remove_flight:
  assumes fl: "in_flight s bs X" and b: "b \<in> free_set s bs - X"
  shows "in_flight (bin_remove b s) bs (insert b X)"
proof -
  note F = in_flightD [OF fl]
  have "free_set (bin_remove b s) bs - insert b X = free_set s bs - X - {b}"
    by (auto simp: free_set_def heap_simps)
  moreover have "no_meet (bin_remove b s) (insert b X) bs"
    using F(4) by (rule no_meet_cong) (auto simp: heap_simps)
  moreover have "list_ok (bin_remove b s) bs" by (rule list_ok_same [OF F(1)]) (simp_all add: heap_simps)
  ultimately show ?thesis
    using bin_remove_ok [OF F(3) b] F(2) b by (auto simp: in_flight_def free_set_def)
qed

lemma bin_insert_flight:
  assumes fl: "in_flight s (ys @ b # zs) (insert b X)" and b: "b \<notin> X" "bus s b = 0"
    and before: "ys = [] \<or> last ys \<in> X \<or> bus s (last ys) \<noteq> 0" and after: "zs = [] \<or> hd zs \<in> X \<or> bus s (hd zs) \<noteq> 0"
  shows "in_flight (bin_insert b s) (ys @ b # zs) X"
proof -
  let ?bs = "ys @ b # zs"
  note F = in_flightD [OF fl] and L = list_okD [OF in_flightD(1) [OF fl]]
  have "blk_end s b \<le> HEAP_MAX_ADDR" "b \<noteq> 0" using L(2) [of b] L(6) by (auto simp: block_ok_def)
  then have "bins_ok (bin_insert b s) (insert b (free_set s ?bs - insert b X))"
    by (intro bin_insert_ok [OF F(3)]) (auto simp: blk_end_def HEAP_MAX_ADDR_def)
  moreover have "insert b (free_set s ?bs - insert b X) = free_set (bin_insert b s) ?bs - X"
    using b by (auto simp: free_set_def heap_simps)
  moreover have "no_meet (bin_insert b s) X ?bs"
  proof -
    have "b \<notin> set ys" "b \<notin> set zs" using L(5) by auto
    moreover have "no_meet s (insert b X) ys" "no_meet s (insert b X) zs"
      using F(4) by (auto simp: no_meet_mid)
    ultimately have "no_meet s X ys" "no_meet s X zs" by (auto elim!: no_meet_cong)
    then have "no_meet s X ?bs" using before after by (auto simp: no_meet_mid)
    then show ?thesis by (rule no_meet_cong) (auto simp: heap_simps)
  qed
  moreover have "list_ok (bin_insert b s) ?bs" by (rule list_ok_same [OF F(1)]) (simp_all add: heap_simps)
  ultimately show ?thesis using F(2) by (simp add: in_flight_def)
qed


section \<open>Joining a block with the free one after it\<close>

lemma setter_blk [heap_simps]:
  "blk (set_size b v s) = (blk s)(b := (blk s b)\<lparr>bsize := v\<rparr>)"
  "blk (set_used b v s) = (blk s)(b := (blk s b)\<lparr>bused := v\<rparr>)"
  "blk (set_prev b v s) = (blk s)(b := (blk s b)\<lparr>bprev := v\<rparr>)"
  "blk (set_next b v s) = (blk s)(b := (blk s b)\<lparr>bnext := v\<rparr>)"
  by (simp_all add: set_size_def set_used_def set_prev_def set_next_def)

lemma setter_frame [heap_simps]:
  "same_rest s (set_size b v s)" "same_rest s (set_used b v s)" "same_rest s (set_prev b v s)"
  "same_rest s (set_next b v s)"
  "g_head (set_size b v s) = g_head s" "g_head (set_used b v s) = g_head s" "g_head (set_prev b v s) = g_head s"
  "g_head (set_next b v s) = g_head s"
  "links (set_size b v s) = links s" "links (set_used b v s) = links s" "links (set_prev b v s) = links s"
  "links (set_next b v s) = links s"
  "g_bin (set_size b v s) = g_bin s" "g_bin (set_used b v s) = g_bin s" "g_bin (set_prev b v s) = g_bin s"
  "g_bin (set_next b v s) = g_bin s"
  "g_flmap (set_size b v s) = g_flmap s" "g_flmap (set_used b v s) = g_flmap s" "g_flmap (set_prev b v s) = g_flmap s"
  "g_flmap (set_next b v s) = g_flmap s"
  "g_slmap (set_size b v s) = g_slmap s" "g_slmap (set_used b v s) = g_slmap s" "g_slmap (set_prev b v s) = g_slmap s"
  "g_slmap (set_next b v s) = g_slmap s"
  by (simp_all add: set_size_def set_used_def set_prev_def set_next_def same_rest_def)

text \<open>A block absorbs the one after it: what \<open>merge_next\<close>, \<open>split_block\<close> and \<open>kfree\<close> have in common.\<close>

definition absorb :: "nat \<Rightarrow> nat \<Rightarrow> kheap \<Rightarrow> kheap" where
  "absorb b n s =
     (let s = set_size b (wrap32 (bsize (blk s b) + HDR + bsize (blk s n))) s;
          s = set_next b (bnext (blk s n)) s
      in if bnext (blk s n) \<noteq> 0 then set_prev (bnext (blk s n)) b s else s)"

lemma absorb_fields:
  assumes "n \<noteq> b"
  shows "bsz (absorb b n s) x = (if x = b then wrap32 (bsz s b + HDR + bsz s n) else bsz s x)"
    and "bus (absorb b n s) x = bus s x"
    and "bnx (absorb b n s) x = (if x = b then bnx s n else bnx s x)"
    and "bpv (absorb b n s) x = (if x = bnx s n \<and> x \<noteq> 0 then b else bpv s x)"
    and "g_head (absorb b n s) = g_head s" "same_rest s (absorb b n s)"
    and "links (absorb b n s) = links s" "g_bin (absorb b n s) = g_bin s"
    and "g_flmap (absorb b n s) = g_flmap s" "g_slmap (absorb b n s) = g_slmap s"
  using assms by (auto simp: absorb_def Let_def heap_simps same_rest_def set_size_def set_next_def set_prev_def)

lemma merge_next_absorb:
  "merge_next b s = (if bnx s b = 0 \<or> bus s (bnx s b) \<noteq> 0 then s else absorb b (bnx s b) (bin_remove (bnx s b) s))"
  by (simp add: merge_next_def absorb_def Let_def)

lemma absorb_list_ok:
  assumes ok: "list_ok s (ys @ b # n # zs)" and next_to: "n = blk_end s b" and pos: "0 < bsz s b"
  shows "list_ok (absorb b n s) (ys @ b # zs)" and "bsz (absorb b n s) b = bsz s b + HDR + bsz s n"
proof -
  note L = list_okD [OF ok]
  have nb: "n \<noteq> b" and dist: "distinct (ys @ b # n # zs)" using L(5) by auto
  have "blk_end s n \<le> HEAP_MAX_ADDR" using L(2) [of n] by (auto simp: block_ok_def)
  then have "bsz s b + HDR + bsz s n < 2 ^ 32" using next_to by (simp add: blk_end_def HDR_def HEAP_MAX_ADDR_def)
  then show sz: "bsz (absorb b n s) b = bsz s b + HDR + bsz s n" by (simp add: absorb_fields [OF nb])
  have nn: "bnx s n = hd0 zs" using dll_links(1) [of "bnx s" "bpv s" _ "ys @ [b]" n zs] L(1) by simp
  show "list_ok (absorb b n s) (ys @ b # zs)"
    by (rule list_ok_fuse [OF ok next_to pos sz])
      (use dist nn L(6) nb in \<open>cases zs; force simp: absorb_fields [OF nb]\<close>)+
qed

lemma absorb_flight:
  assumes fl: "in_flight s (ys @ b # n # zs) X" and X: "b \<in> X" "n \<in> X" and free: "bus s n = 0" and pos: "0 < bsz s b"
  shows "in_flight (absorb b n s) (ys @ b # zs) (X - {n})" and "bsz (absorb b n s) b = bsz s b + HDR + bsz s n"
proof -
  let ?t = "absorb b n s"
  note F = in_flightD [OF fl] and L = list_okD [OF in_flightD(1) [OF fl]]
  have dist: "n \<noteq> b" "n \<notin> set ys" "n \<notin> set zs" using L(5) by auto
  note A = absorb_fields [OF dist(1), of s]
  have "follows s b n" using L(3) by (simp add: successively_mid)
  then have next_to: "n = blk_end s b" using free by (simp add: follows_def)
  show "bsz ?t b = bsz s b + HDR + bsz s n" by (rule absorb_list_ok(2) [OF F(1) next_to pos])
  have list: "list_ok ?t (ys @ b # zs)" by (rule absorb_list_ok(1) [OF F(1) next_to pos])
  have "free_set ?t (ys @ b # zs) - (X - {n}) = free_set s (ys @ b # n # zs) - X"
    using X dist by (auto simp: free_set_def A(2))
  moreover have "bins_ok ?t (free_set s (ys @ b # n # zs) - X)"
    using F(3) by (rule bins_ok_cong) (use X in \<open>auto simp: A\<close>)
  moreover have "no_meet ?t (X - {n}) (ys @ b # zs)"
  proof -
    have "no_meet s X ys" "no_meet s X zs"
      using F(4) by (auto simp: no_meet_mid [of _ _ ys] no_meet_mid [of _ _ "[]" n, simplified])
    then have "no_meet ?t (X - {n}) ys" "no_meet ?t (X - {n}) zs"
      using dist by (auto elim!: no_meet_cong simp: A(2))
    then show ?thesis using X dist by (auto simp: no_meet_mid)
  qed
  ultimately show "in_flight ?t (ys @ b # zs) (X - {n})"
    using list F(2) dist by (auto simp: in_flight_def)
qed

lemma merge_next_ok:
  assumes fl: "in_flight s (ys @ b # zs) X" and b: "b \<in> X" "0 < bsz s b" and nX: "X \<inter> set zs = {}"
  obtains zs' where "in_flight (merge_next b s) (ys @ b # zs') X"
    and "zs' = [] \<or> bus (merge_next b s) (hd zs') \<noteq> 0"
    and "same_others b s (ys @ b # zs) (merge_next b s) (ys @ b # zs')"
    and "same_rest s (merge_next b s)"
    and "bsz (merge_next b s) b = (if zs \<noteq> [] \<and> bus s (hd zs) = 0 then bsz s b + HDR + bsz s (hd zs) else bsz s b)"
    and "\<And>x. bus (merge_next b s) x = bus s x"
    and "\<And>x. x \<noteq> b \<Longrightarrow> bsz (merge_next b s) x = bsz s x"
    and "set zs' \<subseteq> set zs"
proof -
  let ?t = "merge_next b s"
  note F = in_flightD [OF fl] and L = list_okD [OF in_flightD(1) [OF fl]]
  have nxb: "bnx s b = hd0 zs" using dll_links(1) [OF L(1)] .
  show thesis
  proof (cases "zs = [] \<or> bus s (hd zs) \<noteq> 0")
    case True
    then have "?t = s" using nxb by (cases zs) (auto simp: merge_next_absorb)
    then show thesis using that [of zs] fl True by (auto simp: same_others_def same_rest_def)
  next
    case False
    then obtain n zs' where zs: "zs = n # zs'" and free: "bus s n = 0" by (cases zs) auto
    have n0: "n \<notin> X" "n \<noteq> 0" "n \<noteq> b" "n \<notin> set zs'" using nX L(5,6) zs by auto
    define s1 where "s1 = bin_remove n s"
    have t: "?t = absorb b n s1" using nxb zs free n0 by (simp add: merge_next_absorb s1_def)
    have s1: "blk s1 = blk s" "same_rest s s1" by (simp_all add: s1_def heap_simps same_rest_def)
    have fl1: "in_flight s1 (ys @ b # n # zs') (insert n X)"
      unfolding s1_def using bin_remove_flight [OF fl, of n] zs free n0 by (simp add: free_set_def)
    have ab: "in_flight ?t (ys @ b # zs') X" "bsz ?t b = bsz s b + HDR + bsz s n"
      using absorb_flight [OF fl1] b free n0(1) by (simp_all add: s1 t)
    note A = absorb_fields [OF n0(3), of s1, unfolded s1(1), folded t]
    have "zs' \<noteq> [] \<Longrightarrow> bus s (hd zs') \<noteq> 0"
      using F(4) zs free nX by (auto simp: no_meet_mid [of s X "ys @ [b]" n zs', simplified])
    moreover have "same_others b s (ys @ b # zs) ?t (ys @ b # zs')"
      using zs free by (auto simp: same_others_def used_set_def A)
    moreover have "same_rest s ?t" using s1(2) A(6) by (rule same_rest_trans)
    ultimately show thesis using that [of zs'] ab A(1,2) zs free by auto
  qed
qed


text \<open>A block in use needs no bin, and a free one is none of the others.\<close>

lemma in_flight_used: "in_flight s bs {b} \<Longrightarrow> bus s b \<noteq> 0 \<Longrightarrow> in_flight s bs {}"
proof -
  assume fl: "in_flight s bs {b}" and b: "bus s b \<noteq> 0"
  have "free_set s bs - {b} = free_set s bs" using b by (auto simp: free_set_def)
  moreover have "no_meet s {} bs"
    using in_flightD(4) [OF fl] b unfolding no_meet_def by (elim successively_mono) auto
  ultimately show ?thesis using in_flightD(1,3) [OF fl] by (simp add: in_flight_def)
qed

lemma same_others_free:
  assumes "same_others n s bs u bs'" and "bus s n = 0" "bus u n = 0" "blk t = blk u"
  shows "same_others b s bs t bs'"
  unfolding same_others_def
proof (intro allI impI)
  fix x
  show "(x \<in> used_set s bs \<longleftrightarrow> x \<in> used_set t bs') \<and> (x \<in> used_set s bs \<longrightarrow> bsz t x = bsz s x)"
    using assms by (cases "x = n") (auto simp: same_others_def used_set_def)
qed


section \<open>Cutting a block\<close>

text \<open>The part of \<open>split_block\<close> that makes the new block, before it is joined with one after it.\<close>

definition carve :: "nat \<Rightarrow> nat \<Rightarrow> kheap \<Rightarrow> kheap" where
  "carve b k s =
     (let n = b + HDR + k;
          s = set_size n (sub32 (sub32 (bsize (blk s b)) k) HDR) s;
          s = set_used n 0 s;
          s = set_prev n b s;
          s = set_next n (bnext (blk s b)) s;
          s = (if bnext (blk s b) \<noteq> 0 then set_prev (bnext (blk s b)) n s else s);
          s = set_next b n s
      in set_size b k s)"

lemma split_block_carve:
  "split_block b k s = (if bsz s b < wrap32 (k + HDR + MIN_SPLIT) then s
     else bin_insert (b + HDR + k) (merge_next (b + HDR + k) (carve b k s)))"
  by (auto simp: split_block_def carve_def merge_next_def Let_def)

lemma carve_fields:
  assumes "bnx s b \<noteq> b + HDR + k"
  defines "n \<equiv> b + HDR + k"
  shows "bsz (carve b k s) x = (if x = b then k else if x = n then sub32 (sub32 (bsz s b) k) HDR else bsz s x)"
    and "bus (carve b k s) x = (if x = n then 0 else bus s x)"
    and "bnx (carve b k s) x = (if x = b then n else if x = n then bnx s b else bnx s x)"
    and "bpv (carve b k s) x = (if x = n then b else if x = bnx s b \<and> x \<noteq> 0 then n else bpv s x)"
    and "g_head (carve b k s) = g_head s" "same_rest s (carve b k s)"
    and "links (carve b k s) = links s" "g_bin (carve b k s) = g_bin s"
    and "g_flmap (carve b k s) = g_flmap s" "g_slmap (carve b k s) = g_slmap s"
  using assms
  by (auto simp: carve_def Let_def heap_simps same_rest_def set_size_def set_next_def set_prev_def set_used_def HDR_def)

lemma carve_ok:
  assumes fl: "in_flight s (ys @ b # zs) {b}" and k: "16 dvd k" "0 < k" "k + HDR + 16 \<le> bsz s b"
  defines "n \<equiv> b + HDR + k"
  shows "in_flight (carve b k s) (ys @ b # n # zs) {b, n}" and "n \<notin> set (ys @ b # zs)"
    and "same_others b s (ys @ b # zs) (carve b k s) (ys @ b # n # zs)" and "same_rest s (carve b k s)"
    and "bsz (carve b k s) b = k" and "bus (carve b k s) b = bus s b" and "0 < bsz (carve b k s) n"
    and "bus (carve b k s) n = 0"
proof -
  let ?t = "carve b k s"
  have ok: "list_ok s (ys @ b # zs)" and bins: "bins_ok s (free_set s (ys @ b # zs) - {b})"
    and nm: "no_meet s {b} (ys @ b # zs)" using fl by (auto simp: in_flight_def)
  note L = list_okD [OF ok]
  have nxb: "bnx s b = hd0 zs" using dll_links(1) [OF L(1)] .
  have bok: "block_ok s b" using L(2) by simp
  have b32: "bsz s b < 2 ^ 32" using bok by (simp add: block_ok_def blk_end_def HDR_def HEAP_MAX_ADDR_def)
  have in_b: "b < n" "n < blk_end s b" using k by (auto simp: n_def blk_end_def HDR_def MIN_SPLIT_def)
  have fresh: "n \<notin> set (ys @ b # zs)"
  proof
    assume "n \<in> set (ys @ b # zs)"
    then have "apart s b n" using L(4) [of b n] in_b by auto
    then show False using in_b by (auto simp: apart_def blk_end_def HDR_def)
  qed
  then show "n \<notin> set (ys @ b # zs)" .
  have "bnx s b \<noteq> n" using fresh nxb in_b by (cases zs) auto
  note F = carve_fields [OF this [unfolded n_def], folded n_def]
  have szn: "bsz ?t n = bsz s b - k - HDR" using in_b k b32 by (simp add: F sub32_eq)
  have dist: "distinct (ys @ b # zs)" "0 \<notin> set (ys @ b # zs)" by (rule L(5), rule L(6))
  have "list_ok ?t (ys @ b # n # zs)"
  proof (rule list_ok_carve(1) [OF ok n_def [THEN meta_eq_to_obj_eq] k(1,2)])
    show "k + HDR + 16 \<le> bsz s b" using k(3) .
    show "zs \<noteq> [] \<Longrightarrow> bpv ?t (hd zs) = n" using nxb fresh dist by (cases zs) (auto simp: F)
    show "x \<in> set (ys @ b # tl zs) \<Longrightarrow> bpv ?t x = bpv s x" for x
      using nxb fresh dist by (cases zs) (auto simp: F)
  qed (use dist fresh in_b szn in \<open>auto simp: F\<close>)
  moreover have "bins_ok ?t (free_set ?t (ys @ b # n # zs) - {b, n})"
  proof -
    have "free_set ?t (ys @ b # n # zs) - {b, n} = free_set s (ys @ b # zs) - {b}"
      using fresh in_b by (auto simp: free_set_def F)
    moreover have "bins_ok ?t (free_set s (ys @ b # zs) - {b})"
      using bins by (rule bins_ok_cong) (use fresh in \<open>auto simp: F free_set_def\<close>)
    ultimately show ?thesis by simp
  qed
  moreover have "no_meet ?t {b, n} (ys @ b # n # zs)"
  proof -
    have parts: "no_meet s {b} ys" "no_meet s {b} zs" using nm by (auto simp: no_meet_mid)
    have "no_meet ?t {b, n} ys" using parts(1) by (rule no_meet_cong) (use fresh in \<open>auto simp: F\<close>)
    moreover have "no_meet ?t {b, n} zs" using parts(2) by (rule no_meet_cong) (use fresh in \<open>auto simp: F\<close>)
    ultimately show ?thesis by (simp add: no_meet_mid [of _ _ ys] no_meet_mid [of _ _ "[]" n, simplified])
  qed
  ultimately show "in_flight ?t (ys @ b # n # zs) {b, n}" by (simp add: in_flight_def)
  show "same_others b s (ys @ b # zs) ?t (ys @ b # n # zs)"
    using fresh by (auto simp: same_others_def used_set_def F)
  show "same_rest s ?t" "bsz ?t b = k" "bus ?t b = bus s b" "bus ?t n = 0" using in_b by (simp_all add: F)
  show "0 < bsz ?t n" using szn k by simp
qed

lemma split_block_ok:
  assumes fl: "in_flight s (ys @ b # zs) {b}" and k: "16 dvd k" "0 < k" "k \<le> bsz s b"
  obtains zs' where "in_flight (split_block b k s) (ys @ b # zs') {b}"
    and "same_others b s (ys @ b # zs) (split_block b k s) (ys @ b # zs')"
    and "same_rest s (split_block b k s)"
    and "k \<le> bsz (split_block b k s) b" and "bsz (split_block b k s) b \<le> bsz s b"
    and "bus (split_block b k s) b = bus s b"
proof -
  let ?t = "split_block b k s"
  note L = list_okD [OF in_flightD(1) [OF fl]]
  have "blk_end s b \<le> HEAP_MAX_ADDR" using L(2) [of b] by (auto simp: block_ok_def)
  then have k32: "k + HDR + MIN_SPLIT < 2 ^ 32"
    using k(3) by (simp add: blk_end_def HEAP_MAX_ADDR_def HDR_def MIN_SPLIT_def)
  show thesis
  proof (cases "bsz s b < wrap32 (k + HDR + MIN_SPLIT)")
    case True
    then have "?t = s" by (simp add: split_block_carve)
    then show thesis using that [of zs] fl k by (auto simp: same_others_def same_rest_def)
  next
    case False
    define n where "n = b + HDR + k"
    have room: "k + HDR + 16 \<le> bsz s b" using False k32 by (simp add: MIN_SPLIT_def)
    note C = carve_ok [OF fl k(1,2) room, folded n_def]
    let ?c = "carve b k s" and ?m = "merge_next n (carve b k s)"
    have t: "?t = bin_insert n ?m" using False by (simp add: split_block_carve n_def)
    have fl': "in_flight ?c ((ys @ [b]) @ n # zs) {b, n}" using C(1) by simp
    have disj: "{b, n} \<inter> set zs = {}" using C(2) L(5) by auto
    obtain zs' where M: "in_flight ?m ((ys @ [b]) @ n # zs') {b, n}"
      "zs' = [] \<or> bus ?m (hd zs') \<noteq> 0"
      "same_others n ?c ((ys @ [b]) @ n # zs) ?m ((ys @ [b]) @ n # zs')"
      "same_rest ?c ?m" "\<And>x. bus ?m x = bus ?c x" "\<And>x. x \<noteq> n \<Longrightarrow> bsz ?m x = bsz ?c x" "set zs' \<subseteq> set zs"
      by (rule merge_next_ok [OF fl' _ C(7) disj]) auto
    have nb: "n \<noteq> b" using C(2) by auto
    have bt: "blk ?t = blk ?m" by (simp add: t heap_simps)
    have fl2: "in_flight ?t (ys @ b # n # zs') {b}"
      using bin_insert_flight [of ?m "ys @ [b]" n zs' "{b}"] M(1,2) nb C(8) by (auto simp: t insert_commute M(5))
    moreover have "same_others b s (ys @ b # zs) ?t (ys @ b # n # zs')"
      using C(3) by (rule same_others_trans)
        (rule same_others_free [OF M(3) [simplified append.simps append_assoc]], use C(8) in \<open>auto simp: bt M(5)\<close>)
    moreover have "same_rest s ?t"
      using C(4) M(4) by (simp add: t same_rest_def heap_simps)
    moreover have "bsz ?t b = k" using M(6) [of b] C(5) nb by (simp add: bt)
    moreover have "bus ?t b = bus s b" using C(6) by (simp add: bt M(5))
    ultimately show thesis using that [of "n # zs'"] k(3) by auto
  qed
qed


section \<open>Allocating\<close>

lemma finite_used_set [simp]: "finite (used_set s bs)"
  by (simp add: used_set_def)

lemma sum_used_insert:
  assumes "same_others b s bs t bs'" and "b \<notin> used_set s bs" and "b \<in> used_set t bs'"
  shows "sum (bsz t) (used_set t bs') = sum (bsz s) (used_set s bs) + bsz t b"
proof -
  have "used_set t bs' = insert b (used_set s bs)" using assms by (auto simp: same_others_def)
  moreover have "sum (bsz t) (used_set s bs) = sum (bsz s) (used_set s bs)"
    using assms by (intro sum.cong) (auto simp: same_others_def)
  ultimately show ?thesis using assms(2) by simp
qed

text \<open>
  The end of every allocation: the block is cut to size, marked and counted. It keeps at least the
  bytes asked for and at most what it had.
\<close>

lemma hand_out_ok:
  assumes fl: "in_flight s (ys @ b # zs) {b}" and k: "16 dvd k" "0 < k" "k \<le> bsz s b"
    and free: "bus s b = 0" and acc: "g_used s = wrap32 (sum (bsz s) (used_set s (ys @ b # zs)))"
    and out: "hand_out b k s = (p, t)"
  obtains zs' where "p = b + HDR" and "heap_ok t (ys @ b # zs')" and "b \<in> used_set t (ys @ b # zs')"
    and "same_others b s (ys @ b # zs) t (ys @ b # zs')" and "b \<notin> used_set s (ys @ b # zs)"
    and "k \<le> bsz t b" and "bsz t b \<le> bsz s b"
    and "mem t = mem s" "g_total t = g_total s" "g_reclaiming t = g_reclaiming s"
proof -
  let ?u = "split_block b k s"
  obtain zs' where S: "in_flight ?u (ys @ b # zs') {b}"
    "same_others b s (ys @ b # zs) ?u (ys @ b # zs')" "same_rest s ?u"
    "k \<le> bsz ?u b" "bsz ?u b \<le> bsz s b" "bus ?u b = bus s b"
    by (rule split_block_ok [OF fl k]) blast
  have t: "t = (set_used b HEAP_MAGIC ?u)\<lparr>g_used := wrap32 (g_used ?u + bsz ?u b)\<rparr>" and p: "p = b + HDR"
    using out by (auto simp: hand_out_def Let_def heap_simps set_used_def)
  have bs: "\<And>x. bsz t x = bsz ?u x" "\<And>x. bnx t x = bnx ?u x" "\<And>x. bpv t x = bpv ?u x"
    "\<And>x. bus t x = (if x = b then HEAP_MAGIC else bus ?u x)"
    by (auto simp: t heap_simps)
  have fields: "links t = links ?u" "g_bin t = g_bin ?u" "g_flmap t = g_flmap ?u" "g_slmap t = g_slmap ?u"
    "g_head t = g_head ?u" by (simp_all add: t heap_simps)
  have Su: "list_ok ?u (ys @ b # zs')" "bins_ok ?u (free_set ?u (ys @ b # zs') - {b})"
    "no_meet ?u {b} (ys @ b # zs')" using S(1) by (auto simp: in_flight_def)
  have used: "b \<in> used_set t (ys @ b # zs')" by (simp add: used_set_def bs)
  have notin: "b \<notin> used_set s (ys @ b # zs)" using free by (simp add: used_set_def)
  have so: "same_others b s (ys @ b # zs) t (ys @ b # zs')"
    using S(2) by (auto simp: same_others_def used_set_def bs)
  have "list_ok t (ys @ b # zs')"
    by (rule list_ok_mark [OF Su(1), of t b]) (use k S(4) in \<open>auto simp: bs fields\<close>)
  moreover have "bins_ok t (free_set t (ys @ b # zs'))"
  proof -
    have "free_set t (ys @ b # zs') = free_set ?u (ys @ b # zs') - {b}" by (auto simp: free_set_def bs(4) split: if_splits)
    moreover have "bins_ok t (free_set ?u (ys @ b # zs') - {b})"
      using Su(2) by (rule bins_ok_cong) (simp_all add: fields bs(1))
    ultimately show ?thesis by simp
  qed
  moreover have "no_meet t {} (ys @ b # zs')"
  proof -
    have "successively (\<lambda>x y. bus t x \<noteq> 0 \<or> bus t y \<noteq> 0) (ys @ b # zs')"
      using Su(3) unfolding no_meet_def by (rule successively_mono) (auto simp: bs(4))
    then show ?thesis by (simp add: no_meet_def)
  qed
  moreover have "g_used t = wrap32 (sum (bsz t) (used_set t (ys @ b # zs')))"
    using S(3) acc sum_used_insert [OF so notin used] by (simp add: t same_rest_def bs heap_simps)
  ultimately have "heap_ok t (ys @ b # zs')" by (simp add: heap_ok_def in_flight_def)
  moreover have "mem t = mem s" "g_total t = g_total s" "g_reclaiming t = g_reclaiming s"
    using S(3) by (simp_all add: t same_rest_def set_used_def)
  ultimately show thesis using that [of zs'] p used so notin S(4,5) by (simp add: bs)
qed

lemma heap_okD:
  assumes "heap_ok s bs"
  shows "list_ok s bs" and "bins_ok s (free_set s bs)" and "no_meet s {} bs"
    and "g_used s = wrap32 (sum (bsz s) (used_set s bs))" and "bs \<noteq> []"
  using assms by (auto simp: heap_ok_def in_flight_def)

text \<open>What a new allocation of \<open>k\<close> bytes at \<open>p\<close> means, over the allocated blocks.\<close>

definition gave :: "nat \<Rightarrow> nat \<Rightarrow> kheap \<Rightarrow> nat list \<Rightarrow> kheap \<Rightarrow> nat list \<Rightarrow> bool" where
  "gave p k s bs t bs' \<longleftrightarrow> heap_ok t bs' \<and> HDR < p \<and> p - HDR \<notin> used_set s bs \<and> p - HDR \<in> used_set t bs' \<and>
     k \<le> bsz t (p - HDR) \<and> same_others (p - HDR) s bs t bs' \<and> mem t = mem s \<and> g_total t = g_total s \<and>
     g_reclaiming t = g_reclaiming s"

lemma find_fit_ok:
  assumes ok: "heap_ok s bs" and k: "16 dvd k" "0 < k" "k < 2 ^ 32" and ff: "find_fit k s = (p, t)"
  shows "p = 0 \<Longrightarrow> t = s" and "p \<noteq> 0 \<Longrightarrow> \<exists>bs'. gave p k s bs t bs'"
    and "p = 0 \<Longrightarrow> bin_want k = Some w \<Longrightarrow> x \<in> free_set s bs \<Longrightarrow> bsz s x < w"
proof -
  note H = heap_okD [OF ok]
  obtain b u where take: "bin_take k s = (b, u)" by force
  have pb: "b = 0 \<longleftrightarrow> p = 0"
    using ff take by (auto simp: find_fit_def hand_out_def Let_def HDR_def split: if_splits)
  then show "p = 0 \<Longrightarrow> t = s"
    using bin_take_None(1) [OF H(2) k(3,1)] take ff by (auto simp: find_fit_def split: if_splits)
  show "p = 0 \<Longrightarrow> bin_want k = Some w \<Longrightarrow> x \<in> free_set s bs \<Longrightarrow> bsz s x < w"
    using bin_take_None(2) [OF H(2) k(3,1)] take pb by auto
  assume "p \<noteq> 0"
  then have b0: "b \<noteq> 0" using pb by simp
  note T = bin_take_Some [OF H(2) k(3,1) take b0]
  have fl: "in_flight u bs {b}"
    using bin_remove_flight [of s bs "{}" b] ok T(1,3) by (simp add: heap_ok_def)
  have "b \<in> set bs" using T(1) by (simp add: free_set_def)
  then obtain ys zs where bs: "bs = ys @ b # zs" by (auto simp: in_set_conv_decomp)
  have blk: "blk u = blk s" "g_used u = g_used s" "mem u = mem s" "g_total u = g_total s" "g_reclaiming u = g_reclaiming s"
    by (simp_all add: T(3) heap_simps)
  have used: "used_set u bs' = used_set s bs'" for bs' by (simp add: used_set_def blk)
  have out: "hand_out b k u = (p, t)" using ff take b0 by (simp add: find_fit_def)
  obtain zs' where h: "p = b + HDR" "heap_ok t (ys @ b # zs')" "b \<in> used_set t (ys @ b # zs')"
    "same_others b u (ys @ b # zs) t (ys @ b # zs')" "b \<notin> used_set u (ys @ b # zs)" "k \<le> bsz t b"
    "mem t = mem u" "g_total t = g_total u" "g_reclaiming t = g_reclaiming u"
  proof (rule hand_out_ok [OF fl [unfolded bs] k(1,2) _ _ _ out])
    show "k \<le> bsz u b" using T(2) by (simp add: blk)
    show "bus u b = 0" using T(1) by (simp add: free_set_def blk)
    show "g_used u = wrap32 (sum (bsz u) (used_set u (ys @ b # zs)))"
      using H(4) bs by (simp add: blk used)
  qed blast
  have "gave p k s bs t (ys @ b # zs')"
    using h b0 by (simp add: gave_def bs blk used same_others_def)
  then show "\<exists>bs'. gave p k s bs t bs'" by blast
qed


section \<open>Freeing\<close>

lemma kfree_absorb:
  "kfree ptr s =
     (if ptr = 0 \<or> hdr_of ptr s = 0 then s
      else let b = hdr_of ptr s;
               t = merge_next b (set_used b 0 (s\<lparr>g_used := sub32 (g_used s) (bsz s b)\<rparr>));
               p = bpv t b
           in if p \<noteq> 0 \<and> bus t p = 0 then bin_insert p (absorb p b (bin_remove p t)) else bin_insert b t)"
  by (simp add: kfree_def absorb_def Let_def)

lemma free_mark_flight:
  assumes ok: "heap_ok s bs" and b: "b \<in> used_set s bs" "0 < bsz s b"
  shows "in_flight (set_used b 0 (s\<lparr>g_used := u\<rparr>)) bs {b}"
proof -
  let ?t = "set_used b 0 (s\<lparr>g_used := u\<rparr>)"
  note H = heap_okD [OF ok]
  have "list_ok ?t bs" by (rule list_ok_mark [OF H(1), of _ b]) (use b in \<open>auto simp: heap_simps used_set_def\<close>)
  moreover have "bins_ok ?t (free_set ?t bs - {b})"
  proof -
    have "free_set ?t bs - {b} = free_set s bs" using b by (auto simp: free_set_def used_set_def heap_simps)
    then show ?thesis using bins_ok_cong [OF H(2), of ?t] by (simp add: heap_simps)
  qed
  moreover have "no_meet ?t {b} bs" using H(3) by (rule no_meet_cong) (auto simp: heap_simps)
  ultimately show ?thesis using b by (auto simp: in_flight_def used_set_def)
qed

lemma sum_used_remove:
  assumes "same_others b s bs t bs'" and "b \<in> used_set s bs" and "b \<notin> used_set t bs'"
  shows "sum (bsz s) (used_set s bs) = sum (bsz t) (used_set t bs') + bsz s b"
proof -
  have u: "used_set s bs = insert b (used_set t bs')" using assms by (auto simp: same_others_def)
  have "sum (bsz s) (used_set t bs') = sum (bsz t) (used_set t bs')"
    using assms by (intro sum.cong) (auto simp: same_others_def)
  then show ?thesis using assms(3) by (simp add: u)
qed

text \<open>A block in use is given back: joined with the free blocks beside it and put in a bin.\<close>

lemma kfree_flight:
  assumes fl: "in_flight t (ys @ b # zs) {b}" and free: "bus t b = 0" and after: "zs = [] \<or> bus t (hd zs) \<noteq> 0"
    and u: "u = (if bpv t b \<noteq> 0 \<and> bus t (bpv t b) = 0
        then bin_insert (bpv t b) (absorb (bpv t b) b (bin_remove (bpv t b) t)) else bin_insert b t)"
  obtains bs' where "in_flight u bs' {}" and "bs' \<noteq> []" and "same_others b t (ys @ b # zs) u bs'" and "bus u b = 0"
    and "same_rest t u"
proof -
  note F = in_flightD [OF fl] and L = list_okD [OF in_flightD(1) [OF fl]]
  have pv: "bpv t b = last0 ys" using dll_links(2) [OF L(1)] .
  show thesis
  proof (cases "ys = [] \<or> bus t (last ys) \<noteq> 0")
    case True
    then have u': "u = bin_insert b t" using pv by (cases ys rule: rev_cases) (auto simp: u)
    have "in_flight u (ys @ b # zs) {}" unfolding u' using bin_insert_flight [of t ys b zs "{}"] fl free after True by simp
    then show thesis using that free by (auto simp: u' same_others_def same_rest_def used_set_def heap_simps)
  next
    case False
    then obtain ws p where ys: "ys = ws @ [p]" and pf: "bus t p = 0" by (cases ys rule: rev_cases) auto
    have p: "p \<noteq> b" "p \<noteq> 0" "b \<notin> set ws" "b \<notin> set zs" using L(5,6) ys by auto
    let ?r = "bin_remove p t"
    let ?a = "absorb p b ?r"
    have u': "u = bin_insert p ?a" using pv ys pf p by (simp add: u)
    have fl1: "in_flight ?r (ws @ p # b # zs) {p, b}"
      using bin_remove_flight [OF fl, of p] ys pf p by (simp add: free_set_def)
    have "16 \<le> bsz t p" using L(2) [of p] ys pf by (auto simp: block_ok_def)
    then have fl2: "in_flight ?a (ws @ p # zs) {p}"
      using absorb_flight(1) [OF fl1] free p by (simp add: heap_simps insert_Diff_if)
    note A = absorb_fields [OF p(1) [symmetric], of ?r]
    have before: "ws = [] \<or> bus t (last ws) \<noteq> 0"
      using F(4) ys pf p no_meet_mid [of t "{b}" ws p "b # zs"] by (cases ws rule: rev_cases) auto
    have "in_flight u (ws @ p # zs) {}"
      unfolding u' using bin_insert_flight [of ?a ws p zs "{}"] fl2 pf before after by (simp add: A heap_simps)
    moreover have "same_others b t (ys @ b # zs) u (ws @ p # zs)"
      using ys pf p by (auto simp: same_others_def u' used_set_def A heap_simps)
    moreover have "same_rest t u" using A(6) by (simp add: u' same_rest_def heap_simps)
    ultimately show thesis using that [of "ws @ p # zs"] free by (simp add: u' A heap_simps)
  qed
qed

lemma kfree_ok:
  assumes ok: "heap_ok s bs" and b: "b \<in> used_set s bs" "0 < bsz s b"
  obtains bs' where "heap_ok (kfree (b + HDR) s) bs'" and "same_others b s bs (kfree (b + HDR) s) bs'"
    and "b \<notin> used_set (kfree (b + HDR) s) bs'" and "bus (kfree (b + HDR) s) b = 0"
    and "mem (kfree (b + HDR) s) = mem s" and "g_total (kfree (b + HDR) s) = g_total s"
    and "g_reclaiming (kfree (b + HDR) s) = g_reclaiming s"
proof -
  note H = heap_okD [OF ok] and L = list_okD [OF heap_okD(1) [OF ok]]
  have b': "b \<in> set bs" "b \<noteq> 0" "bus s b = HEAP_MAGIC"
    using b L(2) [of b] L(6) by (auto simp: used_set_def block_ok_def intro!: Nat.gr0I)
  then obtain ys zs where bs: "bs = ys @ b # zs" by (auto simp: in_set_conv_decomp)
  define m where "m = set_used b 0 (s\<lparr>g_used := sub32 (g_used s) (bsz s b)\<rparr>)"
  have fl: "in_flight m (ys @ b # zs) {b}" using free_mark_flight [OF ok b] by (simp add: m_def bs)
  have mb: "bsz m x = bsz s x" "bus m x = (if x = b then 0 else bus s x)" for x by (simp_all add: m_def heap_simps)
  obtain zs' where M: "in_flight (merge_next b m) (ys @ b # zs') {b}"
    "zs' = [] \<or> bus (merge_next b m) (hd zs') \<noteq> 0"
    "same_others b m (ys @ b # zs) (merge_next b m) (ys @ b # zs')"
    "same_rest m (merge_next b m)" "\<And>x. bus (merge_next b m) x = bus m x"
    using L(5) bs b(2) by (auto simp: mb intro: merge_next_ok [OF fl])
  define t where "t = merge_next b m"
  have k: "kfree (b + HDR) s = (if bpv t b \<noteq> 0 \<and> bus t (bpv t b) = 0
     then bin_insert (bpv t b) (absorb (bpv t b) b (bin_remove (bpv t b) t)) else bin_insert b t)"
    using b' by (simp add: kfree_absorb hdr_of_def Let_def t_def m_def HDR_def)
  obtain bs' where B: "in_flight (kfree (b + HDR) s) bs' {}" "bs' \<noteq> []" "same_others b t (ys @ b # zs') (kfree (b + HDR) s) bs'"
    "bus (kfree (b + HDR) s) b = 0" "same_rest t (kfree (b + HDR) s)"
    by (rule kfree_flight [of t ys b zs' "kfree (b + HDR) s"]) (use M k in \<open>auto simp: t_def mb\<close>)
  have "same_others b s bs m (ys @ b # zs)" by (auto simp: same_others_def used_set_def mb bs)
  with M(3) B(3) have so: "same_others b s bs (kfree (b + HDR) s) bs'"
    by (auto simp: t_def intro: same_others_trans)
  have nin: "b \<notin> used_set (kfree (b + HDR) s) bs'" using B(4) by (simp add: used_set_def)
  have "same_rest m (kfree (b + HDR) s)" using M(4) B(5) by (auto simp: t_def intro: same_rest_trans)
  then have "g_used (kfree (b + HDR) s) = wrap32 (sum (bsz (kfree (b + HDR) s)) (used_set (kfree (b + HDR) s) bs'))"
    and rest: "mem (kfree (b + HDR) s) = mem s" "g_total (kfree (b + HDR) s) = g_total s"
      "g_reclaiming (kfree (b + HDR) s) = g_reclaiming s"
    using H(4) sum_used_remove [OF so b(1) nin] by (simp_all add: same_rest_def m_def set_used_def sub32_wrap32_add)
  then have "heap_ok (kfree (b + HDR) s) bs'" using B(1,2) by (simp add: heap_ok_def)
  then show thesis using that so nin B(4) rest by blast
qed


section \<open>Growing in place\<close>

lemma sum_used_resize:
  assumes "same_others b s bs t bs'" and "b \<in> used_set s bs" and "b \<in> used_set t bs'"
  shows "sum (bsz s) (used_set s bs) = sum (bsz s) (used_set s bs - {b}) + bsz s b"
    and "sum (bsz t) (used_set t bs') = sum (bsz s) (used_set s bs - {b}) + bsz t b"
proof -
  have u: "used_set t bs' = used_set s bs" using assms by (auto simp: same_others_def)
  have "sum (bsz t) (used_set s bs - {b}) = sum (bsz s) (used_set s bs - {b})"
    using assms by (intro sum.cong) (auto simp: same_others_def)
  then show "sum (bsz s) (used_set s bs) = sum (bsz s) (used_set s bs - {b}) + bsz s b"
    and "sum (bsz t) (used_set t bs') = sum (bsz s) (used_set s bs - {b}) + bsz t b"
    using assms(2) by (simp_all add: u sum.remove [of "used_set s bs" b] add.commute)
qed

text \<open>The block takes in the free one after it and gives back what it does not need.\<close>

definition grow_in_place :: "nat \<Rightarrow> nat \<Rightarrow> kheap \<Rightarrow> kheap" where
  "grow_in_place b need s =
     (let s = s\<lparr>g_used := sub32 (g_used s) (bsz s b)\<rparr>;
          s = split_block b need (merge_next b s)
      in s\<lparr>g_used := wrap32 (g_used s + bsz s b)\<rparr>)"

lemma grow_in_place_ok:
  assumes ok: "heap_ok s bs" and b: "b \<in> used_set s bs" "0 < bsz s b" and k: "16 dvd need" "0 < need"
    and n: "bnx s b \<noteq> 0" "bus s (bnx s b) = 0" "need \<le> wrap32 (bsz s b + HDR + bsz s (bnx s b))"
  obtains bs' where "heap_ok (grow_in_place b need s) bs'" and "b \<in> used_set (grow_in_place b need s) bs'"
    and "same_others b s bs (grow_in_place b need s) bs'" and "need \<le> bsz (grow_in_place b need s) b"
    and "mem (grow_in_place b need s) = mem s"
proof -
  note H = heap_okD [OF ok] and L = list_okD [OF heap_okD(1) [OF ok]]
  obtain ys zs where bs: "bs = ys @ b # zs" using b by (auto simp: used_set_def in_set_conv_decomp)
  have nxb: "bnx s b = hd0 zs" using dll_links(1) L(1) bs by simp
  then have zs: "zs \<noteq> []" "hd zs = bnx s b" using n(1) by (cases zs; auto)+
  define u where "u = s\<lparr>g_used := sub32 (g_used s) (bsz s b)\<rparr>"
  have ub: "blk u = blk s" by (simp add: u_def)
  have fl: "in_flight u (ys @ b # zs) {b}"
  proof -
    have "free_set s bs - {b} = free_set s bs" using b by (auto simp: free_set_def used_set_def)
    moreover have "no_meet u {b} bs" using H(3) by (rule no_meet_cong) (auto simp: ub)
    moreover have "bins_ok u (free_set s bs)" by (rule bins_ok_cong [OF H(2)]) (auto simp: u_def)
    moreover have "free_set u bs = free_set s bs" by (simp add: free_set_def ub)
    ultimately show ?thesis using list_ok_same [OF H(1), of u] bs by (simp add: in_flight_def u_def)
  qed
  obtain zs' where M: "in_flight (merge_next b u) (ys @ b # zs') {b}"
    "same_others b u (ys @ b # zs) (merge_next b u) (ys @ b # zs')" "same_rest u (merge_next b u)"
    "bsz (merge_next b u) b = bsz s b + HDR + bsz s (bnx s b)" "\<And>x. bus (merge_next b u) x = bus u x"
    by (rule merge_next_ok [OF fl]) (use b n zs L(5) bs in \<open>auto simp: ub\<close>)
  have enough: "need \<le> bsz (merge_next b u) b"
    using n(3) by (simp add: M(4) wrap32_def)
  obtain zs'' where S: "in_flight (split_block b need (merge_next b u)) (ys @ b # zs'') {b}"
    "same_others b (merge_next b u) (ys @ b # zs') (split_block b need (merge_next b u)) (ys @ b # zs'')"
    "same_rest (merge_next b u) (split_block b need (merge_next b u))"
    "need \<le> bsz (split_block b need (merge_next b u)) b"
    "bus (split_block b need (merge_next b u)) b = bus (merge_next b u) b"
    by (rule split_block_ok [OF M(1) k enough]) blast
  let ?v = "split_block b need (merge_next b u)" and ?t = "grow_in_place b need s"
  have t: "?t = ?v\<lparr>g_used := wrap32 (g_used ?v + bsz ?v b)\<rparr>" by (simp add: grow_in_place_def u_def Let_def)
  have bv: "bus ?v b \<noteq> 0" using S(5) M(5) b by (simp add: ub used_set_def)
  have "in_flight ?v (ys @ b # zs'') {}" by (rule in_flight_used [OF S(1) bv])
  then have fl': "in_flight ?t (ys @ b # zs'') {}"
    by (simp add: t in_flight_def list_ok_def block_ok_def follows_def apart_def blk_end_def no_meet_def
        free_set_def bins_ok_def bin_lists_def bin_maps_def bin_members_def)
  have used: "b \<in> used_set ?t (ys @ b # zs'')" using bv by (simp add: used_set_def t)
  have "same_others b s bs u (ys @ b # zs)" "same_others b ?v (ys @ b # zs'') ?t (ys @ b # zs'')"
    by (auto simp: same_others_def used_set_def ub bs t)
  then have so: "same_others b s bs ?t (ys @ b # zs'')" using M(2) S(2) same_others_trans by blast
  have "g_used ?v = sub32 (g_used s) (bsz s b)" using M(3) S(3) by (simp add: same_rest_def u_def)
  then have "g_used ?t = wrap32 (sum (bsz ?t) (used_set ?t (ys @ b # zs'')))"
    using H(4) sum_used_resize [OF so b(1) used] by (simp add: t sub32_wrap32_add)
  then have "heap_ok ?t (ys @ b # zs'')" using fl' by (simp add: heap_ok_def)
  moreover have "mem ?t = mem s" using M(3) S(3) by (simp add: t same_rest_def u_def)
  ultimately show thesis using that used so S(4) by (simp add: t)
qed

end
