(* ===== verification/Interfaces.thy ===== *)
theory Interfaces
  imports Prelude
begin

text \<open>
  The contracts between the components, as locales: what a provider promises and what its clients
  get from it. Each is interpreted on the model's own definitions, in the theory of its provider.
\<close>

section \<open>Allocators\<close>

text \<open>What a client does with an allocator: it takes memory, and gives back what it holds.\<close>

datatype request = Take nat | Give nat

fun exec_requests ::
  "(nat \<Rightarrow> 's \<Rightarrow> nat \<times> 's) \<Rightarrow> (nat \<Rightarrow> 's \<Rightarrow> 's) \<Rightarrow> request list \<Rightarrow> 's \<times> nat set \<Rightarrow> ('s \<times> nat set) option" where
  "exec_requests al re [] sg = Some sg"
| "exec_requests al re (Take n # rs) (s, g) =
     (let (p, t) = al n s in exec_requests al re rs (t, if p = 0 then g else insert p g))"
| "exec_requests al re (Give p # rs) (s, g) =
     (if p \<in> g then exec_requests al re rs (re p s, g - {p}) else None)"

locale allocator =
  fixes inv :: "'s \<Rightarrow> bool"
    and live_set :: "'s \<Rightarrow> (nat \<times> nat) set"
    and alloc :: "nat \<Rightarrow> 's \<Rightarrow> nat \<times> 's"
    and release :: "nat \<Rightarrow> 's \<Rightarrow> 's"
  assumes alloc_new: "inv s \<Longrightarrow> alloc n s = (p, t) \<Longrightarrow> p \<noteq> 0 \<Longrightarrow>
      inv t \<and> p \<notin> fst ` live_set s \<and> (\<exists>c\<ge>n. live_set t = insert (p, c) (live_set s))"
    and alloc_none: "inv s \<Longrightarrow> alloc n s = (0, t) \<Longrightarrow> inv t \<and> live_set t = live_set s"
    and release_live: "inv s \<Longrightarrow> (p, c) \<in> live_set s \<Longrightarrow>
      inv (release p s) \<and> live_set (release p s) = live_set s - {(p, c)}"
    and live_set_apart: "inv s \<Longrightarrow> (p, c) \<in> live_set s \<Longrightarrow> (q, d) \<in> live_set s \<Longrightarrow> p \<noteq> q \<Longrightarrow> p + c \<le> q \<or> q + d \<le> p"
    and live_set_unique: "inv s \<Longrightarrow> (p, c) \<in> live_set s \<Longrightarrow> (p, d) \<in> live_set s \<Longrightarrow> c = d"
begin

lemma release_ledger:
  assumes "inv s" "p \<in> fst ` live_set s"
  shows "inv (release p s)" and "fst ` live_set (release p s) = fst ` live_set s - {p}"
proof -
  obtain c where c: "(p, c) \<in> live_set s" using assms(2) by force
  note R = release_live [OF assms(1) c]
  show "inv (release p s)" using R by simp
  have "inj_on fst (live_set s)" using live_set_unique [OF assms(1)] by (force intro!: inj_onI)
  then have "fst ` (live_set s - {(p, c)}) = fst ` live_set s - {p}"
    using c inj_on_image_set_diff [of fst "live_set s" "live_set s" "{(p, c)}"] by auto
  then show "fst ` live_set (release p s) = fst ` live_set s - {p}" using R by simp
qed

text \<open>Whatever its clients do, what they believe to hold is what is live.\<close>

lemma exec_ledger:
  "exec_requests alloc release rs (s, fst ` live_set s) = Some (t, g) \<Longrightarrow> inv s \<Longrightarrow> inv t \<and> g = fst ` live_set t"
proof (induction rs arbitrary: s)
  case (Cons r rs)
  show ?case
  proof (cases r)
    case (Take n)
    obtain p u where al: "alloc n s = (p, u)" by force
    have u: "inv u \<and> (if p = 0 then fst ` live_set s else insert p (fst ` live_set s)) = fst ` live_set u"
      using alloc_none [of s n u] alloc_new [of s n p u] al Cons.prems(2) by (cases "p = 0") auto
    then show ?thesis using Cons.IH [of u] Cons.prems(1) al Take by simp
  next
    case (Give p)
    have p: "p \<in> fst ` live_set s" using Cons.prems(1) Give by (simp split: if_splits)
    note R = release_ledger [OF Cons.prems(2) p]
    show ?thesis using Cons.IH [OF _ R(1)] Cons.prems(1) Give p R(2) by simp
  qed
qed auto

lemma exec_disjoint:
  assumes run: "exec_requests alloc release rs (s, fst ` live_set s) = Some (t, g)" and "inv s"
    and "(p, c) \<in> live_set t" "(q, d) \<in> live_set t" "p \<noteq> q"
  shows "p + c \<le> q \<or> q + d \<le> p"
proof -
  have "inv t" using exec_ledger [OF run assms(2)] by simp
  then show ?thesis using assms(3-5) by (rule live_set_apart)
qed

end

end
