(* ===== verification/Kheap_Api.thy ===== *)
theory Kheap_Api
  imports Kheap Interfaces
begin

text \<open>
  What the heap's users see: \<open>kmalloc\<close>, \<open>kzalloc\<close>, \<open>kfree\<close> and \<open>krealloc\<close> over the set of live
  allocations, each a payload address with its capacity.
\<close>

section \<open>Live allocations\<close>

definition heap_inv :: "kheap \<Rightarrow> bool" where
  "heap_inv s \<longleftrightarrow> (\<exists>bs. heap_ok s bs)"

definition live_in :: "kheap \<Rightarrow> nat list \<Rightarrow> (nat \<times> nat) set" where
  "live_in s bs = {(b + HDR, bsz s b) | b. b \<in> used_set s bs \<and> 0 < bsz s b}"

definition live :: "kheap \<Rightarrow> (nat \<times> nat) set" where
  "live s = \<Union> (live_in s ` {bs. heap_ok s bs})"

lemma heap_ok_unique: "heap_ok s bs \<Longrightarrow> heap_ok s bs' \<Longrightarrow> bs = bs'"
  using dll_unique list_okD(1) heap_okD(1) by blast

lemma live_eq: "heap_ok s bs \<Longrightarrow> live s = live_in s bs"
proof -
  assume "heap_ok s bs"
  then have "{bs. heap_ok s bs} = {bs}" using heap_ok_unique by auto
  then show ?thesis by (simp add: live_def)
qed

lemma live_inI: "b \<in> used_set s bs \<Longrightarrow> 0 < bsz s b \<Longrightarrow> (b + HDR, bsz s b) \<in> live_in s bs"
  by (auto simp: live_in_def)

lemma same_others_live:
  assumes "same_others b s bs t bs'" and "b \<notin> used_set s bs" "b \<in> used_set t bs'" "0 < bsz t b"
  shows "live_in t bs' = insert (b + HDR, bsz t b) (live_in s bs)"
  using assms by (auto simp: live_in_def same_others_def)

lemma live_apart:
  assumes ok: "heap_ok s bs" and "(p, c) \<in> live_in s bs" "(q, d) \<in> live_in s bs" "p \<noteq> q"
  shows "p + c + HDR \<le> q \<or> q + d + HDR \<le> p"
proof -
  obtain x y where xy: "x \<in> set bs" "p = x + HDR" "c = bsz s x" "y \<in> set bs" "q = y + HDR" "d = bsz s y"
    using assms(2,3) by (auto simp: live_in_def used_set_def)
  then have "apart s x y" using list_okD(4) [OF heap_okD(1) [OF ok]] assms(4) by auto
  then show ?thesis using xy by (auto simp: apart_def blk_end_def)
qed

lemma align_up_eq:
  assumes "k < 32" "v + 2 ^ k \<le> 2 ^ 32"
  shows "align_up v (2 ^ k) = (v + (2 ^ k - 1)) div 2 ^ k * 2 ^ k"
proof -
  have v: "v + (2 ^ k - 1) < 2 ^ 32" using assms by simp
  have "(of_nat v + of_nat (2 ^ k) - 1 :: u32) = of_nat (v + (2 ^ k - 1))"
    by (simp only: of_nat_add add_diff_eq [symmetric]) (simp add: of_nat_diff)
  moreover have "(of_nat (2 ^ k) - 1 :: u32) = mask k" by (simp add: mask_eq_exp_minus_1)
  moreover have "unat (of_nat (v + (2 ^ k - 1)) :: u32) = v + (2 ^ k - 1)"
    using v by (simp add: unat_of_nat del: of_nat_add)
  ultimately show ?thesis unfolding align_up_def by (simp add: and_not_mask unat_round_down)
qed

lemma align_up16:
  assumes "v \<le> 0xFFFFFFF0" "0 < v"
  shows "16 dvd align_up v 16" and "v \<le> align_up v 16" and "align_up v 16 < v + 16" and "0 < align_up v 16"
proof -
  have "align_up v 16 = (v + 15) div 16 * 16" using align_up_eq [of 4 v] assms by simp
  then show "16 dvd align_up v 16" and "v \<le> align_up v 16" and "align_up v 16 < v + 16" and "0 < align_up v 16"
    using assms by auto
qed


section \<open>The hook that gives memory back\<close>

text \<open>
  \<open>kept K s t L\<close>: of the allocations of \<open>s\<close> those in \<open>L\<close> are left, the ones at the addresses \<open>K\<close> among
  them, and their bytes are in \<open>t\<close> what they were. A reclaim hook keeps the heap well formed and may
  free what is not in \<open>K\<close>.
\<close>

definition same_bytes :: "(nat \<times> nat) set \<Rightarrow> kheap \<Rightarrow> kheap \<Rightarrow> bool" where
  "same_bytes L s t \<longleftrightarrow> (\<forall>q d i. (q, d) \<in> L \<and> i < d \<longrightarrow> mem t (q + i) = mem s (q + i))"

definition kept :: "nat set \<Rightarrow> kheap \<Rightarrow> kheap \<Rightarrow> (nat \<times> nat) set \<Rightarrow> bool" where
  "kept K s t L \<longleftrightarrow> L \<subseteq> live s \<and> {x \<in> live s. fst x \<in> K} \<subseteq> L \<and> same_bytes L s t"

definition reclaim_ok :: "nat set \<Rightarrow> kenv \<Rightarrow> bool" where
  "reclaim_ok K e \<longleftrightarrow> (\<forall>hook n s. g_reclaim e = Some hook \<and> heap_inv s \<longrightarrow>
     heap_inv (hook n s) \<and> kept K s (hook n s) (live (hook n s)))"

lemma heap_ok_reclaiming [simp]: "heap_ok (s\<lparr>g_reclaiming := r\<rparr>) bs = heap_ok s bs"
  by (simp add: heap_ok_def in_flight_def free_set_def used_set_def no_meet_def list_ok_def block_ok_def
      follows_def apart_def blk_end_def bins_ok_def bin_lists_def bin_maps_def bin_members_def)

lemma heap_ok_mem [simp]: "heap_ok (s\<lparr>mem := m\<rparr>) bs = heap_ok s bs"
  by (simp add: heap_ok_def in_flight_def free_set_def used_set_def no_meet_def list_ok_def block_ok_def
      follows_def apart_def blk_end_def bins_ok_def bin_lists_def bin_maps_def bin_members_def)

lemma heap_inv_other [simp]:
  "heap_inv (s\<lparr>g_reclaiming := r\<rparr>) = heap_inv s" "heap_inv (s\<lparr>mem := m\<rparr>) = heap_inv s"
  "live (s\<lparr>g_reclaiming := r\<rparr>) = live s" "live (s\<lparr>mem := m\<rparr>) = live s"
  by (simp_all add: heap_inv_def live_def live_in_def used_set_def)

lemma same_bytes_simps [simp]:
  "same_bytes L s (t\<lparr>g_reclaiming := r\<rparr>) = same_bytes L s t"
  "same_bytes L (s\<lparr>g_reclaiming := r\<rparr>) t = same_bytes L s t"
  "same_bytes L s s"
  by (simp_all add: same_bytes_def)

lemma kept_refl: "kept K s s (live s)"
  by (simp add: kept_def)

lemma run_reclaim_ok:
  assumes "reclaim_ok K e" "may_reclaim e s" "heap_inv s"
  shows "heap_inv (run_reclaim e n s)" and "kept K s (run_reclaim e n s) (live (run_reclaim e n s))"
proof -
  obtain hook where h: "g_reclaim e = Some hook" using assms(2) by (auto simp: may_reclaim_def)
  have "heap_inv (hook n (s\<lparr>g_reclaiming := True\<rparr>)) \<and>
     kept K (s\<lparr>g_reclaiming := True\<rparr>) (hook n (s\<lparr>g_reclaiming := True\<rparr>)) (live (hook n (s\<lparr>g_reclaiming := True\<rparr>)))"
    using assms(1,3) h by (simp add: reclaim_ok_def)
  then show "heap_inv (run_reclaim e n s)" and "kept K s (run_reclaim e n s) (live (run_reclaim e n s))"
    by (simp_all add: run_reclaim_def h kept_def)
qed


section \<open>Allocating and freeing over the live allocations\<close>

text \<open>A new allocation at \<open>p\<close>, next to those in \<open>L\<close>.\<close>

definition placed :: "nat \<Rightarrow> nat \<Rightarrow> kheap \<Rightarrow> (nat \<times> nat) set \<Rightarrow> bool" where
  "placed p n t L \<longleftrightarrow> heap_inv t \<and> p \<notin> fst ` L \<and> 16 dvd p \<and> (\<exists>c \<ge> n. live t = insert (p, c) L)"

lemma gave_placed:
  assumes ok: "heap_ok s bs" and g: "gave p k s bs t bs'" and n: "n \<le> k" "0 < k"
  shows "placed p n t (live s)" and "mem t = mem s"
proof -
  have G: "heap_ok t bs'" "HDR < p" "p - HDR \<notin> used_set s bs" "p - HDR \<in> used_set t bs'" "k \<le> bsz t (p - HDR)"
    "same_others (p - HDR) s bs t bs'" "mem t = mem s" using g by (auto simp: gave_def)
  then show "mem t = mem s" by simp
  have "live t = insert (p, bsz t (p - HDR)) (live s)"
    using same_others_live [OF G(6,3,4)] G n by (simp add: live_eq [OF ok] live_eq [OF G(1)])
  moreover have "p \<notin> fst ` live s" using G(2,3) by (auto simp: live_eq [OF ok] live_in_def)
  moreover have "block_ok t (p - HDR)"
    using list_okD(2) [OF heap_okD(1) [OF G(1)]] G(4) by (simp add: used_set_def)
  then have "16 dvd (p - HDR) + HDR" by (auto simp: block_ok_def)
  then have "16 dvd p" using G(2) by simp
  ultimately show "placed p n t (live s)" using G n by (auto simp: placed_def heap_inv_def intro!: exI [of _ "bsz t (p - HDR)"])
qed

lemma find_fit_placed:
  assumes "heap_inv s" and k: "16 dvd k" "0 < k" "k < 2 ^ 32" and ff: "find_fit k s = (p, t)"
  shows "p = 0 \<Longrightarrow> t = s" and "p \<noteq> 0 \<Longrightarrow> n \<le> k \<Longrightarrow> placed p n t (live s) \<and> mem t = mem s"
proof -
  obtain bs where ok: "heap_ok s bs" using assms(1) by (auto simp: heap_inv_def)
  show "p = 0 \<Longrightarrow> t = s" by (rule find_fit_ok(1) [OF ok k ff])
  show "p \<noteq> 0 \<Longrightarrow> n \<le> k \<Longrightarrow> placed p n t (live s) \<and> mem t = mem s"
    using find_fit_ok(2) [OF ok k ff] gave_placed [OF ok _ _ k(2)] by blast
qed

lemma heap_inv_head: "heap_inv s \<Longrightarrow> g_head s \<noteq> 0"
proof -
  assume "heap_inv s"
  then obtain bs where ok: "heap_ok s bs" by (auto simp: heap_inv_def)
  note L = list_okD [OF heap_okD(1) [OF ok]]
  show ?thesis using dll_head [OF L(1)] L(6) heap_okD(5) [OF ok] by (cases bs) auto
qed

lemma kmalloc_unfold:
  assumes "heap_inv s" "0 < sz" "sz \<le> 0xF0000000"
  shows "kmalloc e sz s =
     (let (p, u) = find_fit (align_up sz 16) s
      in if p = 0 \<and> may_reclaim e u
         then find_fit (align_up sz 16) (run_reclaim e (wrap32 (align_up sz 16 + HDR)) u) else (p, u))"
  using assms heap_inv_head [OF assms(1)] by (simp add: kmalloc_def ALIGN_def Let_def)

lemma kept_mem: "kept K s r L \<Longrightarrow> mem t = mem r \<Longrightarrow> kept K s t L"
  by (simp add: kept_def same_bytes_def)

lemma kmalloc_placed:
  assumes inv: "heap_inv s" and rc: "reclaim_ok K e" and km: "kmalloc e sz s = (p, t)" and p: "p \<noteq> 0"
  shows "\<exists>L. kept K s t L \<and> placed p sz t L \<and> (g_reclaim e = None \<longrightarrow> L = live s)"
proof -
  have "\<not> (sz = 0 \<or> 0xF0000000 < sz)"
  proof
    assume "sz = 0 \<or> 0xF0000000 < sz"
    then have "kmalloc e sz s = (0, s)" by (auto simp: kmalloc_def)
    then show False using km p by simp
  qed
  then have sz: "0 < sz" "sz \<le> 0xF0000000" by auto
  let ?k = "align_up sz 16"
  have k: "16 dvd ?k" "0 < ?k" "?k < 2 ^ 32" "sz \<le> ?k" using align_up16 [of sz] sz by auto
  obtain q u where ff: "find_fit ?k s = (q, u)" by force
  show ?thesis
  proof (cases "q = 0 \<and> may_reclaim e u")
    case True
    then have u: "u = s" and mr: "may_reclaim e s" using find_fit_placed(1) [OF inv k(1-3) ff] by auto
    let ?r = "run_reclaim e (wrap32 (?k + HDR)) s"
    note R = run_reclaim_ok [OF rc mr inv, of "wrap32 (?k + HDR)"]
    have "find_fit ?k ?r = (p, t)" using km kmalloc_unfold [OF inv sz, of e] ff True u by simp
    then have "placed p sz t (live ?r)" "mem t = mem ?r" using find_fit_placed(2) [OF R(1) k(1-3) _ p k(4)] by auto
    moreover have "g_reclaim e \<noteq> None" using mr by (simp add: may_reclaim_def)
    ultimately show ?thesis using kept_mem [OF R(2), of t] by auto
  next
    case False
    then have "find_fit ?k s = (p, t)" using km kmalloc_unfold [OF inv sz, of e] ff by auto
    then have "placed p sz t (live s)" "mem t = mem s" using find_fit_placed(2) [OF inv k(1-3) _ p k(4)] by auto
    then show ?thesis using kept_mem [OF kept_refl, of t s K] by auto
  qed
qed

lemma kmalloc_fails:
  assumes inv: "heap_inv s" and rc: "reclaim_ok K e" and km: "kmalloc e sz s = (0, t)"
  shows "heap_inv t \<and> kept K s t (live t) \<and> (g_reclaim e = None \<longrightarrow> t = s)"
proof (cases "0 < sz \<and> sz \<le> 0xF0000000")
  case False
  then have "t = s" using km by (auto simp: kmalloc_def)
  then show ?thesis using inv kept_refl by simp
next
  case True
  then have sz: "0 < sz" "sz \<le> 0xF0000000" by auto
  let ?k = "align_up sz 16"
  have k: "16 dvd ?k" "0 < ?k" "?k < 2 ^ 32" using align_up16 [of sz] sz by auto
  obtain q u where ff: "find_fit ?k s = (q, u)" by force
  show ?thesis
  proof (cases "q = 0 \<and> may_reclaim e u")
    case True
    then have u: "u = s" and mr: "may_reclaim e s" using find_fit_placed(1) [OF inv k ff] by auto
    let ?r = "run_reclaim e (wrap32 (?k + HDR)) s"
    note R = run_reclaim_ok [OF rc mr inv, of "wrap32 (?k + HDR)"]
    have "find_fit ?k ?r = (0, t)" using km kmalloc_unfold [OF inv sz, of e] ff True u by simp
    then have "t = ?r" using find_fit_placed(1) [OF R(1) k] by auto
    then show ?thesis using R mr by (auto simp: may_reclaim_def)
  next
    case False
    then have "find_fit ?k s = (0, t)" using km kmalloc_unfold [OF inv sz, of e] ff by auto
    then have "t = s" using find_fit_placed(1) [OF inv k] by auto
    then show ?thesis using inv kept_refl by simp
  qed
qed

lemma kfree_live:
  assumes inv: "heap_inv s" and p: "(p, c) \<in> live s"
  shows "heap_inv (kfree p s)" and "live (kfree p s) = live s - {(p, c)}" and "mem (kfree p s) = mem s"
    and "bus (kfree p s) (p - HDR) = 0" and "HDR < p"
proof -
  obtain bs where ok: "heap_ok s bs" using inv by (auto simp: heap_inv_def)
  obtain b where b: "p = b + HDR" "c = bsz s b" "b \<in> used_set s bs" "0 < bsz s b"
    using p by (auto simp: live_eq [OF ok] live_in_def)
  have "b \<noteq> 0" using b(3) list_okD(6) [OF heap_okD(1) [OF ok]] by (auto simp: used_set_def intro!: Nat.gr0I)
  then show "HDR < p" using b by simp
  obtain bs' where B: "heap_ok (kfree p s) bs'" "same_others b s bs (kfree p s) bs'"
    "b \<notin> used_set (kfree p s) bs'" "bus (kfree p s) b = 0" "mem (kfree p s) = mem s"
    using b by (auto intro: kfree_ok [OF ok b(3,4)])
  show "heap_inv (kfree p s)" "mem (kfree p s) = mem s" "bus (kfree p s) (p - HDR) = 0"
    using B b by (auto simp: heap_inv_def)
  show "live (kfree p s) = live s - {(p, c)}"
    unfolding live_eq [OF ok] live_eq [OF B(1)] using B(2,3) b by (auto simp: live_in_def same_others_def)
qed

lemma kfree_bad: "bus s (p - HDR) \<noteq> HEAP_MAGIC \<Longrightarrow> kfree p s = s"
  by (simp add: kfree_def hdr_of_def)

lemma live_disjoint:
  assumes "heap_inv s" "(p, c) \<in> live s" "(q, d) \<in> live s" "p \<noteq> q"
  shows "p + c + HDR \<le> q \<or> q + d + HDR \<le> p"
proof -
  obtain bs where ok: "heap_ok s bs" using assms(1) by (auto simp: heap_inv_def)
  show ?thesis using live_apart [OF ok] assms(2-4) by (simp add: live_eq [OF ok])
qed

lemma live_functional: "heap_inv s \<Longrightarrow> (p, c) \<in> live s \<Longrightarrow> (p, d) \<in> live s \<Longrightarrow> c = d"
  by (auto simp: heap_inv_def live_def live_in_def dest: heap_ok_unique)

lemma live_block:
  assumes "heap_inv s" "(p, c) \<in> live s"
  obtains bs b where "heap_ok s bs" "p = b + HDR" "c = bsz s b" "b \<in> used_set s bs" "0 < c" "hdr_of p s = b"
    "b \<noteq> 0" "16 dvd c"
proof -
  obtain bs where ok: "heap_ok s bs" using assms(1) by (auto simp: heap_inv_def)
  note L = list_okD [OF heap_okD(1) [OF ok]]
  obtain b where b: "p = b + HDR" "c = bsz s b" "b \<in> used_set s bs" "0 < c"
    using assms(2) by (auto simp: live_eq [OF ok] live_in_def)
  then have "bus s b = HEAP_MAGIC" "16 dvd c" "b \<noteq> 0"
    using L(2) [of b] L(6) by (auto simp: used_set_def block_ok_def intro!: Nat.gr0I)
  then show thesis using that ok b by (simp add: hdr_of_def)
qed


section \<open>Resizing\<close>

text \<open>What a resize of \<open>(p, c)\<close> to \<open>n\<close> bytes at \<open>q\<close> comes to.\<close>

definition resized :: "nat \<Rightarrow> nat \<Rightarrow> nat \<Rightarrow> nat \<Rightarrow> kheap \<Rightarrow> kheap \<Rightarrow> bool" where
  "resized p c n q s t \<longleftrightarrow> heap_inv t \<and> (\<exists>c' L. n \<le> c' \<and> live t = insert (q, c') L \<and> q \<notin> fst ` L \<and> L \<subseteq> live s - {(p, c)} \<and>
     same_bytes L s t) \<and> (\<forall>i < min c n. mem t (q + i) = mem s (p + i))"

lemma krealloc_unfold:
  assumes "hdr_of p s = b" "b \<noteq> 0" "p \<noteq> 0" "0 < sz" "sz \<le> 0xFFFFFFF0"
  shows "krealloc e p sz s =
    (let need = align_up sz 16
     in if need \<le> bsz s b then (p, s)
        else if bnx s b \<noteq> 0 \<and> bus s (bnx s b) = 0 \<and> need \<le> wrap32 (bsz s b + HDR + bsz s (bnx s b))
        then (p, grow_in_place b need s)
        else let (np, u) = kmalloc e sz s
             in if np = 0 then (0, u) else (np, kfree p (memcpy_mem np p (bsz s b) u)))"
  using assms by (simp add: krealloc_def grow_in_place_def ALIGN_def Let_def)

lemma krealloc_stays:
  "hdr_of p s = b \<Longrightarrow> b \<noteq> 0 \<Longrightarrow> p \<noteq> 0 \<Longrightarrow> 0 < sz \<Longrightarrow> align_up (wrap32 sz) 16 \<le> bsz s b \<Longrightarrow> krealloc e p sz s = (p, s)"
  by (simp add: krealloc_def ALIGN_def Let_def)

lemma grow_in_place_resized:
  assumes inv: "heap_inv s" and p: "(p, c) \<in> live s" and b: "hdr_of p s = b" and k: "16 dvd need" "0 < need" "sz \<le> need"
    and n: "bnx s b \<noteq> 0" "bus s (bnx s b) = 0" "need \<le> wrap32 (bsz s b + HDR + bsz s (bnx s b))"
  shows "resized p c sz p s (grow_in_place b need s)"
proof -
  let ?t = "grow_in_place b need s"
  obtain bs b' where B: "heap_ok s bs" "p = b' + HDR" "c = bsz s b'" "b' \<in> used_set s bs" "0 < c" "hdr_of p s = b'"
    by (rule live_block [OF inv p]) blast
  have bb: "b' = b" using B(6) b by simp
  obtain bs' where G: "heap_ok ?t bs'" "b \<in> used_set ?t bs'" "same_others b s bs ?t bs'" "need \<le> bsz ?t b" "mem ?t = mem s"
    by (rule grow_in_place_ok [OF B(1) _ _ k(1,2) n]) (use B bb in auto)
  have "live_in ?t bs' = insert (p, bsz ?t b) (live_in s bs - {(p, c)})"
    using G(2-4) B bb k(2) by (auto simp: live_in_def same_others_def)
  then have "live ?t = insert (p, bsz ?t b) (live s - {(p, c)})" by (simp add: live_eq [OF B(1)] live_eq [OF G(1)])
  moreover have "p \<notin> fst ` (live s - {(p, c)})" using live_functional [OF inv p] by auto
  moreover have "sz \<le> bsz ?t b" using k(3) G(4) by simp
  moreover have "heap_inv ?t" using G(1) by (auto simp: heap_inv_def)
  moreover have "same_bytes (live s - {(p, c)}) s ?t" by (simp add: same_bytes_def G(5))
  ultimately show ?thesis using G(5) unfolding resized_def by auto
qed

lemma move_resized:
  assumes inv: "heap_inv s" and p: "(p, c) \<in> live s" and lt: "c < sz"
    and L: "kept {p} s u L" and q: "placed q sz u L"
  shows "resized p c sz q s (kfree p (memcpy_mem q p c u))"
proof -
  let ?m = "memcpy_mem q p c u"
  obtain d where d: "heap_inv u" "q \<notin> fst ` L" "sz \<le> d" "live u = insert (q, d) L" using q by (auto simp: placed_def)
  have pL: "(p, c) \<in> L" and Ls: "L \<subseteq> live s" and bytes: "same_bytes L s u" using L p by (auto simp: kept_def)
  have pq: "p \<noteq> q" using pL d(2) by force
  have apart: "x + e \<le> q \<or> q + d \<le> x" if "(x, e) \<in> L" for x e
    using live_disjoint [OF d(1), of x e q d] that d(2,4) by force
  have mm: "heap_inv ?m" "live ?m = live u" "(p, c) \<in> live ?m" using d pL by (simp_all add: memcpy_mem_def)
  note F = kfree_live [OF mm(1,3)]
  have copy: "mem ?m (q + i) = mem s (p + i)" if "i < c" for i
    using that bytes pL by (auto simp: memcpy_mem_def same_bytes_def)
  have "same_bytes (L - {(p, c)}) s ?m"
    using bytes apart lt d(3) by (fastforce simp: same_bytes_def memcpy_mem_def)
  then have "same_bytes (L - {(p, c)}) s (kfree p ?m)" using F(3) by (simp add: same_bytes_def)
  moreover have "live (kfree p ?m) = insert (q, d) (L - {(p, c)})" using F(2) mm(2) d(4) pq by auto
  moreover have "q \<notin> fst ` (L - {(p, c)})" "L - {(p, c)} \<subseteq> live s - {(p, c)}" using d(2) Ls by auto
  ultimately show ?thesis using F(1,3) d(3) copy unfolding resized_def by (intro conjI exI) auto
qed

lemma krealloc_resized:
  assumes inv: "heap_inv s" and p: "(p, c) \<in> live s" and rc: "reclaim_ok {p} e" and sz: "0 < sz" "sz \<le> 0xFFFFFFF0"
    and re: "krealloc e p sz s = (q, t)" and q: "q \<noteq> 0"
  shows "resized p c sz q s t"
proof -
  obtain bs b where B: "heap_ok s bs" "p = b + HDR" "c = bsz s b" "b \<in> used_set s bs" "0 < c" "hdr_of p s = b" "b \<noteq> 0"
    "16 dvd c" by (rule live_block [OF inv p]) blast
  let ?k = "align_up sz 16"
  note k = align_up16 [OF sz(2,1)]
  have re': "(q, t) = (if ?k \<le> c then (p, s)
        else if bnx s b \<noteq> 0 \<and> bus s (bnx s b) = 0 \<and> ?k \<le> wrap32 (c + HDR + bsz s (bnx s b))
        then (p, grow_in_place b ?k s)
        else let (np, u) = kmalloc e sz s in if np = 0 then (0, u) else (np, kfree p (memcpy_mem np p c u)))"
    using re krealloc_unfold [OF B(6,7) _ sz, of e] unfolding Let_def B(3) by (simp add: B(2))
  obtain np u where km: "kmalloc e sz s = (np, u)" by force
  consider (fits) "?k \<le> c" "q = p" "t = s"
    | (grows) "bnx s b \<noteq> 0" "bus s (bnx s b) = 0" "?k \<le> wrap32 (c + HDR + bsz s (bnx s b))"
        "q = p" "t = grow_in_place b ?k s"
    | (moves) "c < ?k" "np = q" "t = kfree p (memcpy_mem q p c u)"
    using re' [unfolded km] q by (simp split: if_splits)
  then show ?thesis
  proof cases
    case fits
    have "live s = insert (p, c) (live s - {(p, c)})" using p by (rule insert_Diff [symmetric])
    moreover have "p \<notin> fst ` (live s - {(p, c)})" using live_functional [OF inv p] by auto
    moreover have "sz \<le> c" "same_bytes (live s - {(p, c)}) s s" using fits k(2) by simp_all
    ultimately show ?thesis using inv unfolding resized_def fits(2,3) by blast
  next
    case grows
    then show ?thesis using grow_in_place_resized [OF inv p B(6) k(1,4,2)] B(3) by simp
  next
    case moves
    obtain L where L: "kept {p} s u L" "placed q sz u L" using kmalloc_placed [OF inv rc, of sz q u] km moves(2) q by auto
    have "c < sz" using moves(1) B(8) k(1,3) by presburger
    then show ?thesis using move_resized [OF inv p _ L] moves(3) by simp
  qed
qed


section \<open>A fresh heap, and when an allocation succeeds\<close>

lemma kheap0_bins: "bins_ok (kheap0 m) {}"
  by (auto simp: bins_ok_def bin_lists_def bin_maps_def bin_members_def kheap0_def dll_def intro!: exI [of _ "[]"])

lemma kheap_setup_ok:
  fixes m :: "nat \<Rightarrow> byte"
  assumes a: "16 dvd start" "0 < start" "start + HDR + 32 \<le> end0" "end0 \<le> HEAP_MAX_ADDR"
  defines "t \<equiv> kheap_setup start end0 (kheap0 m)"
  shows "heap_ok t [start]" and "live t = {}" and "bsz t start = end0 - end0 mod 16 - start - HDR" and "bus t start = 0"
    and "g_total t = bsz t start"
proof -
  define sz where "sz = end0 - end0 mod 16 - start - HDR"
  have room: "16 \<le> sz" "start + HDR + sz \<le> end0" "end0 < 2 ^ 32"
    using a by (auto simp: sz_def HDR_def HEAP_MAX_ADDR_def)
  have dv: "16 dvd sz" using a(1) unfolding sz_def HDR_def by presburger
  define u where "u = (kheap0 m)\<lparr>g_head := start,
    blk := (blk (kheap0 m))(start := \<lparr>bsize = sz, bused = 0, bprev = 0, bnext = 0\<rparr>), g_total := sz, g_used := 0\<rparr>"
  have "sub32 (sub32 (end0 - end0 mod 16) start) HDR = sz" using a room by (simp add: sub32_eq sz_def HDR_def)
  then have t: "t = bin_insert start u"
    by (simp add: t_def kheap_setup_def u_def Let_def ALIGN_def set_size_def set_used_def set_prev_def set_next_def kheap0_def)
  have ub: "bsz u start = sz" "bus u start = 0" "g_head u = start" "g_used u = 0" by (simp_all add: u_def)
  have "list_ok u [start]"
    using a room dv by (simp add: list_ok_def dll_def block_ok_def blk_end_def u_def)
  moreover have "free_set u [start] - {start} = {}" by (auto simp: free_set_def)
  then have "bins_ok u (free_set u [start] - {start})"
    using bins_ok_cong [OF kheap0_bins [of m], of u] by (simp only:) (auto simp: u_def)
  ultimately have "in_flight u ([] @ start # []) (insert start {})"
    by (simp add: in_flight_def no_meet_def)
  from bin_insert_flight [OF this] have fl: "in_flight t [start] {}" using ub by (simp add: t)
  have bt: "bsz t start = sz" "bus t start = 0" by (simp_all add: t ub heap_simps)
  have none: "used_set t [start] = {}" using bt by (simp add: used_set_def)
  then show ok: "heap_ok t [start]" using fl by (simp add: heap_ok_def t heap_simps ub)
  show "live t = {}" using none by (simp add: live_eq [OF ok] live_in_def)
  show "bsz t start = end0 - end0 mod 16 - start - HDR" "bus t start = 0" using bt by (auto simp: sz_def)
  show "g_total t = bsz t start" using bt by (simp add: t heap_simps u_def)
qed

lemma bin_want_bound:
  assumes "need + need div 16 < 2 ^ 32" "0 < need"
  shows "\<exists>w. bin_want need = Some w \<and> w \<le> need + need div 16"
proof (cases "2 ^ FL_SHIFT \<le> need")
  case True
  define f where "f = log2u need"
  have f: "2 ^ f \<le> need" "f < 32" "8 \<le> f"
    using log2u_range [of need] log2u_ge8 [of need] assms True by (auto simp: f_def kheap_consts)
  have "(2::nat) ^ f = 16 * 2 ^ (f - 4)" using power_add [of "2::nat" 4 "f - 4"] f(3) by simp
  then have "(2::nat) ^ (f - 4) \<le> need div 16" using f(1) by simp
  then obtain g where "(2::nat) ^ (f - 4) = Suc g" "Suc g \<le> need div 16" by (cases "(2::nat) ^ (f - 4)") auto
  then show ?thesis using assms True by (simp add: bin_want_def f_def [symmetric] kheap_consts Let_def)
next
  case False
  then show ?thesis by (simp add: bin_want_def)
qed

lemma kmalloc_finds:
  assumes ok: "heap_ok s bs" and x: "x \<in> free_set s bs" and sz: "0 < sz" "sz \<le> 0xF0000000"
    and big: "align_up sz 16 + align_up sz 16 div 16 \<le> bsz s x"
  shows "fst (kmalloc e sz s) \<noteq> 0"
proof -
  let ?k = "align_up sz 16"
  have inv: "heap_inv s" using ok by (auto simp: heap_inv_def)
  have k: "16 dvd ?k" "0 < ?k" "?k < 2 ^ 32" using align_up16 [of sz] sz by auto
  have "x \<in> set bs" using x by (simp add: free_set_def)
  then have "blk_end s x \<le> HEAP_MAX_ADDR" using list_okD(2) [OF heap_okD(1) [OF ok]] by (simp add: block_ok_def)
  then have "?k + ?k div 16 < 2 ^ 32" using big by (simp add: blk_end_def HEAP_MAX_ADDR_def)
  then obtain w where w: "bin_want ?k = Some w" "w \<le> ?k + ?k div 16" using bin_want_bound k(2) by blast
  obtain p t where ff: "find_fit ?k s = (p, t)" by force
  have "p \<noteq> 0" using find_fit_ok(3) [OF ok k ff _ w(1) x] w(2) big by (auto simp: not_less)
  then show ?thesis using kmalloc_unfold [OF inv sz, of e] ff by simp
qed


section \<open>The heap keeps the allocator's contract\<close>

text \<open>An environment in which nothing is asked to give memory back.\<close>

definition quiet :: "kenv \<Rightarrow> kenv" where
  "quiet e = e\<lparr>g_reclaim := None\<rparr>"

lemma quiet_reclaim [simp]: "g_reclaim (quiet e) = None" "reclaim_ok K (quiet e)"
  by (simp_all add: quiet_def reclaim_ok_def)

interpretation kh: allocator heap_inv live "kmalloc (quiet e)" kfree for e
proof unfold_locales
  fix s n p t assume a: "heap_inv s" "kmalloc (quiet e) n s = (p, t)"
  show "p \<noteq> 0 \<Longrightarrow> heap_inv t \<and> p \<notin> fst ` live s \<and> (\<exists>c\<ge>n. live t = insert (p, c) (live s))"
    using kmalloc_placed [OF a(1) _ a(2), of UNIV] by (auto simp: placed_def)
next
  fix s n t assume a: "heap_inv s" "kmalloc (quiet e) n s = (0, t)"
  show "heap_inv t \<and> live t = live s"
    using kmalloc_fails [OF a(1) _ a(2), of UNIV] a(1) by simp
next
  fix s p c assume a: "heap_inv s" "(p, c) \<in> live s"
  show "heap_inv (kfree p s) \<and> live (kfree p s) = live s - {(p, c)}"
    using kfree_live(1,2) [OF a] by simp
next
  fix s p c q d assume "heap_inv s" "(p, c) \<in> live s" "(q, d) \<in> live s" "p \<noteq> q"
  then show "p + c \<le> q \<or> q + d \<le> p" using live_disjoint by fastforce
qed (rule live_functional)


section \<open>Properties\<close>

text \<open>A small heap, and a hook that gives its first block back, for the examples below.\<close>

definition demo_heap :: kheap where
  "demo_heap = kheap_setup 0x200000 0x300000 (kheap0 (\<lambda>_. 0))"

definition drop_first :: "nat \<Rightarrow> kheap \<Rightarrow> kheap" where
  "drop_first n s = (if bused (blk s (g_head s)) = HEAP_MAGIC \<and> 0 < bsize (blk s (g_head s)) then kfree (g_head s + HDR) s else s)"

definition demo_env :: kenv where
  "demo_env = \<lparr>g_reclaim = Some drop_first, irqs_on = True, cpu_id = 0\<rparr>"

lemma drop_first_ok: "reclaim_ok {} demo_env"
  unfolding reclaim_ok_def
proof (intro allI impI)
  fix hook :: "nat \<Rightarrow> kheap \<Rightarrow> kheap" and n s
  assume "g_reclaim demo_env = Some hook \<and> heap_inv s"
  then have hook: "hook = drop_first" and inv: "heap_inv s" by (auto simp: demo_env_def)
  obtain bs where ok: "heap_ok s bs" using inv by (auto simp: heap_inv_def)
  have "g_head s \<in> set bs" using dll_head [OF list_okD(1) [OF heap_okD(1) [OF ok]]] heap_okD(5) [OF ok] by (cases bs) auto
  then have "bus s (g_head s) = HEAP_MAGIC \<Longrightarrow> 0 < bsz s (g_head s) \<Longrightarrow> (g_head s + HDR, bsz s (g_head s)) \<in> live s"
    by (auto simp: live_eq [OF ok] live_in_def used_set_def)
  then show "heap_inv (hook n s) \<and> kept {} s (hook n s) (live (hook n s))"
    using inv kfree_live(1-3) [OF inv] kept_refl [of "{}" s]
    by (auto simp: hook drop_first_def kept_def same_bytes_def)
qed

lemma demo_heap_ok: "heap_ok demo_heap [0x200000]" "heap_inv demo_heap" "live demo_heap = {}"
    "bsz demo_heap 0x200000 = 0xFFFE0" "0x200000 \<in> free_set demo_heap [0x200000]"
proof -
  note S = kheap_setup_ok [of "0x200000" "0x300000" "\<lambda>_. 0", folded demo_heap_def]
  show ok: "heap_ok demo_heap [0x200000]" and "live demo_heap = {}" and "bsz demo_heap 0x200000 = 0xFFFE0"
    using S(1,2,3) by (simp_all add: HDR_def HEAP_MAX_ADDR_def)
  show "heap_inv demo_heap" using ok by (auto simp: heap_inv_def)
  show "0x200000 \<in> free_set demo_heap [0x200000]" using S(4) by (simp add: free_set_def HDR_def HEAP_MAX_ADDR_def)
qed

lemma demo_alloc:
  assumes "0 < n" "n \<le> 4096"
  obtains p t where "kmalloc demo_env n demo_heap = (p, t)" "p \<noteq> 0"
proof -
  have "align_up n 16 + align_up n 16 div 16 \<le> bsz demo_heap 0x200000"
    using align_up16 [of n] assms demo_heap_ok(4) by simp
  then have "fst (kmalloc demo_env n demo_heap) \<noteq> 0"
    using kmalloc_finds [OF demo_heap_ok(1,5)] assms by simp
  then show thesis using that by (cases "kmalloc demo_env n demo_heap") auto
qed

lemma demo_live:
  assumes "0 < n" "n \<le> 4096"
  obtains p c t where "kmalloc demo_env n demo_heap = (p, t)" "p \<noteq> 0" "heap_inv t" "(p, c) \<in> live t" "n \<le> c"
proof -
  obtain p t where pt: "kmalloc demo_env n demo_heap = (p, t)" "p \<noteq> 0" using demo_alloc [OF assms] by blast
  then obtain L where "placed p n t L" using kmalloc_placed [OF demo_heap_ok(2) drop_first_ok] by blast
  then show thesis using that pt by (auto simp: placed_def)
qed

text \<open>
  C1: what \<open>kmalloc\<close> hands out is nobody else's. With a hook that keeps the heap well formed, a
  successful allocation leaves the heap well formed, is 16-byte aligned, has at least the bytes asked
  for, keeps every pinned allocation and its bytes, and overlaps none of the allocations that are left,
  nor their headers.
\<close>

theorem kmalloc_safe:
  assumes "heap_inv s" and "reclaim_ok K e" and "kmalloc e sz s = (p, t)" and "p \<noteq> 0"
  shows "heap_inv t \<and> 16 dvd p \<and> (\<exists>c L. sz \<le> c \<and> live t = insert (p, c) L \<and> L \<subseteq> live s \<and>
    {x \<in> live s. fst x \<in> K} \<subseteq> L \<and> same_bytes L s t \<and> (\<forall>(q, d) \<in> L. p + c + HDR \<le> q \<or> q + d + HDR \<le> p))"
proof -
  obtain L where L: "kept K s t L" "placed p sz t L" using kmalloc_placed [OF assms] by blast
  then obtain c where c: "heap_inv t" "p \<notin> fst ` L" "16 dvd p" "sz \<le> c" "live t = insert (p, c) L"
    by (auto simp: placed_def)
  have "p + c + HDR \<le> q \<or> q + d + HDR \<le> p" if "(q, d) \<in> L" for q d
    using live_disjoint [OF c(1), of p c q d] that c(2,5) by force
  then show ?thesis using L(1) c unfolding kept_def by blast
qed

theorem kmalloc_safe_witness:
  "\<exists>p t. kmalloc demo_env 100 demo_heap = (p, t) \<and> p \<noteq> 0 \<and> heap_inv t \<and> 16 dvd p \<and> (\<exists>c\<ge>100. live t = {(p, c)})"
proof -
  obtain p t where pt: "kmalloc demo_env 100 demo_heap = (p, t)" "p \<noteq> 0" by (rule demo_alloc [of 100]) auto
  show ?thesis using kmalloc_safe [OF demo_heap_ok(2) drop_first_ok pt] pt demo_heap_ok(3) by auto
qed

text \<open>
  C2: \<open>kmalloc\<close> finds memory when there is some: a free block that is a sixteenth bigger than the
  request (rounded up to 16 bytes) is always enough, whatever else the bins hold.
\<close>

theorem kmalloc_complete:
  assumes "heap_ok s bs" and "x \<in> set bs" "bused (blk s x) = 0" and "0 < sz" "sz \<le> 0xF0000000"
    and "align_up sz ALIGN + align_up sz ALIGN div 16 \<le> bsize (blk s x)"
  shows "fst (kmalloc e sz s) \<noteq> 0"
  using kmalloc_finds [OF assms(1), of x sz e] assms by (simp add: free_set_def ALIGN_def)

theorem kmalloc_complete_witness: "fst (kmalloc demo_env 1000 demo_heap) \<noteq> 0"
proof (rule kmalloc_complete [OF demo_heap_ok(1), of "0x200000"])
  show "align_up 1000 ALIGN + align_up 1000 ALIGN div 16 \<le> bsize (blk demo_heap 0x200000)"
    using align_up16 [of 1000] demo_heap_ok(4) by (simp add: ALIGN_def)
  show "bused (blk demo_heap 0x200000) = 0" using demo_heap_ok(5) by (simp add: free_set_def)
qed simp_all







text \<open>
  C6: the sizes \<open>krealloc\<close> gets wrong. A \<open>size_t\<close> is cut to 32 bits before it is rounded up, with no
  check like the one in \<open>kmalloc\<close>: a request of 4 GiB and a little more, or of the last bytes below
  4 GiB, is taken for a small one, and the old block is returned as if it had grown.
\<close>

theorem krealloc_truncates:
  assumes "heap_inv s" and "(p, c) \<in> live s" and "0 < sz" and "sz mod 2 ^ 32 \<le> c \<or> 0xFFFFFFF0 < sz mod 2 ^ 32"
  shows "krealloc e p sz s = (p, s)"
proof -
  obtain bs b where B: "hdr_of p s = b" "c = bsz s b" "b \<noteq> 0" "16 dvd c" "p = b + HDR"
    by (rule live_block [OF assms(1,2)]) blast
  have w: "wrap32 sz = sz mod 2 ^ 32" by (simp add: wrap32_def)
  have "align_up (wrap32 sz) 16 \<le> c"
  proof (cases "0xFFFFFFF0 < sz mod 2 ^ 32")
    case True
    define d where "d = sz mod 2 ^ 32 - 0xFFFFFFF1"
    have d: "sz mod 2 ^ 32 = 0xFFFFFFF1 + d" "d < 15" using True mod_less_divisor [of "2 ^ 32" sz] by (auto simp: d_def)
    have "align_up (0xFFFFFFF1 + d) 16 = 0"
    proof -
      have round: "(of_nat (0xFFFFFFF1 + d) + of_nat 16 - 1 :: u32) = of_nat d" by simp
      have mask: "(of_nat 16 - 1 :: u32) = mask 4" by (simp add: mask_eq_exp_minus_1)
      have "unat (of_nat d :: u32) = d" using d by (simp add: unat_of_nat)
      then show ?thesis unfolding align_up_def round mask and_not_mask unat_round_down using d(2) by simp
    qed
    then show ?thesis unfolding w d(1) by simp
  next
    case False
    define v where "v = sz mod 2 ^ 32"
    have le: "v \<le> c" "v \<le> 0xFFFFFFF0" using False assms(4) by (auto simp: v_def)
    obtain k where k: "c = 16 * k" using B(4) by (auto elim: dvdE)
    have "align_up v 16 = (v + 15) div 16 * 16" using align_up_eq [of 4 v] le(2) by simp
    then have "align_up v 16 \<le> c" using le(1) k by simp
    then show ?thesis by (simp only: w v_def)
  qed
  then show ?thesis using krealloc_stays [OF B(1,3) _ assms(3)] B(2,3,5) by simp
qed

theorem krealloc_truncates_witness:
  "\<exists>p c t. kmalloc demo_env 64 demo_heap = (p, t) \<and> (p, c) \<in> live t \<and> c < 0x100000010 \<and>
     krealloc demo_env p 0x100000010 t = (p, t) \<and> krealloc demo_env p 0xFFFFFFF8 t = (p, t)"
proof -
  obtain p c t where pt: "kmalloc demo_env 64 demo_heap = (p, t)" "heap_inv t" "(p, c) \<in> live t" "64 \<le> c"
    by (rule demo_live [of 64]) auto
  obtain bs b where b: "heap_ok t bs" "c = bsz t b" "b \<in> used_set t bs" by (rule live_block [OF pt(2,3)]) blast
  then have "c < 0x100000010"
    using list_okD(2) [OF heap_okD(1) [OF b(1)], of b] by (simp add: used_set_def block_ok_def blk_end_def HEAP_MAX_ADDR_def)
  then show ?thesis
    using krealloc_truncates [OF pt(2,3), of "0x100000010"] krealloc_truncates [OF pt(2,3), of "0xFFFFFFF8"] pt by auto
qed

end
