(* ===== verification/Kheap_Aligned.thy ===== *)
theory Kheap_Aligned
  imports Kheap_Api
begin

text \<open>
  Aligned allocation, \<open>kmalloc_aligned\<close> in \<open>kernel/kheap.c\<close>: the block is cut so that its payload starts
  at a multiple of the alignment, and the part in front stays a free block. The two loops (the search
  for a spot, the walk over all blocks) are partial functions: \<open>None\<close> is a loop that does not end.
\<close>

section \<open>Model\<close>

text \<open>\<open>uintptr_t\<close> arithmetic; \<open>align\<close> is a \<open>uint32_t\<close>.\<close>

definition align_ptr :: "nat \<Rightarrow> nat \<Rightarrow> nat" where
  "align_ptr v a = unat ((of_nat v + of_nat a - 1 :: u64) AND NOT (ucast (of_nat a - 1 :: u32)))"

partial_function (option) spot_loop :: "nat \<Rightarrow> nat \<Rightarrow> nat \<Rightarrow> nat option" where
  "spot_loop align s a =
     (if a \<noteq> s \<and> sub64 a s < HDR + MIN_SPLIT then spot_loop align s (wrap64 (a + align)) else Some a)"

definition aligned_spot :: "nat \<Rightarrow> nat \<Rightarrow> nat \<Rightarrow> kheap \<Rightarrow> nat option" where
  "aligned_spot b need align h =
     (let s = b + HDR;
          e = s + bsize (blk h b)
      in do { a \<leftarrow> spot_loop align s (align_ptr s align);
              Some (if wrap64 (a + need) \<le> e then a else 0) })"

definition take_aligned :: "nat \<Rightarrow> nat \<Rightarrow> nat \<Rightarrow> kheap \<Rightarrow> nat \<times> kheap" where
  "take_aligned b a need h =
     (let s = b + HDR;
          e = s + bsize (blk h b)
      in if a \<noteq> s
         then let n = a - HDR;
                  h = set_size n (wrap32 (e - a)) h;
                  h = set_used n 0 h;
                  h = set_prev n b h;
                  h = set_next n (bnext (blk h b)) h;
                  h = (if bnext (blk h b) \<noteq> 0 then set_prev (bnext (blk h b)) n h else h);
                  h = set_next b n h;
                  h = set_size b (wrap32 (n - s)) h;
                  h = bin_insert b h
              in hand_out n need h
         else hand_out b need h)"

partial_function (option) scan_aligned :: "nat \<Rightarrow> nat \<Rightarrow> nat \<Rightarrow> kheap \<Rightarrow> (nat \<times> kheap) option" where
  "scan_aligned need align b h =
     (if b = 0 then Some (0, h)
      else if bused (blk h b) \<noteq> 0 \<or> bsize (blk h b) < need then scan_aligned need align (bnext (blk h b)) h
      else do { a \<leftarrow> aligned_spot b need align h;
                if a = 0 then scan_aligned need align (bnext (blk h b)) h
                else Some (take_aligned b a need (bin_remove b h)) })"

definition find_fit_aligned :: "nat \<Rightarrow> nat \<Rightarrow> kheap \<Rightarrow> (nat \<times> kheap) option" where
  "find_fit_aligned need align h =
     (let room = need + align + HDR + MIN_SPLIT
      in if room < 0xF0000000
         then let (b, h) = bin_take room h
              in if b \<noteq> 0
                 then do { a \<leftarrow> aligned_spot b need align h;
                           if a \<noteq> 0 then Some (take_aligned b a need h)
                           else let h = bin_insert b h in scan_aligned need align (g_head h) h }
                 else scan_aligned need align (g_head h) h
         else scan_aligned need align (g_head h) h)"

definition kmalloc_aligned :: "kenv \<Rightarrow> nat \<Rightarrow> nat \<Rightarrow> kheap \<Rightarrow> (nat \<times> kheap) option" where
  "kmalloc_aligned e sz align h =
     (if align \<le> ALIGN then Some (kmalloc e sz h)
      else if g_head h = 0 \<or> sz = 0 \<or> 0xF0000000 < sz \<or> align AND (align - 1) \<noteq> 0 then Some (0, h)
      else let need = align_up (wrap32 sz) ALIGN;
               al = wrap32 align
           in do { (p, h) \<leftarrow> find_fit_aligned need al h;
                   if p = 0 \<and> may_reclaim e h
                   then find_fit_aligned need al (run_reclaim e (wrap32 (need + al + HDR)) h)
                   else Some (p, h) })"


section \<open>The spot\<close>

lemma align_ptr_eq:
  assumes "k < 32" "v + 2 ^ k \<le> 2 ^ 64"
  shows "align_ptr v (2 ^ k) = (v + (2 ^ k - 1)) div 2 ^ k * 2 ^ k"
proof -
  have v: "v + (2 ^ k - 1) < 2 ^ 64" using assms by simp
  have sum: "(of_nat v + of_nat (2 ^ k) - 1 :: u64) = of_nat (v + (2 ^ k - 1))"
    by (simp only: of_nat_add add_diff_eq [symmetric]) (simp add: of_nat_diff)
  have "(of_nat (2 ^ k) - 1 :: u32) = mask k" by (simp add: mask_eq_exp_minus_1)
  then have mask: "(ucast (of_nat (2 ^ k) - 1 :: u32) :: u64) = mask k"
    using assms(1) by (auto intro!: bit_eqI simp: bit_simps)
  have "unat (of_nat (v + (2 ^ k - 1)) :: u64) = v + (2 ^ k - 1)"
    using v by (simp add: unat_of_nat del: of_nat_add)
  then show ?thesis unfolding align_ptr_def sum mask and_not_mask unat_round_down by simp
qed

lemma spot_loop_ends:
  assumes "s \<le> a" "a < s + HDR + MIN_SPLIT + align" "s + HDR + MIN_SPLIT + align < 2 ^ 64" "0 < align" "align dvd a"
  shows "\<exists>a'. spot_loop align s a = Some a' \<and> align dvd a' \<and> (a' = s \<or> s + HDR + MIN_SPLIT \<le> a') \<and>
    a' < s + HDR + MIN_SPLIT + align"
  using assms
proof (induction "s + HDR + MIN_SPLIT - a" arbitrary: a rule: less_induct)
  case less
  have sub: "sub64 a s = a - s" using less.prems by (intro sub64_eq) auto
  show ?case
  proof (cases "a \<noteq> s \<and> sub64 a s < HDR + MIN_SPLIT")
    case True
    then have lt: "a < s + HDR + MIN_SPLIT" using less.prems(1) sub by linarith
    then have w: "wrap64 (a + align) = a + align" using less.prems(3) by simp
    have "\<exists>a'. spot_loop align s (a + align) = Some a' \<and> align dvd a' \<and> (a' = s \<or> s + HDR + MIN_SPLIT \<le> a') \<and>
      a' < s + HDR + MIN_SPLIT + align"
      by (rule less.hyps) (use less.prems lt in auto)
    then show ?thesis using True w by (subst spot_loop.simps) simp
  next
    case False
    then have "spot_loop align s a = Some a" by (subst spot_loop.simps) auto
    then show ?thesis using less.prems False sub by auto
  qed
qed

lemma aligned_spot_ends:
  assumes k: "4 < k" "k < 32" and b: "block_ok h b" and need: "need < 2 ^ 32"
  shows "\<exists>a. aligned_spot b need (2 ^ k) h = Some a \<and> (a \<noteq> 0 \<longrightarrow> 2 ^ k dvd a \<and> b + HDR \<le> a \<and>
      (a = b + HDR \<or> b + HDR + HDR + MIN_SPLIT \<le> a) \<and> a + need \<le> blk_end h b) \<and>
    (need + 2 ^ k + HDR + MIN_SPLIT \<le> bsz h b \<longrightarrow> a \<noteq> 0)"
proof -
  let ?s = "b + HDR"
  have "blk_end h b \<le> HEAP_MAX_ADDR" using b by (simp add: block_ok_def)
  then have s32: "?s < 2 ^ 32" by (simp add: blk_end_def HEAP_MAX_ADDR_def)
  have k32: "(2::nat) ^ k < 2 ^ 32" using k by (intro power_strict_increasing) auto
  have eq: "align_ptr ?s (2 ^ k) = (?s + (2 ^ k - 1)) div 2 ^ k * 2 ^ k" using s32 k32 k by (intro align_ptr_eq) auto
  have ge: "?s \<le> align_ptr ?s (2 ^ k)"
  proof -
    have "?s + (2 ^ k - 1) < (?s + (2 ^ k - 1)) div 2 ^ k * 2 ^ k + 2 ^ k"
      using dividend_less_div_times [of "2 ^ k" "?s + (2 ^ k - 1)"] by simp
    then show ?thesis unfolding eq by linarith
  qed
  have le: "align_ptr ?s (2 ^ k) \<le> ?s + (2 ^ k - 1)" unfolding eq by simp
  have "\<exists>a'. spot_loop (2 ^ k) ?s (align_ptr ?s (2 ^ k)) = Some a' \<and> 2 ^ k dvd a' \<and> (a' = ?s \<or> ?s + HDR + MIN_SPLIT \<le> a') \<and>
    a' < ?s + HDR + MIN_SPLIT + 2 ^ k"
  proof (rule spot_loop_ends [OF ge])
    show "align_ptr ?s (2 ^ k) < ?s + HDR + MIN_SPLIT + 2 ^ k"
      using le zero_less_power [of "2::nat" k] by (simp only: HDR_def MIN_SPLIT_def)
    show "?s + HDR + MIN_SPLIT + 2 ^ k < 2 ^ 64" using s32 k32 by (simp add: HDR_def MIN_SPLIT_def)
  qed (auto simp: eq)
  then obtain a where a: "spot_loop (2 ^ k) ?s (align_ptr ?s (2 ^ k)) = Some a" "2 ^ k dvd a"
    "a = ?s \<or> ?s + HDR + MIN_SPLIT \<le> a" "a < ?s + HDR + MIN_SPLIT + 2 ^ k" by blast
  have "a < 2 ^ 34" using a(4) s32 k32 by (simp add: HDR_def MIN_SPLIT_def)
  then have w: "wrap64 (a + need) = a + need" using need by simp
  have "aligned_spot b need (2 ^ k) h = Some (if a + need \<le> blk_end h b then a else 0)"
    using a(1) w by (simp add: aligned_spot_def Let_def blk_end_def)
  moreover have "0 < a" using a(3) by (auto simp: HDR_def)
  ultimately show ?thesis using a(2-4) by (auto simp: blk_end_def)
qed


section \<open>Handing the block out\<close>

lemma take_aligned_carve:
  assumes a: "a = b + HDR + k + HDR" and sz: "k + HDR \<le> bsz h b" "bsz h b < 2 ^ 32"
  shows "take_aligned b a need h = hand_out (b + HDR + k) need (bin_insert b (carve b k h))"
proof -
  have "wrap32 (b + HDR + bsz h b - a) = sub32 (sub32 (bsz h b) k) HDR" using sz by (simp add: a sub32_eq HDR_def)
  moreover have "wrap32 (a - HDR - (b + HDR)) = k" using sz by (simp add: a)
  moreover have "a - HDR = b + HDR + k" "a \<noteq> b + HDR" by (simp_all add: a HDR_def)
  ultimately show ?thesis by (simp add: take_aligned_def carve_def Let_def)
qed

lemma free_neighbours:
  assumes ok: "heap_ok s (ys @ b # zs)" and b: "bus s b = 0"
  shows "ys = [] \<or> bus s (last ys) \<noteq> 0" and "zs = [] \<or> bus s (hd zs) \<noteq> 0"
  using heap_okD(3) [OF ok] b by (auto simp: no_meet_mid)

lemma hand_out_gave:
  assumes fl: "in_flight u (ys @ b # zs) {b}" and k: "16 dvd k" "0 < k" "k \<le> bsz u b" "bus u b = 0"
    and so: "same_others b s bs u (ys @ b # zs)" "b \<notin> used_set s bs" and ok: "heap_ok s bs"
    and rest: "same_rest s u"
  shows "fst (hand_out b k u) = b + HDR" and "\<exists>bs'. gave (b + HDR) k s bs (snd (hand_out b k u)) bs'"
proof -
  obtain p t where out: "hand_out b k u = (p, t)" by force
  have "b \<notin> used_set u (ys @ b # zs)" using k(4) by (simp add: used_set_def)
  then have used: "used_set u (ys @ b # zs) = used_set s bs"
    using so unfolding same_others_def by (metis subsetI subset_antisym)
  then have "sum (bsz u) (used_set u (ys @ b # zs)) = sum (bsz s) (used_set s bs)"
    using so by (intro sum.cong) (auto simp: same_others_def)
  then have acc: "g_used u = wrap32 (sum (bsz u) (used_set u (ys @ b # zs)))"
    using heap_okD(4) [OF ok] rest by (simp add: same_rest_def)
  obtain zs' where h: "p = b + HDR" "heap_ok t (ys @ b # zs')" "b \<in> used_set t (ys @ b # zs')"
    "same_others b u (ys @ b # zs) t (ys @ b # zs')" "k \<le> bsz t b"
    "mem t = mem u" "g_total t = g_total u" "g_reclaiming t = g_reclaiming u"
    by (rule hand_out_ok [OF fl k acc out]) blast
  show "fst (hand_out b k u) = b + HDR" using out h(1) by simp
  have "b \<in> set (ys @ b # zs)" by simp
  then have "0 < b" using list_okD(6) [OF in_flightD(1) [OF fl]] by (auto intro!: Nat.gr0I)
  then have "gave (b + HDR) k s bs t (ys @ b # zs')"
    using h so rest same_others_trans [OF so(1) h(4)] by (simp add: gave_def same_rest_def)
  then show "\<exists>bs'. gave (b + HDR) k s bs (snd (hand_out b k u)) bs'" using out by auto
qed

lemma take_aligned_ok:
  assumes ok: "heap_ok s bs" and b: "b \<in> free_set s bs" and k: "16 dvd need" "0 < need"
    and a: "16 dvd a" "a = b + HDR \<or> b + HDR + HDR + MIN_SPLIT \<le> a" "a + need \<le> blk_end s b"
  shows "fst (take_aligned b a need (bin_remove b s)) = a"
    and "\<exists>bs'. gave a need s bs (snd (take_aligned b a need (bin_remove b s))) bs'"
proof -
  let ?u = "bin_remove b s"
  note H = heap_okD [OF ok] and L = list_okD [OF heap_okD(1) [OF ok]]
  obtain ys zs where bs: "bs = ys @ b # zs" using b by (auto simp: free_set_def in_set_conv_decomp)
  have free: "bus s b = 0" using b by (simp add: free_set_def)
  have fl: "in_flight ?u (ys @ b # zs) {b}"
    using bin_remove_flight [of s bs "{}" b] ok b bs by (simp add: heap_ok_def)
  have ub: "blk ?u = blk s" "same_rest s ?u" by (simp_all add: heap_simps same_rest_def)
  have bok: "block_ok s b" using L(2) [of b] bs by simp
  have "fst (take_aligned b a need ?u) = a \<and> (\<exists>bs'. gave a need s bs (snd (take_aligned b a need ?u)) bs')"
  proof (cases "a = b + HDR")
    case True
    have "same_others b s bs ?u (ys @ b # zs)" by (simp add: same_others_def used_set_def ub bs)
    then show ?thesis
      using hand_out_gave [OF fl k _ _ _ _ ok ub(2)] a(3) True free
      by (simp add: take_aligned_def ub blk_end_def used_set_def)
  next
    case False
    define q where "q = a - HDR - (b + HDR)"
    have aq: "a = b + HDR + q + HDR" "MIN_SPLIT \<le> q" using a(2) False by (auto simp: q_def)
    have q: "16 dvd q" "0 < q" "q + HDR + 16 \<le> bsz ?u b"
    proof -
      have "16 dvd (b + HDR + HDR) + q" using a(1) aq(1) by (simp add: algebra_simps)
      moreover have "16 dvd b + HDR + HDR" using bok by (simp add: block_ok_def)
      ultimately show "16 dvd q" by (simp only: dvd_add_right_iff)
      show "0 < q" using aq(2) by (simp add: MIN_SPLIT_def)
      have "16 \<le> need" using k by (simp add: dvd_imp_le)
      then show "q + HDR + 16 \<le> bsz ?u b" using a(3) aq(1) by (simp add: ub blk_end_def)
    qed
    define n where "n = b + HDR + q"
    note C = carve_ok [OF fl q, folded n_def]
    let ?c = "carve b q ?u"
    have b32: "bsz ?u b < 2 ^ 32" using bok by (simp add: ub block_ok_def blk_end_def HEAP_MAX_ADDR_def)
    have F: "bnx ?u b \<noteq> b + HDR + q"
      using C(2) dll_links(1) [OF L(1) [unfolded bs]] by (cases zs) (auto simp: ub n_def HDR_def)
    note CF = carve_fields [OF F]
    have szn: "bsz ?c n = bsz s b - q - HDR" using q b32 by (simp add: CF n_def ub sub32_eq HDR_def)
    have take: "take_aligned b a need ?u = hand_out n need (bin_insert b ?c)"
      unfolding n_def using take_aligned_carve [OF aq(1) _ b32] q(3) by simp
    have nb: "n \<noteq> b" using C(2) by auto
    have before: "ys = [] \<or> bus ?c (last ys) \<noteq> 0"
      using free_neighbours(1) [OF ok [unfolded bs] free] C(2) by (cases ys rule: rev_cases) (auto simp: CF ub n_def)
    have fl2: "in_flight (bin_insert b ?c) ((ys @ [b]) @ n # zs) {n}"
      using bin_insert_flight [of ?c ys b "n # zs" "{n}"] C(1,6) nb before free by (auto simp: ub)
    have so: "same_others n s bs (bin_insert b ?c) ((ys @ [b]) @ n # zs)"
    proof -
      have "same_others b s bs (bin_insert b ?c) ((ys @ [b]) @ n # zs)"
        using C(3) by (simp add: same_others_def used_set_def heap_simps ub bs)
      moreover have "bus s b = 0" "bus (bin_insert b ?c) b = 0" using free C(6) by (simp_all add: heap_simps ub)
      ultimately show ?thesis by (rule same_others_free) simp
    qed
    have rest: "same_rest s (bin_insert b ?c)" using C(4) ub(2) by (simp add: same_rest_def heap_simps)
    have nu: "n \<notin> used_set s bs" using C(2) bs by (simp add: used_set_def)
    have "need \<le> bsz (bin_insert b ?c) n" using szn a(3) aq(1) by (simp add: heap_simps blk_end_def)
    then have "fst (hand_out n need (bin_insert b ?c)) = n + HDR \<and>
        (\<exists>bs'. gave (n + HDR) need s bs (snd (hand_out n need (bin_insert b ?c))) bs')"
      using hand_out_gave [OF fl2 k _ _ so nu ok rest] C(8) by (simp add: heap_simps)
    moreover have "n + HDR = a" by (simp add: n_def aq(1))
    ultimately show ?thesis by (simp only: take)
  qed
  then show "fst (take_aligned b a need ?u) = a"
    and "\<exists>bs'. gave a need s bs (snd (take_aligned b a need ?u)) bs'" by auto
qed


section \<open>The search\<close>

definition aligned_ok :: "nat \<Rightarrow> nat \<Rightarrow> kheap \<Rightarrow> nat list \<Rightarrow> nat \<times> kheap \<Rightarrow> bool" where
  "aligned_ok al need s bs r \<longleftrightarrow> (if fst r = 0 then snd r = s else al dvd fst r \<and> (\<exists>bs'. gave (fst r) need s bs (snd r) bs'))"

lemma take_aligned_found:
  assumes ok: "heap_ok s bs" and b: "b \<in> free_set s bs" and k: "4 < k" and need: "16 dvd need" "0 < need"
    and a: "a \<noteq> 0" "2 ^ k dvd a" "a = b + HDR \<or> b + HDR + HDR + MIN_SPLIT \<le> a" "a + need \<le> blk_end s b"
  shows "aligned_ok (2 ^ k) need s bs (take_aligned b a need (bin_remove b s))"
proof -
  have "(16::nat) dvd 2 ^ k" using le_imp_power_dvd [of 4 k "2::nat"] k by simp
  then have "16 dvd a" using a(2) by (rule dvd_trans)
  from take_aligned_ok [OF ok b need this a(3,4)] show ?thesis using a by (simp add: aligned_ok_def)
qed

lemma scan_aligned_ends:
  assumes ok: "heap_ok s (ys @ zs)" and k: "4 < k" "k < 32" and need: "16 dvd need" "0 < need" "need < 2 ^ 32"
  shows "\<exists>r. scan_aligned need (2 ^ k) (hd0 zs) s = Some r \<and> aligned_ok (2 ^ k) need s (ys @ zs) r"
  using ok
proof (induction zs arbitrary: ys)
  case Nil
  then show ?case by (subst scan_aligned.simps) (simp add: aligned_ok_def)
next
  case (Cons b zs)
  note L = list_okD [OF heap_okD(1) [OF Cons.prems]]
  have nx: "bnx s b = hd0 zs" and b0: "b \<noteq> 0" using dll_links(1) [OF L(1)] L(6) by auto
  have onward: "\<exists>r. scan_aligned need (2 ^ k) (bnx s b) s = Some r \<and> aligned_ok (2 ^ k) need s (ys @ b # zs) r"
    using Cons.IH [of "ys @ [b]"] Cons.prems by (simp add: nx)
  have bok: "block_ok s b" using L(2) by simp
  obtain a where a: "aligned_spot b need (2 ^ k) s = Some a"
    "a \<noteq> 0 \<Longrightarrow> 2 ^ k dvd a \<and> (a = b + HDR \<or> b + HDR + HDR + MIN_SPLIT \<le> a) \<and> a + need \<le> blk_end s b"
    using aligned_spot_ends [OF k bok need(3)] by blast
  consider "bus s b \<noteq> 0 \<or> bsz s b < need \<or> a = 0" | "bus s b = 0" "need \<le> bsz s b" "a \<noteq> 0" by linarith
  then show ?case
  proof cases
    case 1
    then show ?thesis using onward b0 a(1) by (subst scan_aligned.simps) auto
  next
    case 2
    have "b \<in> free_set s (ys @ b # zs)" using 2 by (simp add: free_set_def)
    from take_aligned_found [OF Cons.prems this k(1) need(1,2) 2(3)] a(2) 2(3)
    have "aligned_ok (2 ^ k) need s (ys @ b # zs) (take_aligned b a need (bin_remove b s))" by blast
    then show ?thesis using 2 b0 a(1) by (subst scan_aligned.simps) (auto simp: not_less)
  qed
qed

lemma find_fit_aligned_ends:
  assumes ok: "heap_ok s bs" and k: "4 < k" "k < 32" and need: "16 dvd need" "0 < need" "need < 2 ^ 32"
  shows "\<exists>r. find_fit_aligned need (2 ^ k) s = Some r \<and> aligned_ok (2 ^ k) need s bs r"
proof -
  note H = heap_okD [OF ok] and L = list_okD [OF heap_okD(1) [OF ok]]
  let ?room = "need + 2 ^ k + HDR + MIN_SPLIT"
  have scan: "\<exists>r. scan_aligned need (2 ^ k) (g_head s) s = Some r \<and> aligned_ok (2 ^ k) need s bs r"
    using scan_aligned_ends [of s "[]" bs] ok k need dll_head [OF L(1)] by simp
  have "(16::nat) dvd 2 ^ k" using le_imp_power_dvd [of 4 k "2::nat"] k by simp
  then have room16: "16 dvd ?room" using need(1) by (simp add: MIN_SPLIT_def)
  obtain b u where take: "bin_take ?room s = (b, u)" by force
  show ?thesis
  proof (cases "?room < 0xF0000000 \<and> b \<noteq> 0")
    case True
    then have r32: "?room < 2 ^ 32" and b0: "b \<noteq> 0" by auto
    note T = bin_take_Some [OF H(2) r32 room16 take b0]
    have "block_ok s b" using T(1) L(2) by (simp add: free_set_def)
    then have bu: "block_ok u b" and ends: "blk_end u b = blk_end s b" "bsz u b = bsz s b"
      by (simp_all add: T(3) block_ok_def blk_end_def heap_simps)
    obtain a where a: "aligned_spot b need (2 ^ k) u = Some a" "a \<noteq> 0"
      "2 ^ k dvd a" "a = b + HDR \<or> b + HDR + HDR + MIN_SPLIT \<le> a" "a + need \<le> blk_end s b"
      using aligned_spot_ends [OF k bu need(3)] T(2) ends by auto
    have "find_fit_aligned need (2 ^ k) s = Some (take_aligned b a need (bin_remove b s))"
      using True take a(1,2) T(3) by (simp add: find_fit_aligned_def)
    then show ?thesis using take_aligned_found [OF ok T(1) k(1) need(1,2) a(2-5)] by simp
  next
    case False
    have "b = 0 \<Longrightarrow> ?room < 0xF0000000 \<Longrightarrow> u = s"
      using bin_take_None(1) [OF H(2) _ room16, of u] take by simp
    then have "find_fit_aligned need (2 ^ k) s = scan_aligned need (2 ^ k) (g_head s) s"
      using False take by (auto simp: find_fit_aligned_def Let_def)
    then show ?thesis using scan by simp
  qed
qed


section \<open>Properties\<close>

definition aligned_placed :: "nat \<Rightarrow> nat \<Rightarrow> nat set \<Rightarrow> kheap \<Rightarrow> nat \<times> kheap \<Rightarrow> bool" where
  "aligned_placed al sz K s r \<longleftrightarrow> heap_inv (snd r) \<and>
     (if fst r = 0 then kept K s (snd r) (live (snd r))
      else al dvd fst r \<and> (\<exists>L. kept K s (snd r) L \<and> placed (fst r) sz (snd r) L))"

lemma find_fit_aligned_placed:
  assumes inv: "heap_inv s" and k: "4 < k" "k < 32" and need: "16 dvd need" "0 < need" "need < 2 ^ 32" "sz \<le> need"
  shows "\<exists>r. find_fit_aligned need (2 ^ k) s = Some r \<and> aligned_placed (2 ^ k) sz K s r \<and> (fst r = 0 \<longrightarrow> snd r = s)"
proof -
  obtain bs where ok: "heap_ok s bs" using inv by (auto simp: heap_inv_def)
  obtain p t where r: "find_fit_aligned need (2 ^ k) s = Some (p, t)" "aligned_ok (2 ^ k) need s bs (p, t)"
    using find_fit_aligned_ends [OF ok k need(1-3)] by auto
  have "aligned_placed (2 ^ k) sz K s (p, t) \<and> (p = 0 \<longrightarrow> t = s)"
  proof (cases "p = 0")
    case True
    then show ?thesis using r(2) inv kept_refl [of K s] by (simp add: aligned_ok_def aligned_placed_def)
  next
    case False
    then obtain bs' where g: "2 ^ k dvd p" "gave p need s bs t bs'" using r(2) by (auto simp: aligned_ok_def)
    note P = gave_placed [OF ok g(2) need(4,2)]
    have "kept K s t (live s)" by (rule kept_mem [OF kept_refl P(2)])
    moreover have "heap_inv t" using P(1) by (simp add: placed_def)
    ultimately show ?thesis using P(1) g(1) False by (auto simp: aligned_placed_def)
  qed
  then show ?thesis using r(1) by auto
qed

lemma aligned_placed_trans:
  assumes "kept K s u (live u)" "aligned_placed al sz K u r"
  shows "aligned_placed al sz K s r"
proof -
  have tr: "kept K u t L \<Longrightarrow> kept K s t L" for t L
    using assms(1) unfolding kept_def same_bytes_def by (smt (verit) mem_Collect_eq subset_iff)
  show ?thesis using assms(2) tr by (auto simp: aligned_placed_def split: if_splits)
qed

lemma power_of_two: "(2::nat) ^ k AND (2 ^ k - 1) = 0"
  unfolding mask_eq_exp_minus_1 [symmetric] take_bit_eq_mask [symmetric] by (simp add: take_bit_eq_mod)

lemma kmalloc_aligned_placed:
  assumes inv: "heap_inv s" and rc: "reclaim_ok K e" and k: "k < 32"
  shows "\<exists>r. kmalloc_aligned e sz (2 ^ k) s = Some r \<and> aligned_placed (2 ^ k) sz K s r"
proof -
  have k32: "(2::nat) ^ k < 2 ^ 32" using k by (intro power_strict_increasing) auto
  consider (small) "k \<le> 4" | (none) "4 < k" "sz = 0 \<or> 0xF0000000 < sz" | (search) "4 < k" "0 < sz" "sz \<le> 0xF0000000"
    by linarith
  then show ?thesis
  proof cases
    case small
    obtain p t where km: "kmalloc e sz s = (p, t)" by force
    have "(2::nat) ^ k \<le> 2 ^ 4" using small by (intro power_increasing) auto
    then have eq: "kmalloc_aligned e sz (2 ^ k) s = Some (p, t)" using km by (simp add: kmalloc_aligned_def ALIGN_def)
    have "(2::nat) ^ k dvd 16" using le_imp_power_dvd [OF small, of "2::nat"] by simp
    then have "aligned_placed (2 ^ k) sz K s (p, t)"
      using kmalloc_placed [OF inv rc km] kmalloc_fails [OF inv rc, of sz t] km
      by (cases "p = 0") (auto simp: aligned_placed_def placed_def intro: dvd_trans)
    then show ?thesis using eq by blast
  next
    case none
    have "(2::nat) ^ 4 < 2 ^ k" using none by (intro power_strict_increasing) auto
    then have "kmalloc_aligned e sz (2 ^ k) s = Some (0, s)" using none by (auto simp: kmalloc_aligned_def ALIGN_def)
    then show ?thesis using inv kept_refl [of K s] by (simp add: aligned_placed_def)
  next
    case search
    have big: "(2::nat) ^ 4 < 2 ^ k" using search by (intro power_strict_increasing) auto
    let ?need = "align_up sz 16"
    have need: "16 dvd ?need" "0 < ?need" "?need < 2 ^ 32" "sz \<le> ?need" using align_up16 [of sz] search by auto
    have eq: "kmalloc_aligned e sz (2 ^ k) s = Option.bind (find_fit_aligned ?need (2 ^ k) s) (\<lambda>(p, h).
        if p = 0 \<and> may_reclaim e h
        then find_fit_aligned ?need (2 ^ k) (run_reclaim e (wrap32 (?need + 2 ^ k + HDR)) h) else Some (p, h))"
      using search big k32 heap_inv_head [OF inv] power_of_two [of k] by (simp add: kmalloc_aligned_def ALIGN_def Let_def)
    obtain p t where r: "find_fit_aligned ?need (2 ^ k) s = Some (p, t)" "aligned_placed (2 ^ k) sz K s (p, t)" "p = 0 \<Longrightarrow> t = s"
      using find_fit_aligned_placed [OF inv search(1) k need, of K] by auto
    show ?thesis
    proof (cases "p = 0 \<and> may_reclaim e t")
      case True
      then have mr: "may_reclaim e s" using r(3) by simp
      let ?u = "run_reclaim e (wrap32 (?need + 2 ^ k + HDR)) s"
      note R = run_reclaim_ok [OF rc mr inv, of "wrap32 (?need + 2 ^ k + HDR)"]
      show ?thesis
        using find_fit_aligned_placed [OF R(1) search(1) k need, of K] aligned_placed_trans [OF R(2)] eq r(1,3) True by auto
    next
      case False
      then show ?thesis using eq r(1,2) by auto
    qed
  qed
qed

text \<open>
  C7: \<open>kmalloc_aligned\<close> always returns - its walk over the blocks and its search for a spot end - and
  what it hands out starts at a multiple of the alignment, has the bytes asked for and overlaps none of
  the allocations that are left; without a block the heap is as it was but for what the hook freed.
\<close>

theorem kmalloc_aligned_safe:
  assumes "heap_inv s" and "reclaim_ok K e" and "k < 32"
  shows "\<exists>p t. kmalloc_aligned e sz (2 ^ k) s = Some (p, t) \<and> heap_inv t \<and>
    (p = 0 \<longrightarrow> kept K s t (live t)) \<and>
    (p \<noteq> 0 \<longrightarrow> 2 ^ k dvd p \<and> (\<exists>c L. sz \<le> c \<and> live t = insert (p, c) L \<and> p \<notin> fst ` L \<and> kept K s t L))"
proof -
  obtain p t where r: "kmalloc_aligned e sz (2 ^ k) s = Some (p, t)" "aligned_placed (2 ^ k) sz K s (p, t)"
    using kmalloc_aligned_placed [OF assms, of sz] by auto
  then have "heap_inv t \<and> (p = 0 \<longrightarrow> kept K s t (live t)) \<and>
    (p \<noteq> 0 \<longrightarrow> 2 ^ k dvd p \<and> (\<exists>c L. sz \<le> c \<and> live t = insert (p, c) L \<and> p \<notin> fst ` L \<and> kept K s t L))"
    by (cases "p = 0") (auto simp: aligned_placed_def placed_def)
  then show ?thesis using r(1) by blast
qed

theorem kmalloc_aligned_safe_witness:
  "\<exists>p t. kmalloc_aligned demo_env 10000 4096 demo_heap = Some (p, t) \<and> heap_inv t \<and> (p \<noteq> 0 \<longrightarrow> 4096 dvd p)"
  using kmalloc_aligned_safe [OF demo_heap_ok(2) drop_first_ok, of 12 10000] by auto

end
