(* ===== verification/Kheap_Boot.thy ===== *)
theory Kheap_Boot
  imports Kheap_Api
begin

text \<open>
  Where the heap comes from: \<open>kheap_init\<close> picks the largest piece of available memory from the
  Multiboot2 map that avoids the kernel and the map itself (\<open>consider\<close>, \<open>pick_region\<close>), and
  \<open>kheap_add_region\<close> adds memory later. The walks over the map are partial functions: \<open>None\<close> is a loop
  that does not end.
\<close>

section \<open>Model\<close>

text \<open>Little-endian reads from memory.\<close>

definition rd32 :: "(nat \<Rightarrow> byte) \<Rightarrow> nat \<Rightarrow> nat" where
  "rd32 m a = unat (m a) + 2 ^ 8 * unat (m (a + 1)) + 2 ^ 16 * unat (m (a + 2)) + 2 ^ 24 * unat (m (a + 3))"

definition rd64 :: "(nat \<Rightarrow> byte) \<Rightarrow> nat \<Rightarrow> nat" where
  "rd64 m a = rd32 m a + 2 ^ 32 * rd32 m (a + 4)"

text \<open>The excluded ranges are a list of bounds; the best piece so far is passed along.\<close>

definition meets :: "nat \<Rightarrow> nat \<Rightarrow> nat \<times> nat \<Rightarrow> bool" where
  "meets lo hi x \<longleftrightarrow> \<not> (snd x \<le> lo \<or> hi \<le> fst x)"

function consider_region :: "nat \<Rightarrow> nat \<Rightarrow> (nat \<times> nat) list \<Rightarrow> nat \<times> nat \<Rightarrow> nat \<times> nat" where
  "consider_region lo0 hi0 xs best =
     (let lo = max lo0 HEAP_MIN_ADDR;
          hi = min hi0 HEAP_MAX_ADDR
      in if hi \<le> lo then best
         else case find (meets lo hi) xs of
                Some x \<Rightarrow> consider_region (snd x) hi xs (consider_region lo (fst x) xs best)
              | None \<Rightarrow> if snd best - fst best < hi - lo then (lo, hi) else best)"
  by pat_completeness auto

lemma meets_mono: "meets lo' hi' x \<Longrightarrow> lo \<le> lo' \<Longrightarrow> hi' \<le> hi \<Longrightarrow> meets lo hi x"
  by (auto simp: meets_def)

lemma filter_meets_less:
  assumes "find (meets lo hi) xs = Some x" and "lo \<le> lo'" "hi' \<le> hi" and "\<not> meets lo' hi' x"
  shows "length (filter (meets lo' hi') xs) < length (filter (meets lo hi) xs)"
proof -
  have x: "x \<in> set xs" "meets lo hi x" using assms(1) by (auto simp: find_Some_iff)
  have "filter (meets lo' hi') xs = filter (meets lo' hi') (filter (meets lo hi) xs)"
    using meets_mono [OF _ assms(2,3)] by (auto intro!: filter_cong)
  moreover have "length (filter (meets lo' hi') (filter (meets lo hi) xs)) < length (filter (meets lo hi) xs)"
    using x assms(4) by (intro length_filter_less) auto
  ultimately show ?thesis by simp
qed

termination consider_region
proof (relation "measure (\<lambda>(lo, hi, xs, _). length (filter (meets (max lo HEAP_MIN_ADDR) (min hi HEAP_MAX_ADDR)) xs))", goal_cases)
  case 1
  show ?case by simp
next
  case (2 lo0 hi0 xs best lo hi x)
  then have "meets lo hi x" by (auto simp: find_Some_iff)
  then show ?case using 2
    by (auto intro!: filter_meets_less [of "max lo0 HEAP_MIN_ADDR" "min hi0 HEAP_MAX_ADDR"] simp: meets_def)
next
  case (3 lo0 hi0 xs best lo hi x)
  then have "meets lo hi x" by (auto simp: find_Some_iff)
  then show ?case using 3
    by (auto intro!: filter_meets_less [of "max lo0 HEAP_MIN_ADDR" "min hi0 HEAP_MAX_ADDR"] simp: meets_def)
qed

declare consider_region.simps [simp del]

text \<open>The entries of a memory map tag at \<open>mm\<close>, and the tags from \<open>off\<close> on.\<close>

partial_function (option) entry_walk ::
  "(nat \<Rightarrow> byte) \<Rightarrow> nat \<Rightarrow> (nat \<times> nat) list \<Rightarrow> nat \<Rightarrow> nat \<times> nat \<Rightarrow> (nat \<times> nat) option" where
  "entry_walk m mm xs pos best =
     (if wrap32 (pos + rd32 m (mm + 8)) \<le> rd32 m (mm + 4)
      then let e = mm + pos
           in entry_walk m mm xs (wrap32 (pos + rd32 m (mm + 8)))
                (if rd32 m (e + 16) \<noteq> 1 then best
                 else consider_region (rd64 m e) (wrap64 (rd64 m e + rd64 m (e + 8))) xs best)
      else Some best)"

partial_function (option) tag_walk ::
  "(nat \<Rightarrow> byte) \<Rightarrow> nat \<Rightarrow> nat \<Rightarrow> (nat \<times> nat) list \<Rightarrow> nat \<Rightarrow> nat \<times> nat \<Rightarrow> (nat \<times> nat) option" where
  "tag_walk m mb2 len xs off best =
     (if wrap32 (off + 8) \<le> len
      then let tag = wrap32 (mb2 + off)
           in if rd32 m tag = 0 then Some best
              else do { best \<leftarrow> (if rd32 m tag = 6 then entry_walk m tag xs 16 best else Some best);
                        let adv = align_up (rd32 m (tag + 4)) 8;
                        tag_walk m mb2 len xs (wrap32 (off + (if adv < 8 then 8 else adv))) best }
      else Some best)"

definition excluded :: "(nat \<Rightarrow> byte) \<Rightarrow> nat \<Rightarrow> nat \<Rightarrow> (nat \<times> nat) list" where
  "excluded m mb2 kernel_end = [(0x100000, align_up kernel_end 4096), (mb2, mb2 + rd32 m mb2)]"

definition pick_region :: "(nat \<Rightarrow> byte) \<Rightarrow> nat \<Rightarrow> nat \<Rightarrow> (nat \<times> nat) option option" where
  "pick_region m mb2 kernel_end =
     (if mb2 = 0 then Some None
      else do { (lo, hi) \<leftarrow> tag_walk m mb2 (rd32 m mb2) (excluded m mb2 kernel_end) 8 (0, 0);
                Some (if hi \<le> lo then None else Some (lo, hi)) })"

definition kheap_init :: "(nat \<Rightarrow> byte) \<Rightarrow> nat \<Rightarrow> nat \<Rightarrow> kheap option" where
  "kheap_init m mb2 kernel_end =
     do { r \<leftarrow> pick_region m mb2 kernel_end;
          Some (case r of
                  Some (lo, hi) \<Rightarrow>
                    if 2 ^ 20 \<le> hi - lo then kheap_setup (align_up (wrap32 lo) 4096) (wrap32 hi) (kheap0 m)
                    else kheap_setup (align_up kernel_end 4096) (2 ^ 24) (kheap0 m)
                | None \<Rightarrow> kheap_setup (align_up kernel_end 4096) (2 ^ 24) (kheap0 m)) }"


section \<open>What the search gives\<close>

text \<open>The best piece is nothing yet, or a piece of one available entry that avoids what is excluded.\<close>

definition available :: "(nat \<Rightarrow> byte) \<Rightarrow> nat \<times> nat \<Rightarrow> bool" where
  "available m r \<longleftrightarrow> (\<exists>e. rd32 m (e + 16) = 1 \<and> rd64 m e \<le> fst r \<and> snd r \<le> wrap64 (rd64 m e + rd64 m (e + 8)))"

definition piece_ok :: "(nat \<Rightarrow> byte) \<Rightarrow> (nat \<times> nat) list \<Rightarrow> nat \<times> nat \<Rightarrow> bool" where
  "piece_ok m xs r \<longleftrightarrow> snd r \<le> fst r \<or> (HEAP_MIN_ADDR \<le> fst r \<and> snd r \<le> HEAP_MAX_ADDR \<and>
     (\<forall>x\<in>set xs. \<not> meets (fst r) (snd r) x) \<and> available m r)"

lemma consider_region_piece:
  assumes "piece_ok m xs best" and "available m (lo, hi)"
  shows "piece_ok m xs (consider_region lo hi xs best)"
  using assms
proof (induction lo hi xs best rule: consider_region.induct)
  case (1 lo0 hi0 xs best)
  define lo hi where "lo = max lo0 HEAP_MIN_ADDR" and "hi = min hi0 HEAP_MAX_ADDR"
  have av: "available m (lo, hi)" using "1.prems"(2) by (auto simp: available_def lo_def hi_def)
  note step = consider_region.simps [of lo0 hi0 xs best, folded lo_def hi_def, unfolded Let_def]
  show ?case
  proof (cases "hi \<le> lo")
    case True
    then show ?thesis using "1.prems"(1) step by (simp add: lo_def hi_def)
  next
    case False
    show ?thesis
    proof (cases "find (meets lo hi) xs")
      case None
      then have "\<forall>x\<in>set xs. \<not> meets lo hi x" by (auto simp: find_None_iff)
      then have "piece_ok m xs (lo, hi)" using av by (auto simp: piece_ok_def lo_def hi_def)
      then show ?thesis using None False "1.prems"(1) step by (simp add: lo_def hi_def)
    next
      case (Some x)
      then have "meets lo hi x" by (auto simp: find_Some_iff)
      then have "available m (lo, fst x)" "available m (snd x, hi)" using av by (auto simp: available_def meets_def)
      then show ?thesis using "1.IH" [of lo hi x] "1.prems"(1) Some False step by (auto simp: lo_def hi_def)
    qed
  qed
qed

lemma entry_walk_piece:
  assumes "entry_walk m mm xs pos best = Some r" and "piece_ok m xs best"
  shows "piece_ok m xs r"
proof -
  have "piece_ok m xs best \<longrightarrow> piece_ok m xs r"
  proof (rule entry_walk.raw_induct [where P = "\<lambda>m mm xs pos best r. piece_ok m xs best \<longrightarrow> piece_ok m xs r", OF _ assms(1)],
      intro impI, goal_cases)
    case (1 walk m mm xs pos best r)
    let ?e = "mm + pos"
    let ?best = "if rd32 m (?e + 16) \<noteq> 1 then best
      else consider_region (rd64 m ?e) (wrap64 (rd64 m ?e + rd64 m (?e + 8))) xs best"
    have best: "piece_ok m xs ?best"
    proof (cases "rd32 m (?e + 16) = 1")
      case True
      then have "available m (rd64 m ?e, wrap64 (rd64 m ?e + rd64 m (?e + 8)))" unfolding available_def by force
      then show ?thesis using consider_region_piece [OF 1(3)] True by simp
    qed (use 1(3) in simp)
    show ?case
    proof (cases "wrap32 (pos + rd32 m (mm + 8)) \<le> rd32 m (mm + 4)")
      case True
      then have "walk m mm xs (wrap32 (pos + rd32 m (mm + 8))) ?best = Some r" using 1(2) by (simp only: Let_def if_True)
      from 1(1) [OF this] best show ?thesis by blast
    next
      case False
      then show ?thesis using 1(2,3) by (simp only: if_False option.inject)
    qed
  qed
  then show ?thesis using assms(2) by blast
qed

lemma tag_walk_piece:
  assumes "tag_walk m mb2 len xs off best = Some r" and "piece_ok m xs best"
  shows "piece_ok m xs r"
proof -
  have "piece_ok m xs best \<longrightarrow> piece_ok m xs r"
  proof (rule tag_walk.raw_induct [where P = "\<lambda>m mb2 len xs off best r. piece_ok m xs best \<longrightarrow> piece_ok m xs r", OF _ assms(1)],
      intro impI, goal_cases)
    case (1 walk m mb2 len xs off best r)
    let ?tag = "wrap32 (mb2 + off)"
    show ?case
    proof (cases "wrap32 (off + 8) \<le> len \<and> rd32 m ?tag \<noteq> 0")
      case False
      then have "r = best" using 1(2) by (auto simp: Let_def split: if_splits)
      then show ?thesis using 1(3) by simp
    next
      case True
      then obtain best' off' where b: "(if rd32 m ?tag = 6 then entry_walk m ?tag xs 16 best else Some best) = Some best'"
        "walk m mb2 len xs off' best' = Some r"
        using 1(2) by (auto simp: Let_def bind_eq_Some_conv)
      have "piece_ok m xs best'" using b(1) 1(3) entry_walk_piece by (auto split: if_splits)
      then show ?thesis using 1(1) [OF b(2)] by simp
    qed
  qed
  then show ?thesis using assms(2) by blast
qed


section \<open>The walks end on a well-formed map\<close>

definition tags_ok :: "(nat \<Rightarrow> byte) \<Rightarrow> nat \<Rightarrow> bool" where
  "tags_ok m mb2 \<longleftrightarrow> rd32 m mb2 < 2 ^ 31 \<and> mb2 + rd32 m mb2 < 2 ^ 32 \<and>
     (\<forall>off. 8 dvd off \<and> off + 8 \<le> rd32 m mb2 \<longrightarrow> rd32 m (mb2 + off + 4) < 2 ^ 30 \<and>
       (rd32 m (mb2 + off) = 6 \<longrightarrow> 0 < rd32 m (mb2 + off + 8) \<and> rd32 m (mb2 + off + 8) < 2 ^ 30))"

lemma entry_walk_ends:
  assumes "0 < rd32 m (mm + 8)" "rd32 m (mm + 8) < 2 ^ 30" "rd32 m (mm + 4) < 2 ^ 30" "pos < 2 ^ 31"
  shows "\<exists>r. entry_walk m mm xs pos best = Some r"
  using assms(4)
proof (induction "rd32 m (mm + 4) - pos" arbitrary: pos best rule: less_induct)
  case less
  have w: "wrap32 (pos + rd32 m (mm + 8)) = pos + rd32 m (mm + 8)" using less.prems assms(2) by simp
  show ?case
  proof (cases "pos + rd32 m (mm + 8) \<le> rd32 m (mm + 4)")
    case True
    have "\<exists>r. entry_walk m mm xs (pos + rd32 m (mm + 8)) b = Some r" for b
      by (rule less.hyps) (use True assms in auto)
    then show ?thesis by (subst entry_walk.simps) (simp add: w Let_def)
  next
    case False
    then show ?thesis by (subst entry_walk.simps) (simp add: w)
  qed
qed


lemma tag_walk_ends:
  assumes ok: "tags_ok m mb2" and "8 dvd off" "off < 2 ^ 31"
  shows "\<exists>r. tag_walk m mb2 (rd32 m mb2) xs off best = Some r"
  using assms(2,3)
proof (induction "rd32 m mb2 - off" arbitrary: off best rule: less_induct)
  case less
  have w: "wrap32 (off + 8) = off + 8" using less.prems by simp
  show ?case
  proof (cases "off + 8 \<le> rd32 m mb2")
    case False
    then show ?thesis by (subst tag_walk.simps) (simp add: w)
  next
    case True
    then have tag: "wrap32 (mb2 + off) = mb2 + off" using ok by (simp add: tags_ok_def)
    have sizes: "rd32 m (mb2 + off + 4) < 2 ^ 30"
      "rd32 m (mb2 + off) = 6 \<Longrightarrow> 0 < rd32 m (mb2 + off + 8) \<and> rd32 m (mb2 + off + 8) < 2 ^ 30"
      using ok True less.prems by (auto simp: tags_ok_def)
    obtain best' where b: "(if rd32 m (mb2 + off) = 6 then entry_walk m (mb2 + off) xs 16 best else Some best) = Some best'"
      using entry_walk_ends [of m "mb2 + off" 16 xs best] sizes by (cases "rd32 m (mb2 + off) = 6") auto
    let ?adv = "align_up (rd32 m (mb2 + off + 4)) 8"
    have al: "?adv = (rd32 m (mb2 + off + 4) + 7) div 8 * 8" using align_up_eq [of 3] sizes(1) by simp
    define d where "d = (if ?adv < 8 then 8 else ?adv)"
    have "8 dvd ?adv" "?adv \<le> rd32 m (mb2 + off + 4) + 7" unfolding al by simp_all
    then have d: "8 dvd d" "8 \<le> d" "d < 2 ^ 30 + 16" using sizes(1) by (auto simp: d_def)
    let ?off = "off + d"
    have adv: "8 dvd ?off" "off < ?off" "?off + 8 < 2 ^ 32" "rd32 m mb2 < 2 ^ 31"
      using d less.prems ok by (auto simp: tags_ok_def)
    have "\<exists>r. tag_walk m mb2 (rd32 m mb2) xs ?off best' = Some r"
    proof (cases "?off + 8 \<le> rd32 m mb2")
      case True
      show ?thesis by (rule less.hyps) (use adv True in auto)
    next
      case False
      then show ?thesis using adv(3) by (subst tag_walk.simps) simp
    qed
    then show ?thesis using True b adv(3) by (subst tag_walk.simps) (simp add: w tag Let_def d_def [symmetric])
  qed
qed

lemma pick_region_ends:
  assumes "mb2 = 0 \<or> tags_ok m mb2"
  shows "\<exists>r. pick_region m mb2 kernel_end = Some r"
proof (cases "mb2 = 0")
  case False
  obtain b where "tag_walk m mb2 (rd32 m mb2) (excluded m mb2 kernel_end) 8 (0, 0) = Some b"
    using tag_walk_ends [of m mb2 8 "excluded m mb2 kernel_end" "(0, 0)"] assms False by auto
  then show ?thesis using False by (simp add: pick_region_def split: prod.splits)
qed (simp add: pick_region_def)

lemma pick_region_piece:
  assumes "pick_region m mb2 kernel_end = Some (Some (lo, hi))"
  shows "lo < hi" and "piece_ok m (excluded m mb2 kernel_end) (lo, hi)"
proof -
  have walk: "tag_walk m mb2 (rd32 m mb2) (excluded m mb2 kernel_end) 8 (0, 0) = Some (lo, hi)" and lt: "lo < hi"
    using assms by (auto simp: pick_region_def bind_eq_Some_conv split: if_splits)
  show "lo < hi" by (rule lt)
  show "piece_ok m (excluded m mb2 kernel_end) (lo, hi)"
    by (rule tag_walk_piece [OF walk]) (simp add: piece_ok_def)
qed

lemma align_page:
  assumes "v \<le> 0xFFFFF000"
  shows "16 dvd align_up v 4096" and "v \<le> align_up v 4096" and "align_up v 4096 < v + 4096"
proof -
  have eq: "align_up v 4096 = (v + 4095) div 4096 * 4096" using align_up_eq [of 12 v] assms by simp
  have "(4096::nat) dvd (v + 4095) div 4096 * 4096" "(16::nat) dvd 4096" by simp_all
  then show "16 dvd align_up v 4096" unfolding eq by (metis dvd_trans)
  show "align_up v 4096 < v + 4096" unfolding eq using div_times_less_eq_dividend [of "v + 4095" 4096] by linarith
  show "v \<le> align_up v 4096" unfolding eq using dividend_less_div_times [of 4096 "v + 4095"] by simp
qed

text \<open>What the heap may touch: every block and its header.\<close>

definition spans :: "kheap \<Rightarrow> nat \<Rightarrow> nat \<Rightarrow> bool" where
  "spans s lo hi \<longleftrightarrow> (\<exists>bs. heap_ok s bs \<and> (\<forall>b\<in>set bs. lo \<le> b \<and> blk_end s b \<le> hi))"

lemma kheap_setup_spans:
  assumes "v \<le> 0xFFFFF000" "v + 8192 \<le> e" "e \<le> HEAP_MAX_ADDR" "0 < v"
  shows "spans (kheap_setup (align_up v 4096) e (kheap0 m)) v e" and "live (kheap_setup (align_up v 4096) e (kheap0 m)) = {}"
proof -
  note A = align_page [OF assms(1)]
  have c: "16 dvd align_up v 4096" "0 < align_up v 4096" "align_up v 4096 + HDR + 32 \<le> e"
    using A assms by (auto simp: HDR_def)
  note S = kheap_setup_ok [OF c assms(3), of m]
  have "blk_end (kheap_setup (align_up v 4096) e (kheap0 m)) (align_up v 4096) \<le> e"
    using S(3) c(3) by (simp add: blk_end_def)
  then show "spans (kheap_setup (align_up v 4096) e (kheap0 m)) v e" using S(1) A(2) by (auto simp: spans_def)
  show "live (kheap_setup (align_up v 4096) e (kheap0 m)) = {}" by (rule S(2))
qed


section \<open>Memory added later\<close>

text \<open>\<open>kheap_add_region\<close>: the walk to the last block, and a free block between two used markers.\<close>

partial_function (option) last_block :: "nat \<Rightarrow> kheap \<Rightarrow> nat option" where
  "last_block t s = (if bnext (blk s t) \<noteq> 0 then last_block (bnext (blk s t)) s else Some t)"

definition kheap_add_region :: "nat \<Rightarrow> nat \<Rightarrow> kheap \<Rightarrow> kheap option" where
  "kheap_add_region lo0 hi0 s =
     (let lo = wrap64 (lo0 + 15) - wrap64 (lo0 + 15) mod ALIGN;
          hi = hi0 - hi0 mod ALIGN
      in if g_head s = 0 \<or> hi \<le> lo \<or> hi - lo < 3 * HDR + MIN_SPLIT \<or> 0xF0000000 < hi - lo then Some s
         else let lead = lo;
                  b = lo + HDR;
                  tl = hi - HDR;
                  s = set_size lead 0 s;
                  s = set_used lead HEAP_MAGIC s;
                  s = set_size b (wrap32 (tl - b - HDR)) s;
                  s = set_used b 0 s;
                  s = set_size tl 0 s;
                  s = set_used tl HEAP_MAGIC s
              in do { t \<leftarrow> last_block (g_head s) s;
                      let s = set_next t lead s;
                          s = set_prev lead t s;
                          s = set_next lead b s;
                          s = set_prev b lead s;
                          s = set_next b tl s;
                          s = set_prev tl b s;
                          s = set_next tl 0 s;
                          s = s\<lparr>g_total := wrap32 (g_total s + bsize (blk s b))\<rparr>
                      in Some (bin_insert b s) })"

lemma last_block_ends:
  assumes "dll (bnx s) (bpv s) h (ys @ b # zs)"
  shows "last_block b s = Some (last (b # zs))"
  using assms
proof (induction zs arbitrary: ys b)
  case Nil
  then show ?case using dll_links(1) [OF Nil] by (subst last_block.simps) simp
next
  case (Cons c zs)
  have "bnx s b = c" "c \<noteq> 0" using dll_links(1) [OF Cons.prems] dll_nonzero [OF Cons.prems] by auto
  then show ?case using Cons.IH [of "ys @ [b]" c] Cons.prems by (subst last_block.simps) simp
qed

lemma add_markers_flight:
  assumes ok: "heap_ok s bs" and al: "16 dvd lo" "16 dvd hi" "0 < lo" and room: "lo + 3 * HDR + 16 \<le> hi" "hi \<le> HEAP_MAX_ADDR"
    and apart: "\<And>x. x \<in> set bs \<Longrightarrow> blk_end s x \<le> lo \<or> hi \<le> x"
    and b: "b = lo + HDR" and e: "e = hi - HDR"
    and sz: "\<And>x. bsz t x = (if x = lo \<or> x = e then 0 else if x = b then e - b - HDR else bsz s x)"
    and us: "\<And>x. bus t x = (if x = lo \<or> x = e then HEAP_MAGIC else if x = b then 0 else bus s x)"
    and nx: "\<And>x. bnx t x = (if x = last bs then lo else if x = lo then b else if x = b then e else if x = e then 0 else bnx s x)"
    and pv: "\<And>x. bpv t x = (if x = lo then last bs else if x = b then lo else if x = e then b else bpv s x)"
    and rest: "g_head t = g_head s" "links t = links s" "g_bin t = g_bin s" "g_flmap t = g_flmap s" "g_slmap t = g_slmap s"
  shows "in_flight t ((bs @ [lo]) @ b # [e]) {b}" and "lo \<notin> set bs \<and> b \<notin> set bs \<and> e \<notin> set bs"
proof -
  note H = heap_okD [OF ok] and L = list_okD [OF heap_okD(1) [OF ok]]
  have lt: "lo < b" "b < e" "e < hi" "blk_end t lo = b" "blk_end t b = e" "blk_end t e = hi"
    using room b e by (auto simp: blk_end_def sz HDR_def)
  show fresh: "lo \<notin> set bs \<and> b \<notin> set bs \<and> e \<notin> set bs"
    using apart [of lo] apart [of b] apart [of e] lt by (auto simp: blk_end_def HDR_def)
  have same: "bsz t x = bsz s x" "bus t x = bus s x" "blk_end t x = blk_end s x" if "x \<in> set bs" for x
    using that fresh by (auto simp: sz us blk_end_def)
  have "dll (bnx t) (bpv t) (g_head t) (bs @ [lo, b, e])"
  proof -
    have l: "last bs \<in> set bs" using H(5) by simp
    have seg: "dseg (bnx t) (bpv t) (last bs) lo [lo, b, e] 0" using lt al l fresh by (auto simp: nx pv)
    have "bnx t x = bnx s x" if "x \<in> set (butlast bs)" for x
      using that L(5) H(5) fresh by (cases bs rule: rev_cases) (auto simp: nx dest: in_set_butlastD)
    moreover have "bpv t x = bpv s x" if "x \<in> set bs" for x using that fresh by (auto simp: pv)
    ultimately show ?thesis using dll_append [OF L(1) H(5) seg] by (simp add: nx rest)
  qed
  moreover have "block_ok t x" if "x \<in> set (bs @ [lo, b, e])" for x
  proof (cases "x \<in> set bs")
    case True
    then show ?thesis using L(2) [OF True] same by (subst block_ok_cong [of _ _ s]) auto
  next
    case False
    have "16 dvd e - b - HDR" "16 \<le> e - b - HDR" using al b e room lt by (auto simp: HDR_def intro!: dvd_diff_nat)
    then show ?thesis using False that al b e room lt by (auto simp: block_ok_def sz us HDR_def blk_end_def)
  qed
  moreover have "successively (follows t) (bs @ [lo, b, e])"
  proof -
    have "successively (follows t) bs" using successively_follows_cong [OF L(3)] same by simp
    moreover have "follows t (last bs) lo" "follows t lo b" "follows t b e" using lt by (auto simp: follows_def sz us)
    ultimately show ?thesis by (auto simp: successively_append_iff)
  qed
  moreover have "apart t x y" if xy: "x \<in> set (bs @ [lo, b, e])" "y \<in> set (bs @ [lo, b, e])" "x \<noteq> y" for x y
  proof -
    have old: "x \<in> set bs \<Longrightarrow> y \<in> set bs \<Longrightarrow> apart t x y" using L(4) [of x y] xy(3) same by (auto simp: apart_def)
    have mix: "apart t u v" if "u \<in> set bs" "v = lo \<or> v = b \<or> v = e" for u v
      using apart [OF that(1)] that same lt by (auto simp: apart_def)
    show ?thesis using xy old mix [of x y] mix [of y x] lt by (auto simp: apart_sym [of t x y]) (auto simp: apart_def)
  qed
  ultimately have "list_ok t (bs @ [lo, b, e])" unfolding list_ok_def by blast
  moreover have "bins_ok t (free_set t (bs @ [lo, b, e]) - {b})"
  proof -
    have "free_set t (bs @ [lo, b, e]) - {b} = free_set s bs" using fresh lt by (auto simp: free_set_def us)
    moreover have "bins_ok t (free_set s bs)"
      using H(2) by (rule bins_ok_cong) (use rest same in \<open>auto simp: free_set_def\<close>)
    ultimately show ?thesis by simp
  qed
  moreover have "no_meet t {b} (bs @ [lo, b, e])"
  proof -
    have "no_meet t {b} bs" using H(3) by (rule no_meet_cong) (use same in auto)
    then show ?thesis by (auto simp: no_meet_def successively_append_iff us)
  qed
  ultimately show "in_flight t ((bs @ [lo]) @ b # [e]) {b}" by (simp add: in_flight_def)
qed

lemma kheap_add_region_ok:
  assumes ok: "heap_ok s bs" and r: "0 < lo0" "lo0 < hi0" "hi0 \<le> HEAP_MAX_ADDR"
    and apart: "\<And>x. x \<in> set bs \<Longrightarrow> blk_end s x \<le> lo0 \<or> hi0 \<le> x"
  shows "\<exists>t bs'. kheap_add_region lo0 hi0 s = Some t \<and> heap_ok t (bs @ bs') \<and>
    (lo0 + 3 * HDR + MIN_SPLIT + 32 \<le> hi0 \<longrightarrow> (\<exists>x \<in> set bs'. lo0 \<le> x \<and> x < hi0)) \<and> used_set s bs \<subseteq> used_set t (bs @ bs') \<and>
    (\<forall>x \<in> used_set t (bs @ bs'). bsz t x = (if x \<in> used_set s bs then bsz s x else 0)) \<and> mem t = mem s"
proof -
  define lo hi where "lo = lo0 + 15 - (lo0 + 15) mod 16" and "hi = hi0 - hi0 mod 16"
  have b: "lo0 \<le> lo" "hi \<le> hi0" "16 dvd lo" "16 dvd hi" "0 < lo"
    using r by (auto simp: lo_def hi_def intro: dvd_minus_mod)
  have w: "wrap64 (lo0 + 15) = lo0 + 15" using r by (simp add: HEAP_MAX_ADDR_def)
  show ?thesis
  proof (cases "hi \<le> lo \<or> hi - lo < 3 * HDR + MIN_SPLIT")
    case True
    then have "kheap_add_region lo0 hi0 s = Some s"
      by (auto simp: kheap_add_region_def w lo_def hi_def ALIGN_def Let_def)
    moreover have "\<not> lo0 + 3 * HDR + MIN_SPLIT + 32 \<le> hi0"
      using True mod_less_divisor [of 16 hi0] by (auto simp: lo_def hi_def HDR_def MIN_SPLIT_def)
    ultimately show ?thesis using ok by (intro exI [of _ s] exI [of _ "[]"]) auto
  next
    case False
    define bl e where "bl = lo + HDR" and "e = hi - HDR"
    have sz: "e - bl - HDR < 2 ^ 32" "lo < bl" "bl < e" "e < hi" "lo + 3 * HDR + 16 \<le> hi"
      using False b r by (auto simp: bl_def e_def HDR_def MIN_SPLIT_def HEAP_MAX_ADDR_def)
    define s1 where "s1 = set_used e HEAP_MAGIC (set_size e 0 (set_used bl 0 (set_size bl (wrap32 (e - bl - HDR))
      (set_used lo HEAP_MAGIC (set_size lo 0 s)))))"
    have s1: "bnx s1 x = bnx s x" "bpv s1 x = bpv s x" "g_head s1 = g_head s" for x
      by (simp_all add: s1_def heap_simps)
    note H = heap_okD [OF ok] and L = list_okD [OF heap_okD(1) [OF ok]]
    have fresh: "lo \<notin> set bs" "bl \<notin> set bs" "e \<notin> set bs" and lst: "last bs \<in> set bs"
      using apart [of lo] apart [of bl] apart [of e] b sz H(5) by (auto simp: blk_end_def HDR_def)
    have last: "last_block (g_head s1) s1 = Some (last bs)"
    proof -
      obtain c cs where bs: "bs = c # cs" using H(5) by (cases bs) auto
      have "dll (bnx s1) (bpv s1) (g_head s) ([] @ c # cs)" using L(1) bs by (subst dll_cong [of _ _ "bnx s" _ "bpv s"]) (auto simp: s1)
      from last_block_ends [OF this] show ?thesis using dll_head [OF L(1)] bs by (simp add: s1)
    qed
    define s2 where "s2 = set_next e 0 (set_prev e bl (set_next bl e (set_prev bl lo (set_next lo bl (set_prev lo (last bs)
      (set_next (last bs) lo s1))))))"
    define u where "u = s2\<lparr>g_total := wrap32 (g_total s2 + bsz s2 bl)\<rparr>"
    have cond: "\<not> (g_head s = 0 \<or> hi \<le> lo \<or> hi - lo < 3 * HDR + MIN_SPLIT \<or> 0xF0000000 < hi - lo)"
      using False heap_inv_head [of s] ok b r by (auto simp: heap_inv_def HEAP_MAX_ADDR_def)
    have out: "kheap_add_region lo0 hi0 s = Some (bin_insert bl u)"
      using cond last unfolding kheap_add_region_def w ALIGN_def Let_def lo_def [symmetric] hi_def [symmetric]
        bl_def [symmetric] e_def [symmetric] s1_def [symmetric]
      by (simp add: u_def s2_def Let_def)
    have F: "in_flight u ((bs @ [lo]) @ bl # [e]) {bl}"
    proof (rule add_markers_flight(1) [OF ok b(3,4,5) sz(5) _ _ bl_def e_def])
      show "hi \<le> HEAP_MAX_ADDR" using b r by simp
      show "x \<in> set bs \<Longrightarrow> blk_end s x \<le> lo \<or> hi \<le> x" for x using apart [of x] b by auto
    qed (use sz fresh lst in \<open>auto simp: u_def s2_def s1_def heap_simps\<close>)
    have fields: "bsz u x = (if x = lo \<or> x = e then 0 else if x = bl then e - bl - HDR else bsz s x)"
      "bus u x = (if x = lo \<or> x = e then HEAP_MAGIC else if x = bl then 0 else bus s x)"
      "mem u = mem s" "g_used u = g_used s" for x
      using sz fresh lst by (auto simp: u_def s2_def s1_def heap_simps set_size_def set_used_def set_prev_def set_next_def)
    let ?t = "bin_insert bl u" and ?bs = "(bs @ [lo]) @ bl # [e]"
    have fl: "in_flight ?t ?bs {}" by (rule bin_insert_flight) (use F fields sz in auto)
    have used: "used_set ?t ?bs = insert lo (insert e (used_set s bs))"
      using fresh sz by (auto simp: used_set_def heap_simps fields)
    have sizes: "bsz ?t x = (if x \<in> used_set s bs then bsz s x else 0)" if "x \<in> used_set ?t ?bs" for x
      using that fresh used by (auto simp: heap_simps fields used_set_def)
    have "sum (bsz ?t) (used_set ?t ?bs) = sum (bsz s) (used_set s bs)"
    proof -
      have "lo \<notin> used_set s bs" "e \<notin> used_set s bs" "lo \<noteq> e" using fresh sz by (auto simp: used_set_def)
      then show ?thesis using fresh sizes unfolding used by simp
    qed
    then have "heap_ok ?t ?bs" using fl H(4) by (simp add: heap_ok_def heap_simps fields)
    then show ?thesis using out used sizes by (intro exI [of _ ?t] exI [of _ "[lo, bl, e]"]) (use b sz in \<open>auto simp: heap_simps fields\<close>)
  qed
qed


text \<open>A map with one entry: 127 MiB from 1 MiB on.\<close>

definition demo_map :: "nat \<Rightarrow> byte" where
  "demo_map a = (if 0x9000 \<le> a \<and> a < 0x9038 then
     [56,0,0,0, 0,0,0,0, 6,0,0,0, 40,0,0,0, 24,0,0,0, 0,0,0,0,
      0,0,16,0, 0,0,0,0, 0,0,240,7, 0,0,0,0, 1,0,0,0, 0,0,0,0, 0,0,0,0, 8,0,0,0] ! (a - 0x9000) else 0)"

lemma demo_map_ok: "tags_ok demo_map 0x9000"
proof -
  have "rd32 demo_map 0x9000 = 56" by (simp add: rd32_def demo_map_def)
  moreover have "rd32 demo_map (0x9000 + off + 4) < 2 ^ 30 \<and>
    (rd32 demo_map (0x9000 + off) = 6 \<longrightarrow> 0 < rd32 demo_map (0x9000 + off + 8) \<and> rd32 demo_map (0x9000 + off + 8) < 2 ^ 30)"
    if "8 dvd off" "off + 8 \<le> 56" for off
  proof -
    have "off \<in> {0, 8, 16, 24, 32, 40, 48}" using that by (auto elim!: dvdE)
    then show ?thesis by (auto simp: rd32_def demo_map_def)
  qed
  ultimately show ?thesis by (simp add: tags_ok_def)
qed

section \<open>Properties\<close>





end
