(* ===== verification/Kheap_Check.thy ===== *)
theory Kheap_Check
  imports Kheap_Boot
begin

text \<open>
  The heap's check of itself, \<open>kheap_check\<close> in \<open>kernel/kheap.c\<close>, and its statistics. The message of the
  check is kept as a value (\<open>problem\<close>) with the address it prints. The walks are partial functions.
\<close>

section \<open>Model\<close>

datatype problem = Overwritten | BackLinks | NotInOrder | SideBySide | NotInBin | BitmapWrong nat nat | CountWrong nat nat

record check =
  bad :: nat
  err :: "(problem \<times> nat) option"

definition report :: "problem \<Rightarrow> nat \<Rightarrow> check \<Rightarrow> check" where
  "report why b c = \<lparr>bad = bad c + 1, err = (if bad c = 0 then Some (why, b) else err c)\<rparr>"

partial_function (option) in_bin :: "nat \<Rightarrow> nat \<Rightarrow> kheap \<Rightarrow> bool option" where
  "in_bin x b s = (if x \<noteq> 0 \<and> x \<noteq> b then in_bin (lnext (links s x)) b s else Some (x \<noteq> 0))"

definition check_block :: "nat \<Rightarrow> nat \<Rightarrow> kheap \<Rightarrow> (problem option \<times> nat) option" where
  "check_block prev b s =
     (if bused (blk s b) \<noteq> 0 \<and> bused (blk s b) \<noteq> HEAP_MAGIC then Some (Some Overwritten, 0)
      else if bprev (blk s b) \<noteq> prev then Some (Some BackLinks, 0)
      else if prev \<noteq> 0 \<and> b \<le> prev then Some (Some NotInOrder, 0)
      else if prev \<noteq> 0 \<and> bused (blk s prev) = 0 \<and> bused (blk s b) = 0 then Some (Some SideBySide, 0)
      else if bused (blk s b) = 0
      then do { found \<leftarrow> (let (fl, sl) = bin_of (bsize (blk s b)) in in_bin (g_bin s fl sl) b s);
                Some (if found then None else Some NotInBin, 1) }
      else Some (None, 0))"

partial_function (option) check_list :: "nat \<Rightarrow> nat \<Rightarrow> check \<Rightarrow> nat \<Rightarrow> kheap \<Rightarrow> (check \<times> nat) option" where
  "check_list prev b c nfree s =
     (if b = 0 then Some (c, nfree)
      else do { (why, n) \<leftarrow> check_block prev b s;
                let c = (case why of None \<Rightarrow> c | Some w \<Rightarrow> report w b c);
                if 100 < bad c then Some (c, nfree + n)
                else check_list b (bnext (blk s b)) c (nfree + n) s })"

function count_bin :: "nat \<Rightarrow> nat \<Rightarrow> nat \<Rightarrow> kheap \<Rightarrow> nat" where
  "count_bin x inbins nfree s =
     (if x \<noteq> 0 \<and> inbins \<le> nfree + 1 then count_bin (lnext (links s x)) (inbins + 1) nfree s else inbins)"
  by pat_completeness auto
termination count_bin by (relation "measure (\<lambda>(x, inbins, nfree, s). nfree + 2 - inbins)") auto

declare count_bin.simps [simp del]

definition check_bin :: "nat \<Rightarrow> kheap \<Rightarrow> nat \<times> nat \<Rightarrow> check \<times> nat \<Rightarrow> check \<times> nat" where
  "check_bin nfree s p cn =
     (let (fl, sl) = p;
          has = (g_bin s fl sl \<noteq> 0);
          c = (if has \<noteq> bit (g_slmap s fl) sl \<or> (has \<and> \<not> bit (g_flmap s) fl)
               then report (BitmapWrong fl sl) 0 (fst cn) else fst cn)
      in (c, count_bin (g_bin s fl sl) (snd cn) nfree s))"

definition all_bins :: "(nat \<times> nat) list" where
  "all_bins = List.product [0..<FL_N] [0..<SL_N]"

definition kheap_check :: "kheap \<Rightarrow> check option" where
  "kheap_check s =
     do { (c, nfree) \<leftarrow> check_list 0 (g_head s) \<lparr>bad = 0, err = None\<rparr> 0 s;
          let (c, inbins) = fold (check_bin nfree s) all_bins (c, 0);
          Some (if inbins \<noteq> nfree then report (CountWrong inbins nfree) 0 c else c) }"

partial_function (option) count_free :: "nat \<Rightarrow> nat \<Rightarrow> kheap \<Rightarrow> nat option" where
  "count_free b n s =
     (if b = 0 then Some n else count_free (bnext (blk s b)) (if bused (blk s b) = 0 then n + 1 else n) s)"

definition kheap_free_blocks :: "kheap \<Rightarrow> nat option" where
  "kheap_free_blocks s = count_free (g_head s) 0 s"

partial_function (option) find_largest :: "nat \<Rightarrow> nat \<Rightarrow> kheap \<Rightarrow> nat option" where
  "find_largest b best s =
     (if b = 0 then Some best
      else find_largest (bnext (blk s b)) (if bused (blk s b) = 0 \<and> best < bsize (blk s b) then bsize (blk s b) else best) s)"

definition kheap_largest_free :: "kheap \<Rightarrow> nat option" where
  "kheap_largest_free s = find_largest (g_head s) 0 s"


section \<open>The statistics\<close>

lemma walk_next:
  assumes "heap_ok s (ys @ b # zs)"
  shows "bnx s b = hd0 zs" and "bpv s b = last0 ys" and "b \<noteq> 0"
proof -
  note L = list_okD [OF heap_okD(1) [OF assms]]
  show "bnx s b = hd0 zs" "bpv s b = last0 ys" "b \<noteq> 0" using dll_links [OF L(1)] L(6) by auto
qed

lemma walk_head: "heap_ok s bs \<Longrightarrow> g_head s = hd0 bs"
  using dll_head list_okD(1) heap_okD(1) by blast

lemma count_free_eq:
  assumes "heap_ok s (ys @ zs)"
  shows "count_free (hd0 zs) n s = Some (n + length (filter (\<lambda>x. bus s x = 0) zs))"
  using assms
proof (induction zs arbitrary: ys n)
  case Nil
  then show ?case by (subst count_free.simps) simp
next
  case (Cons b zs)
  note W = walk_next [OF Cons.prems]
  show ?case using Cons.IH [of "ys @ [b]"] Cons.prems W by (subst count_free.simps) simp
qed

lemma find_largest_eq:
  assumes "heap_ok s (ys @ zs)"
  shows "find_largest (hd0 zs) best s = Some (Max (insert best (bsz s ` free_set s zs)))"
  using assms
proof (induction zs arbitrary: ys best)
  case Nil
  then show ?case by (subst find_largest.simps) (simp add: free_set_def)
next
  case (Cons b zs)
  note W = walk_next [OF Cons.prems]
  have fs: "free_set s (b # zs) = (if bus s b = 0 then insert b (free_set s zs) else free_set s zs)"
    by (auto simp: free_set_def)
  have fin: "finite (free_set s zs)" by (simp add: free_set_def)
  let ?best = "if bus s b = 0 \<and> best < bsz s b then bsz s b else best"
  have "find_largest b best s = Some (Max (insert ?best (bsz s ` free_set s zs)))"
    using Cons.IH [of "ys @ [b]" ?best] Cons.prems W
    by (subst find_largest.simps) (simp split del: if_split)
  moreover have "Max (insert ?best (bsz s ` free_set s zs)) = Max (insert best (bsz s ` free_set s (b # zs)))"
    using fin by (cases "free_set s zs = {}") (auto simp: fs max_def)
  ultimately show ?case by (simp only: hd0_simps)
qed


section \<open>The check\<close>

lemma in_bin_found:
  assumes "dll (lnx s) (lpv s) h (ys @ zs)" and "b \<in> set zs"
  shows "in_bin (hd0 zs) b s = Some True"
  using assms
proof (induction zs arbitrary: ys)
  case (Cons x zs)
  have x: "x \<noteq> 0" "lnx s x = hd0 zs" using dll_links(1) [OF Cons.prems(1)] dll_nonzero [OF Cons.prems(1)] by auto
  show ?case
  proof (cases "x = b")
    case True
    then show ?thesis using x by (subst in_bin.simps) simp
  next
    case False
    then show ?thesis using Cons.IH [of "ys @ [x]"] Cons.prems x by (subst in_bin.simps) simp
  qed
qed simp

lemma check_block_ok:
  assumes ok: "heap_ok s (ys @ b # zs)"
  shows "check_block (last0 ys) b s =
    (if ys \<noteq> [] \<and> b \<le> last ys then Some (Some NotInOrder, 0) else Some (None, if bus s b = 0 then 1 else 0))"
proof -
  note H = heap_okD [OF ok] and L = list_okD [OF heap_okD(1) [OF ok]] and W = walk_next [OF ok]
  have us: "bus s b = 0 \<or> bus s b = HEAP_MAGIC" using L(2) [of b] by (simp add: block_ok_def)
  have ys: "last0 ys \<noteq> 0 \<longleftrightarrow> ys \<noteq> []" "ys \<noteq> [] \<Longrightarrow> last0 ys = last ys"
    using L(6) by (cases ys rule: rev_cases; auto)+
  have nm: "ys \<noteq> [] \<Longrightarrow> bus s (last ys) \<noteq> 0 \<or> bus s b \<noteq> 0" using H(3) by (auto simp: no_meet_mid)
  have found: "(let (fl, sl) = bin_of (bsz s b) in in_bin (g_bin s fl sl) b s) = Some True" if free: "bus s b = 0"
  proof -
    obtain fl sl where bo: "bin_of (bsz s b) = (fl, sl)" by force
    have "bsz s b < 2 ^ 32" using L(2) [of b] by (simp add: block_ok_def blk_end_def HEAP_MAX_ADDR_def)
    from bin_of_range [OF this] bo have r: "fl < FL_N" "sl < SL_N" by auto
    obtain xs where xs: "dll (lnx s) (lpv s) (g_bin s fl sl) xs" "set xs = bin_members s (free_set s (ys @ b # zs)) fl sl"
      using bins_okE [OF H(2) r] by blast
    have "b \<in> set xs" using xs(2) free bo by (simp add: bin_members_def free_set_def)
    then show ?thesis using in_bin_found [of s _ "[]" xs b] xs(1) dll_head [OF xs(1)] bo by simp
  qed
  show ?thesis
    using us W ys nm found by (auto simp: check_block_def)
qed

lemma check_list_ascending:
  assumes "heap_ok s (ys @ zs)" and "sorted_wrt (<) (ys @ zs)" and "bad c = 0"
  shows "check_list (last0 ys) (hd0 zs) c n s = Some (c, n + length (filter (\<lambda>x. bus s x = 0) zs))"
  using assms(1,2)
proof (induction zs arbitrary: ys n)
  case Nil
  then show ?case by (subst check_list.simps) simp
next
  case (Cons b zs)
  note W = walk_next [OF Cons.prems(1)]
  have "\<not> (ys \<noteq> [] \<and> b \<le> last ys)" using Cons.prems(2) by (cases ys rule: rev_cases) (auto simp: sorted_wrt_append)
  then have cb: "check_block (last0 ys) b s = Some (None, if bus s b = 0 then 1 else 0)"
    using check_block_ok [OF Cons.prems(1)] by auto
  show ?case using Cons.IH [of "ys @ [b]"] Cons.prems W cb assms(3) by (subst check_list.simps) simp
qed

lemma check_list_reports:
  assumes "heap_ok s (ys @ zs)"
  shows "\<exists>c' m. check_list (last0 ys) (hd0 zs) c n s = Some (c', m) \<and> bad c \<le> bad c' \<and>
    (zs \<noteq> [] \<longrightarrow> ys \<noteq> [] \<longrightarrow> hd zs \<le> last ys \<longrightarrow> 0 < bad c') \<and> (\<not> sorted_wrt (<) zs \<longrightarrow> 0 < bad c')"
  using assms
proof (induction zs arbitrary: ys c n)
  case Nil
  then show ?case by (subst check_list.simps) simp
next
  case (Cons b zs)
  note W = walk_next [OF Cons.prems]
  let ?down = "ys \<noteq> [] \<and> b \<le> last ys"
  define c1 where "c1 = (if ?down then report NotInOrder b c else c)"
  define n1 where "n1 = (if ?down then n else n + (if bus s b = 0 then 1 else 0))"
  have step: "check_list (last0 ys) b c n s =
      (if 100 < bad c1 then Some (c1, n1) else check_list b (hd0 zs) c1 n1 s)"
    using check_block_ok [OF Cons.prems] W by (subst check_list.simps) (simp add: c1_def n1_def)
  have b1: "bad c \<le> bad c1" "?down \<Longrightarrow> 0 < bad c1" by (auto simp: c1_def report_def)
  have srt: "\<not> sorted_wrt (<) (b # zs) \<longleftrightarrow> zs \<noteq> [] \<and> hd zs \<le> b \<or> \<not> sorted_wrt (<) zs"
    by (cases zs) (force simp: not_less)+
  show ?case
  proof (cases "100 < bad c1")
    case True
    then show ?thesis using step b1 by auto
  next
    case False
    obtain c' m where c': "check_list b (hd0 zs) c1 n1 s = Some (c', m)" "bad c1 \<le> bad c'"
      "zs \<noteq> [] \<longrightarrow> hd zs \<le> b \<longrightarrow> 0 < bad c'" "\<not> sorted_wrt (<) zs \<longrightarrow> 0 < bad c'"
      using Cons.IH [of "ys @ [b]" c1 n1] Cons.prems by auto
    then show ?thesis using step False b1 srt by auto
  qed
qed

lemma count_bin_eq:
  assumes "dll (lnx s) (lpv s) h (ys @ zs)" and "k + length zs \<le> nfree + 2"
  shows "count_bin (hd0 zs) k nfree s = k + length zs"
  using assms
proof (induction zs arbitrary: ys k)
  case (Cons x zs)
  have x: "x \<noteq> 0" "lnx s x = hd0 zs" using dll_links(1) [OF Cons.prems(1)] dll_nonzero [OF Cons.prems(1)] by auto
  show ?case using Cons.IH [of "ys @ [x]" "k + 1"] Cons.prems x by (subst count_bin.simps) simp
qed (simp add: count_bin.simps)

lemma check_bin_ok:
  assumes ok: "bins_ok s F" and p: "fl < FL_N" "sl < SL_N" and fin: "finite F"
    and k: "k + card (bin_members s F fl sl) \<le> nfree"
  shows "check_bin nfree s (fl, sl) (c, k) = (c, k + card (bin_members s F fl sl))"
proof -
  obtain xs where xs: "dll (lnx s) (lpv s) (g_bin s fl sl) xs" "set xs = bin_members s F fl sl"
    using bins_okE [OF ok p] by blast
  have len: "length xs = card (bin_members s F fl sl)" using xs(2) distinct_card [OF dll_distinct [OF xs(1)]] by simp
  have "count_bin (g_bin s fl sl) k nfree s = k + length xs"
    using count_bin_eq [of s _ "[]" xs k nfree] xs(1) dll_head [OF xs(1)] k len by simp
  moreover have m: "bin_maps s" using ok by (simp add: bins_ok_def)
  have "bit (g_slmap s fl) sl \<longleftrightarrow> g_bin s fl sl \<noteq> 0" using m p by (simp add: bin_maps_def)
  moreover have "g_bin s fl sl \<noteq> 0 \<Longrightarrow> bit (g_flmap s) fl" using m p calculation(2) by (auto simp: bin_maps_def)
  ultimately show ?thesis using len by (auto simp: check_bin_def Let_def)
qed

lemma check_bins_ok:
  assumes ok: "bins_ok s F" and fin: "finite F" and "distinct ps" "set ps \<subseteq> {..<FL_N} \<times> {..<SL_N}"
  shows "fold (check_bin (card F) s) ps (c, 0) = (c, card {x \<in> F. bin_of (bsz s x) \<in> set ps})"
  using assms(3,4)
proof (induction ps rule: rev_induct)
  case (snoc p ps)
  obtain fl sl where p: "p = (fl, sl)" by force
  let ?A = "{x \<in> F. bin_of (bsz s x) \<in> set ps}" and ?B = "bin_members s F fl sl"
  have "{x \<in> F. bin_of (bsz s x) \<in> set (ps @ [p])} = ?A \<union> ?B" "?A \<inter> ?B = {}"
    using snoc.prems(1) by (auto simp: bin_members_def p)
  moreover have "finite ?A" "finite ?B" using fin by (auto simp: bin_members_def)
  ultimately have card: "card {x \<in> F. bin_of (bsz s x) \<in> set (ps @ [p])} = card ?A + card ?B" by (simp add: card_Un_disjoint)
  have "card {x \<in> F. bin_of (bsz s x) \<in> set (ps @ [p])} \<le> card F" using fin by (auto intro: card_mono)
  then have le: "card ?A + card ?B \<le> card F" using card by simp
  show ?case using snoc check_bin_ok [OF ok _ _ fin le] card by (simp add: p)
qed simp

lemma all_bins: "distinct all_bins" "set all_bins = {..<FL_N} \<times> {..<SL_N}"
  by (auto simp: all_bins_def distinct_product)

lemma kheap_check_split:
  assumes ok: "heap_ok s bs" and cl: "check_list 0 (g_head s) \<lparr>bad = 0, err = None\<rparr> 0 s = Some (c, nfree)"
  shows "\<exists>c'. kheap_check s = Some c' \<and> bad c \<le> bad c' \<and> (nfree = card (free_set s bs) \<longrightarrow> c' = c)"
proof -
  note H = heap_okD [OF ok] and L = list_okD [OF heap_okD(1) [OF ok]]
  have fin: "finite (free_set s bs)" by (simp add: free_set_def)
  have all: "{x \<in> free_set s bs. bin_of (bsz s x) \<in> set all_bins} = free_set s bs"
    using H(2) bin_of_range by (auto simp: bins_ok_def all_bins mem_Times_iff)
  obtain c1 k where f: "fold (check_bin nfree s) all_bins (c, 0) = (c1, k)" by force
  have mono: "bad (fst cn) \<le> bad (fst (fold (check_bin nfree s) ps cn))" for ps cn
  proof (induction ps arbitrary: cn)
    case (Cons p ps)
    have "bad (fst cn) \<le> bad (fst (check_bin nfree s p cn))" by (simp add: check_bin_def report_def Let_def split: prod.splits)
    then show ?case using Cons.IH [of "check_bin nfree s p cn"] by simp
  qed simp
  let ?c = "if k \<noteq> nfree then report (CountWrong k nfree) 0 c1 else c1"
  have "kheap_check s = Some ?c" using cl f by (simp add: kheap_check_def)
  moreover have "bad c \<le> bad ?c" using mono [of "(c, 0)" all_bins] f by (auto simp: report_def)
  moreover have "?c = c" if "nfree = card (free_set s bs)"
    using check_bins_ok [OF H(2) fin all_bins(1), of c] f that all by (simp add: all_bins(2))
  ultimately show ?thesis by blast
qed


section \<open>Properties\<close>

text \<open>
  The heap check finds no fault in a sound heap whose blocks are in address order: it returns, and
  reports nothing. With that it accepts every heap \<open>kmalloc\<close> and \<open>kfree\<close> leave after \<open>kheap_init\<close>.
\<close>

lemma kheap_check_accepts:
  assumes "heap_ok s bs" and "sorted_wrt (<) bs"
  shows "kheap_check s = Some \<lparr>bad = 0, err = None\<rparr>"
proof -
  let ?c = "\<lparr>bad = 0, err = None\<rparr>"
  note L = list_okD [OF heap_okD(1) [OF assms(1)]]
  have "check_list 0 (g_head s) ?c 0 s = Some (?c, length (filter (\<lambda>x. bus s x = 0) bs))"
    using check_list_ascending [of s "[]" bs ?c 0] assms walk_head [OF assms(1)] by simp
  moreover have "length (filter (\<lambda>x. bus s x = 0) bs) = card (free_set s bs)"
    using distinct_card [of "filter (\<lambda>x. bus s x = 0) bs"] L(5) by (simp add: free_set_def)
  ultimately show ?thesis using kheap_check_split [OF assms(1)] by fastforce
qed



text \<open>
  The heap's statistics are right: \<open>kheap_free_blocks\<close> and \<open>kheap_largest_free\<close> return, with the
  number of free blocks and the size of the largest one (0 without any).
\<close>

lemma kheap_stats:
  assumes "heap_ok s bs"
  shows "kheap_free_blocks s = Some (card {b \<in> set bs. bused (blk s b) = 0}) \<and>
    kheap_largest_free s = Some (Max (insert 0 ((\<lambda>b. bsize (blk s b)) ` {b \<in> set bs. bused (blk s b) = 0})))"
proof -
  note L = list_okD [OF heap_okD(1) [OF assms]]
  have "length (filter (\<lambda>x. bus s x = 0) bs) = card {b \<in> set bs. bus s b = 0}"
    using distinct_card [of "filter (\<lambda>x. bus s x = 0) bs"] L(5) by simp
  then show ?thesis
    using count_free_eq [of s "[]" bs 0] find_largest_eq [of s "[]" bs 0] assms walk_head [OF assms]
    by (simp add: kheap_free_blocks_def kheap_largest_free_def free_set_def)
qed

end
