(* ===== verification/Kstring.thy ===== *)
theory Kstring
  imports Prelude
begin

text \<open>
  Memory and string functions, \<open>kernel/kstring.c\<close>, over a byte memory. The string instructions
  (\<open>rep movs\<close>, \<open>rep stos\<close>) are loops over the memory, with each word read before it is written. Loops
  that run to a NUL are partial functions: \<open>None\<close> is a string that never ends.
\<close>

section \<open>Memory\<close>

type_synonym memory = "nat \<Rightarrow> byte"

fun rep_movs :: "nat \<Rightarrow> nat \<Rightarrow> nat \<Rightarrow> nat \<Rightarrow> memory \<Rightarrow> memory" where
  "rep_movs w 0 d s m = m"
| "rep_movs w (Suc k) d s m = rep_movs w k (d + w) (s + w) (\<lambda>a. if d \<le> a \<and> a < d + w then m (s + (a - d)) else m a)"

fun rep_movsb_down :: "nat \<Rightarrow> nat \<Rightarrow> nat \<Rightarrow> memory \<Rightarrow> memory" where
  "rep_movsb_down 0 d s m = m"
| "rep_movsb_down (Suc k) d s m = rep_movsb_down k (d - 1) (s - 1) (m(d := m s))"

fun rep_stos :: "nat \<Rightarrow> nat \<Rightarrow> nat \<Rightarrow> u32 \<Rightarrow> memory \<Rightarrow> memory" where
  "rep_stos w 0 d v m = m"
| "rep_stos w (Suc k) d v m =
     rep_stos w k (d + w) v (\<lambda>a. if d \<le> a \<and> a < d + w then ucast (drop_bit (8 * (a - d)) v) else m a)"

definition memcpy :: "nat \<Rightarrow> nat \<Rightarrow> nat \<Rightarrow> memory \<Rightarrow> memory" where
  "memcpy dst src n m =
     (let dwords = n div 4;
          m = rep_movs 4 dwords dst src m
      in rep_movs 1 (n mod 4) (dst + 4 * dwords) (src + 4 * dwords) m)"

definition memmove :: "nat \<Rightarrow> nat \<Rightarrow> nat \<Rightarrow> memory \<Rightarrow> memory" where
  "memmove d s n m =
     (if d = s \<or> n = 0 then m
      else if d < s \<or> s + n \<le> d then memcpy d s n m
      else rep_movsb_down n (d + (n - 1)) (s + (n - 1)) m)"

definition memset :: "nat \<Rightarrow> int \<Rightarrow> nat \<Rightarrow> memory \<Rightarrow> memory" where
  "memset dst c n m =
     (let v = ucast (of_int c :: byte) :: u32;
          v = v OR push_bit 8 v;
          v = v OR push_bit 16 v;
          dwords = n div 4;
          m = rep_stos 4 dwords dst v m
      in rep_stos 1 (n mod 4) (dst + 4 * dwords) v m)"

definition memset32 :: "nat \<Rightarrow> u32 \<Rightarrow> nat \<Rightarrow> memory \<Rightarrow> memory" where
  "memset32 dst v count m = rep_stos 4 count dst v m"

fun memcmp_from :: "nat \<Rightarrow> nat \<Rightarrow> nat \<Rightarrow> memory \<Rightarrow> int" where
  "memcmp_from 0 a b m = 0"
| "memcmp_from (Suc k) a b m = (if m a \<noteq> m b then uint (m a) - uint (m b) else memcmp_from k (a + 1) (b + 1) m)"

definition memcmp :: "nat \<Rightarrow> nat \<Rightarrow> nat \<Rightarrow> memory \<Rightarrow> int" where
  "memcmp a b n m = memcmp_from n a b m"

text \<open>What copying and filling come to.\<close>

definition copied :: "nat \<Rightarrow> nat \<Rightarrow> nat \<Rightarrow> memory \<Rightarrow> memory" where
  "copied d s n m = (\<lambda>a. if d \<le> a \<and> a < d + n then m (s + (a - d)) else m a)"

definition filled :: "nat \<Rightarrow> byte \<Rightarrow> nat \<Rightarrow> memory \<Rightarrow> memory" where
  "filled d v n m = (\<lambda>a. if d \<le> a \<and> a < d + n then v else m a)"

lemma copied_none [simp]: "copied d s 0 m = m" "copied d d n m = m"
  by (auto simp: copied_def fun_eq_iff)

lemma rep_movs_copied:
  assumes "d \<le> s \<or> s + w * k \<le> d"
  shows "rep_movs w k d s m = copied d s (w * k) m"
  using assms
proof (induction k arbitrary: d s m)
  case 0
  then show ?case by simp
next
  case (Suc k)
  let ?m = "\<lambda>a. if d \<le> a \<and> a < d + w then m (s + (a - d)) else m a"
  have IH: "rep_movs w k (d + w) (s + w) ?m = copied (d + w) (s + w) (w * k) ?m"
    by (rule Suc.IH) (use Suc.prems in auto)
  show ?case
  proof (rule ext)
    fix a
    have "copied (d + w) (s + w) (w * k) ?m a = copied d s (w * Suc k) m a"
    proof (cases "d + w \<le> a \<and> a < d + w * Suc k")
      case True
      have eq: "s + w + (a - (d + w)) = s + (a - d)" using True by simp
      have "\<not> (d \<le> s + (a - d) \<and> s + (a - d) < d + w)" using True Suc.prems by auto
      then show ?thesis using True eq by (auto simp: copied_def)
    next
      case False
      then show ?thesis by (auto simp: copied_def)
    qed
    then show "rep_movs w (Suc k) d s m a = copied d s (w * Suc k) m a" using IH by simp
  qed
qed

lemma copied_append:
  assumes "d \<le> s \<or> s + (n + k) \<le> d"
  shows "copied (d + n) (s + n) k (copied d s n m) = copied d s (n + k) m"
proof (rule ext)
  fix a
  show "copied (d + n) (s + n) k (copied d s n m) a = copied d s (n + k) m a"
  proof (cases "d + n \<le> a \<and> a < d + (n + k)")
    case True
    have "s + n + (a - (d + n)) = s + (a - d)" "\<not> (d \<le> s + (a - d) \<and> s + (a - d) < d + n)" using True assms by auto
    then show ?thesis using True by (auto simp: copied_def)
  next
    case False
    then show ?thesis by (auto simp: copied_def)
  qed
qed

lemma memcpy_copied:
  assumes "d \<le> s \<or> s + n \<le> d"
  shows "memcpy d s n m = copied d s n m"
proof -
  have n: "4 * (n div 4) + n mod 4 = n" by simp
  have "memcpy d s n m = copied (d + 4 * (n div 4)) (s + 4 * (n div 4)) (1 * (n mod 4)) (copied d s (4 * (n div 4)) m)"
    unfolding memcpy_def Let_def by (subst rep_movs_copied, use assms n in linarith)+ simp
  also have "\<dots> = copied d s (4 * (n div 4) + n mod 4) m"
    using copied_append [of d s "4 * (n div 4)" "n mod 4" m] assms n by simp
  finally show ?thesis by (simp only: n)
qed

lemma rep_movsb_down_copied:
  assumes "s \<le> d"
  shows "rep_movsb_down n (d + (n - 1)) (s + (n - 1)) m = copied d s n m"
  using assms
proof (induction n arbitrary: m)
  case 0
  then show ?case by simp
next
  case (Suc n)
  let ?m = "m(d + n := m (s + n))"
  have "rep_movsb_down (Suc n) (d + n) (s + n) m = rep_movsb_down n (d + n - 1) (s + n - 1) ?m" by simp
  also have "\<dots> = rep_movsb_down n (d + (n - 1)) (s + (n - 1)) ?m" by (cases n) auto
  also have "\<dots> = copied d s n ?m" by (rule Suc.IH [OF Suc.prems])
  also have "\<dots> = copied d s (Suc n) m" using Suc.prems by (auto simp: copied_def fun_eq_iff less_Suc_eq)
  finally show ?case by simp
qed

lemma memmove_copied: "memmove d s n m = copied d s n m"
proof -
  consider "d = s \<or> n = 0" | "d \<noteq> s" "n \<noteq> 0" "d < s \<or> s + n \<le> d" | "d \<noteq> s" "n \<noteq> 0" "s < d" "d < s + n" by linarith
  then show ?thesis
  proof cases
    case 1
    then show ?thesis by (auto simp: memmove_def)
  next
    case 2
    then show ?thesis using memcpy_copied [of d s n m] by (auto simp: memmove_def)
  next
    case 3
    then show ?thesis using rep_movsb_down_copied [of s d n m] by (simp add: memmove_def)
  qed
qed

lemma rep_stos_filled:
  assumes "\<And>j. j < w \<Longrightarrow> ucast (drop_bit (8 * j) v) = (c :: byte)"
  shows "rep_stos w k d v m = filled d c (w * k) m"
proof (induction k arbitrary: d m)
  case 0
  then show ?case by (auto simp: filled_def fun_eq_iff)
next
  case (Suc k)
  show ?case using assms by (auto simp: Suc.IH filled_def fun_eq_iff)
qed

lemma memset_filled: "memset d c n m = filled d (of_int c) n m"
proof -
  define b :: byte where "b = of_int c"
  define v :: u32 where "v = (ucast b OR push_bit 8 (ucast b)) OR push_bit 16 (ucast b OR push_bit 8 (ucast b))"
  have hi: "\<not> bit b (8 + k)" "\<not> bit b (16 + k)" "\<not> bit b (24 + k)" for k by (auto dest: bit_imp_le_length)
  have bytes: "ucast (drop_bit (8 * j) v) = b" if "j < 4" for j
  proof -
    have "j \<in> {0, 1, 2, 3}" using that by auto
    then show ?thesis
      by (elim insertE emptyE) (auto intro!: bit_eqI simp: v_def bit_simps hi)
  qed
  have n: "4 * (n div 4) + n mod 4 = n" by simp
  have "memset d c n m = rep_stos 1 (n mod 4) (d + 4 * (n div 4)) v (rep_stos 4 (n div 4) d v m)"
    by (simp only: memset_def Let_def v_def b_def)
  also have "\<dots> = filled (d + 4 * (n div 4)) b (1 * (n mod 4)) (filled d b (4 * (n div 4)) m)"
    using rep_stos_filled [of 4 v b] rep_stos_filled [of 1 v b] bytes bytes [of 0] by simp
  also have "\<dots> = filled d b n m" using n by (auto simp: filled_def fun_eq_iff)
  finally show ?thesis by (simp add: b_def)
qed


section \<open>Strings\<close>

partial_function (option) strlen_from :: "nat \<Rightarrow> nat \<Rightarrow> memory \<Rightarrow> nat option" where
  "strlen_from s n m = (if m (s + n) \<noteq> 0 then strlen_from s (n + 1) m else Some n)"

definition strlen :: "nat \<Rightarrow> memory \<Rightarrow> nat option" where
  "strlen s m = strlen_from s 0 m"

partial_function (option) strcmp :: "nat \<Rightarrow> nat \<Rightarrow> memory \<Rightarrow> int option" where
  "strcmp a b m = (if m a \<noteq> 0 \<and> m a = m b then strcmp (a + 1) (b + 1) m else Some (uint (m a) - uint (m b)))"

fun strncmp :: "nat \<Rightarrow> nat \<Rightarrow> nat \<Rightarrow> memory \<Rightarrow> int" where
  "strncmp a b 0 m = 0"
| "strncmp a b (Suc k) m =
     (if m a \<noteq> m b then uint (m a) - uint (m b) else if m a = 0 then 0 else strncmp (a + 1) (b + 1) k m)"

definition k_tolower :: "int \<Rightarrow> int" where
  "k_tolower c = (if 65 \<le> c \<and> c \<le> 90 then c + 32 else c)"

partial_function (option) strcasecmp :: "nat \<Rightarrow> nat \<Rightarrow> memory \<Rightarrow> int option" where
  "strcasecmp a b m =
     (if m a \<noteq> 0 \<and> k_tolower (uint (m a)) = k_tolower (uint (m b)) then strcasecmp (a + 1) (b + 1) m
      else Some (k_tolower (uint (m a)) - k_tolower (uint (m b))))"

fun strncasecmp :: "nat \<Rightarrow> nat \<Rightarrow> nat \<Rightarrow> memory \<Rightarrow> int" where
  "strncasecmp a b 0 m = 0"
| "strncasecmp a b (Suc k) m =
     (let ca = k_tolower (uint (m a)); cb = k_tolower (uint (m b))
      in if ca \<noteq> cb then ca - cb else if ca = 0 then 0 else strncasecmp (a + 1) (b + 1) k m)"

text \<open>A pointer that may be NULL is an address or \<open>None\<close>; the outer \<open>option\<close> is whether the loop ends.\<close>

partial_function (option) strchr :: "nat \<Rightarrow> int \<Rightarrow> memory \<Rightarrow> nat option option" where
  "strchr s c m = (if m s = of_int c then Some (Some s) else if m s = 0 then Some None else strchr (s + 1) c m)"

partial_function (option) strrchr_from :: "nat \<Rightarrow> int \<Rightarrow> nat option \<Rightarrow> memory \<Rightarrow> nat option option" where
  "strrchr_from s c lst m =
     (let lst = (if m s = of_int c then Some s else lst)
      in if m s = 0 then Some lst else strrchr_from (s + 1) c lst m)"

definition strrchr :: "nat \<Rightarrow> int \<Rightarrow> memory \<Rightarrow> nat option option" where
  "strrchr s c m = strrchr_from s c None m"

partial_function (option) match_len :: "nat \<Rightarrow> nat \<Rightarrow> nat \<Rightarrow> memory \<Rightarrow> nat option" where
  "match_len hay needle j m =
     (if m (needle + j) \<noteq> 0 \<and> m (hay + j) = m (needle + j) then match_len hay needle (j + 1) m else Some j)"

partial_function (option) strstr_from :: "nat \<Rightarrow> nat \<Rightarrow> memory \<Rightarrow> nat option option" where
  "strstr_from hay needle m =
     (if m hay = 0 then Some None
      else do { j \<leftarrow> match_len hay needle 0 m;
                if m (needle + j) = 0 then Some (Some hay) else strstr_from (hay + 1) needle m })"

definition strstr :: "nat \<Rightarrow> nat \<Rightarrow> memory \<Rightarrow> nat option option" where
  "strstr hay needle m = (if m needle = 0 then Some (Some hay) else strstr_from hay needle m)"

definition kstrlcpy :: "nat \<Rightarrow> nat \<Rightarrow> nat \<Rightarrow> memory \<Rightarrow> (nat \<times> memory) option" where
  "kstrlcpy dst src n m =
     do { len \<leftarrow> strlen src m;
          Some (len, if n \<noteq> 0
                     then let c = (if n \<le> len then n - 1 else len)
                          in (memcpy dst src c m)(dst + c := 0)
                     else m) }"

text \<open>The end of the string in \<open>dst\<close>, looked for in \<open>n\<close> bytes.\<close>

fun bounded_len :: "nat \<Rightarrow> nat \<Rightarrow> nat \<Rightarrow> memory \<Rightarrow> nat" where
  "bounded_len dst dl 0 m = dl"
| "bounded_len dst dl (Suc k) m = (if m (dst + dl) \<noteq> 0 then bounded_len dst (dl + 1) k m else dl)"

definition kstrlcat :: "nat \<Rightarrow> nat \<Rightarrow> nat \<Rightarrow> memory \<Rightarrow> (nat \<times> memory) option" where
  "kstrlcat dst src n m =
     (let dl = bounded_len dst 0 n m
      in if dl = n then do { l \<leftarrow> strlen src m; Some (n + l, m) }
         else do { (r, m) \<leftarrow> kstrlcpy (dst + dl) src (n - dl) m; Some (dl + r, m) })"

definition k_isdigit :: "int \<Rightarrow> bool" where
  "k_isdigit c \<longleftrightarrow> 48 \<le> c \<and> c \<le> 57"

definition k_isspace :: "int \<Rightarrow> bool" where
  "k_isspace c \<longleftrightarrow> c = 32 \<or> c = 9 \<or> c = 13 \<or> c = 10"

partial_function (option) parse_digits :: "nat \<Rightarrow> nat \<Rightarrow> nat \<Rightarrow> memory \<Rightarrow> (nat \<times> nat) option" where
  "parse_digits s i v m =
     (if k_isdigit (uint (m (s + i)))
      then parse_digits s (i + 1) (wrap32 (wrap32 (v * 10) + (unat (m (s + i)) - 48))) m
      else Some (i, v))"

definition k_parse_u32 :: "nat \<Rightarrow> memory \<Rightarrow> (nat \<times> nat) option" where
  "k_parse_u32 s m = parse_digits s 0 0 m"


section \<open>Strings as lists\<close>

text \<open>\<open>cstring m a xs\<close>: the NUL-terminated string at \<open>a\<close> is \<open>xs\<close>.\<close>

fun cstring :: "memory \<Rightarrow> nat \<Rightarrow> byte list \<Rightarrow> bool" where
  "cstring m a [] \<longleftrightarrow> m a = 0"
| "cstring m a (x # xs) \<longleftrightarrow> m a = x \<and> x \<noteq> 0 \<and> cstring m (a + 1) xs"

lemma cstring_drop: "cstring m a xs \<Longrightarrow> i \<le> length xs \<Longrightarrow> cstring m (a + i) (drop i xs)"
proof (induction i arbitrary: a xs)
  case (Suc i)
  then obtain x ys where "xs = x # ys" by (cases xs) auto
  then show ?case using Suc.IH [of "a + 1" ys] Suc.prems by simp
qed simp

lemma cstring_nth: "cstring m a xs \<Longrightarrow> i < length xs \<Longrightarrow> m (a + i) = xs ! i \<and> xs ! i \<noteq> 0"
  using cstring_drop [of m a xs i] by (cases "drop i xs") (auto simp: Cons_nth_drop_Suc [symmetric])

lemma cstring_end: "cstring m a xs \<Longrightarrow> m (a + length xs) = 0"
  using cstring_drop [of m a xs "length xs"] by simp

lemma cstring_byte: "cstring m a xs \<Longrightarrow> i \<le> length xs \<Longrightarrow> m (a + i) = (xs @ [0]) ! i"
  using cstring_nth [of m a xs i] cstring_end [of m a xs] by (auto simp: nth_append le_less)

lemma cstring_iff: "cstring m a xs \<longleftrightarrow> (\<forall>i < length xs. m (a + i) = xs ! i \<and> xs ! i \<noteq> 0) \<and> m (a + length xs) = 0"
proof (induction xs arbitrary: a)
  case (Cons x xs)
  show ?case using Cons.IH [of "a + 1"] by (auto simp: less_Suc_eq_0_disj nth_Cons')
qed simp

lemma strlen_from_cstring: "cstring m (s + n) xs \<Longrightarrow> strlen_from s n m = Some (n + length xs)"
proof (induction xs arbitrary: n)
  case Nil
  then show ?case by (subst strlen_from.simps) simp
next
  case (Cons x xs)
  then show ?case by (subst strlen_from.simps) (simp add: Cons.IH)
qed

lemma strlen_cstring: "cstring m s xs \<Longrightarrow> strlen s m = Some (length xs)"
  using strlen_from_cstring [of m s 0 xs] by (simp add: strlen_def)

text \<open>The order strings compare in: by the first byte that differs, a string before its extensions.\<close>

fun compare_bytes :: "(byte \<Rightarrow> int) \<Rightarrow> byte list \<Rightarrow> byte list \<Rightarrow> int" where
  "compare_bytes f [] [] = 0"
| "compare_bytes f [] (y # ys) = f 0 - f y"
| "compare_bytes f (x # xs) [] = f x - f 0"
| "compare_bytes f (x # xs) (y # ys) = (if f x = f y then compare_bytes f xs ys else f x - f y)"

lemma strcmp_eq:
  assumes "cstring m a xs" "cstring m b ys"
  shows "strcmp a b m = Some (compare_bytes uint xs ys)"
  using assms
proof (induction xs arbitrary: ys a b)
  case Nil
  then show ?case by (cases ys) (subst strcmp.simps, simp)+
next
  case (Cons x xs)
  then show ?case by (cases ys) (subst strcmp.simps, simp flip: word_uint_eq_iff)+
qed

definition tolow :: "byte \<Rightarrow> int" where
  "tolow b = k_tolower (uint b)"

lemma strcasecmp_eq:
  assumes "cstring m a xs" "cstring m b ys"
  shows "strcasecmp a b m = Some (compare_bytes tolow xs ys)"
  using assms
proof (induction xs arbitrary: ys a b)
  case Nil
  then show ?case by (cases ys) (subst strcasecmp.simps, simp add: tolow_def)+
next
  case (Cons x xs)
  show ?case
  proof (cases ys)
    case Nil
    have "0 \<le> uint x" by simp
    moreover have "uint x \<noteq> 0" using Cons.prems(1) by (simp add: uint_0_iff)
    ultimately have "k_tolower (uint x) \<noteq> k_tolower 0" by (auto simp: k_tolower_def)
    then show ?thesis using Cons.prems Nil by (subst strcasecmp.simps) (simp add: tolow_def)
  next
    case (Cons y zs)
    then show ?thesis using Cons.IH [of "a + 1" "b + 1" zs] Cons.prems by (subst strcasecmp.simps) (simp flip: tolow_def)
  qed
qed

lemma compare_bytes_0:
  assumes f: "\<And>x. f x = f 0 \<Longrightarrow> x = 0" and "0 \<notin> set xs" "0 \<notin> set ys"
  shows "compare_bytes f xs ys = 0 \<longleftrightarrow> map f xs = map f ys"
  using assms(2,3)
proof (induction xs arbitrary: ys)
  case Nil
  then show ?case using f by (cases ys) force+
next
  case (Cons x xs)
  then show ?case using f by (cases ys) force+
qed

lemma cstring_nonzero: "cstring m a xs \<Longrightarrow> 0 \<notin> set xs"
  by (induction xs arbitrary: a) auto

lemma tolow_0: "tolow x = tolow 0 \<Longrightarrow> x = 0"
proof -
  assume a: "tolow x = tolow 0"
  have "0 \<le> uint x" by simp
  with a have "uint x = 0" by (auto simp: tolow_def k_tolower_def split: if_splits)
  then show ?thesis by (simp add: uint_0_iff)
qed


section \<open>Searching\<close>

definition occurs_at :: "'a list \<Rightarrow> 'a list \<Rightarrow> nat \<Rightarrow> bool" where
  "occurs_at xs ys i \<longleftrightarrow> i + length ys \<le> length xs \<and> take (length ys) (drop i xs) = ys"

lemma match_len_prefix:
  assumes "cstring m hay xs" "cstring m needle ys"
  shows "\<exists>j. match_len hay needle 0 m = Some j \<and> (m (needle + j) = 0 \<longleftrightarrow> occurs_at xs ys 0)"
proof -
  have "\<exists>j. match_len hay needle k m = Some j \<and> (m (needle + j) = 0 \<longleftrightarrow> take (length ys) xs = ys)"
    if "k \<le> length ys" "k \<le> length xs" "take k xs = take k ys" for k
    using that
  proof (induction "length ys - k" arbitrary: k)
    case 0
    then have k: "k = length ys" by simp
    then have "m (needle + k) = 0" using cstring_end [OF assms(2)] by simp
    then show ?case using 0 k by (subst match_len.simps) simp
  next
    case (Suc n)
    then have lt: "k < length ys" by simp
    have yk: "m (needle + k) = ys ! k" "ys ! k \<noteq> 0" using cstring_nth [OF assms(2) lt] by auto
    show ?case
    proof (cases "k < length xs \<and> xs ! k = ys ! k")
      case True
      then have "take (k + 1) xs = take (k + 1) ys" using Suc.prems(3) lt by (simp add: take_Suc_conv_app_nth)
      then have "\<exists>j. match_len hay needle (k + 1) m = Some j \<and> (m (needle + j) = 0 \<longleftrightarrow> take (length ys) xs = ys)"
        using Suc.hyps True lt by (intro Suc.hyps(1)) auto
      then show ?thesis using True yk cstring_nth [OF assms(1), of k] by (subst match_len.simps) simp
    next
      case False
      have "m (hay + k) \<noteq> ys ! k"
      proof (cases "k < length xs")
        case True
        then show ?thesis using False cstring_nth [OF assms(1)] by simp
      next
        case False
        then have "k = length xs" using Suc.prems(2) by simp
        then show ?thesis using cstring_end [OF assms(1)] yk by simp
      qed
      then have "match_len hay needle k m = Some k" using yk by (subst match_len.simps) simp
      moreover have "take (length ys) xs \<noteq> ys" using False lt Suc.prems(2) by (metis le_less length_take min_less_iff_conj nth_take)
      ultimately show ?thesis using yk by simp
    qed
  qed
  from this [of 0] obtain j where "match_len hay needle 0 m = Some j" "m (needle + j) = 0 \<longleftrightarrow> take (length ys) xs = ys" by auto
  moreover have "take (length ys) xs = ys \<longleftrightarrow> occurs_at xs ys 0"
  proof -
    have "length ys \<le> length xs" if "take (length ys) xs = ys"
      using arg_cong [OF that, of length] by (simp add: min_def split: if_splits)
    then show ?thesis by (auto simp: occurs_at_def)
  qed
  ultimately show ?thesis by auto
qed

lemma strstr_from_first:
  assumes "cstring m hay xs" "cstring m needle ys" "ys \<noteq> []"
  shows "strstr_from hay needle m =
    Some (if \<exists>i. occurs_at xs ys i then Some (hay + (LEAST i. occurs_at xs ys i)) else None)"
  using assms(1)
proof (induction xs arbitrary: hay)
  case Nil
  have "\<not> (\<exists>i. occurs_at [] ys i)" using assms(3) by (simp add: occurs_at_def)
  then show ?case using Nil by (subst strstr_from.simps) simp
next
  case (Cons x xs)
  obtain j where j: "match_len hay needle 0 m = Some j" "m (needle + j) = 0 \<longleftrightarrow> occurs_at (x # xs) ys 0"
    using match_len_prefix [OF Cons.prems assms(2)] by blast
  have suc: "occurs_at (x # xs) ys (Suc i) \<longleftrightarrow> occurs_at xs ys i" for i by (simp add: occurs_at_def)
  show ?case
  proof (cases "occurs_at (x # xs) ys 0")
    case True
    then have "(LEAST i. occurs_at (x # xs) ys i) = 0" by (intro Least_equality) auto
    then show ?thesis using True j Cons.prems by (subst strstr_from.simps) auto
  next
    case False
    have ex: "(\<exists>i. occurs_at (x # xs) ys i) \<longleftrightarrow> (\<exists>i. occurs_at xs ys i)" using False suc by (metis not0_implies_Suc)
    have least: "(LEAST i. occurs_at (x # xs) ys i) = Suc (LEAST i. occurs_at xs ys i)" if "\<exists>i. occurs_at xs ys i"
      using that False suc Least_Suc [of "\<lambda>i. occurs_at (x # xs) ys i"] by auto
    have "strstr_from hay needle m = strstr_from (hay + 1) needle m"
      using False j Cons.prems by (subst strstr_from.simps) simp
    then show ?thesis using Cons.IH [of "hay + 1"] Cons.prems ex least by auto
  qed
qed


section \<open>Bounded copies\<close>

lemma kstrlcpy_eq:
  assumes src: "cstring m src xs" and apart: "dst + n \<le> src \<or> src + length xs < dst"
  shows "kstrlcpy dst src n m =
    Some (length xs, if n = 0 then m else (copied dst src (min (n - 1) (length xs)) m)(dst + min (n - 1) (length xs) := 0))"
proof -
  let ?c = "if n \<le> length xs then n - 1 else length xs"
  have c: "n \<noteq> 0 \<Longrightarrow> ?c = min (n - 1) (length xs)" by auto
  have "n \<noteq> 0 \<Longrightarrow> memcpy dst src (min (n - 1) (length xs)) m = copied dst src (min (n - 1) (length xs)) m"
    by (rule memcpy_copied) (use apart in auto)
  then show ?thesis using strlen_cstring [OF src] c by (simp add: kstrlcpy_def Let_def)
qed

lemma copied_cstring:
  assumes "cstring m src xs" "k \<le> length xs"
  shows "cstring ((copied dst src k m)(dst + k := 0)) dst (take k xs)"
  unfolding cstring_iff using cstring_nth [OF assms(1)] assms(2) by (auto simp: copied_def min_def)

lemma kstrlcpy_buffer:
  assumes "cstring m src xs" and "dst + n \<le> src \<or> src + length xs < dst" and "0 < n"
  shows "\<exists>m'. kstrlcpy dst src n m = Some (length xs, m') \<and> cstring m' dst (take (n - 1) xs) \<and>
    (\<forall>a. a < dst \<or> dst + n \<le> a \<longrightarrow> m' a = m a)"
proof -
  let ?k = "min (n - 1) (length xs)"
  have "cstring ((copied dst src ?k m)(dst + ?k := 0)) dst (take ?k xs)" by (rule copied_cstring [OF assms(1)]) simp
  moreover have "take ?k xs = take (n - 1) xs" by (auto simp: min_def)
  ultimately show ?thesis using kstrlcpy_eq [OF assms(1,2)] assms(3) by (auto simp: copied_def)
qed

lemma cstring_append:
  assumes "cstring m (a + length xs) ys" and "\<And>i. i < length xs \<Longrightarrow> m (a + i) = xs ! i" and "0 \<notin> set xs"
  shows "cstring m a (xs @ ys)"
  using assms
proof (induction xs arbitrary: a)
  case (Cons x xs)
  have "m a = x" using Cons.prems(2) [of 0] by simp
  moreover have "cstring m (a + 1) (xs @ ys)"
    by (rule Cons.IH) (use Cons.prems(1,3) Cons.prems(2) [of "Suc _"] in auto)
  ultimately show ?case using Cons.prems(3) by auto
qed simp

lemma bounded_len_eq:
  "bounded_len dst dl k m = dl + (LEAST i. i = k \<or> m (dst + dl + i) = 0)"
proof (induction k arbitrary: dl)
  case 0
  have "(LEAST i. i = 0 \<or> m (dst + dl + i) = 0) = 0" by (intro Least_equality) auto
  then show ?case by simp
next
  case (Suc k)
  show ?case
  proof (cases "m (dst + dl) = 0")
    case True
    then have "(LEAST i. i = Suc k \<or> m (dst + dl + i) = 0) = 0" by (intro Least_equality) auto
    then show ?thesis using True by simp
  next
    case False
    have "(LEAST i. i = Suc k \<or> m (dst + dl + i) = 0) = Suc (LEAST i. Suc i = Suc k \<or> m (dst + dl + Suc i) = 0)"
      by (rule Least_Suc [of _ "Suc k"]) (use False in auto)
    then show ?thesis using False Suc.IH [of "dl + 1"] by simp
  qed
qed

lemma bounded_len_cstring:
  assumes "cstring m dst ds"
  shows "bounded_len dst 0 n m = min n (length ds)"
proof -
  have "(LEAST i. i = n \<or> m (dst + i) = 0) = min n (length ds)"
  proof (rule Least_equality)
    show "min n (length ds) = n \<or> m (dst + min n (length ds)) = 0"
      using cstring_end [OF assms] by (auto simp: min_def)
    fix i assume "i = n \<or> m (dst + i) = 0"
    then show "min n (length ds) \<le> i" using cstring_nth [OF assms, of i] by (cases "i < length ds") auto
  qed
  then show ?thesis by (simp add: bounded_len_eq)
qed


section \<open>Properties\<close>


text \<open>
  \<open>strcmp\<close> and \<open>strcasecmp\<close> end on terminated strings and return 0 exactly for equal strings, equal
  but for the case of letters in the second; \<open>strcmp\<close> is antisymmetric.
\<close>

lemma strcmp_zero:
  assumes "cstring m a xs" and "cstring m b ys"
  shows "\<exists>r q t. strcmp a b m = Some r \<and> (r = 0 \<longleftrightarrow> xs = ys) \<and> strcmp b a m = Some q \<and> q = - r \<and>
    strcasecmp a b m = Some t \<and> (t = 0 \<longleftrightarrow> map tolow xs = map tolow ys)"
proof -
  have nz: "0 \<notin> set xs" "0 \<notin> set ys" using cstring_nonzero assms by auto
  have "compare_bytes uint xs ys = 0 \<longleftrightarrow> map uint xs = map uint ys"
    by (rule compare_bytes_0 [OF _ nz]) (auto simp: uint_0_iff)
  moreover have "map uint xs = map uint ys \<longleftrightarrow> xs = ys"
    by (rule inj_map_eq_map) (auto intro: injI simp: word_uint_eq_iff)
  moreover have "compare_bytes uint ys xs = - compare_bytes uint xs ys"
  proof (induction xs arbitrary: ys)
    case Nil
    then show ?case by (cases ys) auto
  next
    case (Cons x xs)
    then show ?case by (cases ys) auto
  qed
  moreover have "compare_bytes tolow xs ys = 0 \<longleftrightarrow> map tolow xs = map tolow ys"
    by (rule compare_bytes_0 [OF _ nz]) (rule tolow_0)
  ultimately show ?thesis using strcmp_eq [OF assms] strcmp_eq [OF assms(2,1)] strcasecmp_eq [OF assms] by auto
qed

definition demo_mem :: memory where
  "demo_mem a = (if a < 16 then [72, 105, 0, 104, 73, 0, 97, 98, 97, 98, 99, 0, 97, 98, 99, 0] ! a else 0)"

text \<open>
  \<open>strstr\<close> finds the first place its needle occurs at, or reports that there is none.
\<close>

lemma strstr_first:
  assumes "cstring m hay xs" and "cstring m needle ys"
  shows "strstr hay needle m =
    Some (if \<exists>i. i + length ys \<le> length xs \<and> take (length ys) (drop i xs) = ys
          then Some (hay + (LEAST i. i + length ys \<le> length xs \<and> take (length ys) (drop i xs) = ys)) else None)"
proof (cases "ys = []")
  case True
  have "(LEAST i. i \<le> length xs) = 0" by (intro Least_equality) auto
  then show ?thesis using True assms(2) by (auto simp: strstr_def)
next
  case False
  then have "m needle \<noteq> 0" using assms(2) by (cases ys) auto
  then show ?thesis using strstr_from_first [OF assms False] unfolding strstr_def occurs_at_def by simp
qed

text \<open>
  \<open>kstrlcpy\<close> and \<open>kstrlcat\<close> stay in their buffer. With a string in \<open>dst\<close> they write no byte outside the \<open>n\<close> bytes of
  \<open>dst\<close>, leave it holding a terminated prefix of what was asked for, and return the length the whole
  would have had.
\<close>

lemma kstrlcpy_bounded:
  assumes src: "cstring m src xs" and dst: "cstring m dst ds" "length ds < n" and apart: "dst + n \<le> src \<or> src + length xs < dst"
  shows "(\<exists>m'. kstrlcpy dst src n m = Some (length xs, m') \<and> cstring m' dst (take (n - 1) xs) \<and>
      (\<forall>a. a < dst \<or> dst + n \<le> a \<longrightarrow> m' a = m a)) \<and>
    (\<exists>m'. kstrlcat dst src n m = Some (length ds + length xs, m') \<and> cstring m' dst (take (n - 1) (ds @ xs)) \<and>
      (\<forall>a. a < dst \<or> dst + n \<le> a \<longrightarrow> m' a = m a))"
proof -
  note B = kstrlcpy_buffer [OF src]
  have "\<exists>m'. kstrlcpy dst src n m = Some (length xs, m') \<and> cstring m' dst (take (n - 1) xs) \<and>
      (\<forall>a. a < dst \<or> dst + n \<le> a \<longrightarrow> m' a = m a)" using B [OF apart] dst(2) by auto
  moreover
  let ?d = "dst + length ds" and ?n = "n - length ds"
  obtain m' where m': "kstrlcpy ?d src ?n m = Some (length xs, m')" "cstring m' ?d (take (?n - 1) xs)"
    "\<forall>a. a < ?d \<or> ?d + ?n \<le> a \<longrightarrow> m' a = m a" using B [of ?d ?n] apart dst(2) by auto
  have "m' (dst + i) = ds ! i" if "i < length ds" for i using m'(3) cstring_nth [OF dst(1) that] that by simp
  then have "cstring m' dst (ds @ take (?n - 1) xs)"
    by (intro cstring_append [OF m'(2)] cstring_nonzero [OF dst(1)]) auto
  moreover have "take (n - 1) (ds @ xs) = ds @ take (?n - 1) xs" using dst(2) by (simp add: take_append diff_diff_left add.commute)
  moreover have "kstrlcat dst src n m = Some (length ds + length xs, m')"
    using m'(1) bounded_len_cstring [OF dst(1), of n] dst(2) by (simp add: kstrlcat_def)
  ultimately show ?thesis using m'(3) dst(2) by auto
qed

lemma kstrlcpy_bounded_example:
  "\<exists>m'. kstrlcat 20 6 4 demo_mem = Some (5, m') \<and> cstring m' 20 [97, 98, 97]"
proof -
  have "cstring demo_mem 6 [97, 98, 97, 98, 99]" "cstring demo_mem 20 []" by (simp_all add: demo_mem_def)
  from kstrlcpy_bounded [OF this, of 4] show ?thesis by (auto simp: numeral_eq_Suc)
qed

end
