(* ===== verification/Kprintf.thy ===== *)
theory Kprintf
  imports Kstring
begin

text \<open>
  Formatted output, \<open>kvsnprintf\<close> and \<open>ksnprintf\<close> of \<open>kernel/kstring.c\<close>. The format is the list of its
  bytes before the NUL; the variable arguments are the 64-bit slots of the x86-64 calling convention, of
  which an \<open>int\<close> conversion reads the low half. Running out of arguments, and a string argument that
  never ends, are \<open>None\<close>.
\<close>

section \<open>Model\<close>

record outbuf =
  omem :: memory
  obuf :: nat
  ocap :: nat
  olen :: nat

definition ob_putc :: "byte \<Rightarrow> outbuf \<Rightarrow> outbuf" where
  "ob_putc c o1 =
     (let o2 = (if olen o1 + 1 < ocap o1 then o1\<lparr>omem := (omem o1)(obuf o1 + olen o1 := c)\<rparr> else o1)
      in o2\<lparr>olen := olen o2 + 1\<rparr>)"

fun ob_pad_n :: "byte \<Rightarrow> nat \<Rightarrow> outbuf \<Rightarrow> outbuf" where
  "ob_pad_n c 0 o1 = o1"
| "ob_pad_n c (Suc k) o1 = ob_pad_n c k (ob_putc c o1)"

definition ob_pad :: "byte \<Rightarrow> int \<Rightarrow> outbuf \<Rightarrow> outbuf" where
  "ob_pad c count o1 = ob_pad_n c (nat count) o1"

definition digit :: "bool \<Rightarrow> nat \<Rightarrow> byte" where
  "digit upper d = (if upper then [48,49,50,51,52,53,54,55,56,57,65,66,67,68,69,70] ! d
                    else [48,49,50,51,52,53,54,55,56,57,97,98,99,100,101,102] ! d)"

text \<open>The digits in \<open>tmp\<close>, the last one first; \<open>base\<close> is 8, 10 or 16.\<close>

function num_digits :: "nat \<Rightarrow> nat \<Rightarrow> bool \<Rightarrow> byte list" where
  "num_digits v base upper =
     (if v = 0 then []
      else if base = 16 then digit upper (v mod 16) # num_digits (v div 16) base upper
      else if base = 8 then digit upper (v mod 8) # num_digits (v div 8) base upper
      else digit upper (v mod 10) # num_digits (v div 10) base upper)"
  by pat_completeness auto
termination num_digits by (relation "measure fst") auto

declare num_digits.simps [simp del]

fun ob_back :: "byte list \<Rightarrow> nat \<Rightarrow> outbuf \<Rightarrow> outbuf" where
  "ob_back tmp 0 o1 = o1"
| "ob_back tmp (Suc n) o1 = ob_back tmp n (ob_putc (tmp ! n) o1)"

definition ob_num :: "nat \<Rightarrow> nat \<Rightarrow> bool \<Rightarrow> bool \<Rightarrow> int \<Rightarrow> bool \<Rightarrow> bool \<Rightarrow> outbuf \<Rightarrow> outbuf" where
  "ob_num v base upper neg width zero left o1 =
     (let tmp = (if v = 0 then [48] else num_digits v base upper);
          n = length tmp;
          total = int n + (if neg then 1 else 0);
          o1 = (if \<not> left \<and> \<not> zero then ob_pad 32 (width - total) o1 else o1);
          o1 = (if neg then ob_putc 45 o1 else o1);
          o1 = (if \<not> left \<and> zero then ob_pad 48 (width - total) o1 else o1);
          o1 = ob_back tmp n o1
      in if left then ob_pad 32 (width - total) o1 else o1)"

record spec =
  sleft :: bool
  szero :: bool
  swidth :: nat
  slng :: nat

fun read_flags :: "byte list \<Rightarrow> spec \<Rightarrow> spec \<times> byte list" where
  "read_flags [] sp = (sp, [])"
| "read_flags (c # p) sp =
     (if c = 45 then read_flags p (sp\<lparr>sleft := True\<rparr>)
      else if c = 48 then read_flags p (sp\<lparr>szero := True\<rparr>) else (sp, c # p))"

fun read_width :: "byte list \<Rightarrow> spec \<Rightarrow> spec \<times> byte list" where
  "read_width [] sp = (sp, [])"
| "read_width (c # p) sp =
     (if k_isdigit (uint c) then read_width p (sp\<lparr>swidth := swidth sp * 10 + (unat c - 48)\<rparr>) else (sp, c # p))"

fun read_lng :: "byte list \<Rightarrow> spec \<Rightarrow> spec \<times> byte list" where
  "read_lng [] sp = (sp, [])"
| "read_lng (c # p) sp = (if c = 108 then read_lng p (sp\<lparr>slng := slng sp + 1\<rparr>) else (sp, c # p))"

definition read_spec :: "byte list \<Rightarrow> spec \<times> byte list" where
  "read_spec p =
     (let (sp, p) = read_flags p \<lparr>sleft = False, szero = False, swidth = 0, slng = 0\<rparr>;
          (sp, p) = read_width p sp
      in read_lng p sp)"

fun next_arg :: "u64 list \<Rightarrow> (u64 \<times> u64 list) option" where
  "next_arg [] = None"
| "next_arg (a # ap) = Some (a, ap)"

partial_function (option) ob_puts :: "nat \<Rightarrow> outbuf \<Rightarrow> outbuf option" where
  "ob_puts s o1 = (if omem o1 s \<noteq> 0 then ob_puts (s + 1) (ob_putc (omem o1 s) o1) else Some o1)"

fun ob_list :: "byte list \<Rightarrow> outbuf \<Rightarrow> outbuf" where
  "ob_list [] o1 = o1"
| "ob_list (c # cs) o1 = ob_list cs (ob_putc c o1)"

definition null_text :: "byte list" where
  "null_text = [40, 110, 117, 108, 108, 41]"

definition convert :: "byte \<Rightarrow> spec \<Rightarrow> u64 list \<Rightarrow> outbuf \<Rightarrow> (outbuf \<times> u64 list) option" where
  "convert c sp ap o1 =
     (let w = int (swidth sp)
      in if c = 100 \<or> c = 105
         then do { (a, ap) \<leftarrow> next_arg ap;
                   let v = (if 2 \<le> slng sp then sint a else sint (ucast a :: u32));
                   let neg = (v < 0);
                   Some (ob_num (unat (of_int (if neg then - v else v) :: u64)) 10 False neg w (szero sp) (sleft sp) o1, ap) }
         else if c = 117 \<or> c = 120 \<or> c = 88 \<or> c = 111
         then do { (a, ap) \<leftarrow> next_arg ap;
                   let v = (if 2 \<le> slng sp then unat a else unat (ucast a :: u32));
                   Some (ob_num v (if c = 117 then 10 else if c = 111 then 8 else 16) (c = 88) False w (szero sp) (sleft sp) o1, ap) }
         else if c = 112
         then do { (a, ap) \<leftarrow> next_arg ap;
                   let o1 = ob_putc 120 (ob_putc 48 o1);
                   Some (ob_num (unat a) 16 False False 8 True False o1, ap) }
         else if c = 115
         then do { (a, ap) \<leftarrow> next_arg ap;
                   l \<leftarrow> (if a = 0 then Some (length null_text) else strlen (unat a) (omem o1));
                   let o1 = (if \<not> sleft sp then ob_pad 32 (w - int l) o1 else o1);
                   o1 \<leftarrow> (if a = 0 then Some (ob_list null_text o1) else ob_puts (unat a) o1);
                   Some (if sleft sp then ob_pad 32 (w - int l) o1 else o1, ap) }
         else if c = 99
         then do { (a, ap) \<leftarrow> next_arg ap; Some (ob_putc (ucast a) o1, ap) }
         else if c = 37 then Some (ob_putc 37 o1, ap)
         else Some (ob_putc c (ob_putc 37 o1), ap))"

lemma read_spec_length: "length (snd (read_spec p)) \<le> length p"
proof -
  have "length (snd (read_flags p sp)) \<le> length p" for p sp by (induction p sp rule: read_flags.induct) auto
  moreover have "length (snd (read_width p sp)) \<le> length p" for p sp by (induction p sp rule: read_width.induct) auto
  moreover have "length (snd (read_lng p sp)) \<le> length p" for p sp by (induction p sp rule: read_lng.induct) auto
  ultimately show ?thesis unfolding read_spec_def Let_def by (auto simp: case_prod_beta) (meson le_trans)
qed

function format_loop :: "byte list \<Rightarrow> u64 list \<Rightarrow> outbuf \<Rightarrow> outbuf option" where
  "format_loop [] ap o1 = Some o1"
| "format_loop (c # p) ap o1 =
     (if c \<noteq> 37 then format_loop p ap (ob_putc c o1)
      else case read_spec p of
             (sp, []) \<Rightarrow> Some o1
           | (sp, d # q) \<Rightarrow> (case convert d sp ap o1 of None \<Rightarrow> None | Some (o2, ap2) \<Rightarrow> format_loop q ap2 o2))"
  by pat_completeness auto
termination format_loop
proof (relation "measure (\<lambda>(p, _). length p)", goal_cases)
  case (3 c p ap o1 sp x d q o2 ap2)
  then show ?case using read_spec_length [of p] by (cases "read_spec p") auto
qed auto

definition kvsnprintf :: "nat \<Rightarrow> nat \<Rightarrow> byte list \<Rightarrow> u64 list \<Rightarrow> memory \<Rightarrow> (nat \<times> memory) option" where
  "kvsnprintf buf n fmt ap m =
     do { o1 \<leftarrow> format_loop fmt ap \<lparr>omem = m, obuf = buf, ocap = n, olen = 0\<rparr>;
          Some (olen o1, if n \<noteq> 0 then (omem o1)(buf + (if olen o1 < n then olen o1 else n - 1) := 0) else omem o1) }"


section \<open>The text a format stands for\<close>

definition pad_text :: "byte \<Rightarrow> int \<Rightarrow> byte list" where
  "pad_text c count = replicate (nat count) c"

definition num_text :: "nat \<Rightarrow> nat \<Rightarrow> bool \<Rightarrow> bool \<Rightarrow> int \<Rightarrow> bool \<Rightarrow> bool \<Rightarrow> byte list" where
  "num_text v base upper neg width zero left =
     (let ds = (if v = 0 then [48] else rev (num_digits v base upper));
          total = int (length ds) + (if neg then 1 else 0);
          pad = (\<lambda>c. pad_text c (width - total));
          sign = (if neg then [45] else [])
      in if left then sign @ ds @ pad 32 else if zero then sign @ pad 48 @ ds else pad 32 @ sign @ ds)"

definition str_text :: "byte list \<Rightarrow> spec \<Rightarrow> byte list" where
  "str_text xs sp =
     (let pad = pad_text 32 (int (swidth sp) - int (length xs)) in if sleft sp then xs @ pad else pad @ xs)"

text \<open>The string arguments are given by what they point to.\<close>

definition convert_text :: "(nat \<Rightarrow> byte list) \<Rightarrow> byte \<Rightarrow> spec \<Rightarrow> u64 list \<Rightarrow> (byte list \<times> u64 list) option" where
  "convert_text str c sp ap =
     (let w = int (swidth sp)
      in if c = 100 \<or> c = 105
         then do { (a, ap) \<leftarrow> next_arg ap;
                   let v = (if 2 \<le> slng sp then sint a else sint (ucast a :: u32));
                   Some (num_text (unat (of_int (if v < 0 then - v else v) :: u64)) 10 False (v < 0) w (szero sp) (sleft sp), ap) }
         else if c = 117 \<or> c = 120 \<or> c = 88 \<or> c = 111
         then do { (a, ap) \<leftarrow> next_arg ap;
                   let v = (if 2 \<le> slng sp then unat a else unat (ucast a :: u32));
                   Some (num_text v (if c = 117 then 10 else if c = 111 then 8 else 16) (c = 88) False w (szero sp) (sleft sp), ap) }
         else if c = 112
         then do { (a, ap) \<leftarrow> next_arg ap; Some ([48, 120] @ num_text (unat a) 16 False False 8 True False, ap) }
         else if c = 115
         then do { (a, ap) \<leftarrow> next_arg ap; Some (str_text (if a = 0 then null_text else str (unat a)) sp, ap) }
         else if c = 99 then do { (a, ap) \<leftarrow> next_arg ap; Some ([ucast a], ap) }
         else if c = 37 then Some ([37], ap)
         else Some ([37, c], ap))"

function format_text :: "(nat \<Rightarrow> byte list) \<Rightarrow> byte list \<Rightarrow> u64 list \<Rightarrow> byte list option" where
  "format_text str [] ap = Some []"
| "format_text str (c # p) ap =
     (if c \<noteq> 37 then map_option (Cons c) (format_text str p ap)
      else case read_spec p of
             (sp, []) \<Rightarrow> Some []
           | (sp, d # q) \<Rightarrow> (case convert_text str d sp ap of
                 None \<Rightarrow> None | Some (xs, ap2) \<Rightarrow> map_option ((@) xs) (format_text str q ap2)))"
  by pat_completeness auto
termination format_text
proof (relation "measure (\<lambda>(_, p, _). length p)", goal_cases)
  case (3 str c p ap sp x d q o2 ap2)
  then show ?case using read_spec_length [of p] by (cases "read_spec p") auto
qed auto


section \<open>The buffer holds the text, cut to its size\<close>

lemma ob_list_append [simp]: "ob_list (xs @ ys) o1 = ob_list ys (ob_list xs o1)"
  by (induction xs arbitrary: o1) auto

lemma ob_pad_list: "ob_pad c k o1 = ob_list (pad_text c k) o1"
proof -
  have "ob_pad_n c n o1 = ob_list (replicate n c) o1" for n by (induction n arbitrary: o1) auto
  then show ?thesis by (simp add: ob_pad_def pad_text_def)
qed

lemma ob_back_list: "n \<le> length tmp \<Longrightarrow> ob_back tmp n o1 = ob_list (rev (take n tmp)) o1"
  by (induction n arbitrary: o1) (auto simp: take_Suc_conv_app_nth)

lemma ob_num_list: "ob_num v base upper neg width zero left o1 = ob_list (num_text v base upper neg width zero left) o1"
  by (auto simp: ob_num_def num_text_def Let_def ob_pad_list ob_back_list)

text \<open>\<open>shows_in o m w\<close>: of the text \<open>w\<close> the buffer has what fits, the rest of memory is that of \<open>m\<close>.\<close>

definition shows_in :: "outbuf \<Rightarrow> memory \<Rightarrow> byte list \<Rightarrow> bool" where
  "shows_in o1 m w \<longleftrightarrow> olen o1 = length w \<and>
     omem o1 = (\<lambda>a. if obuf o1 \<le> a \<and> a - obuf o1 < length w \<and> a - obuf o1 + 1 < ocap o1 then w ! (a - obuf o1) else m a)"

lemma ob_putc_same [simp]: "obuf (ob_putc c o1) = obuf o1" "ocap (ob_putc c o1) = ocap o1"
  by (simp_all add: ob_putc_def Let_def)

lemma ob_list_same [simp]: "obuf (ob_list cs o1) = obuf o1" "ocap (ob_list cs o1) = ocap o1"
  by (induction cs arbitrary: o1) auto

lemma ob_putc_shows: "shows_in o1 m w \<Longrightarrow> shows_in (ob_putc c o1) m (w @ [c])"
  by (auto simp: shows_in_def ob_putc_def Let_def fun_eq_iff nth_append)

lemma ob_list_shows: "shows_in o1 m w \<Longrightarrow> shows_in (ob_list cs o1) m (w @ cs)"
proof (induction cs arbitrary: o1 w)
  case (Cons c cs)
  show ?case using Cons.IH [OF ob_putc_shows [OF Cons.prems]] by simp
qed simp

text \<open>A string outside the buffer is copied as it was at the start.\<close>

definition outside :: "outbuf \<Rightarrow> nat \<Rightarrow> byte list \<Rightarrow> bool" where
  "outside o1 s xs \<longleftrightarrow> s + length xs < obuf o1 \<or> obuf o1 + ocap o1 \<le> s"

lemma cstring_outside:
  assumes "shows_in o1 m w" "cstring m s xs" "outside o1 s xs"
  shows "cstring (omem o1) s xs"
  unfolding cstring_iff using assms by (auto simp: cstring_iff shows_in_def outside_def)

lemma ob_puts_list:
  assumes "shows_in o1 m w" "cstring m s xs" "outside o1 s xs"
  shows "ob_puts s o1 = Some (ob_list xs o1)"
  using assms
proof (induction xs arbitrary: s o1 w)
  case Nil
  then show ?case using cstring_outside [OF Nil] by (subst ob_puts.simps) simp
next
  case (Cons x xs)
  have "ob_puts (s + 1) (ob_putc x o1) = Some (ob_list xs (ob_putc x o1))"
    by (rule Cons.IH [OF ob_putc_shows [OF Cons.prems(1)]]) (use Cons.prems in \<open>auto simp: outside_def\<close>)
  then show ?case using cstring_outside [OF Cons.prems] by (subst ob_puts.simps) simp
qed

lemma convert_list:
  assumes sh: "shows_in o1 m w" and ct: "convert_text str c sp ap = Some (xs, ap2)"
    and strs: "\<And>a. c = 115 \<Longrightarrow> a = hd ap \<Longrightarrow> a \<noteq> 0 \<Longrightarrow> cstring m (unat a) (str (unat a)) \<and> outside o1 (unat a) (str (unat a))"
  shows "convert c sp ap o1 = Some (ob_list xs o1, ap2)"
proof (cases "c = 115")
  case False
  then consider "c = 100" | "c = 105" | "c = 117" | "c = 120" | "c = 88" | "c = 111" | "c = 112" | "c = 99" | "c = 37"
    | "c \<notin> {100, 105, 117, 120, 88, 111, 112, 115, 99, 37}" by auto
  then show ?thesis
    using ct by cases (cases ap; auto simp: convert_def convert_text_def Let_def ob_num_list)+
next
  case True
  then obtain a where ap: "ap = a # ap2" and xs: "xs = str_text (if a = 0 then null_text else str (unat a)) sp"
    using ct by (cases ap) (auto simp: convert_text_def)
  let ?s = "if a = 0 then null_text else str (unat a)"
  let ?pad = "pad_text 32 (int (swidth sp) - int (length ?s))"
  have len: "(if a = 0 then Some (length null_text) else strlen (unat a) (omem o1)) = Some (length ?s)"
    using strs [OF True, of a] ap strlen_cstring [OF cstring_outside [OF sh]] by auto
  have puts: "(if a = 0 then Some (ob_list null_text o2) else ob_puts (unat a) o2) = Some (ob_list ?s o2)"
    if o2: "o2 = ob_list ys o1" for o2 ys
    using strs [OF True, of a] ap ob_puts_list [OF ob_list_shows [OF sh]] o2 by (auto simp: outside_def)
  show ?thesis
    using len puts [of "ob_list ?pad o1" ?pad] puts [of o1 "[]"] unfolding convert_def True ap xs str_text_def
    by (auto simp: ob_pad_list Let_def)
qed

function format_strs :: "byte list \<Rightarrow> u64 list \<Rightarrow> nat list" where
  "format_strs [] ap = []"
| "format_strs (c # p) ap =
     (if c \<noteq> 37 then format_strs p ap
      else case read_spec p of
             (sp, []) \<Rightarrow> []
           | (sp, d # q) \<Rightarrow>
               if d \<in> {100, 105, 117, 120, 88, 111, 112, 115, 99}
               then (case ap of [] \<Rightarrow> [] | a # ap2 \<Rightarrow> (if d = 115 \<and> a \<noteq> 0 then [unat a] else []) @ format_strs q ap2)
               else format_strs q ap)"
  by pat_completeness auto
termination format_strs
proof (relation "measure (\<lambda>(p, _). length p)", goal_cases)
  case (3 c p ap sp x d q a ap2)
  then show ?case using read_spec_length [of p] by (cases "read_spec p") auto
next
  case (4 c p ap sp x d q)
  then show ?case using read_spec_length [of p] by (cases "read_spec p") auto
qed auto

lemma convert_text_rest:
  assumes "convert_text str d sp ap = Some (xs, ap2)"
  shows "if d \<in> {100, 105, 117, 120, 88, 111, 112, 115, 99} then \<exists>a. ap = a # ap2 else ap2 = ap"
  using assms by (cases ap) (auto simp: convert_text_def Let_def split: if_splits)

lemma format_loop_list:
  assumes "format_text str fmt ap = Some xs" and "shows_in o1 m w"
    and "\<And>a. a \<in> set (format_strs fmt ap) \<Longrightarrow> cstring m a (str a) \<and> outside o1 a (str a)"
  shows "format_loop fmt ap o1 = Some (ob_list xs o1)"
  using assms
proof (induction fmt ap o1 arbitrary: xs w rule: format_loop.induct)
  case (1 ap o1)
  then show ?case by simp
next
  case (2 c p ap o1)
  show ?case
  proof (cases "c = 37")
    case False
    then obtain ys where ys: "format_text str p ap = Some ys" "xs = c # ys" using "2.prems"(1) by auto
    have "format_loop p ap (ob_putc c o1) = Some (ob_list ys (ob_putc c o1))"
      by (rule "2.IH"(1) [OF False ys(1) ob_putc_shows [OF "2.prems"(2)]])
        (use "2.prems"(3) False in \<open>auto simp: outside_def\<close>)
    then show ?thesis using False ys by simp
  next
    case True
    obtain sp q where rs: "read_spec p = (sp, q)" by force
    show ?thesis
    proof (cases q)
      case Nil
      then show ?thesis using True rs "2.prems"(1) by simp
    next
      case (Cons d q2)
      obtain us ap2 ys where us: "convert_text str d sp ap = Some (us, ap2)" "format_text str q2 ap2 = Some ys" "xs = us @ ys"
        using "2.prems"(1) True rs Cons by (auto split: option.splits)
      note R = convert_text_rest [OF us(1)]
      have "convert d sp ap o1 = Some (ob_list us o1, ap2)"
        by (rule convert_list [OF "2.prems"(2) us(1)]) (use "2.prems"(3) True rs Cons R in auto)
      moreover have "format_loop q2 ap2 (ob_list us o1) = Some (ob_list ys (ob_list us o1))"
        by (rule "2.IH"(2) [OF _ rs [symmetric] Cons calculation _ us(2) ob_list_shows [OF "2.prems"(2)]])
          (use "2.prems"(3) True rs Cons R in \<open>auto simp: outside_def split: if_splits\<close>)
      ultimately show ?thesis using True rs Cons us(3) by simp
    qed
  qed
qed

lemma kvsnprintf_eq:
  assumes "format_text str fmt ap = Some out"
    and strs: "\<And>a. a \<in> set (format_strs fmt ap) \<Longrightarrow> cstring m a (str a) \<and> (a + length (str a) < buf \<or> buf + n \<le> a)"
    and n: "0 < n"
  shows "\<exists>m'. kvsnprintf buf n fmt ap m = Some (length out, m') \<and> (\<forall>a. a < buf \<or> buf + n \<le> a \<longrightarrow> m' a = m a) \<and>
    (\<forall>i < min (length out) (n - 1). m' (buf + i) = out ! i) \<and> m' (buf + min (length out) (n - 1)) = 0"
proof -
  let ?o = "\<lparr>omem = m, obuf = buf, ocap = n, olen = 0\<rparr>"
  have sh: "shows_in ?o m []" by (simp add: shows_in_def)
  have loop: "format_loop fmt ap ?o = Some (ob_list out ?o)"
    by (rule format_loop_list [OF assms(1) sh]) (use strs in \<open>auto simp: outside_def\<close>)
  have "shows_in (ob_list out ?o) m ([] @ out)" by (rule ob_list_shows [OF sh])
  then have o2: "olen (ob_list out ?o) = length out"
    "omem (ob_list out ?o) = (\<lambda>a. if buf \<le> a \<and> a - buf < length out \<and> a - buf + 1 < n then out ! (a - buf) else m a)"
    by (auto simp: shows_in_def)
  have at: "(if length out < n then length out else n - 1) = min (length out) (n - 1)" using n by auto
  show ?thesis
    using loop o2 n unfolding kvsnprintf_def by (auto simp: at)
qed


section \<open>Properties\<close>




text \<open>The value of decimal digits, most significant first.\<close>

definition dec_value :: "byte list \<Rightarrow> nat" where
  "dec_value ds = fold (\<lambda>d v. v * 10 + (unat d - 48)) ds 0"

lemma digit_dec: "d < 10 \<Longrightarrow> k_isdigit (uint (digit upper d)) \<and> unat (digit upper d) - 48 = d \<and> digit upper d \<noteq> 0"
proof -
  assume "d < 10"
  then have "d \<in> {0, 1, 2, 3, 4, 5, 6, 7, 8, 9}" by auto
  then show ?thesis by (elim insertE emptyE) (simp_all add: digit_def k_isdigit_def)
qed

lemma num_digits_dec:
  "dec_value (rev (num_digits v 10 upper)) = v \<and> (\<forall>d \<in> set (num_digits v 10 upper). k_isdigit (uint d))"
proof (induction v rule: less_induct)
  case (less v)
  show ?case
  proof (cases "v = 0")
    case True
    then show ?thesis by (simp add: num_digits.simps dec_value_def)
  next
    case False
    have eq: "num_digits v 10 upper = digit upper (v mod 10) # num_digits (v div 10) 10 upper"
      using False by (subst num_digits.simps) simp
    have "dec_value (rev (num_digits (v div 10) 10 upper)) = v div 10 \<and>
      (\<forall>d \<in> set (num_digits (v div 10) 10 upper). k_isdigit (uint d))" by (rule less.IH) (use False in auto)
    then show ?thesis using digit_dec [of "v mod 10" upper] unfolding eq by (simp add: dec_value_def)
  qed
qed

lemma parse_digits_list:
  assumes "\<And>i. i < length ds \<Longrightarrow> m (s + k + i) = ds ! i" and "\<forall>d \<in> set ds. k_isdigit (uint d)"
    and "\<not> k_isdigit (uint (m (s + k + length ds)))"
  shows "parse_digits s k v m = Some (k + length ds, fold (\<lambda>d v. wrap32 (wrap32 (v * 10) + (unat d - 48))) ds v)"
  using assms
proof (induction ds arbitrary: k v)
  case Nil
  then show ?case by (subst parse_digits.simps) simp
next
  case (Cons d ds)
  have at: "m (s + k) = d" using Cons.prems(1) [of 0] by simp
  have "parse_digits s (k + 1) v m = Some (k + 1 + length ds, fold (\<lambda>d v. wrap32 (wrap32 (v * 10) + (unat d - 48))) ds v)" for v
    by (rule Cons.IH) (use Cons.prems(2,3) Cons.prems(1) [of "Suc _"] in auto)
  then show ?case using at Cons.prems(2) by (subst parse_digits.simps) simp
qed

lemma fold_wrap32:
  "fold (\<lambda>d v. wrap32 (wrap32 (v * 10) + (unat d - 48))) ds (wrap32 v) =
   wrap32 (fold (\<lambda>(d::byte) v. v * 10 + (unat d - 48)) ds v)"
proof (induction ds arbitrary: v)
  case (Cons d ds)
  have "wrap32 (wrap32 (wrap32 v * 10) + (unat d - 48)) = wrap32 (v * 10 + (unat d - 48))"
    by (simp add: wrap32_def mod_simps)
  then show ?case using Cons.IH [of "v * 10 + (unat d - 48)"] by simp
qed simp

lemma parse_u32_text:
  assumes "\<And>i. i < length ds \<Longrightarrow> m (s + i) = ds ! i" and "\<forall>d \<in> set ds. k_isdigit (uint d)"
    and "\<not> k_isdigit (uint (m (s + length ds)))"
  shows "k_parse_u32 s m = Some (length ds, wrap32 (dec_value ds))"
  using parse_digits_list [of ds m s 0 0] assms fold_wrap32 [of ds 0] by (simp add: k_parse_u32_def dec_value_def)

text \<open>
  numbers survive printing and parsing. \<open>%u\<close> of a 32-bit value that fits the buffer, parsed with
  \<open>k_parse_u32\<close>, gives the value and consumes exactly the digits printed.
\<close>

lemma print_parse_u32:
  assumes "v < 2 ^ 32" and "length (num_text v 10 False False 0 False False) < n"
  shows "\<exists>l m'. kvsnprintf buf n [37, 117] [of_nat v] m = Some (l, m') \<and> k_parse_u32 buf m' = Some (l, v)"
proof -
  let ?t = "num_text v 10 False False 0 False False"
  have t: "?t = (if v = 0 then [48] else rev (num_digits v 10 False))" by (auto simp: num_text_def pad_text_def Let_def)
  have "unat (ucast (of_nat v :: u64) :: u32) = v" using assms(1) by (simp add: unat_of_nat unsigned_ucast_eq take_bit_nat_eq_self)
  then have "format_text (\<lambda>_. []) [37, 117] [of_nat v] = Some ?t"
    by (simp add: read_spec_def k_isdigit_def convert_text_def)
  from kvsnprintf_eq [OF this, of m buf n] assms(2) obtain m' where
    m': "kvsnprintf buf n [37, 117] [of_nat v] m = Some (length ?t, m')" "\<forall>i < length ?t. m' (buf + i) = ?t ! i" "m' (buf + length ?t) = 0"
    by (auto simp: read_spec_def k_isdigit_def)
  have d: "\<forall>d \<in> set ?t. k_isdigit (uint d)" "dec_value ?t = v"
    using num_digits_dec [of v False] by (auto simp: t k_isdigit_def dec_value_def)
  have "k_parse_u32 buf m' = Some (length ?t, wrap32 (dec_value ?t))"
    by (rule parse_u32_text) (use m' d in \<open>auto simp: k_isdigit_def\<close>)
  then show ?thesis using m'(1) d(2) assms(1) by auto
qed

lemma print_parse_u32_example:
  "\<exists>l m'. kvsnprintf 64 16 [37, 117] [of_nat 4294967295] (\<lambda>_. 0) = Some (l, m') \<and> k_parse_u32 64 m' = Some (l, 4294967295)"
  by (rule print_parse_u32) (simp_all add: num_text_def pad_text_def num_digits.simps)

end
