(* ===== verification/Calendar.thy ===== *)
theory Calendar
  imports Prelude
begin

text \<open>
  Unix time and civil dates: \<open>days_from_civil\<close>, \<open>rtc_make_time\<close> and \<open>rtc_split_time\<close> of
  \<open>kernel/rtc.c\<close>, and the lengths of months from \<open>kernel/tz.c\<close>. C's \<open>int\<close> is \<open>int\<close>; divisions of values
  that can be negative are written with C's truncation.
\<close>

section \<open>Model\<close>

record rtc_datetime =
  second :: int
  minute :: int
  hour :: int
  day :: int
  month :: int
  year :: int

definition u32i :: "int \<Rightarrow> int" where
  "u32i v = v mod 2 ^ 32"

text \<open>C's division, which truncates.\<close>

definition cdiv :: "int \<Rightarrow> int \<Rightarrow> int" where
  "cdiv a b = (if 0 \<le> a then a div b else - ((- a) div b))"

definition days_from_civil :: "int \<Rightarrow> int \<Rightarrow> int \<Rightarrow> int" where
  "days_from_civil y0 m d =
     (let y = (if m \<le> 2 then y0 - 1 else y0);
          era = cdiv (if 0 \<le> y then y else y - 399) 400;
          yoe = y - era * 400;
          doy = cdiv (153 * (m + (if 2 < m then - 3 else 9)) + 2) 5 + d - 1;
          doe = yoe * 365 + cdiv yoe 4 - cdiv yoe 100 + doy
      in era * 146097 + doe - 719468)"

definition rtc_make_time :: "int \<Rightarrow> int \<Rightarrow> int \<Rightarrow> int \<Rightarrow> int \<Rightarrow> int \<Rightarrow> int" where
  "rtc_make_time y m d h mi s =
     (if y < 1970 \<or> m < 1 \<or> 12 < m \<or> d < 1 \<or> 31 < d then 0
      else u32i (u32i (days_from_civil y m d) * 86400 + u32i (h * 3600 + mi * 60 + s)))"

definition rtc_split_time :: "int \<Rightarrow> rtc_datetime" where
  "rtc_split_time t =
     (let z = t div 86400 + 719468;
          secs = t mod 86400;
          era = cdiv (if 0 \<le> z then z else z - 146096) 146097;
          doe = z - era * 146097;
          yoe = cdiv (doe - cdiv doe 1460 + cdiv doe 36524 - cdiv doe 146096) 365;
          y = yoe + era * 400;
          doy = doe - (365 * yoe + cdiv yoe 4 - cdiv yoe 100);
          mp = cdiv (5 * doy + 2) 153;
          d = doy - cdiv (153 * mp + 2) 5 + 1;
          m = mp + (if mp < 10 then 3 else - 9)
      in \<lparr>second = secs mod 60 mod 256, minute = (secs div 60) mod 60 mod 256, hour = (secs div 3600) mod 256,
          day = d mod 256, month = m mod 256, year = (y + (if m \<le> 2 then 1 else 0)) mod 65536\<rparr>)"

definition leap :: "int \<Rightarrow> bool" where
  "leap y \<longleftrightarrow> (y mod 4 = 0 \<and> y mod 100 \<noteq> 0) \<or> y mod 400 = 0"

definition mdays :: "int \<Rightarrow> int \<Rightarrow> int" where
  "mdays y m = [31, 28, 31, 30, 31, 30, 31, 31, 30, 31, 30, 31] ! nat (m - 1) + (if m = 2 \<and> leap y then 1 else 0)"


section \<open>The year of a day\<close>

text \<open>
  \<open>year_start y\<close> is the first day of year \<open>y\<close> of a 400-year era that starts in March. The formula of
  \<open>rtc_split_time\<close> finds the year a day lies in: with the year cut into centuries, groups of four years
  and the rest, the three corrections count the leap days before it.
\<close>

definition year_start :: "int \<Rightarrow> int" where
  "year_start y = 365 * y + y div 4 - y div 100"

definition year_of :: "int \<Rightarrow> int" where
  "year_of doe = (doe - doe div 1460 + doe div 36524 - doe div 146096) div 365"

definition year_end :: "int \<Rightarrow> int" where
  "year_end y = year_start (y + 1) - 1 + (if y = 399 then 1 else 0)"

lemma year_between:
  assumes "0 \<le> d" "d < 146097"
  obtains y where "0 \<le> y" "y < 400" "year_start y \<le> d" "d \<le> year_end y"
proof -
  have "\<exists>y. 0 \<le> y \<and> y < int n \<and> year_start y \<le> d \<and> d < year_start (y + 1)" if "d < year_start (int n)" for n
    using that
  proof (induction n)
    case 0
    then show ?case using assms by (simp add: year_start_def)
  next
    case (Suc n)
    show ?case
    proof (cases "d < year_start (int n)")
      case True
      then show ?thesis using Suc.IH by fastforce
    next
      case False
      then show ?thesis using Suc.prems by (intro exI [of _ "int n"]) (auto simp: add.commute)
    qed
  qed
  from this [of 400] have small: "d < 146096 \<Longrightarrow> thesis"
    using that by (fastforce simp: year_end_def year_start_def)
  show thesis
  proof (cases "d < 146096")
    case False
    then show thesis using that [of 399] assms by (simp add: year_start_def year_end_def)
  qed (rule small)
qed

lemma year_of_unique:
  assumes y: "0 \<le> y" "y < 400" and d: "year_start y \<le> d" "d \<le> year_end y"
  shows "year_of d = y"
proof -
  define c r where "c = y div 100" and "r = y mod 100"
  define q e where "q = r div 4" and "e = r mod 4"
  define k where "k = d - year_start y"
  have c: "0 \<le> c" "c \<le> 3" and q: "0 \<le> q" "q \<le> 24" and e: "0 \<le> e" "e \<le> 3"
    using y by (auto simp: c_def r_def q_def e_def)
  have yeq: "y = 100 * c + (4 * q + e)" by (simp add: c_def r_def q_def e_def)
  have y4: "y div 4 = 25 * c + q" using e by (intro int_div_pos_eq [where r = e]) (auto simp: yeq)
  have y100: "y div 100 = c" by (simp add: c_def)
  have start: "year_start y = 36524 * c + 1461 * q + 365 * e" unfolding year_start_def y4 y100 by (simp add: yeq)
  have yend: "year_end y = year_start y + (if e = 3 \<and> (q < 24 \<or> c = 3) then 365 else 364)"
  proof (cases "e = 3 \<and> q = 24")
    case True
    then show ?thesis using c by (auto simp: year_end_def year_start_def yeq)
  next
    case False
    have "4 * q + e + 1 < 100" using False q e by auto
    then have n100: "(y + 1) div 100 = c" using q e by (intro int_div_pos_eq [where r = "4 * q + e + 1"]) (auto simp: yeq)
    have n4: "(y + 1) div 4 = 25 * c + q + (if e = 3 then 1 else 0)"
      using e by (intro int_div_pos_eq [where r = "if e = 3 then 0 else e + 1"]) (auto simp: yeq)
    have "y \<noteq> 399" using False by (auto simp: q_def e_def r_def)
    then show ?thesis using False q e unfolding year_end_def year_start_def y4 y100 n4 n100 by auto
  qed
  have k: "0 \<le> k" "k \<le> 365" "k = 365 \<Longrightarrow> e = 3 \<and> (q < 24 \<or> c = 3)" and deq: "d = 36524 * c + 1461 * q + 365 * e + k"
    using d yend start by (auto simp: k_def split: if_splits)
  define v where "v = 24 * c + q + 365 * e + k"
  have d1460: "d div 1460 = 25 * c + q + (if v < 1460 then 0 else 1)"
  proof -
    have "0 \<le> v" "v < 2920" using c q e k by (auto simp: v_def)
    then show ?thesis by (intro int_div_pos_eq [where r = "if v < 1460 then v else v - 1460"]) (auto simp: deq v_def)
  qed
  show ?thesis
  proof (cases "q = 24 \<and> e = 3 \<and> k = 365")
    case True
    then show ?thesis using k(3) by (simp add: year_of_def deq yeq)
  next
    case False
    then have "1461 * q + 365 * e + k < 36524" using q e k by auto
    then have "d div 36524 = c" using q e k c by (intro int_div_pos_eq [where r = "1461 * q + 365 * e + k"]) (auto simp: deq)
    moreover have "d div 146096 = 0" using \<open>1461 * q + 365 * e + k < 36524\<close> c q e k by (simp add: deq)
    ultimately have n: "d - d div 1460 + d div 36524 - d div 146096 = 365 * y + (k - (if v < 1460 then 0 else 1))"
      using d1460 by (simp add: deq yeq)
    have "0 \<le> k - (if v < 1460 then 0 else 1)" "k - (if v < 1460 then 0 else 1) < 365"
      using c q e k by (cases "k = 365"; auto simp: v_def)+
    then show ?thesis unfolding year_of_def n by simp
  qed
qed

lemma year_of_range:
  assumes "0 \<le> d" "d < 146097"
  shows "0 \<le> year_of d" and "year_of d < 400" and "0 \<le> d - year_start (year_of d)" and "d - year_start (year_of d) \<le> 365"
    and "d \<le> year_end (year_of d)"
proof -
  obtain y where y: "0 \<le> y" "y < 400" "year_start y \<le> d" "d \<le> year_end y" by (rule year_between [OF assms])
  then have eq: "year_of d = y" by (rule year_of_unique)
  have "year_end y - year_start y \<le> 365"
  proof -
    have "(y + 1) div 4 - y div 4 \<le> 1" "(y + 1) div 100 - y div 100 \<ge> 0" using y by linarith+
    moreover have "y = 399 \<Longrightarrow> (y + 1) div 4 - y div 4 - ((y + 1) div 100 - y div 100) = 0" by simp
    ultimately show ?thesis by (auto simp: year_end_def year_start_def algebra_simps)
  qed
  then show "0 \<le> year_of d" "year_of d < 400" "0 \<le> d - year_start (year_of d)" "d - year_start (year_of d) \<le> 365"
    "d \<le> year_end (year_of d)"
    using y unfolding eq by auto
qed


section \<open>The month of a day\<close>

definition month_start :: "int \<Rightarrow> int" where
  "month_start mp = (153 * mp + 2) div 5"

lemma month_range:
  assumes "0 \<le> doy" "doy \<le> 365"
  defines "mp \<equiv> (5 * doy + 2) div 153"
  shows "0 \<le> mp" and "mp \<le> 11" and "month_start mp \<le> doy" and "doy < month_start mp + 31"
proof -
  show "0 \<le> mp" "mp \<le> 11" using assms by auto
  show "month_start mp \<le> doy" "doy < month_start mp + 31" using assms unfolding month_start_def mp_def by linarith+
qed

lemma cdiv_pos [simp]: "0 \<le> a \<Longrightarrow> cdiv a b = a div b"
  by (simp add: cdiv_def)

text \<open>A time split and a date joined, in terms of the era, the year in it and the day in that.\<close>

lemma split_time_parts:
  assumes t: "0 \<le> t" "t < 2 ^ 32"
  obtains era yoe doy mp where "t div 86400 + 719468 = era * 146097 + year_start yoe + doy"
    and "0 \<le> yoe" "yoe < 400" "0 \<le> doy" "doy \<le> 365" "mp = (5 * doy + 2) div 153" "4 \<le> era" "era \<le> 5"
    and "era = 4 \<Longrightarrow> 369 \<le> yoe" "era = 4 \<Longrightarrow> yoe = 369 \<Longrightarrow> 10 \<le> mp" "year_start yoe + doy \<le> year_end yoe"
    and "rtc_split_time t = \<lparr>second = t mod 86400 mod 60, minute = (t mod 86400 div 60) mod 60, hour = t mod 86400 div 3600,
          day = doy - month_start mp + 1, month = mp + (if mp < 10 then 3 else - 9),
          year = yoe + era * 400 + (if mp < 10 then 0 else 1)\<rparr>"
proof -
  define z where "z = t div 86400 + 719468"
  define era doe where "era = z div 146097" and "doe = z mod 146097"
  define yoe where "yoe = year_of doe"
  define doy where "doy = doe - year_start yoe"
  define mp where "mp = (5 * doy + 2) div 153"
  have z: "719468 \<le> z" "z \<le> 769178" using t by (auto simp: z_def)
  have doe: "0 \<le> doe" "doe < 146097" "z = era * 146097 + doe" by (auto simp: doe_def era_def)
  note Y = year_of_range [OF doe(1,2), folded yoe_def, folded doy_def]
  note M = month_range [OF Y(3,4), folded mp_def]
  have era: "4 \<le> era" "era \<le> 5" using z by (auto simp: era_def)
  have first: "era = 4 \<Longrightarrow> 135080 \<le> doe" using z doe by auto
  have early: "369 \<le> yoe" if "era = 4"
  proof (rule ccontr)
    assume "\<not> 369 \<le> yoe"
    then have "year_start yoe \<le> 134412" using Y(1) unfolding year_start_def by linarith
    then show False using first [OF that] Y(4) by (simp add: doy_def)
  qed
  have march: "10 \<le> mp" if "era = 4" "yoe = 369"
    using first [OF that(1)] that(2) by (simp add: mp_def doy_def year_start_def)
  have "rtc_split_time t = \<lparr>second = t mod 86400 mod 60 mod 256, minute = (t mod 86400 div 60) mod 60 mod 256,
      hour = (t mod 86400 div 3600) mod 256, day = (doy - month_start mp + 1) mod 256,
      month = (mp + (if mp < 10 then 3 else - 9)) mod 256,
      year = (yoe + era * 400 + (if mp + (if mp < 10 then 3 else - 9) \<le> 2 then 1 else 0)) mod 65536\<rparr>"
  proof -
    have num: "0 \<le> doe - doe div 1460 + doe div 36524 - doe div 146096"
    proof -
      have "doe div 1460 \<le> doe div 1" "doe div 146096 \<le> doe div 36524" using doe by (rule_tac zdiv_mono2; simp)+
      then show ?thesis by simp
    qed
    have "z - era * 146097 = doe" using doe(3) by simp
    moreover have "cdiv z 146097 = era" using z(1) by (simp add: era_def)
    ultimately have c: "cdiv z 146097 = era" "z - era * 146097 = doe" "cdiv doe 1460 = doe div 1460" "cdiv doe 36524 = doe div 36524"
      "cdiv doe 146096 = doe div 146096" "cdiv yoe 4 = yoe div 4" "cdiv yoe 100 = yoe div 100"
      using doe(1) Y(1) by (simp_all only: cdiv_pos)
    have y: "cdiv (doe - doe div 1460 + doe div 36524 - doe div 146096) 365 = yoe"
      using num by (simp add: yoe_def year_of_def)
    have dy: "doe - (365 * yoe + yoe div 4 - yoe div 100) = doy" by (simp add: doy_def year_start_def)
    have m: "cdiv (5 * doy + 2) 153 = mp" "cdiv (153 * mp + 2) 5 = month_start mp"
      using Y M by (auto simp: mp_def month_start_def)
    have z0: "(0 \<le> z) = True" using z by simp
    show ?thesis
      unfolding rtc_split_time_def Let_def z_def [symmetric] by (simp only: z0 if_True c y dy m)
  qed
  moreover have "doy - month_start mp + 1 < 256" "0 \<le> doy - month_start mp + 1" using M by auto
  ultimately have "rtc_split_time t = \<lparr>second = t mod 86400 mod 60, minute = (t mod 86400 div 60) mod 60, hour = t mod 86400 div 3600,
          day = doy - month_start mp + 1, month = mp + (if mp < 10 then 3 else - 9),
          year = yoe + era * 400 + (if mp < 10 then 0 else 1)\<rparr>"
    using M Y era by auto
  then show thesis
    using that [of era yoe doy mp] doe(3) Y M era early march by (simp add: z_def doy_def mp_def)
qed


lemma make_time_parts:
  assumes "0 \<le> yoe" "yoe < 400" "4 \<le> era" "0 \<le> mp" "mp \<le> 11"
  shows "days_from_civil (yoe + era * 400 + (if mp < 10 then 0 else 1)) (mp + (if mp < 10 then 3 else - 9)) d =
    era * 146097 + year_start yoe + (month_start mp + d - 1) - 719468"
proof -
  have "(yoe + era * 400) div 400 = era" using assms by simp
  then show ?thesis
    using assms by (auto simp: days_from_civil_def year_start_def month_start_def Let_def algebra_simps)
qed

text \<open>Splitting a time and joining it again gives the time.\<close>

lemma make_split:
  assumes t: "0 \<le> t" "t < 2 ^ 32"
  defines "dt \<equiv> rtc_split_time t"
  shows "rtc_make_time (year dt) (month dt) (day dt) (hour dt) (minute dt) (second dt) = t"
    and "1970 \<le> year dt" "year dt \<le> 2400" "1 \<le> month dt" "month dt \<le> 12" "1 \<le> day dt" "day dt \<le> 31"
    and "0 \<le> hour dt" "hour dt < 24" "0 \<le> minute dt" "minute dt < 60" "0 \<le> second dt" "second dt < 60"
proof -
  obtain era yoe doy mp where P: "t div 86400 + 719468 = era * 146097 + year_start yoe + doy"
    "0 \<le> yoe" "yoe < 400" "0 \<le> doy" "doy \<le> 365" "mp = (5 * doy + 2) div 153" "4 \<le> era" "era \<le> 5"
    "era = 4 \<Longrightarrow> 369 \<le> yoe" "era = 4 \<Longrightarrow> yoe = 369 \<Longrightarrow> 10 \<le> mp" "year_start yoe + doy \<le> year_end yoe"
    "rtc_split_time t = \<lparr>second = t mod 86400 mod 60, minute = (t mod 86400 div 60) mod 60, hour = t mod 86400 div 3600,
          day = doy - month_start mp + 1, month = mp + (if mp < 10 then 3 else - 9),
          year = yoe + era * 400 + (if mp < 10 then 0 else 1)\<rparr>"
    by (rule split_time_parts [OF t]) blast
  note M = month_range [OF P(4,5), folded P(6)]
  have dt: "second dt = t mod 86400 mod 60" "minute dt = (t mod 86400 div 60) mod 60" "hour dt = t mod 86400 div 3600"
    "day dt = doy - month_start mp + 1" "month dt = mp + (if mp < 10 then 3 else - 9)"
    "year dt = yoe + era * 400 + (if mp < 10 then 0 else 1)" by (simp_all add: dt_def P(12))
  show y: "1970 \<le> year dt" using P(2,7,8,9,10) by (cases "era = 4"; cases "yoe = 369") (auto simp: dt)
  show "year dt \<le> 2400" using P(3,8) by (auto simp: dt)
  show m: "1 \<le> month dt" "month dt \<le> 12" and d: "1 \<le> day dt" "day dt \<le> 31" using M by (auto simp: dt)
  show "0 \<le> hour dt" "hour dt < 24" "0 \<le> minute dt" "minute dt < 60" "0 \<le> second dt" "second dt < 60" by (auto simp: dt)
  have "days_from_civil (year dt) (month dt) (day dt) = t div 86400"
    using make_time_parts [OF P(2,3,7) M(1,2), of "day dt"] P(1) by (simp add: dt)
  moreover have "hour dt * 3600 + minute dt * 60 + second dt = t mod 86400"
  proof -
    define r where "r = t mod 86400"
    have "r div 3600 = (r div 60) div 60" using zdiv_zmult2_eq [of 60 r 60] by simp
    then show ?thesis unfolding dt r_def [symmetric]
      using div_mult_mod_eq [of r 60] div_mult_mod_eq [of "r div 60" 60] by linarith
  qed
  moreover have "u32i (t div 86400) = t div 86400" "u32i (t mod 86400) = t mod 86400" using t by (auto simp: u32i_def)
  ultimately show "rtc_make_time (year dt) (month dt) (day dt) (hour dt) (minute dt) (second dt) = t"
    using y m d t by (simp add: rtc_make_time_def u32i_def)
qed

text \<open>Joining a valid date and splitting it again gives the date.\<close>

definition valid_date :: "int \<Rightarrow> int \<Rightarrow> int \<Rightarrow> bool" where
  "valid_date y m d \<longleftrightarrow> 1 \<le> m \<and> m \<le> 12 \<and> 1 \<le> d \<and> d \<le> mdays y m"

lemma nth_month: "1 \<le> m \<Longrightarrow> m \<le> (12::int) \<Longrightarrow> m \<in> {1,2,3,4,5,6,7,8,9,10,11,12}"
  unfolding insert_iff empty_iff by presburger

lemma month_of_date:
  assumes v: "valid_date y m d"
  defines "mp \<equiv> m + (if 2 < m then - 3 else 9)"
  shows "0 \<le> mp" and "mp \<le> 11" and "(5 * (month_start mp + d - 1) + 2) div 153 = mp"
    and "0 \<le> month_start mp + d - 1" and "month_start mp + d - 1 \<le> (if leap y \<or> m \<noteq> 2 then 365 else 364)"
    and "m = mp + (if mp < 10 then 3 else - 9)" "m \<le> 2 \<longleftrightarrow> \<not> mp < 10"
proof -
  have m: "m \<in> {1,2,3,4,5,6,7,8,9,10,11,12}" and d: "1 \<le> d" "d \<le> mdays y m"
    using v nth_month [of m] by (simp_all only: valid_date_def)
  show "0 \<le> mp" "mp \<le> 11" "m = mp + (if mp < 10 then 3 else - 9)" "m \<le> 2 \<longleftrightarrow> \<not> mp < 10" using m by (auto simp: mp_def)
  have "(5 * (month_start mp + d - 1) + 2) div 153 = mp \<and> 0 \<le> month_start mp + d - 1 \<and>
    month_start mp + d - 1 \<le> (if leap y \<or> m \<noteq> 2 then 365 else 364)"
    using m d by (elim insertE emptyE) (auto simp: mp_def month_start_def mdays_def)
  then show "(5 * (month_start mp + d - 1) + 2) div 153 = mp" "0 \<le> month_start mp + d - 1"
    "month_start mp + d - 1 \<le> (if leap y \<or> m \<noteq> 2 then 365 else 364)" by auto
qed

lemma year_end_max: "0 \<le> y \<Longrightarrow> y < 400 \<Longrightarrow> 0 \<le> year_start y \<and> year_end y < 146097"
  unfolding year_end_def year_start_def by auto

lemma div_succ: "0 < n \<Longrightarrow> (x + 1) div n = x div n + (if (x + 1) mod n = 0 then 1 else (0::int))"
proof -
  assume n: "0 < n"
  define q r where "q = x div n" and "r = x mod n"
  have x: "x + 1 = n * q + (r + 1)" "0 \<le> r" "r < n" using n by (auto simp: q_def r_def)
  show ?thesis
  proof (cases "r + 1 = n")
    case True
    then have "x + 1 = n * (q + 1)" using x(1) by (simp add: algebra_simps)
    then show ?thesis using n by (simp add: q_def [symmetric])
  next
    case False
    then have "(x + 1) div n = q" "(x + 1) mod n = r + 1"
      using x n int_div_pos_eq [OF x(1)] int_mod_pos_eq [OF x(1)] by auto
    then show ?thesis using x(2) by (simp add: q_def [symmetric])
  qed
qed

text \<open>The day of a valid date lies in its year.\<close>

lemma date_in_year:
  assumes v: "valid_date y m d" and Y: "Y = (if m \<le> 2 then y - 1 else y)"
  defines "mp \<equiv> m + (if 2 < m then - 3 else 9)"
  shows "year_start (Y mod 400) + (month_start mp + d - 1) \<le> year_end (Y mod 400)"
proof -
  note M = month_of_date [OF v, folded mp_def]
  define yoe where "yoe = Y mod 400"
  have yoe: "0 \<le> yoe" "yoe < 400" by (auto simp: yoe_def)
  have len: "year_end yoe - year_start yoe = (if leap (yoe + 1) then 365 else 364)"
  proof -
    define i4 i100 i400 :: int where "i4 = (if (yoe + 1) mod 4 = 0 then 1 else 0)"
      and "i100 = (if (yoe + 1) mod 100 = 0 then 1 else 0)" and "i400 = (if yoe = 399 then 1 else 0)"
    have d: "(yoe + 1) div 4 = yoe div 4 + i4" "(yoe + 1) div 100 = yoe div 100 + i100"
      unfolding i4_def i100_def by (rule div_succ, simp)+
    have "year_end yoe - year_start yoe = 364 + i4 - i100 + i400"
      unfolding year_end_def year_start_def d i400_def [symmetric] by simp
    moreover have "(yoe + 1) mod 100 = 0 \<longrightarrow> (yoe + 1) mod 4 = 0" by presburger
    moreover have "(yoe + 1) mod 400 = 0 \<longleftrightarrow> yoe = 399" "yoe = 399 \<longrightarrow> (yoe + 1) mod 100 = 0"
      using yoe by (cases "yoe = 399"; simp add: mod_pos_pos_trivial)+
    moreover have "(b \<longrightarrow> a) \<Longrightarrow> (e \<longrightarrow> b) \<Longrightarrow>
      364 + (if a then 1 else 0) - (if b then 1 else 0) + (if e then 1 else (0::int)) = (if (a \<and> \<not> b) \<or> e then 365 else 364)" for a b e
      by auto
    ultimately show ?thesis unfolding leap_def i4_def i100_def i400_def by presburger
  qed
  have "month_start mp + d - 1 \<le> (if leap (yoe + 1) then 365 else 364)"
  proof (cases "m = 2")
    case True
    then have y: "y mod 400 = (yoe + 1) mod 400" using Y by (simp add: yoe_def mod_simps)
    have "leap y \<longleftrightarrow> leap (yoe + 1)"
    proof -
      have "y mod 4 = (y mod 400) mod 4" "y mod 100 = (y mod 400) mod 100" by (simp_all add: mod_mod_cancel)
      moreover have "(yoe + 1) mod 4 = ((yoe + 1) mod 400) mod 4" "(yoe + 1) mod 100 = ((yoe + 1) mod 400) mod 100"
        by (simp_all add: mod_mod_cancel)
      ultimately show ?thesis unfolding leap_def by (simp only: y)
    qed
    then show ?thesis using M(5) True by simp
  next
    case False
    have "month_start mp + d - 1 \<le> 364"
      using v False nth_month [of m] unfolding valid_date_def
      by (elim conjE) (auto simp: mp_def month_start_def mdays_def)
    then show ?thesis by simp
  qed
  then show ?thesis using len by (simp add: yoe_def)
qed

text \<open>The number of a day from 1970 to 2105.\<close>

lemma days_range:
  assumes v: "valid_date y m d" and y: "1970 \<le> y" "y \<le> 2105"
  defines "Y \<equiv> if m \<le> 2 then y - 1 else y" and "mp \<equiv> m + (if 2 < m then - 3 else 9)"
  shows "days_from_civil y m d = Y div 400 * 146097 + year_start (Y mod 400) + (month_start mp + d - 1) - 719468"
    and "0 \<le> days_from_civil y m d" and "days_from_civil y m d \<le> 49709"
proof -
  define era yoe doy where "era = Y div 400" and "yoe = Y mod 400" and "doy = month_start mp + d - 1"
  note M = month_of_date [OF v, folded mp_def]
  have Yeq: "Y = era * 400 + yoe" "0 \<le> yoe" "yoe < 400" by (auto simp: era_def yoe_def)
  have era: "4 \<le> era" "era \<le> 5" using y by (auto simp: era_def Y_def)
  have iny: "year_start yoe + doy \<le> year_end yoe"
    using date_in_year [OF v Y_def [THEN meta_eq_to_obj_eq], folded mp_def] by (simp add: yoe_def doy_def)
  define days where "days = era * 146097 + year_start yoe + doy - 719468"
  have yeq: "y = yoe + era * 400 + (if mp < 10 then 0 else 1)" using Yeq(1) M(7) by (auto simp: Y_def)
  have days: "days_from_civil y m d = days"
    using make_time_parts [OF Yeq(2,3) era(1) M(1,2), of d] M(6) yeq by (simp add: days_def doy_def)
  then show "days_from_civil y m d = Y div 400 * 146097 + year_start (Y mod 400) + (month_start mp + d - 1) - 719468"
    by (simp add: days_def era_def yoe_def doy_def)
  have ys: "year_start yoe = 365 * yoe + yoe div 4 - yoe div 100" by (simp add: year_start_def)
  have doy: "doy \<le> 365" "0 \<le> doy" using M(4,5) by (auto simp: doy_def split: if_splits)
  have Yb: "1969 \<le> Y" "Y \<le> 2105" using y by (auto simp: Y_def)
  have first: "306 \<le> doy" if "Y = 1969" using that y v by (auto simp: Y_def doy_def mp_def month_start_def valid_date_def split: if_splits)
  have last: "doy \<le> 305" if "Y = 2105"
    using that y M(5) v nth_month [of m] by (auto simp: Y_def doy_def mp_def month_start_def valid_date_def mdays_def split: if_splits)
  have "0 \<le> days"
  proof (cases "era = 4")
    case True
    then have yb: "369 \<le> yoe" "yoe < 400" using Yb Yeq by auto
    then have "92 \<le> yoe div 4" "yoe div 100 = 3" by auto
    then show ?thesis using True yb doy first Yeq(1) unfolding days_def ys by (cases "yoe = 369") auto
  next
    case False
    then have "era = 5" using era by simp
    moreover have "0 \<le> year_start yoe" using year_end_max [OF Yeq(2,3)] by simp
    ultimately show ?thesis using doy by (simp add: days_def)
  qed
  moreover have "days \<le> 49709"
  proof (cases "era = 4")
    case True
    then show ?thesis using year_end_max [OF Yeq(2,3)] iny by (simp add: days_def)
  next
    case False
    then have e5: "era = 5" using era by simp
    then have yb: "yoe \<le> 105" using Yb Yeq by simp
    then have "yoe div 4 \<le> 26" "0 \<le> yoe div 100" using Yeq(2) by auto
    then show ?thesis using e5 yb doy last Yeq(1) unfolding days_def ys by (cases "yoe = 105") auto
  qed
  ultimately show "0 \<le> days_from_civil y m d" "days_from_civil y m d \<le> 49709" by (simp_all add: days)
qed

lemma split_make:
  assumes v: "valid_date y m d" and y: "1970 \<le> y" "y \<le> 2105" and tm: "0 \<le> h" "h < 24" "0 \<le> mi" "mi < 60" "0 \<le> s" "s < 60"
  defines "t \<equiv> rtc_make_time y m d h mi s"
  shows "0 \<le> t" and "t < 2 ^ 32"
    and "rtc_split_time t = \<lparr>second = s, minute = mi, hour = h, day = d, month = m, year = y\<rparr>"
proof -
  define Y where "Y = (if m \<le> 2 then y - 1 else y)"
  define mp where "mp = m + (if 2 < m then - 3 else 9)"
  define era yoe doy where "era = Y div 400" and "yoe = Y mod 400" and "doy = month_start mp + d - 1"
  note M = month_of_date [OF v, folded mp_def]
  have Yeq: "Y = era * 400 + yoe" "0 \<le> yoe" "yoe < 400" by (auto simp: era_def yoe_def)
  have era: "4 \<le> era" "era \<le> 5" using y by (auto simp: era_def Y_def)
  have iny: "year_start yoe + doy \<le> year_end yoe"
    using date_in_year [OF v Y_def, folded mp_def] by (simp add: yoe_def doy_def)
  define days where "days = era * 146097 + year_start yoe + doy - 719468"
  define sod where "sod = h * 3600 + mi * 60 + s"
  have yeq: "y = yoe + era * 400 + (if mp < 10 then 0 else 1)" using Yeq(1) M(7) by (auto simp: Y_def)
  have days: "days_from_civil y m d = days" and range: "0 \<le> days" "days \<le> 49709"
    using days_range [OF v y] by (simp_all add: days_def era_def yoe_def doy_def Y_def mp_def)
  have sod: "0 \<le> sod" "sod < 86400" using tm by (auto simp: sod_def)
  have "\<not> (y < 1970 \<or> m < 1 \<or> 12 < m \<or> d < 1 \<or> 31 < d)"
    using v y nth_month [of m] unfolding valid_date_def by (elim conjE) (auto simp: mdays_def split: if_splits)
  then have t: "t = days * 86400 + sod"
    using range sod by (simp add: t_def rtc_make_time_def days sod_def [symmetric] u32i_def)
  then show b: "0 \<le> t" "t < 2 ^ 32" using range sod by auto
  have td: "t div 86400 = days" "t mod 86400 = sod" using sod by (auto simp: t)
  obtain era' yoe' doy' mp' where P: "t div 86400 + 719468 = era' * 146097 + year_start yoe' + doy'"
    "0 \<le> yoe'" "yoe' < 400" "0 \<le> doy'" "doy' \<le> 365" "mp' = (5 * doy' + 2) div 153" "4 \<le> era'" "era' \<le> 5"
    "year_start yoe' + doy' \<le> year_end yoe'"
    "rtc_split_time t = \<lparr>second = t mod 86400 mod 60, minute = (t mod 86400 div 60) mod 60, hour = t mod 86400 div 3600,
          day = doy' - month_start mp' + 1, month = mp' + (if mp' < 10 then 3 else - 9),
          year = yoe' + era' * 400 + (if mp' < 10 then 0 else 1)\<rparr>"
    by (rule split_time_parts [OF b]) blast
  have eq: "era' * 146097 + (year_start yoe' + doy') = era * 146097 + (year_start yoe + doy)" using P(1) by (simp add: td days_def)
  have "0 \<le> doy" using M(4) by (simp add: doy_def)
  then have e1: "era' = era" using eq year_end_max [OF P(2,3)] year_end_max [OF Yeq(2,3)] P(4,9) iny by auto
  then have e: "era' = era" "year_start yoe' + doy' = year_start yoe + doy" using eq by auto
  have yy: "yoe' = yoe"
    using year_of_unique [OF P(2,3) _ P(9)] year_of_unique [OF Yeq(2,3) _ iny] P(4) \<open>0 \<le> doy\<close> e(2) by simp
  then have dd: "doy' = doy" using e(2) by simp
  then have "mp' = mp" using P(6) M(3) by (simp add: doy_def)
  moreover have "sod mod 60 = s" "sod div 60 mod 60 = mi" "sod div 3600 = h"
  proof -
    have q: "sod div 60 = h * 60 + mi" using tm by (intro int_div_pos_eq [where r = s]) (auto simp: sod_def)
    show "sod mod 60 = s" using tm by (intro int_mod_pos_eq [where q = "h * 60 + mi"]) (auto simp: sod_def)
    show "sod div 60 mod 60 = mi" using tm by (simp add: q)
    show "sod div 3600 = h" using tm by (intro int_div_pos_eq [where r = "mi * 60 + s"]) (auto simp: sod_def)
  qed
  ultimately show "rtc_split_time t = \<lparr>second = s, minute = mi, hour = h, day = d, month = m, year = y\<rparr>"
    using P(10) M(6) yeq by (simp add: td yy dd e(1) doy_def)
qed


section \<open>Properties\<close>

text \<open>
  Every 32-bit time splits into a date and a time of day in range that \<open>rtc_make_time\<close> joins to
  the same time again.
\<close>

lemma time_split_join:
  assumes "0 \<le> t" "t < 2 ^ 32"
  shows "let dt = rtc_split_time t in
    rtc_make_time (year dt) (month dt) (day dt) (hour dt) (minute dt) (second dt) = t \<and> 1970 \<le> year dt \<and>
    month dt \<in> {1..12} \<and> day dt \<in> {1..31} \<and> hour dt \<in> {0..23} \<and> minute dt \<in> {0..59} \<and> second dt \<in> {0..59}"
  using make_split [OF assms] by (simp add: Let_def)

lemma time_split_join_example:
  "rtc_make_time 2106 2 7 6 28 15 = 4294967295 \<and> rtc_split_time 4294967295 =
    \<lparr>second = 15, minute = 28, hour = 6, day = 7, month = 2, year = 2106\<rparr>"
proof -
  have e: "rtc_split_time 4294967295 = \<lparr>second = 15, minute = 28, hour = 6, day = 7, month = 2, year = 2106\<rparr>" by code_simp
  show ?thesis using time_split_join [of 4294967295] unfolding e Let_def by simp
qed

text \<open>
  Every date of the calendar from 1970 to 2105, leap days included, with a time of day, joins to a 32-bit time that
  splits into the same date and time of day.
\<close>

lemma date_join_split:
  assumes "1970 \<le> y" "y \<le> 2105" "valid_date y m d" "h \<in> {0..23}" "mi \<in> {0..59}" "s \<in> {0..59}"
  shows "rtc_split_time (rtc_make_time y m d h mi s) =
    \<lparr>second = s, minute = mi, hour = h, day = d, month = m, year = y\<rparr>"
  using assms by (intro split_make) auto

end
