(* ===== verification/Timezone.thy ===== *)
theory Timezone
  imports Calendar Kstring
begin

text \<open>
  Time zones, \<open>kernel/tz.c\<close>: the table of zones, the summer time rules and the conversions between UTC and
  local time. Instants are \<open>uint32_t\<close> seconds since 1970, here integers below \<open>2 ^ 32\<close>; the
  code's 64-bit differences never leave their range.
\<close>

section \<open>Model\<close>

datatype tz_rule = TZR_NONE | TZR_EU | TZR_US | TZR_AU | TZR_NZ | TZR_CL

record tz_zone =
  zone_id :: string
  label :: string
  std_min :: int
  rule :: tz_rule

definition zone :: "string \<Rightarrow> string \<Rightarrow> int \<Rightarrow> tz_rule \<Rightarrow> tz_zone" where
  "zone i l m r = \<lparr>zone_id = i, label = l, std_min = m, rule = r\<rparr>"

definition ZONES :: "tz_zone list" where
  "ZONES = [
    zone ''UTC'' ''UTC (no time zone)'' 0 TZR_NONE,
    zone ''Pacific/Honolulu'' ''Honolulu'' (- 600) TZR_NONE,
    zone ''America/Anchorage'' ''Alaska'' (- 540) TZR_US,
    zone ''America/Los_Angeles'' ''Los Angeles, Vancouver (Pacific)'' (- 480) TZR_US,
    zone ''America/Phoenix'' ''Arizona'' (- 420) TZR_NONE,
    zone ''America/Denver'' ''Denver, Calgary (Mountain)'' (- 420) TZR_US,
    zone ''America/Chicago'' ''Chicago, Winnipeg (Central)'' (- 360) TZR_US,
    zone ''America/Mexico_City'' ''Mexico City'' (- 360) TZR_NONE,
    zone ''America/New_York'' ''New York, Toronto (Eastern)'' (- 300) TZR_US,
    zone ''America/Bogota'' ''Bogota, Lima, Quito'' (- 300) TZR_NONE,
    zone ''America/Halifax'' ''Halifax (Atlantic)'' (- 240) TZR_US,
    zone ''America/Caracas'' ''Caracas, La Paz'' (- 240) TZR_NONE,
    zone ''America/Santiago'' ''Santiago'' (- 240) TZR_CL,
    zone ''America/St_Johns'' ''Newfoundland'' (- 210) TZR_US,
    zone ''America/Sao_Paulo'' ''Sao Paulo, Rio de Janeiro'' (- 180) TZR_NONE,
    zone ''America/Argentina/Buenos_Aires'' ''Buenos Aires, Montevideo'' (- 180) TZR_NONE,
    zone ''Atlantic/Azores'' ''Azores'' (- 60) TZR_EU,
    zone ''Atlantic/Reykjavik'' ''Reykjavik, Dakar, Accra'' 0 TZR_NONE,
    zone ''Europe/London'' ''London, Dublin, Lisbon'' 0 TZR_EU,
    zone ''Africa/Lagos'' ''Lagos, Kinshasa, Algiers'' 60 TZR_NONE,
    zone ''Africa/Casablanca'' ''Casablanca'' 60 TZR_NONE,
    zone ''Europe/Paris'' ''Paris, Brussels, Amsterdam'' 60 TZR_EU,
    zone ''Europe/Zurich'' ''Zurich, Geneva, Bern'' 60 TZR_EU,
    zone ''Europe/Berlin'' ''Berlin, Vienna, Stockholm, Oslo'' 60 TZR_EU,
    zone ''Europe/Rome'' ''Rome, Madrid, Prague, Warsaw'' 60 TZR_EU,
    zone ''Africa/Johannesburg'' ''Johannesburg, Harare'' 120 TZR_NONE,
    zone ''Africa/Cairo'' ''Cairo'' 120 TZR_NONE,
    zone ''Europe/Athens'' ''Athens, Bucharest, Sofia'' 120 TZR_EU,
    zone ''Europe/Helsinki'' ''Helsinki, Kyiv, Riga, Tallinn'' 120 TZR_EU,
    zone ''Europe/Istanbul'' ''Istanbul'' 180 TZR_NONE,
    zone ''Europe/Moscow'' ''Moscow, Minsk'' 180 TZR_NONE,
    zone ''Asia/Riyadh'' ''Riyadh, Baghdad, Kuwait'' 180 TZR_NONE,
    zone ''Africa/Nairobi'' ''Nairobi, Addis Ababa'' 180 TZR_NONE,
    zone ''Asia/Tehran'' ''Tehran'' 210 TZR_NONE,
    zone ''Asia/Dubai'' ''Dubai, Abu Dhabi, Baku'' 240 TZR_NONE,
    zone ''Asia/Kabul'' ''Kabul'' 270 TZR_NONE,
    zone ''Asia/Karachi'' ''Karachi, Tashkent'' 300 TZR_NONE,
    zone ''Asia/Kolkata'' ''India (Kolkata, Mumbai, Delhi)'' 330 TZR_NONE,
    zone ''Asia/Kathmandu'' ''Kathmandu'' 345 TZR_NONE,
    zone ''Asia/Dhaka'' ''Dhaka, Almaty'' 360 TZR_NONE,
    zone ''Asia/Yangon'' ''Yangon'' 390 TZR_NONE,
    zone ''Asia/Bangkok'' ''Bangkok, Hanoi, Jakarta'' 420 TZR_NONE,
    zone ''Asia/Shanghai'' ''Beijing, Shanghai, Hong Kong'' 480 TZR_NONE,
    zone ''Asia/Singapore'' ''Singapore, Kuala Lumpur, Manila'' 480 TZR_NONE,
    zone ''Australia/Perth'' ''Perth'' 480 TZR_NONE,
    zone ''Asia/Tokyo'' ''Tokyo, Seoul'' 540 TZR_NONE,
    zone ''Australia/Darwin'' ''Darwin'' 570 TZR_NONE,
    zone ''Australia/Adelaide'' ''Adelaide'' 570 TZR_AU,
    zone ''Australia/Brisbane'' ''Brisbane'' 600 TZR_NONE,
    zone ''Australia/Sydney'' ''Sydney, Melbourne, Canberra'' 600 TZR_AU,
    zone ''Pacific/Noumea'' ''Noumea, Solomon Islands'' 660 TZR_NONE,
    zone ''Pacific/Auckland'' ''Auckland, Wellington'' 720 TZR_NZ,
    zone ''Pacific/Fiji'' ''Fiji'' 720 TZR_NONE,
    zone ''Pacific/Tongatapu'' (''Nuku'' @ [CHR 0x27] @ ''alofa'') 780 TZR_NONE]"

definition NZONES :: int where
  "NZONES = int (length ZONES)"

definition tz_get :: "int \<Rightarrow> tz_zone option" where
  "tz_get i = (if 0 \<le> i \<and> i < NZONES then Some (ZONES ! nat i) else None)"

text \<open>\<open>strcasecmp\<close> on the bytes of the two names.\<close>

definition same_name :: "string \<Rightarrow> byte list \<Rightarrow> bool" where
  "same_name z nm \<longleftrightarrow> compare_bytes tolow (map of_char z) nm = 0"

fun tz_find_from :: "tz_zone list \<Rightarrow> int \<Rightarrow> byte list \<Rightarrow> int" where
  "tz_find_from [] i nm = - 1"
| "tz_find_from (z # zs) i nm = (if same_name (zone_id z) nm then i else tz_find_from zs (i + 1) nm)"

definition tz_find :: "byte list option \<Rightarrow> int" where
  "tz_find nm = (case nm of None \<Rightarrow> - 1 | Some nm \<Rightarrow> tz_find_from ZONES 0 nm)"

function last_week :: "int \<Rightarrow> int \<Rightarrow> int" where
  "last_week len d = (if d + 7 \<le> len then last_week len (d + 7) else d)"
  by pat_completeness auto
termination last_week by (relation "measure (\<lambda>(len, d). nat (len - d))") auto

declare last_week.simps [simp del]

definition sunday :: "int \<Rightarrow> int \<Rightarrow> int \<Rightarrow> int" where
  "sunday y m n =
     (let start = rtc_make_time y m 1 0 0 0;
          wd = (u32i (start div 86400 + 4)) mod 7;
          d = 1 + (7 - wd) mod 7;
          d = (if 0 < n then d + 7 * (n - 1) else last_week (mdays y m) d)
      in u32i (start + u32i (d - 1) * 86400))"

definition summer :: "tz_rule \<Rightarrow> int \<Rightarrow> int \<Rightarrow> bool" where
  "summer r std utc =
     (let y = year (rtc_split_time (u32i (utc + std)))
      in case r of
        TZR_NONE \<Rightarrow> False
      | TZR_EU \<Rightarrow> sunday y 3 (- 1) + 3600 \<le> utc \<and> utc < sunday y 10 (- 1) + 3600
      | TZR_US \<Rightarrow> sunday y 3 2 + 7200 - std \<le> utc \<and> utc < sunday y 11 1 + 7200 - (std + 3600)
      | TZR_AU \<Rightarrow> \<not> (sunday y 4 1 + 10800 - (std + 3600) \<le> utc \<and> utc < sunday y 10 1 + 7200 - std)
      | TZR_NZ \<Rightarrow> utc < sunday y 4 1 + 10800 - (std + 3600) \<or> sunday y 9 (- 1) + 7200 - std \<le> utc
      | TZR_CL \<Rightarrow> utc < sunday y 4 1 + 10800 \<or> sunday y 9 1 + 14400 \<le> utc)"

definition tz_is_summer :: "int \<Rightarrow> int \<Rightarrow> bool" where
  "tz_is_summer i utc = (case tz_get i of None \<Rightarrow> False | Some z \<Rightarrow> summer (rule z) (std_min z * 60) utc)"

definition tz_offset_at :: "int \<Rightarrow> int \<Rightarrow> int" where
  "tz_offset_at i utc =
     (case tz_get i of None \<Rightarrow> 0
      | Some z \<Rightarrow> let std = std_min z * 60 in std + (if summer (rule z) std utc then 3600 else 0))"

definition tz_to_local :: "int \<Rightarrow> int \<Rightarrow> int" where
  "tz_to_local g utc = u32i (utc + tz_offset_at g utc)"

definition tz_to_utc :: "int \<Rightarrow> int \<Rightarrow> int" where
  "tz_to_utc g loc =
     (let z = tz_get g;
          std = (case z of None \<Rightarrow> 0 | Some z \<Rightarrow> std_min z * 60);
          w = u32i (loc - std);
          s = u32i (loc - std - 3600)
      in if (case z of None \<Rightarrow> False | Some z \<Rightarrow> rule z \<noteq> TZR_NONE) \<and> tz_offset_at g s = std + 3600 then s else w)"


section \<open>The Sundays\<close>

lemma u32i_id: "0 \<le> a \<Longrightarrow> a < 2 ^ 32 \<Longrightarrow> u32i a = a"
  by (simp add: u32i_def)

lemma last_week_range:
  assumes "d \<le> len"
  shows "len - 7 < last_week len d \<and> last_week len d \<le> len \<and> d \<le> last_week len d \<and> last_week len d mod 7 = d mod 7"
  using assms
proof (induction len d rule: last_week.induct)
  case (1 len d)
  show ?case
  proof (cases "d + 7 \<le> len")
    case True
    then show ?thesis using 1 by (subst (1 2 3 4) last_week.simps) auto
  next
    case False
    then show ?thesis using 1 by (subst (1 2 3 4) last_week.simps) auto
  qed
qed

lemma midnight:
  assumes "1970 \<le> y" "y \<le> 2105" "valid_date y m d"
  shows "rtc_make_time y m d 0 0 0 = days_from_civil y m d * 86400"
    and "0 \<le> days_from_civil y m d" and "days_from_civil y m d \<le> 49709"
proof -
  note r = days_range [OF assms(3,1,2)]
  have "1 \<le> m" "m \<le> 12" "1 \<le> d" "d \<le> 31"
    using assms(3) nth_month [of m] by (auto simp: valid_date_def mdays_def split: if_splits)
  then show "rtc_make_time y m d 0 0 0 = days_from_civil y m d * 86400"
    using assms(1) r(2,3) by (simp add: rtc_make_time_def u32i_def)
qed (use days_range [OF assms(3,1,2)] in auto)

lemma days_from_first: "days_from_civil y m d = days_from_civil y m 1 + (d - 1)"
  by (simp add: days_from_civil_def Let_def)

lemma mdays_range: "1 \<le> m \<Longrightarrow> m \<le> 12 \<Longrightarrow> 28 \<le> mdays y m \<and> mdays y m \<le> 31"
  using nth_month [of m] by (auto simp: mdays_def)

text \<open>
  \<open>sunday\<close> gives midnight of a Sunday of the month (1970-01-01 was a Thursday, so Sundays are the days whose number
  is 3 modulo 7): the \<open>n\<close>-th one for \<open>n\<close> from 1 to 4, the last one for \<open>n = -1\<close>.
\<close>

lemma sunday_of_month:
  assumes "1970 \<le> y" "y \<le> 2105" "1 \<le> m" "m \<le> 12" "n \<in> {1, 2, 3, 4, - 1}"
  shows "\<exists>d. valid_date y m d \<and> sunday y m n = rtc_make_time y m d 0 0 0 \<and> days_from_civil y m d mod 7 = 3 \<and>
    (if 0 < n then 7 * (n - 1) < d \<and> d \<le> 7 * n else mdays y m - 7 < d)"
proof -
  define e where "e = days_from_civil y m 1"
  have first: "valid_date y m 1" using assms(3,4) mdays_range [of m y] by (simp add: valid_date_def)
  note start = midnight [OF assms(1,2) first, folded e_def]
  define wd where "wd = (e + 4) mod 7"
  define d0 where "d0 = 1 + (7 - wd) mod 7"
  define d where "d = (if 0 < n then d0 + 7 * (n - 1) else last_week (mdays y m) d0)"
  have wd: "0 \<le> wd" "wd < 7" by (simp_all add: wd_def)
  have d0: "1 \<le> d0" "d0 \<le> 7" by (simp_all add: d0_def)
  have len: "28 \<le> mdays y m" "mdays y m \<le> 31" using mdays_range assms(3,4) by auto
  have dr: "1 \<le> d" "d \<le> mdays y m"
    "if 0 < n then 7 * (n - 1) < d \<and> d \<le> 7 * n else mdays y m - 7 < d"
    using last_week_range [of d0 "mdays y m"] len d0 assms(5) by (auto simp: d_def)
  have d7: "d mod 7 = d0 mod 7"
  proof (cases "0 < n")
    case True
    then show ?thesis using mod_mult_self2 [of d0 7 "n - 1"] by (simp add: d_def)
  next
    case False
    then show ?thesis using last_week_range [of d0 "mdays y m"] d0 len by (simp add: d_def)
  qed
  have v: "valid_date y m d" using dr assms(3,4) by (simp add: valid_date_def)
  have "sunday y m n = u32i (e * 86400 + u32i (d - 1) * 86400)"
  proof -
    have "rtc_make_time y m 1 0 0 0 div 86400 = e" unfolding start(1) by simp
    moreover have "u32i (e + 4) = e + 4" using start(2,3) by (intro u32i_id) auto
    ultimately have "sunday y m n = u32i (rtc_make_time y m 1 0 0 0 + u32i (d - 1) * 86400)"
      unfolding sunday_def Let_def d_def d0_def wd_def by (simp only:)
    then show ?thesis by (simp only: start(1))
  qed
  also have "\<dots> = rtc_make_time y m d 0 0 0"
  proof -
    have f: "days_from_civil y m d = e + (d - 1)" using days_from_first [of y m d] by (simp add: e_def)
    note r = midnight [OF assms(1,2) v, unfolded f]
    have "u32i (d - 1) = d - 1" using dr(1,2) len by (intro u32i_id) auto
    moreover have "u32i ((e + (d - 1)) * 86400) = (e + (d - 1)) * 86400" using r(2,3) by (intro u32i_id) auto
    ultimately show ?thesis using r(1) by (simp only: distrib_right)
  qed
  finally have "sunday y m n = rtc_make_time y m d 0 0 0" .
  moreover have "days_from_civil y m d mod 7 = 3"
  proof -
    have q: "e + 4 = 7 * ((e + 4) div 7) + wd" by (simp add: wd_def)
    have "(e + (d0 - 1)) mod 7 = 3"
    proof (cases "wd = 0")
      case True
      then show ?thesis using q by (intro int_mod_pos_eq [where q = "(e + 4) div 7 - 1"]) (auto simp: d0_def)
    next
      case False
      then have "d0 - 1 = 7 - wd" using wd by (simp add: d0_def mod_pos_pos_trivial del: minus_mod_self1)
      then show ?thesis using q by (intro int_mod_pos_eq [where q = "(e + 4) div 7"]) auto
    qed
    moreover have "(e + (d - 1)) mod 7 = (e + (d0 - 1)) mod 7"
      using mod_add_cong [OF refl d7, of "e - 1"] by (simp add: algebra_simps)
    ultimately show ?thesis using days_from_first [of y m d] by (simp add: e_def)
  qed
  ultimately show ?thesis using v dr(3) by blast
qed

section \<open>Local time\<close>

lemma u32i_simps [simp]: "u32i (u32i a - b) = u32i (a - b)" "u32i (u32i a + b) = u32i (a + b)" "u32i (u32i a) = u32i a"
  unfolding u32i_def by (rule mod_diff_left_eq, rule mod_add_left_eq, rule mod_mod_trivial)

text \<open>
  C14. Local time and UTC are inverse outside the two hours where the clock is put forward or back: an instant comes back
  as itself unless it is in the repeated hour of autumn, where the instant an hour before, still in summer time, is taken; a
  local time comes back as itself unless it is in the hour skipped in spring, which comes back an hour later.
\<close>

theorem tz_roundtrip:
  assumes "0 \<le> t" "t < 2 ^ 32" "tz_get g = Some z"
  defines "std \<equiv> std_min z * 60"
  defines "is_sum \<equiv> \<lambda>u. summer (rule z) std (u32i u)"
  shows "tz_to_utc g (tz_to_local g t) = (if \<not> is_sum t \<and> is_sum (t - 3600) then u32i (t - 3600) else t) \<and>
    tz_to_local g (tz_to_utc g t) = (if \<not> is_sum (t - std - 3600) \<and> is_sum (t - std) then u32i (t + 3600) else t)"
proof -
  have t: "u32i t = t" using assms(1,2) by (simp add: u32i_def)
  have none: "rule z = TZR_NONE \<Longrightarrow> \<not> is_sum u" for u by (simp add: is_sum_def summer_def)
  have off: "tz_offset_at g (u32i u) = std + (if is_sum u then 3600 else 0)" for u
    using assms(3) by (simp add: tz_offset_at_def is_sum_def std_def)
  have utc: "tz_to_utc g (u32i l) = (if is_sum (l - std - 3600) then u32i (l - std - 3600) else u32i (l - std))" for l
  proof -
    have "u32i (u32i l - std - 3600) = u32i (l - std - 3600)" using u32i_simps(1) [of l "std + 3600"] by (simp add: algebra_simps)
    then show ?thesis
      using assms(3) none off [of "l - std - 3600"] by (auto simp: tz_to_utc_def Let_def std_def)
  qed
  have loc: "tz_to_local g (u32i u) = u32i (u + std + (if is_sum u then 3600 else 0))" for u
    unfolding tz_to_local_def off by (simp add: add.assoc)
  have "tz_to_utc g (tz_to_local g t) = (if \<not> is_sum t \<and> is_sum (t - 3600) then u32i (t - 3600) else t)"
    using loc [of t] utc [of "t + std"] utc [of "t + std + 3600"] t by (auto simp: algebra_simps)
  moreover have "tz_to_local g (tz_to_utc g t) = (if \<not> is_sum (t - std - 3600) \<and> is_sum (t - std) then u32i (t + 3600) else t)"
    using utc [of t] loc [of "t - std - 3600"] loc [of "t - std"] t by (auto simp: algebra_simps)
  ultimately show ?thesis ..
qed


text \<open>Zurich, at noon of 1 July 2026 UTC: summer time, an offset of two hours.\<close>

theorem tz_roundtrip_witness: "tz_to_utc 22 (tz_to_local 22 1782907200) = 1782907200 \<and> tz_to_local 22 1782907200 = 1782914400"
proof -
  have z: "tz_get 22 = Some (zone ''Europe/Zurich'' ''Zurich, Geneva, Bern'' 60 TZR_EU)" by code_simp
  have s: "summer TZR_EU 3600 1782907200" by code_simp
  then have "tz_to_local 22 1782907200 = 1782914400"
    by (simp add: tz_to_local_def tz_offset_at_def z zone_def u32i_def)
  moreover have "u32i 1782907200 = 1782907200" by (simp add: u32i_def)
  ultimately show ?thesis
    using tz_roundtrip [of 1782907200 22, OF _ _ z] s by (simp add: zone_def)
qed

end
