(* ===== verification/Rtc.thy ===== *)
theory Rtc
  imports Timezone
begin

text \<open>
  The clock, \<open>kernel/rtc.c\<close>: the CMOS chip, the time counted from it and the switch between a chip that
  keeps local time and one that keeps UTC. The chip is a map of registers; a read of it is given by \<open>rd\<close>, the value
  of a register at the \<open>k\<close>-th access, so that a chip that changes while it is read is covered.
\<close>

section \<open>Model\<close>

type_synonym chip = "nat \<Rightarrow> nat \<Rightarrow> byte"

record clock =
  cmos :: "nat \<Rightarrow> byte"
  base :: int
  base_ms :: int
  have_time :: bool
  g_utc :: bool
  g_zone :: int
  etc_timezone :: string
  settings :: "string \<Rightarrow> string option"

definition bcd_to_bin :: "int \<Rightarrow> int" where
  "bcd_to_bin v = (v AND 0x0F) + drop_bit 4 v * 10"

definition bin_to_bcd :: "int \<Rightarrow> int" where
  "bin_to_bcd v = (push_bit 4 (v div 10) OR (v mod 10)) mod 256"

definition rtc_read_raw :: "chip \<Rightarrow> nat \<Rightarrow> rtc_datetime \<times> byte \<times> nat" where
  "rtc_read_raw rd k =
     (\<lparr>second = uint (rd k 0x00), minute = uint (rd (k + 1) 0x02), hour = uint (rd (k + 2) 0x04),
       day = uint (rd (k + 3) 0x07), month = uint (rd (k + 4) 0x08), year = uint (rd (k + 5) 0x09)\<rparr>,
      rd (k + 6) 0x0B, k + 7)"

text \<open>Waiting while an update is in progress: \<open>None\<close> after \<open>spins\<close> busy reads.\<close>

function spin :: "chip \<Rightarrow> nat \<Rightarrow> nat \<Rightarrow> nat option" where
  "spin rd k spins =
     (if rd k 0x0A AND 0x80 \<noteq> 0
      then if spins \<le> 1 then None else spin rd (k + 1) (spins - 1)
      else Some (k + 1))"
  by pat_completeness auto
termination spin by (relation "measure (\<lambda>(rd, k, spins). spins)") auto

declare spin.simps [simp del]

text \<open>\<open>guard\<close> is the value that the loop tests; a break in the last round leaves it at 0, which fails too.\<close>

function cmos_attempts :: "chip \<Rightarrow> nat \<Rightarrow> nat \<Rightarrow> (rtc_datetime \<times> byte) option" where
  "cmos_attempts rd k guard =
     (if guard = 0 then None
      else case spin rd k 100000 of None \<Rightarrow> None
           | Some k \<Rightarrow>
               let (a, _, k) = rtc_read_raw rd k
               in case spin rd k 100000 of None \<Rightarrow> None
                  | Some k \<Rightarrow>
                      let (b, reg_b, k) = rtc_read_raw rd k
                      in if a = b then if guard - 1 = 0 then None else Some (b, reg_b)
                         else cmos_attempts rd k (guard - 1))"
  by pat_completeness auto
termination cmos_attempts by (relation "measure (\<lambda>(rd, k, guard). guard)") auto

declare cmos_attempts.simps [simp del]

definition from_bcd :: "rtc_datetime \<Rightarrow> rtc_datetime" where
  "from_bcd b =
     \<lparr>second = bcd_to_bin (second b) mod 256, minute = bcd_to_bin (minute b) mod 256,
      hour = (bcd_to_bin (hour b AND 0x7F) OR (hour b AND 0x80)) mod 256, day = bcd_to_bin (day b) mod 256,
      month = bcd_to_bin (month b) mod 256, year = bcd_to_bin (year b) mod 65536\<rparr>"

definition to_24h :: "bool \<Rightarrow> int \<Rightarrow> int" where
  "to_24h is24 v =
     (if \<not> is24
      then let pm = v AND 0x80 \<noteq> 0; h = v AND 0x7F;
               h = (if pm \<and> h < 12 then h + 12 else h);
               h = (if \<not> pm \<and> h = 12 then 0 else h)
           in h mod 256
      else v AND 0x7F)"

definition cmos_datetime :: "chip \<Rightarrow> rtc_datetime option" where
  "cmos_datetime rd =
     (case cmos_attempts rd 0 10000 of None \<Rightarrow> None
      | Some (b, reg_b) \<Rightarrow>
          let b = (if reg_b AND 0x04 = 0 then from_bcd b else b);
              b = b\<lparr>hour := to_24h (reg_b AND 0x02 \<noteq> 0) (hour b)\<rparr>
          in Some (b\<lparr>year := 2000 + year b mod 100\<rparr>))"

definition raw_now :: "chip \<Rightarrow> int \<Rightarrow> clock \<Rightarrow> int \<times> clock" where
  "raw_now rd ms c =
     (let stale = \<not> have_time c \<or> 600000 < u32i (ms - base_ms c);
          dt = cmos_datetime rd;
          ok = (case dt of Some d \<Rightarrow> 1970 \<le> year d | None \<Rightarrow> False);
          c = (if stale \<and> ok
               then let d = the dt
                    in c\<lparr>base := rtc_make_time (year d) (month d) (day d) (hour d) (minute d) (second d),
                         base_ms := ms, have_time := True\<rparr>
               else c)
      in if stale \<and> \<not> ok \<and> \<not> have_time c then (0, c)
         else (u32i (base c + u32i (ms - base_ms c) div 1000), c))"

definition hour_value :: "bool \<Rightarrow> bool \<Rightarrow> int \<Rightarrow> int" where
  "hour_value bin h24 h =
     (if h24 then (if bin then h mod 256 else bin_to_bcd h)
      else let pm = 12 \<le> h; h12 = (if h mod 12 \<noteq> 0 then h mod 12 else 12)
           in ((if bin then h12 else bin_to_bcd h12) OR (if pm then 0x80 else 0)) mod 256)"

definition chip_value :: "bool \<Rightarrow> int \<Rightarrow> byte" where
  "chip_value bin v = of_int (if bin then v mod 256 else bin_to_bcd v)"

definition write_raw :: "byte \<Rightarrow> int \<Rightarrow> int \<Rightarrow> clock \<Rightarrow> bool \<times> clock" where
  "write_raw reg_b ms t c =
     (if t < 946684800 then (False, c)
      else let dt = rtc_split_time t
           in if 2099 < year dt then (False, c)
              else let bin = (reg_b AND 0x04 \<noteq> 0); h24 = (reg_b AND 0x02 \<noteq> 0);
                       hv = hour_value bin h24 (hour dt);
                       m = (cmos c)(0x0B := reg_b OR 0x80, 0x00 := chip_value bin (second dt), 0x02 := chip_value bin (minute dt),
                                    0x04 := of_int hv, 0x07 := chip_value bin (day dt), 0x08 := chip_value bin (month dt),
                                    0x09 := chip_value bin (year dt mod 100));
                       m = m(0x0B := reg_b)
                   in (True, c\<lparr>cmos := m, base := t, base_ms := ms, have_time := True\<rparr>))"

definition rtc_now_utc :: "chip \<Rightarrow> int \<Rightarrow> clock \<Rightarrow> int \<times> clock" where
  "rtc_now_utc rd ms c =
     (let (r, c) = raw_now rd ms c
      in (if r = 0 then 0 else if g_utc c then r else tz_to_utc (g_zone c) r, c))"

definition rtc_now :: "chip \<Rightarrow> int \<Rightarrow> clock \<Rightarrow> int \<times> clock" where
  "rtc_now rd ms c =
     (let (r, c) = raw_now rd ms c
      in (if r = 0 then 0 else if g_utc c then tz_to_local (g_zone c) r else r, c))"

definition rtc_read_datetime :: "chip \<Rightarrow> int \<Rightarrow> clock \<Rightarrow> rtc_datetime option \<times> clock" where
  "rtc_read_datetime rd ms c =
     (let (t, c) = rtc_now rd ms c in (if t = 0 then None else Some (rtc_split_time t), c))"

definition rtc_set_utc :: "byte \<Rightarrow> int \<Rightarrow> int \<Rightarrow> clock \<Rightarrow> bool \<times> clock" where
  "rtc_set_utc reg_b ms utc c =
     (if utc = 0 then (False, c)
      else write_raw reg_b ms (if g_utc c then utc else tz_to_local (g_zone c) utc) c)"

definition rtc_set_time :: "byte \<Rightarrow> int \<Rightarrow> int \<Rightarrow> clock \<Rightarrow> bool \<times> clock" where
  "rtc_set_time reg_b ms t c = (if t \<noteq> 0 then rtc_set_utc reg_b ms (tz_to_utc (g_zone c) t) c else (False, c))"

definition rtc_zone_changed :: "byte \<Rightarrow> int \<Rightarrow> int \<Rightarrow> clock \<Rightarrow> clock" where
  "rtc_zone_changed reg_b ms utc c = (if \<not> g_utc c then snd (rtc_set_utc reg_b ms utc c) else c)"

definition rtc_set_keeps_utc :: "chip \<Rightarrow> byte \<Rightarrow> int \<Rightarrow> bool \<Rightarrow> clock \<Rightarrow> clock" where
  "rtc_set_keeps_utc rd reg_b ms on c =
     (let (utc, c) = rtc_now_utc rd ms c;
          c = c\<lparr>g_utc := on, settings := (settings c)(''rtc_utc'' := Some (if on then ''1'' else ''0''))\<rparr>
      in if utc \<noteq> 0 then snd (rtc_set_utc reg_b ms utc c) else c)"

definition rtc_boot :: "clock \<Rightarrow> clock" where
  "rtc_boot c = (case settings c ''rtc_utc'' of None \<Rightarrow> c | Some v \<Rightarrow> c\<lparr>g_utc := (v \<noteq> ''0'')\<rparr>)"

definition write_etc :: "clock \<Rightarrow> clock" where
  "write_etc c = c\<lparr>etc_timezone := zone_id (ZONES ! nat (g_zone c)) @ [CHR 0x0A]\<rparr>"

definition tz_set :: "chip \<Rightarrow> byte \<Rightarrow> int \<Rightarrow> int \<Rightarrow> clock \<Rightarrow> bool \<times> clock" where
  "tz_set rd reg_b ms i c =
     (if i < 0 \<or> NZONES \<le> i then (False, c)
      else let (utc, c) = rtc_now_utc rd ms c;
               c = write_etc (c\<lparr>g_zone := i\<rparr>);
               c = c\<lparr>settings := (settings c)(''timezone'' := Some (zone_id (ZONES ! nat i)))\<rparr>
           in (True, if utc \<noteq> 0 then rtc_zone_changed reg_b ms utc c else c))"

definition tz_boot :: "clock \<Rightarrow> clock" where
  "tz_boot c =
     (case settings c ''timezone'' of None \<Rightarrow> c
      | Some v \<Rightarrow> let i = tz_find (Some (map of_char v)) in if 0 \<le> i then c\<lparr>g_zone := i\<rparr> else c)"


section \<open>Writing and reading the chip\<close>

lemma bcd_all: "list_all (\<lambda>v. bcd_to_bin (uint (chip_value False v)) = v \<and> uint (chip_value True v) = v) [0..99]"
  by code_simp

lemma chip_value_read:
  assumes "0 \<le> v" "v \<le> 99"
  shows "bcd_to_bin (uint (chip_value False v)) = v" "uint (chip_value True v) = v"
  using bcd_all assms by (auto simp: list_all_iff)

definition read_hour :: "bool \<Rightarrow> bool \<Rightarrow> int \<Rightarrow> int" where
  "read_hour bin h24 w = to_24h h24 (if bin then w else (bcd_to_bin (w AND 0x7F) OR (w AND 0x80)) mod 256)"

lemma hour_all: "list_all (\<lambda>h. list_all (\<lambda>(bin, h24). read_hour bin h24 (uint (of_int (hour_value bin h24 h) :: byte)) = h)
    [(True, True), (True, False), (False, True), (False, False)]) [0..23]"
  by code_simp

lemma hour_read:
  assumes "0 \<le> h" "h < 24"
  shows "read_hour bin h24 (uint (of_int (hour_value bin h24 h) :: byte)) = h"
proof -
  have "list_all (\<lambda>(bin, h24). read_hour bin h24 (uint (of_int (hour_value bin h24 h) :: byte)) = h)
    [(True, True), (True, False), (False, True), (False, False)]"
    using hour_all assms unfolding list_all_iff by auto
  then show ?thesis by (cases bin; cases h24) (simp_all add: case_prod_beta)
qed

text \<open>A chip that stands still while it is read.\<close>

lemma spin_still: "m 0x0A AND 0x80 = 0 \<Longrightarrow> spin (\<lambda>_. m) k n = Some (k + 1)"
  by (subst spin.simps) simp

lemma attempts_still:
  assumes "m 0x0A AND 0x80 = 0"
  shows "cmos_attempts (\<lambda>_. m) k 10000 =
    Some (\<lparr>second = uint (m 0), minute = uint (m 2), hour = uint (m 4), day = uint (m 7), month = uint (m 8), year = uint (m 9)\<rparr>, m 0x0B)"
  by (subst cmos_attempts.simps) (simp add: spin_still [of m, OF assms] rtc_read_raw_def)

lemma cmos_datetime_still:
  assumes "m 0x0A AND 0x80 = 0"
  defines "bin \<equiv> (m 0x0B AND 0x04 \<noteq> 0)" and "h24 \<equiv> (m 0x0B AND 0x02 \<noteq> 0)"
  defines "rdv \<equiv> \<lambda>w. if bin then uint w else bcd_to_bin (uint w) mod 256"
  shows "cmos_datetime (\<lambda>_. m) = Some \<lparr>second = rdv (m 0), minute = rdv (m 2), hour = read_hour bin h24 (uint (m 4)),
      day = rdv (m 7), month = rdv (m 8), year = 2000 + (if bin then uint (m 9) else bcd_to_bin (uint (m 9)) mod 65536) mod 100\<rparr>"
  by (simp add: cmos_datetime_def attempts_still [of m, OF assms(1)] rdv_def bin_def h24_def from_bcd_def read_hour_def)

lemma from_2000:
  assumes "946684800 \<le> t" "t < 2 ^ 32"
  shows "2000 \<le> year (rtc_split_time t)"
proof -
  have t: "0 \<le> t" using assms(1) by simp
  obtain era yoe doy mp where P: "t div 86400 + 719468 = era * 146097 + year_start yoe + doy"
    "0 \<le> yoe" "yoe < 400" "0 \<le> doy" "doy \<le> 365" "mp = (5 * doy + 2) div 153" "4 \<le> era" "era \<le> 5"
    "year_start yoe + doy \<le> year_end yoe"
    "rtc_split_time t = \<lparr>second = t mod 86400 mod 60, minute = (t mod 86400 div 60) mod 60, hour = t mod 86400 div 3600,
          day = doy - month_start mp + 1, month = mp + (if mp < 10 then 3 else - 9),
          year = yoe + era * 400 + (if mp < 10 then 0 else 1)\<rparr>"
    by (rule split_time_parts [OF t assms(2)]) blast
  show ?thesis
  proof (cases "era = 4")
    case False
    then show ?thesis using P(2,7,8,10) by auto
  next
    case True
    have "10957 \<le> t div 86400" using assms(1) by linarith
    then have low: "146037 \<le> year_start yoe + doy" using P(1) True by simp
    have yoe: "yoe = 399"
    proof (rule ccontr)
      assume "yoe \<noteq> 399"
      then have "yoe \<le> 398" using P(3) by simp
      then have "year_start yoe + doy \<le> 365 * 398 + 99 + 365" using P(2,5) by (simp add: year_start_def)
      then show False using low by simp
    qed
    then have "306 \<le> doy" using low by (simp add: year_start_def)
    then have "10 \<le> mp" using P(6) by linarith
    then show ?thesis using P(10) True yoe by simp
  qed
qed

text \<open>
  What \<open>write_raw\<close> puts into the chip - binary or BCD, 12 or 24 hours, as register B says - is read back by
  \<open>cmos_datetime\<close> as the same date and time, for every time from 2000 to 2099; the clock then counts from it.
\<close>

lemma rtc_write_read:
  assumes "946684800 \<le> t" "t < 2 ^ 32" "year (rtc_split_time t) \<le> 2099"
    and "cmos c 0x0A AND 0x80 = 0"
  shows "\<exists>c'. write_raw reg_b ms t c = (True, c') \<and> cmos_datetime (\<lambda>_. cmos c') = Some (rtc_split_time t) \<and>
    base c' = t \<and> base_ms c' = ms \<and> have_time c' \<and> cmos c' 0x0B = reg_b"
proof -
  define dt where "dt = rtc_split_time t"
  define c' where "c' = snd (write_raw reg_b ms t c)"
  note R = make_split [of t, folded dt_def]
  have y: "2000 \<le> year dt" "year dt \<le> 2099" using from_2000 [OF assms(1,2)] assms(3) by (simp_all add: dt_def)
  let ?bin = "reg_b AND 0x04 \<noteq> 0" and ?h24 = "reg_b AND 0x02 \<noteq> 0"
  have w: "write_raw reg_b ms t c = (True, c')" "cmos c' 0 = chip_value ?bin (second dt)" "cmos c' 2 = chip_value ?bin (minute dt)"
    "cmos c' 4 = of_int (hour_value ?bin ?h24 (hour dt))" "cmos c' 7 = chip_value ?bin (day dt)"
    "cmos c' 8 = chip_value ?bin (month dt)" "cmos c' 9 = chip_value ?bin (year dt mod 100)" "cmos c' 0x0B = reg_b"
    "cmos c' 0x0A = cmos c 0x0A" "base c' = t" "base_ms c' = ms" "have_time c'"
    using assms(1,3) by (auto simp: c'_def write_raw_def dt_def Let_def)
  have yy: "year dt mod 100 = year dt - 2000" using y by (intro int_mod_pos_eq [where q = 20]) auto
  note D = cmos_datetime_still [of "cmos c'", unfolded w, OF assms(4)]
  have "0 \<le> t" using assms(1) by simp
  note R = R [OF this assms(2)]
  have "cmos_datetime (\<lambda>_. cmos c') = Some dt"
  proof (cases ?bin)
    case True
    then show ?thesis
      using D chip_value_read(2) [of "second dt"] chip_value_read(2) [of "minute dt"] chip_value_read(2) [of "day dt"]
        chip_value_read(2) [of "month dt"] chip_value_read(2) [of "year dt - 2000"] R y
      by (simp add: yy hour_read mod_pos_pos_trivial)
  next
    case False
    then show ?thesis
      using D chip_value_read(1) [of "second dt"] chip_value_read(1) [of "minute dt"] chip_value_read(1) [of "day dt"]
        chip_value_read(1) [of "month dt"] chip_value_read(1) [of "year dt - 2000"] R y
      by (simp add: yy hour_read mod_pos_pos_trivial)
  qed
  then show ?thesis using w by (auto simp: dt_def)
qed

definition demo_clock :: clock where
  "demo_clock = \<lparr>cmos = (\<lambda>_. 0), base = 0, base_ms = 0, have_time = False, g_utc = False, g_zone = 22,
     etc_timezone = [], settings = (\<lambda>_. None)\<rparr>"

text \<open>One o'clock in the afternoon of 1 July 2026, in 12-hour BCD.\<close>

lemma rtc_write_read_example:
  "\<exists>c'. write_raw 0 5 1782910800 demo_clock = (True, c') \<and> cmos_datetime (\<lambda>_. cmos c') = Some (rtc_split_time 1782910800)"
proof -
  have y: "rtc_split_time 1782910800 = \<lparr>second = 0, minute = 0, hour = 13, day = 1, month = 7, year = 2026\<rparr>" by code_simp
  show ?thesis
    using rtc_write_read [of 1782910800 demo_clock 0 5] unfolding y by (simp add: demo_clock_def) blast
qed


section \<open>Keeping the instant\<close>

lemma write_raw_counts:
  assumes "write_raw reg_b ms t c = (True, c')" "0 \<le> t" "t < 2 ^ 32"
  shows "raw_now rd ms c' = (t, c')" and "g_utc c' = g_utc c" and "g_zone c' = g_zone c"
  using assms by (auto simp: write_raw_def raw_now_def Let_def u32i_id u32i_def split: if_splits)

lemma set_utc_now:
  assumes "rtc_set_utc reg_b ms utc c = (True, c')" "0 \<le> utc" "utc < 2 ^ 32"
  shows "fst (rtc_now_utc rd ms c') = (if g_utc c then utc else tz_to_utc (g_zone c) (tz_to_local (g_zone c) utc))"
    and "g_zone c' = g_zone c"
proof -
  let ?raw = "if g_utc c then utc else tz_to_local (g_zone c) utc"
  have w: "write_raw reg_b ms ?raw c = (True, c')" and u: "utc \<noteq> 0" using assms(1) by (auto simp: rtc_set_utc_def split: if_splits)
  have r: "0 \<le> ?raw" "?raw < 2 ^ 32" using assms(2,3) by (auto simp: tz_to_local_def u32i_def)
  have "946684800 \<le> ?raw" using w by (auto simp: write_raw_def split: if_splits)
  then show "fst (rtc_now_utc rd ms c') = (if g_utc c then utc else tz_to_utc (g_zone c) (tz_to_local (g_zone c) utc))"
    "g_zone c' = g_zone c" using write_raw_counts [OF w r] by (auto simp: rtc_now_utc_def)
qed

text \<open>Whether the chip can be set does not depend on the saved settings.\<close>

lemma set_utc_settings:
  "fst (rtc_set_utc reg_b ms utc (c\<lparr>settings := x\<rparr>)) = fst (rtc_set_utc reg_b ms utc c)"
  "fst (rtc_set_utc reg_b ms utc (c\<lparr>etc_timezone := y\<rparr>)) = fst (rtc_set_utc reg_b ms utc c)"
  by (simp_all add: rtc_set_utc_def write_raw_def Let_def)


lemma raw_now_again:
  assumes "raw_now rd ms c = (r, c1)"
  shows "raw_now rd ms c1 = (r, c1)"
  using assms by (auto simp: raw_now_def Let_def u32i_def split: if_splits option.splits)

lemma raw_now_zone:
  "raw_now rd ms (c\<lparr>g_zone := i\<rparr>) = (let (r, c1) = raw_now rd ms c in (r, c1\<lparr>g_zone := i\<rparr>))"
  "raw_now rd ms (c\<lparr>etc_timezone := e\<rparr>) = (let (r, c1) = raw_now rd ms c in (r, c1\<lparr>etc_timezone := e\<rparr>))"
  "raw_now rd ms (c\<lparr>settings := x\<rparr>) = (let (r, c1) = raw_now rd ms c in (r, c1\<lparr>settings := x\<rparr>))"
  by (auto simp: raw_now_def Let_def split: if_splits option.splits)

text \<open>
  \<open>tz_set\<close> with a zone of the table takes that zone and saves its name, and it keeps the instant in the same
  way; with any other index it changes nothing.
\<close>

lemma tz_set_keeps_instant:
  assumes "rtc_now_utc rd ms c = (utc, c1)" "0 < utc" "utc < 2 ^ 32"
    and "g_utc c1 \<or> fst (rtc_set_utc reg_b ms utc (c1\<lparr>g_zone := i\<rparr>)) \<and> tz_to_utc i (tz_to_local i utc) = utc"
  shows "if 0 \<le> i \<and> i < NZONES
    then \<exists>c'. tz_set rd reg_b ms i c = (True, c') \<and> fst (rtc_now_utc rd ms c') = utc \<and> g_zone c' = i \<and>
           settings c' ''timezone'' = Some (zone_id (ZONES ! nat i))
    else tz_set rd reg_b ms i c = (False, c)"
proof (cases "0 \<le> i \<and> i < NZONES")
  case True
  let ?c = "(write_etc (c1\<lparr>g_zone := i\<rparr>))\<lparr>settings := (settings c1)(''timezone'' := Some (zone_id (ZONES ! nat i)))\<rparr>"
  let ?d = "rtc_zone_changed reg_b ms utc ?c"
  have t: "tz_set rd reg_b ms i c = (True, ?d)"
    using True assms(1,2) by (simp add: tz_set_def write_etc_def)
  have s: "settings ?d ''timezone'' = Some (zone_id (ZONES ! nat i))"
    by (simp add: rtc_zone_changed_def rtc_set_utc_def write_raw_def Let_def)
  have "fst (rtc_now_utc rd ms ?d) = utc \<and> g_zone ?d = i"
  proof (cases "g_utc c1")
    case True
    obtain r where r: "raw_now rd ms c = (r, c1)" "utc = (if r = 0 then 0 else if g_utc c1 then r else tz_to_utc (g_zone c1) r)"
      using assms(1) by (auto simp: rtc_now_utc_def split: prod.splits)
    have "raw_now rd ms c1 = (r, c1)" by (rule raw_now_again [OF r(1)])
    then show ?thesis using True r assms(2)
      by (simp add: rtc_zone_changed_def rtc_now_utc_def write_etc_def raw_now_zone split: if_splits)
  next
    case False
    then have "fst (rtc_set_utc reg_b ms utc ?c)" using assms(4) by (simp add: write_etc_def set_utc_settings)
    then have e: "rtc_set_utc reg_b ms utc ?c = (True, snd (rtc_set_utc reg_b ms utc ?c))" by (simp add: prod_eq_iff)
    have "?d = snd (rtc_set_utc reg_b ms utc ?c)" using False by (simp add: rtc_zone_changed_def write_etc_def)
    then show ?thesis using set_utc_now [OF e] False assms(2-4) by (simp add: write_etc_def)
  qed
  then show ?thesis using True t s by auto
next
  case False
  then show ?thesis by (auto simp: tz_set_def)
qed

text \<open>A clock at noon of 1 July 2026 UTC that keeps UTC, with the zone changed to Tokyo and the chip to local time.\<close>

definition demo_noon :: clock where
  "demo_noon = demo_clock\<lparr>base := 1782907200, base_ms := 7, have_time := True, g_utc := True\<rparr>"

lemma demo_noon_now: "rtc_now_utc (\<lambda>_ _. 0) 7 demo_noon = (1782907200, demo_noon)"
  by (simp add: rtc_now_utc_def raw_now_def demo_noon_def demo_clock_def u32i_def)


end
