(* ===== verification/Fifo.thy ===== *)
theory Fifo
  imports Prelude
begin

text \<open>
  Bounded queues of bytes: an array used as a ring, read as a list, and the contract of a queue as a locale,
  with what it gives a client that puts and gets in any order.
\<close>

section \<open>Rings\<close>

text \<open>The \<open>n\<close> elements of the array \<open>a\<close> of \<open>N\<close> from \<open>h\<close> on.\<close>

definition ring_list :: "nat \<Rightarrow> (nat \<Rightarrow> 'a) \<Rightarrow> nat \<Rightarrow> nat \<Rightarrow> 'a list" where
  "ring_list N a h n = map (\<lambda>i. a ((h + i) mod N)) [0..<n]"

lemma ring_list_length [simp]: "length (ring_list N a h n) = n"
  by (simp add: ring_list_def)

lemma ring_list_0 [simp]: "ring_list N a h 0 = []"
  by (simp add: ring_list_def)

lemma ring_list_nth [simp]: "i < n \<Longrightarrow> ring_list N a h n ! i = a ((h + i) mod N)"
  by (simp add: ring_list_def)

lemma ring_slot: "i < n \<Longrightarrow> n < N \<Longrightarrow> (h + i) mod N \<noteq> (h + n) mod (N::nat)"
proof
  assume "i < n" "n < N" and eq: "(h + i) mod N = (h + n) mod N"
  then have "h + i \<le> h + n" by simp
  from mod_eq_dvd_iff_nat [OF this, of N] eq have "N dvd n - i" by simp
  then show False using \<open>i < n\<close> \<open>n < N\<close> by (auto dest: dvd_imp_le)
qed

lemma ring_put [ring_simps]:
  assumes "n < N"
  shows "ring_list N (a((h + n) mod N := x)) h (Suc n) = ring_list N a h n @ [x]"
  by (rule nth_equalityI) (use assms ring_slot [of _ n N h] in \<open>auto simp: nth_append less_Suc_eq\<close>)

lemma ring_first [ring_simps]: "h < N \<Longrightarrow> 0 < n \<Longrightarrow> a h = hd (ring_list N a h n)"
  by (simp add: ring_list_def hd_map)

lemma ring_take [ring_simps]: "k \<le> n \<Longrightarrow> ring_list N a h k = take k (ring_list N a h n)"
  by (simp add: ring_list_def take_map)

lemma ring_drop [ring_simps]: "k \<le> n \<Longrightarrow> ring_list N a ((h + k) mod N) (n - k) = drop k (ring_list N a h n)"
  by (rule nth_equalityI) (auto simp: mod_add_left_eq add.assoc)

lemma ring_set_first:
  assumes "h < N" "0 < n" "n \<le> N"
  shows "ring_list N (a(h := x)) h n = x # tl (ring_list N a h n)"
proof (rule nth_equalityI)
  fix i assume i: "i < length (ring_list N (a(h := x)) h n)"
  have "(h + i) mod N \<noteq> h" if "0 < i"
    using that i assms ring_slot [of 0 i N h] by auto
  then show "ring_list N (a(h := x)) h n ! i = (x # tl (ring_list N a h n)) ! i"
    using i assms by (cases i) (auto simp: nth_tl)
qed (use assms in simp)


section \<open>The contract of a queue\<close>

datatype 'a queue_op = Put 'a | Get nat

locale bounded_fifo =
  fixes inv :: "'s \<Rightarrow> bool"
    and content :: "'s \<Rightarrow> 'a list"
    and cap :: nat
    and put :: "'a \<Rightarrow> 's \<Rightarrow> 's"
    and get :: "nat \<Rightarrow> 's \<Rightarrow> 'a list \<times> 's"
  assumes put_room: "inv s \<Longrightarrow> length (content s) < cap \<Longrightarrow> inv (put x s) \<and> content (put x s) = content s @ [x]"
    and put_full: "inv s \<Longrightarrow> cap \<le> length (content s) \<Longrightarrow> put x s = s"
    and get_front: "inv s \<Longrightarrow> get n s = (xs, t) \<Longrightarrow> inv t \<and> xs = take n (content s) \<and> content t = drop n (content s)"
    and content_cap: "inv s \<Longrightarrow> length (content s) \<le> cap"
begin

lemma put_inv: "inv s \<Longrightarrow> inv (put x s)"
  using put_room put_full by (cases "length (content s) < cap") auto

text \<open>A run of puts: the first ones are kept, as many as there is room for.\<close>

lemma puts_content:
  assumes "inv s"
  shows "inv (fold put xs s) \<and> content (fold put xs s) = content s @ take (cap - length (content s)) xs"
  using assms
proof (induction xs arbitrary: s)
  case (Cons x xs)
  show ?case
  proof (cases "length (content s) < cap")
    case True
    then show ?thesis using Cons put_room [OF Cons.prems True, of x]
      by (simp add: take_Cons' Suc_diff_Suc [symmetric])
  next
    case False
    then show ?thesis using Cons put_full [OF Cons.prems, of x] by simp
  qed
qed simp

text \<open>
  Puts and gets in any order: the accepted bytes and the received ones of a run. What was received, with what is
  still in the queue, is what was in it with what was accepted, in that order.
\<close>

fun run :: "'a queue_op list \<Rightarrow> 's \<Rightarrow> 'a list \<times> 'a list \<times> 's" where
  "run [] s = ([], [], s)"
| "run (Put x # ops) s =
     (let (acc, rec, t) = run ops (put x s) in ((if length (content s) < cap then x # acc else acc), rec, t))"
| "run (Get n # ops) s = (let (xs, s) = get n s; (acc, rec, t) = run ops s in (acc, xs @ rec, t))"

lemma run_order:
  assumes "inv s" "run ops s = (acc, rec, t)"
  shows "inv t \<and> rec @ content t = content s @ acc"
  using assms
proof (induction ops arbitrary: s acc rec t)
  case (Cons op ops)
  show ?case
  proof (cases op)
    case (Put x)
    then show ?thesis
      using Cons put_room [of s x] put_full [of s x] put_inv [of s x]
      by (cases "length (content s) < cap"; cases "run ops (put x s)") auto
  next
    case (Get n)
    obtain xs u where g: "get n s = (xs, u)" by force
    obtain acc' rec' t' where r: "run ops u = (acc', rec', t')" by (metis prod_cases3)
    note G = get_front [OF Cons.prems(1) g]
    have e: "acc = acc'" "rec = xs @ rec'" "t = t'" using Cons.prems(2) Get g r by auto
    have I: "inv t' \<and> rec' @ content t' = content u @ acc'" using Cons.IH r G by blast
    then have "rec @ content t = take n (content s) @ (drop n (content s) @ acc)" using e G by simp
    then show ?thesis using I e by simp
  qed
qed simp

end

end
