(* ===== verification/Utf8.thy ===== *)
theory Utf8
  imports Prelude
begin

text \<open>
  UTF-8 text, \<open>kernel/utf8.h\<close>: decoding and encoding, moving by characters, display columns, UTF-16.
  A string with its length is a list of bytes; \<open>int\<close> indices that are never negative are naturals.
\<close>

section \<open>Model\<close>

definition u8_cont :: "byte \<Rightarrow> bool" where
  "u8_cont c \<longleftrightarrow> c AND 0xC0 = 0x80"

definition u8_cols :: "byte list \<Rightarrow> nat \<Rightarrow> nat" where
  "u8_cols s n = fold (\<lambda>i c. if u8_cont (s ! i) then c else c + 1) [0..<n] 0"

function skip_cont :: "byte list \<Rightarrow> nat \<Rightarrow> nat \<Rightarrow> nat" where
  "skip_cont s len i = (if i < len \<and> u8_cont (s ! i) then skip_cont s len (i + 1) else i)"
  by pat_completeness auto
termination skip_cont by (relation "measure (\<lambda>(s, len, i). len - i)") auto

function u8_byte_at_from :: "byte list \<Rightarrow> nat \<Rightarrow> int \<Rightarrow> nat \<Rightarrow> nat" where
  "u8_byte_at_from s len col i =
     (if i < len \<and> 0 < col then u8_byte_at_from s len (col - 1) (skip_cont s len (i + 1)) else i)"
  by pat_completeness auto
termination u8_byte_at_from by (relation "measure (\<lambda>(s, len, col, i). nat col)") auto

definition u8_byte_at :: "byte list \<Rightarrow> nat \<Rightarrow> int \<Rightarrow> nat" where
  "u8_byte_at s len col = u8_byte_at_from s len col 0"

declare skip_cont.simps [simp del] u8_byte_at_from.simps [simp del]

definition U8_WIDE :: "(nat \<times> nat) list" where
  "U8_WIDE = [
    (0x1100, 0x115F), (0x231A, 0x231B), (0x2329, 0x232A), (0x23E9, 0x23EC), (0x23F0, 0x23F0),
    (0x23F3, 0x23F3), (0x25FD, 0x25FE), (0x2614, 0x2615), (0x2648, 0x2653), (0x267F, 0x267F),
    (0x2693, 0x2693), (0x26A1, 0x26A1), (0x26AA, 0x26AB), (0x26BD, 0x26BE), (0x26C4, 0x26C5),
    (0x26CE, 0x26CE), (0x26D4, 0x26D4), (0x26EA, 0x26EA), (0x26F2, 0x26F3), (0x26F5, 0x26F5),
    (0x26FA, 0x26FA), (0x26FD, 0x26FD), (0x2705, 0x2705), (0x270A, 0x270B), (0x2728, 0x2728),
    (0x274C, 0x274C), (0x274E, 0x274E), (0x2753, 0x2755), (0x2757, 0x2757), (0x2795, 0x2797),
    (0x27B0, 0x27B0), (0x27BF, 0x27BF), (0x2B1B, 0x2B1C), (0x2B50, 0x2B50), (0x2B55, 0x2B55),
    (0x2E80, 0x303E), (0x3041, 0x33FF), (0x3400, 0x4DBF), (0x4E00, 0x9FFF), (0xA000, 0xA4CF),
    (0xA960, 0xA97F), (0xAC00, 0xD7A3), (0xF900, 0xFAFF), (0xFE10, 0xFE19), (0xFE30, 0xFE6F),
    (0xFF00, 0xFF60), (0xFFE0, 0xFFE6),
    (0x16FE0, 0x16FE4), (0x17000, 0x18CFF), (0x1AFF0, 0x1B2FF),
    (0x1F004, 0x1F004), (0x1F0CF, 0x1F0CF), (0x1F18E, 0x1F18E), (0x1F191, 0x1F19A),
    (0x1F200, 0x1F202), (0x1F210, 0x1F23B), (0x1F240, 0x1F248), (0x1F250, 0x1F251),
    (0x1F260, 0x1F265), (0x1F300, 0x1F320), (0x1F32D, 0x1F335), (0x1F337, 0x1F37C),
    (0x1F37E, 0x1F393), (0x1F3A0, 0x1F3CA), (0x1F3CF, 0x1F3D3), (0x1F3E0, 0x1F3F0),
    (0x1F3F4, 0x1F3F4), (0x1F3F8, 0x1F43E), (0x1F440, 0x1F440), (0x1F442, 0x1F4FC),
    (0x1F4FF, 0x1F53D), (0x1F54B, 0x1F54E), (0x1F550, 0x1F567), (0x1F57A, 0x1F57A),
    (0x1F595, 0x1F596), (0x1F5A4, 0x1F5A4), (0x1F5FB, 0x1F64F), (0x1F680, 0x1F6C5),
    (0x1F6CC, 0x1F6CC), (0x1F6D0, 0x1F6D2), (0x1F6D5, 0x1F6D7), (0x1F6DC, 0x1F6DF),
    (0x1F6EB, 0x1F6EC), (0x1F6F4, 0x1F6FC), (0x1F7E0, 0x1F7EB), (0x1F7F0, 0x1F7F0),
    (0x1F90C, 0x1F93A), (0x1F93C, 0x1F945), (0x1F947, 0x1F9FF), (0x1FA70, 0x1FAFF),
    (0x20000, 0x2FFFD), (0x30000, 0x3FFFD)]"

definition U8_ZERO :: "(nat \<times> nat) list" where
  "U8_ZERO = [
    (0x0300, 0x036F), (0x0483, 0x0489), (0x200B, 0x200F), (0x2060, 0x2064), (0x20D0, 0x20FF),
    (0xFE00, 0xFE0F), (0xFE20, 0xFE2F), (0xFEFF, 0xFEFF), (0xE0000, 0xE0FFF)]"

function u8_search :: "(nat \<times> nat) list \<Rightarrow> nat \<Rightarrow> int \<Rightarrow> int \<Rightarrow> bool" where
  "u8_search r cp lo hi =
     (if lo \<le> hi
      then let m = (lo + hi) div 2
           in if snd (r ! nat m) < cp then u8_search r cp (m + 1) hi
              else if cp < fst (r ! nat m) then u8_search r cp lo (m - 1)
              else True
      else False)"
  by pat_completeness auto
termination u8_search by (relation "measure (\<lambda>(r, cp, lo, hi). nat (hi - lo + 1))") auto

declare u8_search.simps [simp del]

definition u8_in :: "(nat \<times> nat) list \<Rightarrow> nat \<Rightarrow> nat \<Rightarrow> bool" where
  "u8_in r n cp =
     (if cp < fst (r ! 0) \<or> snd (r ! (n - 1)) < cp then False else u8_search r cp 0 (int n - 1))"

definition u8_wcwidth :: "nat \<Rightarrow> nat" where
  "u8_wcwidth cp =
     (if cp < 0x300 then 1
      else if u8_in U8_WIDE (length U8_WIDE) cp then 2
      else if u8_in U8_ZERO (length U8_ZERO) cp then 0 else 1)"

text \<open>The continuation bytes of one character: the value, or 0xFFFD, and the index after.\<close>

fun decode_tail :: "byte list \<Rightarrow> nat \<Rightarrow> nat \<Rightarrow> u32 \<Rightarrow> nat \<Rightarrow> u32 \<times> nat" where
  "decode_tail s len 0 cp i = (cp, i)"
| "decode_tail s len (Suc k) cp i =
     (if len \<le> i \<or> \<not> u8_cont (s ! i) then (0xFFFD, i)
      else decode_tail s len k (push_bit 6 cp OR (ucast (s ! i) AND 0x3F)) (i + 1))"

definition u8_decode :: "byte list \<Rightarrow> nat \<Rightarrow> nat \<Rightarrow> u32 \<times> nat" where
  "u8_decode s len i =
     (let b = s ! i
      in if b < 0x80 then (ucast b, i + 1)
         else let need = (if 0xF0 \<le> b then 3 else if 0xE0 \<le> b then 2 else if 0xC0 \<le> b then 1 else 0)
              in if need = 0 then (0xFFFD, i + 1)
                 else decode_tail s len need (ucast b AND drop_bit need 0x3F) (i + 1))"

lemma decode_tail_after: "i \<le> snd (decode_tail s len k cp i)"
  by (induction s len k cp i rule: decode_tail.induct) auto

lemma u8_decode_after: "i < snd (u8_decode s len i)"
  using decode_tail_after [of "i + 1" s len] by (auto simp: u8_decode_def Let_def Suc_le_eq)

function u8_width_from :: "byte list \<Rightarrow> nat \<Rightarrow> nat \<Rightarrow> nat \<Rightarrow> nat" where
  "u8_width_from s n i c =
     (if i < n
      then if s ! i < 0x80 then u8_width_from s n (i + 1) (c + 1)
           else let (cp, j) = u8_decode s n i in u8_width_from s n j (c + u8_wcwidth (unat cp))
      else c)"
  by pat_completeness auto
termination u8_width_from
proof (relation "measure (\<lambda>(s, n, i, c). n - i)", goal_cases)
  case (3 s n i c x cp j)
  then show ?case using u8_decode_after [of i s n] by (cases "u8_decode s n i") auto
qed auto

definition u8_width :: "byte list \<Rightarrow> nat \<Rightarrow> nat" where
  "u8_width s n = u8_width_from s n 0 0"

function u8_byte_at_col_from :: "byte list \<Rightarrow> nat \<Rightarrow> int \<Rightarrow> nat \<Rightarrow> int \<Rightarrow> nat" where
  "u8_byte_at_col_from s len col i c =
     (if i < len
      then let (w, j) = (if s ! i < 0x80 then (1, i + 1) else let (cp, j) = u8_decode s len i in (u8_wcwidth (unat cp), j))
           in if col < c + int w then i else u8_byte_at_col_from s len col j (c + int w)
      else i)"
  by pat_completeness auto
termination u8_byte_at_col_from
proof (relation "measure (\<lambda>(s, len, col, i, c). len - i)", goal_cases)
  case (2 s len col i c x w j)
  then show ?case using u8_decode_after [of i s len] by (auto split: if_splits prod.splits)
qed auto

definition u8_byte_at_col :: "byte list \<Rightarrow> nat \<Rightarrow> int \<Rightarrow> nat" where
  "u8_byte_at_col s len col = u8_byte_at_col_from s len col 0 0"

fun back_cont :: "byte list \<Rightarrow> nat \<Rightarrow> nat" where
  "back_cont s 0 = 0"
| "back_cont s (Suc i) = (if u8_cont (s ! Suc i) then back_cont s i else Suc i)"

definition u8_prev :: "byte list \<Rightarrow> nat \<Rightarrow> nat" where
  "u8_prev s i = (if i = 0 then 0 else back_cont s (i - 1))"

definition u8_next :: "byte list \<Rightarrow> nat \<Rightarrow> nat \<Rightarrow> nat" where
  "u8_next s len i = (if len \<le> i then len else skip_cont s len (i + 1))"

definition u8_encode :: "u32 \<Rightarrow> byte list" where
  "u8_encode cp =
     (if cp < 0x80 then [ucast cp]
      else if cp < 0x800 then [ucast (0xC0 OR drop_bit 6 cp), ucast (0x80 OR (cp AND 0x3F))]
      else if cp < 0x10000
      then [ucast (0xE0 OR drop_bit 12 cp), ucast (0x80 OR (drop_bit 6 cp AND 0x3F)), ucast (0x80 OR (cp AND 0x3F))]
      else [ucast (0xF0 OR drop_bit 18 cp), ucast (0x80 OR (drop_bit 12 cp AND 0x3F)),
            ucast (0x80 OR (drop_bit 6 cp AND 0x3F)), ucast (0x80 OR (cp AND 0x3F))])"

text \<open>The output array is the list of the units written; \<open>None\<close> is the result -1.\<close>

function u8_to_utf16_from :: "byte list \<Rightarrow> nat \<Rightarrow> nat \<Rightarrow> nat \<Rightarrow> u16 list \<Rightarrow> u16 list option" where
  "u8_to_utf16_from s len cap i out =
     (if i < len
      then let (cp, j) = u8_decode s len i
           in if 0x10000 \<le> cp \<and> cp \<le> 0x10FFFF
              then if cap < length out + 2 then None
                   else let cp = cp - 0x10000
                        in u8_to_utf16_from s len cap j
                             (out @ [ucast (0xD800 OR drop_bit 10 cp), ucast (0xDC00 OR (cp AND 0x3FF))])
              else if cap < length out + 1 then None
              else u8_to_utf16_from s len cap j (out @ [ucast (if 0xFFFF < cp then 0xFFFD else cp)])
      else Some out)"
  by pat_completeness auto
termination u8_to_utf16_from
proof (relation "measure (\<lambda>(s, len, cap, i, out). len - i)", goal_cases)
  case (2 s len cap i out x cp j xa)
  then show ?case using u8_decode_after [of i s len] by (cases "u8_decode s len i") auto
next
  case (3 s len cap i out x cp j)
  then show ?case using u8_decode_after [of i s len] by (cases "u8_decode s len i") auto
qed auto

definition u8_to_utf16 :: "byte list \<Rightarrow> nat \<Rightarrow> nat \<Rightarrow> u16 list option" where
  "u8_to_utf16 s len cap = u8_to_utf16_from s len cap 0 []"

declare u8_width_from.simps [simp del] u8_byte_at_col_from.simps [simp del] u8_to_utf16_from.simps [simp del]

definition utf16_at :: "u16 list \<Rightarrow> nat \<Rightarrow> nat \<Rightarrow> u32 \<times> nat" where
  "utf16_at inp n i =
     (let cp = ucast (inp ! i) :: u32
      in if 0xD800 \<le> cp \<and> cp \<le> 0xDBFF \<and> i + 1 < n \<and> 0xDC00 \<le> inp ! (i + 1) \<and> inp ! (i + 1) \<le> 0xDFFF
         then (0x10000 + push_bit 10 (cp - 0xD800) + (ucast (inp ! (i + 1)) - 0xDC00), i + 2)
         else if 0xD800 \<le> cp \<and> cp \<le> 0xDFFF then (0xFFFD, i + 1) else (cp, i + 1))"

function u8_from_utf16_from :: "u16 list \<Rightarrow> nat \<Rightarrow> nat \<Rightarrow> nat \<Rightarrow> byte list \<Rightarrow> byte list" where
  "u8_from_utf16_from inp n cap i out =
     (if i < n
      then let (cp, j) = utf16_at inp n i; u = u8_encode cp
           in if cap < length out + length u + 1 then out else u8_from_utf16_from inp n cap j (out @ u)
      else out)"
  by pat_completeness auto
termination u8_from_utf16_from
  by (relation "measure (\<lambda>(inp, n, cap, i, out). n - i)") (auto simp: utf16_at_def Let_def split: if_splits)

definition u8_from_utf16 :: "u16 list \<Rightarrow> nat \<Rightarrow> nat \<Rightarrow> byte list" where
  "u8_from_utf16 inp n cap = u8_from_utf16_from inp n cap 0 []"

declare u8_from_utf16_from.simps [simp del]

text \<open>Where a string of \<open>length s\<close> bytes is cut to fewer than \<open>cap\<close>.\<close>

definition u8_truncate :: "byte list \<Rightarrow> nat \<Rightarrow> byte list" where
  "u8_truncate s cap = (if length s < cap then s else take (back_cont s (cap - 1)) s)"

definition u8_backspace :: "byte list \<Rightarrow> nat \<Rightarrow> byte list" where
  "u8_backspace s n = take (u8_prev s n) s"


section \<open>Characters as numbers\<close>

lemma or_add: "n < 2 ^ k \<Longrightarrow> push_bit k q OR n = push_bit k q + (n::nat)"
proof -
  assume "n < 2 ^ k"
  then have n: "take_bit k n = n" by (simp add: take_bit_nat_eq_self)
  have "push_bit k q AND n = 0" by (subst n [symmetric]) (auto simp: bit_eq_iff bit_simps)
  then show ?thesis by (simp add: disjunctive_add_eq_or)
qed

lemma low_bits: "unat (w AND mask k) = unat (w :: 'a::len word) mod 2 ^ k"
  by (simp only: take_bit_eq_mask [symmetric] unsigned_take_bit_eq) (simp add: take_bit_eq_mod)

lemma low6: "unat (w AND 0x3F :: u32) = unat w mod 64"
  using low_bits [of w 6] by (simp add: mask_eq_exp_minus_1)

lemma u8_cont_unat: "u8_cont b \<longleftrightarrow> unat b div 64 = 2"
proof -
  have eq: "(0xC0 :: byte) = NOT (mask 6)" by (simp add: mask_eq_exp_minus_1)
  have "unat (b AND 0xC0) = unat b div 2 ^ 6 * 2 ^ 6" unfolding eq and_not_mask unat_round_down ..
  then show ?thesis by (simp add: u8_cont_def word_unat_eq_iff)
qed

lemma u8_encode_unat:
  assumes "unat cp < 0x200000"
  defines "v \<equiv> unat cp"
  shows "map unat (u8_encode cp) =
    (if v < 0x80 then [v]
     else if v < 0x800 then [0xC0 + v div 64, 0x80 + v mod 64]
     else if v < 0x10000 then [0xE0 + v div 4096, 0x80 + v div 64 mod 64, 0x80 + v mod 64]
     else [0xF0 + v div 262144, 0x80 + v div 4096 mod 64, 0x80 + v div 64 mod 64, 0x80 + v mod 64])"
proof -
  have cmp: "cp < 0x80 \<longleftrightarrow> v < 0x80" "cp < 0x800 \<longleftrightarrow> v < 0x800" "cp < 0x10000 \<longleftrightarrow> v < 0x10000"
    by (simp_all add: v_def word_less_nat_alt)
  have or128: "n < 64 \<Longrightarrow> (128::nat) OR n = 128 + n" for n using or_add [of n 6 2] by simp
  have t: "unat (ucast (0x80 OR (w AND 0x3F) :: u32) :: byte) = 0x80 + unat w mod 64" for w :: u32
  proof -
    have "unat (0x80 OR (w AND 0x3F)) = 0x80 + unat w mod 64" by (simp add: unsigned_or_eq low6 or128)
    then show ?thesis by (simp add: unsigned_ucast_eq take_bit_nat_eq_self)
  qed
  have d: "unat (drop_bit j cp) = v div 2 ^ j" for j
    using unat_drop_bit_eq [of j cp] by (simp only: drop_bit_eq_div [of j "unat cp"] v_def)
  have h: "unat (ucast (c OR drop_bit j cp :: u32) :: byte) = unat c + v div 2 ^ j"
    if "unat c OR (v div 2 ^ j) = unat c + v div 2 ^ j" "unat c + v div 2 ^ j < 256" for c j
  proof -
    have "unat (c OR drop_bit j cp) = unat c + v div 2 ^ j"
      using that(1) d [of j] unsigned_or_eq [of c "drop_bit j cp", where ?'a = nat] by simp
    then show ?thesis using that(2) by (simp add: unsigned_ucast_eq take_bit_nat_eq_self)
  qed
  have one: "v < 0x80 \<Longrightarrow> unat (ucast cp :: byte) = v" by (simp add: unsigned_ucast_eq v_def take_bit_nat_eq_self)
  have h2: "v < 0x800 \<Longrightarrow> unat (ucast (0xC0 OR drop_bit 6 cp) :: byte) = 0xC0 + v div 64"
    using h [of "0xC0" 6] or_add [of "v div 64" 5 6] by simp
  have h3: "v < 0x10000 \<Longrightarrow> unat (ucast (0xE0 OR drop_bit 12 cp) :: byte) = 0xE0 + v div 4096"
    using h [of "0xE0" 12] or_add [of "v div 4096" 4 14] by simp
  have h4: "unat (ucast (0xF0 OR drop_bit 18 cp) :: byte) = 0xF0 + v div 262144"
    using h [of "0xF0" 18] or_add [of "v div 262144" 3 30] assms(1) by (simp add: v_def)
  show ?thesis
    using one h2 h3 h4 t [of cp] t [of "drop_bit 6 cp"] t [of "drop_bit 12 cp"] d [of 6] d [of 12]
    by (auto simp: u8_encode_def cmp v_def [symmetric])
qed

lemma u8_encode_length: "length (u8_encode cp) \<in> {1, 2, 3, 4}"
  by (simp add: u8_encode_def)

lemma byte_up: "unat (ucast (b :: byte) :: u32) = unat b"
proof -
  have "unat b < 2 ^ LENGTH(8)" by (rule unsigned_less)
  then have "unat b < 2 ^ 32" by simp
  then show ?thesis by (simp add: unsigned_ucast_eq take_bit_nat_eq_self)
qed

text \<open>Appending the low six bits of a continuation byte.\<close>

lemma append6:
  assumes "unat cp < 2 ^ 26"
  shows "unat (push_bit 6 cp OR (ucast b AND 0x3F) :: u32) = 64 * unat cp + unat (b :: byte) mod 64"
proof -
  have "unat (push_bit 6 cp) = push_bit 6 (unat cp)"
    using assms by (simp add: push_bit_eq_mult unat_word_ariths(2) unsigned_ucast_eq mult.commute)
  moreover have "unat (ucast b AND 0x3F :: u32) = unat b mod 64"
    using low6 [of "ucast b"] byte_up [of b] by simp
  ultimately have "unat (push_bit 6 cp OR (ucast b AND 0x3F)) = push_bit 6 (unat cp) OR unat b mod 64"
    by (simp only: unsigned_or_eq)
  then show ?thesis using or_add [of "unat b mod 64" 6 "unat cp"] by (simp add: push_bit_eq_mult)
qed

text \<open>The value that the continuation bytes add to a character.\<close>

fun tail_value :: "nat list \<Rightarrow> nat \<Rightarrow> nat" where
  "tail_value [] v = v"
| "tail_value (b # bs) v = tail_value bs (64 * v + b mod 64)"

lemma decode_tail_value:
  assumes "map unat (take k (drop i s)) = bs" "length bs = k" "\<forall>b \<in> set bs. b div 64 = 2" "i + k \<le> len"
    and "(unat cp + 1) * 64 ^ k \<le> 2 ^ 32"
  shows "\<exists>c. decode_tail s len k cp i = (c, i + k) \<and> unat c = tail_value bs (unat cp)"
  using assms
proof (induction k arbitrary: i bs cp)
  case 0
  then show ?case by simp
next
  case (Suc k)
  then obtain b bs' where bs: "bs = b # bs'" by (cases bs) auto
  have i: "i < length s" using Suc.prems(1,2) by (cases "i < length s") auto
  then have d: "drop i s = s ! i # drop (Suc i) s" by (rule Cons_nth_drop_Suc [symmetric])
  have b: "unat (s ! i) = b" "map unat (take k (drop (Suc i) s)) = bs'" using Suc.prems(1) d bs by auto
  define cp' where "cp' = (push_bit 6 cp OR (ucast (s ! i) AND 0x3F) :: u32)"
  have "(unat cp + 1) * 64 \<le> (unat cp + 1) * 64 ^ Suc k" by (rule mult_le_mono2) simp
  then have "(unat cp + 1) * 64 \<le> 2 ^ 32" using Suc.prems(5) by linarith
  then have cp': "unat cp' = 64 * unat cp + b mod 64" using append6 [of cp "s ! i"] b(1) by (simp add: cp'_def)
  have "(unat cp' + 1) * 64 ^ k \<le> (unat cp + 1) * 64 * 64 ^ k" unfolding cp' by (rule mult_le_mono1) simp
  then have "(unat cp' + 1) * 64 ^ k \<le> 2 ^ 32" using Suc.prems(5) by (simp only: power_Suc mult.assoc)
  then have "\<exists>c. decode_tail s len k cp' (Suc i) = (c, Suc i + k) \<and> unat c = tail_value bs' (unat cp')"
    using Suc.IH [OF b(2)] Suc.prems(2-4) bs by simp
  then show ?case using Suc.prems(3,4) b(1) bs cp' by (simp add: u8_cont_unat cp'_def)
qed

lemma first_bits:
  assumes "unat (b :: byte) = c + d" "d < 2 ^ (6 - n)" "c mod 2 ^ (6 - n) = 0" "n \<in> {1, 2, 3}"
  shows "unat (ucast b AND drop_bit n 0x3F :: u32) = d"
proof -
  have "drop_bit n (0x3F :: u32) = mask (6 - n)"
    using assms(4) by (auto simp: drop_bit_eq_div mask_eq_exp_minus_1)
  then have "unat (ucast b AND drop_bit n 0x3F :: u32) = (c + d) mod 2 ^ (6 - n)"
    using assms(1) byte_up [of b] by (simp add: low_bits)
  then show ?thesis using assms(2,3) mod_add_left_eq [of c "2 ^ (6 - n)" d] by simp
qed

text \<open>Decoding a sequence of a lead byte and \<open>n\<close> continuation bytes.\<close>

lemma decode_bytes:
  assumes "map unat (take (Suc n) (drop i s)) = (c + d) # bs" "length bs = n" "\<forall>b \<in> set bs. b div 64 = 2" "i + n < len"
    and "(n, c) \<in> {(1, 0xC0), (2, 0xE0), (3, 0xF0)}" "d < 2 ^ (6 - n)" "n = 3 \<longrightarrow> d < 8"
  shows "\<exists>w. u8_decode s len i = (w, i + Suc n) \<and> unat w = tail_value bs d"
proof -
  have i: "i < length s" using assms(1) by (cases "i < length s") auto
  then have dr: "drop i s = s ! i # drop (Suc i) s" by (rule Cons_nth_drop_Suc [symmetric])
  have b: "unat (s ! i) = c + d" and bs: "map unat (take n (drop (Suc i) s)) = bs" using assms(1) dr by auto
  let ?lead = "ucast (s ! i) AND drop_bit n 0x3F :: u32"
  have lead: "unat ?lead = d" using assms(5) by (intro first_bits [OF b assms(6)]) auto
  have "(d + 1) * 64 ^ n \<le> 2 ^ 32" using assms(5,6) by auto
  then have "\<exists>w. decode_tail s len n ?lead (Suc i) = (w, Suc i + n) \<and> unat w = tail_value bs d"
    using decode_tail_value [OF bs assms(2,3), of len ?lead] assms(4) lead by simp
  moreover have "u8_decode s len i = decode_tail s len n ?lead (Suc i)"
    using assms(5-7) b by (auto simp: u8_decode_def word_less_nat_alt word_le_nat_alt)
  ultimately show ?thesis by simp
qed

lemma cont_mod [simp]: "(128 + x) mod 64 = x mod (64::nat)"
  using mod_mult_self1 [of x 2 64] by (simp add: add.commute)

lemma decode_encode:
  assumes cp: "unat cp < 0x200000" and len: "length xs + length (u8_encode cp) \<le> len"
  shows "u8_decode (xs @ u8_encode cp @ ys) len (length xs) = (cp, length xs + length (u8_encode cp))"
proof -
  let ?s = "xs @ u8_encode cp @ ys" and ?i = "length xs"
  define v where "v = unat cp"
  note U = u8_encode_unat [OF cp, folded v_def]
  have L: "length (u8_encode cp) = length (map unat (u8_encode cp))" by simp
  have T: "map unat (take (length (u8_encode cp)) (drop ?i ?s)) = map unat (u8_encode cp)" by simp
  have fin: "\<exists>w. u8_decode ?s len ?i = (w, ?i + n) \<and> unat w = u \<Longrightarrow> u = v \<Longrightarrow> n = length (u8_encode cp) \<Longrightarrow> ?thesis"
    for n u by (auto simp: v_def word_unat_eq_iff)
  have parts: "64 * (v div 64) + v mod 64 = v" "64 * (v div 4096) + v div 64 mod 64 = v div 64"
    "64 * (v div 262144) + v div 4096 mod 64 = v div 4096"
    using mult_div_mod_eq [of 64 "v div 64"] mult_div_mod_eq [of 64 "v div 4096"] by (simp_all add: div_mult2_eq [symmetric])
  have v: "v < 0x200000" using cp by (simp add: v_def)
  then consider "v < 0x80" | "0x80 \<le> v" "v < 0x800" | "0x800 \<le> v" "v < 0x10000" | "0x10000 \<le> v" by linarith
  then show ?thesis
  proof cases
    case 1
    then have l: "length (u8_encode cp) = 1" using U L by simp
    have "unat (?s ! ?i) = v" using nth_append_length [of xs] U 1 by (cases "u8_encode cp") auto
    then have "\<exists>w. u8_decode ?s len ?i = (w, ?i + 1) \<and> unat w = v"
      using 1 byte_up [of "?s ! ?i"] by (simp add: u8_decode_def Let_def word_less_nat_alt)
    then show ?thesis by (rule fin) (simp_all add: l)
  next
    case 2
    then have e: "map unat (u8_encode cp) = [0xC0 + v div 64, 0x80 + v mod 64]" and l: "length (u8_encode cp) = 2"
      using U L by simp_all
    have "\<exists>w. u8_decode ?s len ?i = (w, ?i + Suc 1) \<and> unat w = tail_value [0x80 + v mod 64] (v div 64)"
      using T e l len 2 by (intro decode_bytes [of 1 _ _ "0xC0"]) auto
    then show ?thesis by (rule fin) (simp_all add: l)
  next
    case 3
    then have e: "map unat (u8_encode cp) = [0xE0 + v div 4096, 0x80 + v div 64 mod 64, 0x80 + v mod 64]"
      and l: "length (u8_encode cp) = 3" using U L by simp_all
    have "\<exists>w. u8_decode ?s len ?i = (w, ?i + Suc 2) \<and>
        unat w = tail_value [0x80 + v div 64 mod 64, 0x80 + v mod 64] (v div 4096)"
      using T e l len 3 by (intro decode_bytes [of 2 _ _ "0xE0"]) auto
    then show ?thesis by (rule fin) (simp_all add: l parts)
  next
    case 4
    then have e: "map unat (u8_encode cp) = [0xF0 + v div 262144, 0x80 + v div 4096 mod 64, 0x80 + v div 64 mod 64, 0x80 + v mod 64]"
      and l: "length (u8_encode cp) = 4" using U L by simp_all
    have "\<exists>w. u8_decode ?s len ?i = (w, ?i + Suc 3) \<and>
        unat w = tail_value [0x80 + v div 4096 mod 64, 0x80 + v div 64 mod 64, 0x80 + v mod 64] (v div 262144)"
      using T e l len v by (intro decode_bytes [of 3 _ _ "0xF0"]) auto
    then show ?thesis by (rule fin) (simp_all add: l parts)
  qed
qed


section \<open>Texts\<close>

text \<open>A list of code points as bytes, and its UTF-16 units.\<close>

definition utf8_text :: "u32 list \<Rightarrow> byte list" where
  "utf8_text cps = concat (map u8_encode cps)"

definition scalar :: "u32 \<Rightarrow> bool" where
  "scalar cp \<longleftrightarrow> cp \<le> 0x10FFFF \<and> \<not> (0xD800 \<le> cp \<and> cp \<le> 0xDFFF)"

definition utf16_units :: "u32 \<Rightarrow> u16 list" where
  "utf16_units cp = (if 0x10000 \<le> cp then [ucast (0xD800 OR drop_bit 10 (cp - 0x10000)), ucast (0xDC00 OR (cp - 0x10000 AND 0x3FF))] else [ucast cp])"

lemma utf8_text_simps [simp]:
  "utf8_text [] = []" "utf8_text (cp # cps) = u8_encode cp @ utf8_text cps" "utf8_text (cps @ cps') = utf8_text cps @ utf8_text cps'"
  by (simp_all add: utf8_text_def)

lemma encode_shape:
  assumes "unat cp < 0x200000"
  obtains b bs where "u8_encode cp = b # bs" "\<not> u8_cont b" "\<forall>b \<in> set bs. u8_cont b"
proof -
  define v where "v = unat cp"
  have q: "(128 + n) div 64 = 2" if "n < 64" for n :: nat using that div_add1_eq [of 128 n 64] by simp
  have h: "v < 0x800 \<Longrightarrow> (192 + v div 64) div 64 \<noteq> 2" "(224 + v div 4096) div 64 \<noteq> 2" "(240 + v div 262144) div 64 \<noteq> 2"
    by auto
  have "length (u8_encode cp) = length (map unat (u8_encode cp))" by simp
  then obtain b bs where e: "u8_encode cp = b # bs" using u8_encode_length [of cp] by (cases "u8_encode cp") auto
  have "unat b div 64 \<noteq> 2" "\<forall>b \<in> set (map unat bs). b div 64 = 2"
    using u8_encode_unat [OF assms, folded v_def] h q by (auto simp: e split: if_splits)
  then show thesis using that e by (simp add: u8_cont_unat)
qed

lemma scalar_bound: "scalar cp \<Longrightarrow> unat cp < 0x200000"
  by (simp add: scalar_def word_le_nat_alt)

lemma text_head: "\<forall>cp \<in> set cps. unat cp < 0x200000 \<Longrightarrow> utf8_text cps = [] \<or> \<not> u8_cont (hd (utf8_text cps))"
  by (cases cps) (auto elim: encode_shape)

lemma skip_cont_to:
  assumes "i \<le> m" "m \<le> len" "\<forall>j. i \<le> j \<and> j < m \<longrightarrow> u8_cont (s ! j)" "m = len \<or> \<not> u8_cont (s ! m)"
  shows "skip_cont s len i = m"
  using assms
proof (induction "m - i" arbitrary: i)
  case 0
  then show ?case by (auto simp: skip_cont.simps [of s len i])
next
  case (Suc n)
  then show ?case by (subst skip_cont.simps) (auto simp: Suc_le_eq)
qed

lemma back_cont_to:
  assumes "m \<le> i" "\<forall>j. m < j \<and> j \<le> i \<longrightarrow> u8_cont (s ! j)" "m = 0 \<or> \<not> u8_cont (s ! m)"
  shows "back_cont s i = m"
  using assms by (induction i) (auto simp: le_Suc_eq)

lemma cont_inside:
  assumes "u8_encode cp = b # bs" "\<forall>b \<in> set bs. u8_cont b" "length xs < j" "j < length xs + length (u8_encode cp)"
  shows "u8_cont ((xs @ u8_encode cp @ ys) ! j)"
proof -
  obtain k where k: "j = length xs + Suc k" using assms(3) by (metis add_Suc_right less_iff_Suc_add)
  then have "bs ! k \<in> set bs" using assms(1,4) by (intro nth_mem) simp
  then show ?thesis using assms(1,2,4) k by (simp add: nth_append)
qed

lemma move_by_one:
  fixes xs ys :: "byte list"
  assumes cp: "unat cp < 0x200000" and ys: "ys = [] \<or> \<not> u8_cont (hd ys)"
  defines "s \<equiv> xs @ u8_encode cp @ ys"
  shows "u8_next s (length s) (length xs) = length xs + length (u8_encode cp)"
    and "u8_prev s (length xs + length (u8_encode cp)) = length xs"
proof -
  obtain b bs where e: "u8_encode cp = b # bs" "\<not> u8_cont b" "\<forall>b \<in> set bs. u8_cont b" by (rule encode_shape [OF cp])
  note inside = cont_inside [OF e(1,3), of xs _ ys, folded s_def]
  have "skip_cont s (length s) (length xs + 1) = length xs + length (u8_encode cp)"
    using e(1) inside ys by (intro skip_cont_to) (auto simp: s_def nth_append hd_conv_nth)
  then show "u8_next s (length s) (length xs) = length xs + length (u8_encode cp)"
    using e(1) by (simp add: u8_next_def s_def)
  have "back_cont s (length xs + length (u8_encode cp) - 1) = length xs"
    using e inside by (intro back_cont_to) (auto simp: s_def nth_append)
  then show "u8_prev s (length xs + length (u8_encode cp)) = length xs" using e(1) by (simp add: u8_prev_def)
qed

lemma u8_cols_filter: "n \<le> length s \<Longrightarrow> u8_cols s n = length (filter (\<lambda>b. \<not> u8_cont b) (take n s))"
proof (induction n)
  case (Suc n)
  have "u8_cols s (Suc n) = (if u8_cont (s ! n) then u8_cols s n else u8_cols s n + 1)" by (simp add: u8_cols_def)
  then show ?case using Suc by (simp add: take_Suc_conv_app_nth)
qed (simp add: u8_cols_def)

lemma cols_text:
  assumes "\<forall>cp \<in> set cps. unat cp < 0x200000"
  shows "length (filter (\<lambda>b. \<not> u8_cont b) (utf8_text cps)) = length cps"
  using assms
proof (induction cps)
  case (Cons cp cps)
  obtain b bs where e: "u8_encode cp = b # bs" "\<not> u8_cont b" "\<forall>b \<in> set bs. u8_cont b"
    using Cons.prems by (auto elim: encode_shape)
  then have "filter (\<lambda>b. \<not> u8_cont b) bs = []" by (simp add: filter_empty_conv)
  then show ?case using Cons e by simp
qed simp

text \<open>
  C13. At every character of a text, decoding gives that character and stops at the next one,
  \<open>u8_next\<close> moves there and \<open>u8_prev\<close> moves back; the text has as many columns as characters.
\<close>

theorem utf8_navigation:
  assumes "\<forall>cp \<in> set (cps @ cp # cps'). scalar cp"
  defines "s \<equiv> utf8_text (cps @ cp # cps')" and "i \<equiv> length (utf8_text cps)"
    and "j \<equiv> length (utf8_text (cps @ [cp]))"
  shows "u8_decode s (length s) i = (cp, j) \<and> u8_next s (length s) i = j \<and> u8_prev s j = i \<and>
    u8_cols s (length s) = length (cps @ cp # cps')"
proof (intro conjI)
  have b: "\<forall>cp \<in> set (cps @ cp # cps'). unat cp < 0x200000" using assms(1) scalar_bound by blast
  have s: "s = utf8_text cps @ u8_encode cp @ utf8_text cps'" by (simp add: s_def)
  have j: "j = i + length (u8_encode cp)" by (simp add: i_def j_def)
  show "u8_decode s (length s) i = (cp, j)"
    unfolding s j i_def by (rule decode_encode) (use b in auto)
  show "u8_next s (length s) i = j" "u8_prev s j = i"
    unfolding s j i_def by (rule move_by_one; use b text_head [of cps'] in auto)+
  show "u8_cols s (length s) = length (cps @ cp # cps')"
    using cols_text [OF b] u8_cols_filter [of "length s" s] by (simp add: s_def)
qed

theorem utf8_navigation_witness:
  "u8_decode (utf8_text [0x41, 0x20AC, 0x1F34C]) 8 1 = (0x20AC, 4) \<and>
   u8_prev (utf8_text [0x41, 0x20AC, 0x1F34C]) 4 = 1 \<and> u8_cols (utf8_text [0x41, 0x20AC, 0x1F34C]) 8 = 3"
proof -
  let ?t = "[0x41] @ 0x20AC # [0x1F34C] :: u32 list"
  have len: "length (utf8_text ?t) = 8" "length (utf8_text [0x41]) = 1" "length (utf8_text ([0x41] @ [0x20AC])) = 4"
    by (simp_all add: u8_encode_def)
  have "\<forall>cp \<in> set ?t. scalar cp" by (simp add: scalar_def)
  from utf8_navigation [OF this] show ?thesis unfolding len by simp
qed

lemma unit_low: "unat (ucast (w :: u32) :: u16) = unat w mod 65536"
  by (simp add: unsigned_ucast_eq take_bit_eq_mod)

lemma utf16_units_unat:
  assumes "scalar cp"
  defines "v \<equiv> unat cp"
  shows "map unat (utf16_units cp) =
    (if v < 0x10000 then [v] else [0xD800 + (v - 0x10000) div 1024, 0xDC00 + v mod 1024])"
proof (cases "v < 0x10000")
  case True
  then show ?thesis by (simp add: utf16_units_def word_le_nat_alt v_def unit_low)
next
  case False
  define w where "w = cp - 0x10000"
  have w: "unat w = v - 0x10000" using False by (simp add: w_def v_def unat_sub word_le_nat_alt)
  have wb: "unat w < 0x100000" using assms(1) w False by (simp add: scalar_def word_le_nat_alt v_def)
  have d: "unat (drop_bit 10 w) = unat w div 1024" using unat_drop_bit_eq [of 10 w] by (simp add: drop_bit_eq_div)
  have m: "unat (w AND 0x3FF) = unat w mod 1024" using low_bits [of w 10] by (simp add: mask_eq_exp_minus_1)
  have "unat (0xD800 OR drop_bit 10 w) = 0xD800 + unat w div 1024"
    using or_add [of "unat w div 1024" 10 54] wb d unsigned_or_eq [of "0xD800" "drop_bit 10 w", where ?'a = nat] by simp
  moreover have "unat (0xDC00 OR (w AND 0x3FF)) = 0xDC00 + unat w mod 1024"
    using or_add [of "unat w mod 1024" 10 55] m unsigned_or_eq [of "0xDC00" "w AND 0x3FF", where ?'a = nat] by simp
  moreover have "unat w mod 1024 = v mod 1024"
  proof -
    have "v = unat w + 1024 * 64" using w False by simp
    then show ?thesis by (simp only: mod_mult_self2)
  qed
  moreover have "(v - 0x10000) div 1024 < 1024" using wb w by auto
  moreover have "(0xDC00 + v mod 1024) mod 65536 = 0xDC00 + v mod 1024"
  proof (rule mod_less)
    have "v mod 1024 < 1024" by simp
    then show "0xDC00 + v mod 1024 < 65536" by linarith
  qed
  ultimately show ?thesis
    using False wb w by (simp add: utf16_units_def word_le_nat_alt v_def [symmetric] w_def [symmetric] unit_low)
qed

lemma utf16_decode:
  assumes "scalar cp" "length xs + length (utf16_units cp) \<le> n"
  shows "utf16_at (xs @ utf16_units cp @ ys) n (length xs) = (cp, length xs + length (utf16_units cp))"
proof -
  let ?i = "xs @ utf16_units cp @ ys"
  define v where "v = unat cp"
  have U: "map unat (utf16_units cp) =
    (if v < 0x10000 then [v] else [0xD800 + (v - 0x10000) div 1024, 0xDC00 + v mod 1024])"
    using utf16_units_unat [OF assms(1)] by (simp add: v_def)
  have up: "unat (ucast (h :: u16) :: u32) = unat h" for h
  proof -
    have "unat h < 2 ^ LENGTH(16)" by (rule unsigned_less)
    then have "unat h < 2 ^ 32" by simp
    then show ?thesis by (simp add: unsigned_ucast_eq take_bit_nat_eq_self)
  qed
  have sc: "v \<le> 0x10FFFF" "\<not> (0xD800 \<le> v \<and> v \<le> 0xDFFF)" using assms(1) by (auto simp: scalar_def v_def word_le_nat_alt)
  show ?thesis
  proof (cases "v < 0x10000")
    case True
    then obtain h where h: "utf16_units cp = [h]" "unat h = v" using U by (cases "utf16_units cp") auto
    have "ucast h = cp" using up [of h] h(2) by (simp add: word_unat_eq_iff v_def)
    then show ?thesis using sc h up [of h] by (auto simp: utf16_at_def Let_def word_le_nat_alt)
  next
    case False
    then obtain h l where h: "utf16_units cp = [h, l]" "unat h = 0xD800 + (v - 0x10000) div 1024" "unat l = 0xDC00 + v mod 1024"
      using U by (cases "utf16_units cp") auto
    have r: "(v - 0x10000) div 1024 < 1024" using sc False by auto
    define a b where "a = (ucast h - 0xD800 :: u32)" and "b = (ucast l - 0xDC00 :: u32)"
    have ab: "unat a = (v - 0x10000) div 1024" "unat b = v mod 1024"
      using h(2,3) up [of h] up [of l] unat_sub [of "0xD800" "ucast h :: u32"] unat_sub [of "0xDC00" "ucast l :: u32"]
      by (simp_all add: a_def b_def word_le_nat_alt)
    have p: "unat (push_bit 10 a) = 1024 * ((v - 0x10000) div 1024)"
      using r by (simp add: push_bit_eq_mult unat_word_ariths(2) ab mult.commute)
    have m: "v mod 1024 < 1024" by simp
    have "1024 * ((v - 0x10000) div 1024) + v mod 1024 = v - 0x10000"
    proof -
      have "v = (v - 0x10000) + 1024 * 64" using False by simp
      then have "v mod 1024 = (v - 0x10000) mod 1024" by (metis mod_mult_self2)
      then show ?thesis by simp
    qed
    then have "unat (0x10000 + push_bit 10 a + b) = v"
      using False sc(1) m by (simp add: unat_word_ariths(1) p ab(2) mod_simps)
    then have "unat (0x10000 + push_bit 10 (ucast h - 0xD800) + (ucast l - 0xDC00) :: u32) = v" by (simp add: a_def b_def)
    then have "0x10000 + push_bit 10 (ucast h - 0xD800) + (ucast l - 0xDC00) = cp" by (simp add: word_unat_eq_iff v_def)
    then show ?thesis using assms(2) h up [of h] r by (simp add: utf16_at_def Let_def word_le_nat_alt nth_append)
  qed
qed

definition utf16_text :: "u32 list \<Rightarrow> u16 list" where
  "utf16_text cps = concat (map utf16_units cps)"

lemma utf16_text_simps [simp]: "utf16_text [] = []" "utf16_text (cp # cps) = utf16_units cp @ utf16_text cps"
  by (simp_all add: utf16_text_def)

lemma to_utf16_from_text:
  assumes "\<forall>cp \<in> set cps. scalar cp" "length out + length (utf16_text cps) \<le> cap"
  shows "u8_to_utf16_from (xs @ utf8_text cps) (length xs + length (utf8_text cps)) cap (length xs) out = Some (out @ utf16_text cps)"
  using assms
proof (induction cps arbitrary: xs out)
  case Nil
  then show ?case by (subst u8_to_utf16_from.simps) simp
next
  case (Cons cp cps)
  let ?s = "xs @ u8_encode cp @ utf8_text cps" and ?n = "length xs + length (u8_encode cp) + length (utf8_text cps)"
  have sc: "scalar cp" using Cons.prems by simp
  have d: "u8_decode ?s ?n (length xs) = (cp, length (xs @ u8_encode cp))"
    using decode_encode [OF scalar_bound [OF sc], of xs ?n "utf8_text cps"] by simp
  have top: "0xFFFF < cp \<longleftrightarrow> 0x10000 \<le> cp" unfolding word_less_nat_alt word_le_nat_alt by simp arith
  have "0 < length (u8_encode cp)" using u8_encode_length [of cp] by auto
  then have "u8_to_utf16_from ?s ?n cap (length xs) out = u8_to_utf16_from ?s ?n cap (length (xs @ u8_encode cp)) (out @ utf16_units cp)"
    using Cons.prems(2) sc top by (cases "0x10000 \<le> cp") (subst u8_to_utf16_from.simps, simp add: d Let_def utf16_units_def scalar_def)+
  also have "\<dots> = Some (out @ utf16_text (cp # cps))"
    using Cons.IH [of "out @ utf16_units cp" "xs @ u8_encode cp"] Cons.prems by (simp add: add.assoc)
  finally show ?case by (simp add: add.assoc)
qed

lemma from_utf16_from_text:
  assumes "\<forall>cp \<in> set cps. scalar cp" "length out + length (utf8_text cps) < cap"
  shows "u8_from_utf16_from (xs @ utf16_text cps) (length xs + length (utf16_text cps)) cap (length xs) out = out @ utf8_text cps"
  using assms
proof (induction cps arbitrary: xs out)
  case Nil
  then show ?case by (subst u8_from_utf16_from.simps) simp
next
  case (Cons cp cps)
  let ?s = "xs @ utf16_units cp @ utf16_text cps" and ?n = "length xs + length (utf16_units cp) + length (utf16_text cps)"
  have d: "utf16_at ?s ?n (length xs) = (cp, length (xs @ utf16_units cp))"
    using utf16_decode [of cp xs ?n "utf16_text cps"] Cons.prems(1) by simp
  have "0 < length (utf16_units cp)" by (simp add: utf16_units_def)
  then have "u8_from_utf16_from ?s ?n cap (length xs) out = u8_from_utf16_from ?s ?n cap (length (xs @ utf16_units cp)) (out @ u8_encode cp)"
    using Cons.prems(2) by (subst u8_from_utf16_from.simps) (simp add: d)
  also have "\<dots> = out @ utf8_text (cp # cps)"
    using Cons.IH [of "out @ u8_encode cp" "xs @ utf16_units cp"] Cons.prems by (simp add: add.assoc)
  finally show ?case by (simp add: add.assoc)
qed

text \<open>
  A text of Unicode scalar values goes to UTF-16 and back unchanged when the buffers are big enough;
  the UTF-16 form is one unit for a character of the basic plane and a surrogate pair for any other.
\<close>

lemma utf16_roundtrip:
  assumes "\<forall>cp \<in> set cps. scalar cp" "length (utf16_text cps) \<le> cap" "length (utf8_text cps) < cap'"
  shows "u8_to_utf16 (utf8_text cps) (length (utf8_text cps)) cap = Some (utf16_text cps) \<and>
    u8_from_utf16 (utf16_text cps) (length (utf16_text cps)) cap' = utf8_text cps"
  using to_utf16_from_text [of cps "[]" cap "[]"] from_utf16_from_text [of cps "[]" cap' "[]"] assms
  by (simp add: u8_to_utf16_def u8_from_utf16_def)

lemma utf16_roundtrip_example:
  "u8_to_utf16 [0x41, 0xF0, 0x9F, 0x8D, 0x8C] 5 3 = Some [0x41, 0xD83C, 0xDF4C] \<and>
   u8_from_utf16 [0x41, 0xD83C, 0xDF4C] 3 6 = [0x41, 0xF0, 0x9F, 0x8D, 0x8C]"
proof -
  have e: "utf8_text [0x41, 0x1F34C] = [0x41, 0xF0, 0x9F, 0x8D, 0x8C]" "utf16_text [0x41, 0x1F34C] = [0x41, 0xD83C, 0xDF4C]"
    by (simp_all add: u8_encode_def utf16_units_def)
  have l: "length [0x41, 0xF0, 0x9F, 0x8D, 0x8C :: byte] = 5" "length [0x41, 0xD83C, 0xDF4C :: u16] = 3" by simp_all
  have "\<forall>cp \<in> set [0x41, 0x1F34C]. scalar cp" by (simp add: scalar_def)
  from utf16_roundtrip [OF this, of 3 6] show ?thesis unfolding e l by simp
qed

section \<open>Width tables\<close>

text \<open>The ranges of a table are in order and do not overlap.\<close>

definition table_ok :: "(nat \<times> nat) list \<Rightarrow> bool" where
  "table_ok r \<longleftrightarrow> sorted_wrt (\<lambda>a b. snd a < fst b) r \<and> (\<forall>(a, b) \<in> set r. a \<le> b)"

lemma table_le: "table_ok r \<Longrightarrow> k < length r \<Longrightarrow> fst (r ! k) \<le> snd (r ! k)"
  using nth_mem [of k r] by (force simp: table_ok_def case_prod_beta)

text \<open>The same, checked in one pass.\<close>

fun chain :: "nat \<Rightarrow> (nat \<times> nat) list \<Rightarrow> bool" where
  "chain lo [] = True"
| "chain lo ((a, b) # r) = (lo \<le> a \<and> a \<le> b \<and> chain (b + 1) r)"

lemma chain_table: "chain lo r \<Longrightarrow> table_ok r \<and> (\<forall>x \<in> set r. lo \<le> fst x)"
  by (induction lo r rule: chain.induct) (auto simp: table_ok_def Suc_le_eq)

lemma table_order:
  assumes "table_ok r" "i < j" "j < length r"
  shows "snd (r ! i) < fst (r ! j)" and "fst (r ! i) \<le> snd (r ! i)" and "fst (r ! j) \<le> snd (r ! j)"
  using assms nth_mem [of i r] nth_mem [of j r]
  by (auto simp: table_ok_def sorted_wrt_iff_nth_less case_prod_beta)

lemma u8_search_range:
  assumes "table_ok r" "0 \<le> lo" "hi < int (length r)"
  shows "u8_search r cp lo hi \<longleftrightarrow> (\<exists>k. lo \<le> int k \<and> int k \<le> hi \<and> fst (r ! k) \<le> cp \<and> cp \<le> snd (r ! k))"
  using assms(2,3)
proof (induction "nat (hi - lo + 1)" arbitrary: lo hi rule: less_induct)
  case less
  show ?case
  proof (cases "lo \<le> hi")
    case False
    then show ?thesis by (subst u8_search.simps) auto
  next
    case True
    define m where "m = (lo + hi) div 2"
    have m: "lo \<le> m" "m \<le> hi" using True by (auto simp: m_def)
    obtain k where k: "m = int k" using m less.prems(1) nonneg_int_cases [of m] by auto
    have above: "cp < fst (r ! j)" if "cp < fst (r ! k)" "k \<le> j" "int j \<le> hi" for j
      using table_order [OF assms(1), of k j] that less.prems by (cases "k = j") auto
    have below: "snd (r ! j) < cp" if "snd (r ! k) < cp" "j \<le> k" for j
      using table_order [OF assms(1), of j k] that less.prems m k by (cases "k = j") auto
    have u: "u8_search r cp lo hi = (if snd (r ! k) < cp then u8_search r cp (m + 1) hi
              else if cp < fst (r ! k) then u8_search r cp lo (m - 1) else True)"
      using True by (subst u8_search.simps) (simp add: Let_def m_def [symmetric] k)
    consider "snd (r ! k) < cp" | "cp < fst (r ! k)" | "fst (r ! k) \<le> cp" "cp \<le> snd (r ! k)" by linarith
    then show ?thesis
    proof cases
      case 1
      then have "u8_search r cp lo hi = u8_search r cp (m + 1) hi" by (simp add: u)
      also have "\<dots> \<longleftrightarrow> (\<exists>j. m + 1 \<le> int j \<and> int j \<le> hi \<and> fst (r ! j) \<le> cp \<and> cp \<le> snd (r ! j))"
        using m less.prems by (intro less.hyps) auto
      also have "\<dots> \<longleftrightarrow> (\<exists>j. lo \<le> int j \<and> int j \<le> hi \<and> fst (r ! j) \<le> cp \<and> cp \<le> snd (r ! j))"
      proof (intro iff_exI)
        fix j
        show "(m + 1 \<le> int j \<and> int j \<le> hi \<and> fst (r ! j) \<le> cp \<and> cp \<le> snd (r ! j)) =
          (lo \<le> int j \<and> int j \<le> hi \<and> fst (r ! j) \<le> cp \<and> cp \<le> snd (r ! j))"
          using below [OF 1, of j] m k by linarith
      qed
      finally show ?thesis .
    next
      case 2
      moreover from 2 have "\<not> snd (r ! k) < cp"
        using less.prems m k table_le [OF assms(1), of k] by simp
      ultimately have "u8_search r cp lo hi = u8_search r cp lo (m - 1)" by (simp add: u)
      also have "\<dots> \<longleftrightarrow> (\<exists>j. lo \<le> int j \<and> int j \<le> m - 1 \<and> fst (r ! j) \<le> cp \<and> cp \<le> snd (r ! j))"
        using m less.prems by (intro less.hyps) auto
      also have "\<dots> \<longleftrightarrow> (\<exists>j. lo \<le> int j \<and> int j \<le> hi \<and> fst (r ! j) \<le> cp \<and> cp \<le> snd (r ! j))"
      proof (intro iff_exI)
        fix j
        show "(lo \<le> int j \<and> int j \<le> m - 1 \<and> fst (r ! j) \<le> cp \<and> cp \<le> snd (r ! j)) =
          (lo \<le> int j \<and> int j \<le> hi \<and> fst (r ! j) \<le> cp \<and> cp \<le> snd (r ! j))"
          using above [OF 2, of j] m k by linarith
      qed
      finally show ?thesis .
    next
      case 3
      then show ?thesis using u m k by auto
    qed
  qed
qed

lemma u8_in_range:
  assumes "table_ok r" "r \<noteq> []"
  shows "u8_in r (length r) cp \<longleftrightarrow> (\<exists>(a, b) \<in> set r. a \<le> cp \<and> cp \<le> b)"
proof -
  have all: "(\<exists>(a, b) \<in> set r. a \<le> cp \<and> cp \<le> b) \<longleftrightarrow> (\<exists>k < length r. fst (r ! k) \<le> cp \<and> cp \<le> snd (r ! k))"
    unfolding case_prod_beta by (metis in_set_conv_nth)
  have low: "fst (r ! 0) \<le> fst (r ! k)" if "k < length r" for k
    using table_order [OF assms(1), of 0 k] that by (cases "k = 0") simp_all
  have high: "snd (r ! k) \<le> snd (r ! (length r - 1))" if "k < length r" for k
  proof (cases "k = length r - 1")
    case False
    then have "k < length r - 1" "length r - 1 < length r" using that by auto
    then show ?thesis using table_order [OF assms(1), of k "length r - 1"] by linarith
  qed simp
  have "u8_search r cp 0 (int (length r) - 1) \<longleftrightarrow> (\<exists>k < length r. fst (r ! k) \<le> cp \<and> cp \<le> snd (r ! k))"
    using u8_search_range [OF assms(1), of 0 "int (length r) - 1" cp] by auto
  moreover have "\<not> cp < fst (r ! 0)" "\<not> snd (r ! (length r - 1)) < cp"
    if "k < length r" "fst (r ! k) \<le> cp" "cp \<le> snd (r ! k)" for k
    using low [OF that(1)] high [OF that(1)] that by linarith+
  ultimately show ?thesis unfolding all u8_in_def by auto
qed

text \<open>
  A character takes two columns exactly when a range of the wide table holds it, none when it is not wide
  and a range of the zero width table holds it, and one otherwise: the binary search of \<open>u8_in\<close> misses no range.
\<close>

lemma u8_wcwidth_table:
  "u8_wcwidth cp =
     (if cp < 0x300 then 1
      else if \<exists>(a, b) \<in> set U8_WIDE. a \<le> cp \<and> cp \<le> b then 2
      else if \<exists>(a, b) \<in> set U8_ZERO. a \<le> cp \<and> cp \<le> b then 0 else 1)"
proof -
  have "chain 0 U8_WIDE" "chain 0 U8_ZERO" by (simp_all add: U8_WIDE_def U8_ZERO_def)
  then have ok: "table_ok U8_WIDE" "table_ok U8_ZERO" by (auto dest: chain_table)
  have ne: "U8_WIDE \<noteq> []" "U8_ZERO \<noteq> []" by (simp_all add: U8_WIDE_def U8_ZERO_def)
  show ?thesis unfolding u8_wcwidth_def u8_in_range [OF ok(1) ne(1)] u8_in_range [OF ok(2) ne(2)] ..
qed

end
