(* ===== verification/Pty_Model.thy ===== *)
theory Pty_Model
  imports Fifo Utf8
begin

text \<open>
  Pseudo-terminals and their line discipline, \<open>kernel/pty.c\<close>. The input, record and output queues are the code's
  rings: an array with a head and a length. The line being edited is the list of its first \<open>llen\<close> bytes. Every
  operation runs under the lock of the file, so each is one step; \<open>kfile_changed\<close>, which only wakes the processes that
  wait, has no state here. Octal constants are written in decimal.
\<close>

section \<open>Constants and state\<close>

definition IGNCR :: u32 where "IGNCR = 128"
definition ICRNL :: u32 where "ICRNL = 256"
definition INLCR :: u32 where "INLCR = 64"
definition ISTRIP :: u32 where "ISTRIP = 32"
definition IXON :: u32 where "IXON = 1024"
definition IXANY :: u32 where "IXANY = 2048"
definition IUTF8 :: u32 where "IUTF8 = 16384"
definition OPOST :: u32 where "OPOST = 1"
definition ONLCR :: u32 where "ONLCR = 4"
definition OCRNL :: u32 where "OCRNL = 8"
definition ONOCR :: u32 where "ONOCR = 16"
definition ONLRET :: u32 where "ONLRET = 32"
definition XTABS :: u32 where "XTABS = 6144"
definition ISIG :: u32 where "ISIG = 1"
definition ICANON :: u32 where "ICANON = 2"
definition ECHO :: u32 where "ECHO = 8"
definition ECHOE :: u32 where "ECHOE = 16"
definition ECHOK :: u32 where "ECHOK = 32"
definition ECHONL :: u32 where "ECHONL = 64"
definition NOFLSH :: u32 where "NOFLSH = 128"
definition ECHOCTL :: u32 where "ECHOCTL = 512"
definition ECHOKE :: u32 where "ECHOKE = 2048"
definition IEXTEN :: u32 where "IEXTEN = 32768"
definition CS8 :: u32 where "CS8 = 48"
definition CREAD :: u32 where "CREAD = 128"
definition HUPCL :: u32 where "HUPCL = 1024"
definition B38400 :: u32 where "B38400 = 15"

lemmas tty_flags = IGNCR_def ICRNL_def INLCR_def ISTRIP_def IXON_def IXANY_def IUTF8_def OPOST_def ONLCR_def OCRNL_def
  ONOCR_def ONLRET_def XTABS_def ISIG_def ICANON_def ECHO_def ECHOE_def ECHOK_def ECHONL_def NOFLSH_def ECHOCTL_def
  ECHOKE_def IEXTEN_def CS8_def CREAD_def HUPCL_def B38400_def

text \<open>The control characters: \<open>c_cc\<close> by name.\<close>

datatype ctrl = VINTR | VQUIT | VERASE | VKILL | VEOF | VTIME | VMIN | VSWTC | VSTART | VSTOP | VSUSP | VEOL | VREPRINT
  | VDISCARD | VWERASE | VLNEXT | VEOL2

definition INQ :: nat where "INQ = 8192"
definition LINE :: nat where "LINE = 4096"
definition OUTQ :: nat where "OUTQ = 65536"
definition RECS :: nat where "RECS = 512"

definition PTY_EV_SIGINT :: u32 where "PTY_EV_SIGINT = 0x01"
definition PTY_EV_SIGQUIT :: u32 where "PTY_EV_SIGQUIT = 0x02"
definition PTY_EV_SIGTSTP :: u32 where "PTY_EV_SIGTSTP = 0x04"
definition PTY_EV_SIGWINCH :: u32 where "PTY_EV_SIGWINCH = 0x08"
definition PTY_EV_HANGUP :: u32 where "PTY_EV_HANGUP = 0x10"

record pty_termios =
  c_iflag :: u32
  c_oflag :: u32
  c_cflag :: u32
  c_lflag :: u32
  c_line :: byte
  c_cc :: "ctrl \<Rightarrow> byte"
  c_ispeed :: u32
  c_ospeed :: u32

record pty_winsize =
  ws_row :: u16
  ws_col :: u16
  ws_xpixel :: u16
  ws_ypixel :: u16

record pty =
  masters :: int
  slaves :: int
  slave_seen :: bool
  holds :: int
  locked :: bool
  hung :: bool
  sid :: int
  fg :: int
  tio :: pty_termios
  ws :: pty_winsize
  inq :: "nat \<Rightarrow> byte"
  in_head :: nat
  in_len :: nat
  rec :: "nat \<Rightarrow> nat"
  rec_head :: nat
  nrec :: nat
  line :: "byte list"
  lnext :: bool
  outq :: "nat \<Rightarrow> byte"
  out_head :: nat
  out_len :: nat
  column :: nat
  stopped :: bool
  events :: u32

abbreviation llen :: "pty \<Rightarrow> nat" where
  "llen t \<equiv> length (line t)"

definition has :: "u32 \<Rightarrow> u32 \<Rightarrow> bool" where
  "has w f \<longleftrightarrow> w AND f \<noteq> 0"

abbreviation canonical :: "pty \<Rightarrow> bool" where
  "canonical t \<equiv> has (c_lflag (tio t)) ICANON"

fun default_cc :: "ctrl \<Rightarrow> byte" where
  "default_cc VINTR = 3" | "default_cc VQUIT = 28" | "default_cc VERASE = 127" | "default_cc VKILL = 21"
| "default_cc VEOF = 4" | "default_cc VTIME = 0" | "default_cc VMIN = 1" | "default_cc VSTART = 17"
| "default_cc VSTOP = 19" | "default_cc VSUSP = 26" | "default_cc VREPRINT = 18" | "default_cc VDISCARD = 15"
| "default_cc VWERASE = 23" | "default_cc VLNEXT = 22" | "default_cc _ = 0"

definition defaults :: "pty \<Rightarrow> pty" where
  "defaults t = t\<lparr>
     tio := \<lparr>c_iflag = ICRNL OR IXON OR IUTF8, c_oflag = OPOST OR ONLCR, c_cflag = B38400 OR CS8 OR CREAD OR HUPCL,
       c_lflag = ISIG OR ICANON OR ECHO OR ECHOE OR ECHOK OR ECHOCTL OR ECHOKE OR IEXTEN, c_line = 0, c_cc = default_cc,
       c_ispeed = B38400, c_ospeed = B38400\<rparr>,
     ws := (ws t)\<lparr>ws_row := 24, ws_col := 80\<rparr>\<rparr>"

text \<open>A \<open>pty_t\<close> fresh from \<open>kzalloc\<close>, with \<open>out\<close> as its output memory.\<close>

definition zero_pty :: "(nat \<Rightarrow> byte) \<Rightarrow> pty" where
  "zero_pty mem = \<lparr>masters = 0, slaves = 0, slave_seen = False, holds = 0, locked = False, hung = False, sid = 0, fg = 0,
     tio = \<lparr>c_iflag = 0, c_oflag = 0, c_cflag = 0, c_lflag = 0, c_line = 0, c_cc = (\<lambda>_. 0), c_ispeed = 0, c_ospeed = 0\<rparr>,
     ws = \<lparr>ws_row = 0, ws_col = 0, ws_xpixel = 0, ws_ypixel = 0\<rparr>, inq = (\<lambda>_. 0), in_head = 0, in_len = 0,
     rec = (\<lambda>_. 0), rec_head = 0, nrec = 0, line = [], lnext = False, outq = mem, out_head = 0, out_len = 0,
     column = 0, stopped = False, events = 0\<rparr>"


section \<open>The table\<close>

text \<open>
  \<open>g_ptys[0 ..< g_nptys]\<close> with its capacity; a pty is named by its slot. The three allocations of \<open>pty_new\<close> are arguments:
  \<open>None\<close> or \<open>False\<close> is an allocation that fails.
\<close>

record ptys =
  tab :: "pty option list"
  cap :: nat

fun free_slot :: "pty option list \<Rightarrow> nat \<Rightarrow> nat option" where
  "free_slot [] i = None"
| "free_slot (x # xs) i = (if x = None then Some i else free_slot xs (i + 1))"

definition pty_new :: "bool \<Rightarrow> (nat \<Rightarrow> byte) option \<Rightarrow> bool \<Rightarrow> ptys \<Rightarrow> nat option \<times> ptys" where
  "pty_new mem_t mem_out mem_tab g =
     (case mem_out of
        Some out \<Rightarrow>
          if \<not> mem_t then (None, g)
          else let t = defaults ((zero_pty out)\<lparr>masters := 1, locked := True\<rparr>)
               in (case free_slot (tab g) 0 of
                     Some slot \<Rightarrow> (Some slot, g\<lparr>tab := (tab g)[slot := Some t]\<rparr>)
                   | None \<Rightarrow>
                       if length (tab g) = cap g \<and> \<not> mem_tab then (None, g)
                       else let g = (if length (tab g) = cap g then g\<lparr>cap := (if cap g \<noteq> 0 then cap g * 2 else 16)\<rparr> else g)
                            in (Some (length (tab g)), g\<lparr>tab := tab g @ [Some t]\<rparr>))
      | None \<Rightarrow> (None, g))"

definition pty_find :: "int \<Rightarrow> ptys \<Rightarrow> nat option" where
  "pty_find i g =
     (if 0 \<le> i \<and> i < int (length (tab g))
      then case tab g ! nat i of None \<Rightarrow> None
           | Some t \<Rightarrow> if masters t = 0 \<or> hung t then None else Some (nat i)
      else None)"

definition pty_count :: "ptys \<Rightarrow> nat" where
  "pty_count g = length (filter (\<lambda>x. x \<noteq> None) (tab g))"

text \<open>\<open>t\<close> in slot \<open>i\<close> changed: it goes when nobody holds it any more.\<close>

definition maybe_free :: "nat \<Rightarrow> pty \<Rightarrow> ptys \<Rightarrow> bool \<times> ptys" where
  "maybe_free i t g =
     (if 0 < masters t \<or> 0 < slaves t \<or> 0 < holds t then (False, g\<lparr>tab := (tab g)[i := Some t]\<rparr>)
      else (True, g\<lparr>tab := (tab g)[i := None]\<rparr>))"

definition pty_master_ref :: "nat \<Rightarrow> int \<Rightarrow> pty \<Rightarrow> ptys \<Rightarrow> bool \<times> ptys" where
  "pty_master_ref i delta t g =
     (let t = t\<lparr>masters := masters t + delta\<rparr>;
          t = (if masters t \<le> 0 \<and> \<not> hung t then t\<lparr>hung := True, events := events t OR PTY_EV_HANGUP\<rparr> else t)
      in maybe_free i t g)"

definition pty_slave_ref :: "nat \<Rightarrow> int \<Rightarrow> pty \<Rightarrow> ptys \<Rightarrow> bool \<times> ptys" where
  "pty_slave_ref i delta t g =
     (let t = t\<lparr>slaves := slaves t + delta\<rparr>;
          t = (if 0 < delta then t\<lparr>slave_seen := True\<rparr> else t)
      in maybe_free i t g)"

definition pty_hold :: "nat \<Rightarrow> int \<Rightarrow> pty \<Rightarrow> ptys \<Rightarrow> bool \<times> ptys" where
  "pty_hold i delta t g = maybe_free i (t\<lparr>holds := holds t + delta\<rparr>) g"

definition pty_events :: "pty \<Rightarrow> u32 \<times> pty" where
  "pty_events t = (events t, t\<lparr>events := 0\<rparr>)"


section \<open>Output\<close>

definition out_put :: "byte \<Rightarrow> pty \<Rightarrow> pty" where
  "out_put c t =
     (if OUTQ \<le> out_len t then t
      else t\<lparr>outq := (outq t)((out_head t + out_len t) mod OUTQ := c), out_len := out_len t + 1\<rparr>)"

fun out_spaces :: "nat \<Rightarrow> pty \<Rightarrow> pty" where
  "out_spaces 0 t = t"
| "out_spaces (Suc n) t = out_spaces n (out_put 32 t)"

text \<open>How many bytes it took in the queue: 0 is no room.\<close>

definition out_char :: "byte \<Rightarrow> pty \<Rightarrow> nat \<times> pty" where
  "out_char c t =
     (let f = c_oflag (tio t)
      in if OUTQ - out_len t < 8 then (0, t)
         else if \<not> has f OPOST then (1, out_put c t)
         else if c = 10
         then if has f ONLCR then (2, (out_put 10 (out_put 13 t))\<lparr>column := 0\<rparr>)
              else (1, out_put 10 (if has f ONLRET then t\<lparr>column := 0\<rparr> else t))
         else if c = 13
         then if has f ONOCR \<and> column t = 0 then (1, t)
              else if has f OCRNL then (1, let t = out_put 10 t in if has f ONLRET then t\<lparr>column := 0\<rparr> else t)
              else (1, (out_put 13 t)\<lparr>column := 0\<rparr>)
         else if c = 9
         then if f AND XTABS = XTABS
              then let n = 8 - column t mod 8; t = out_spaces n t in (n, t\<lparr>column := wrap32 (column t + n)\<rparr>)
              else (1, out_put c (t\<lparr>column := wrap32 (column t div 8 * 8 + 8)\<rparr>))
         else if c = 8
         then (1, out_put c (if column t \<noteq> 0 then t\<lparr>column := column t - 1\<rparr> else t))
         else (1, out_put c (if 32 \<le> c \<and> \<not> u8_cont c \<and> c \<noteq> 127 then t\<lparr>column := wrap32 (column t + 1)\<rparr> else t)))"

definition out_c :: "byte \<Rightarrow> pty \<Rightarrow> pty" where
  "out_c c t = snd (out_char c t)"

definition echo_char :: "byte \<Rightarrow> pty \<Rightarrow> pty" where
  "echo_char c t =
     (if has (c_lflag (tio t)) ECHOCTL \<and> (c < 32 \<and> c \<noteq> 9 \<and> c \<noteq> 10 \<or> c = 127)
      then out_c (if c = 127 then 63 else c + 64) (out_c 94 t)
      else out_c c t)"

definition last_width :: "pty \<Rightarrow> nat \<Rightarrow> nat" where
  "last_width t i =
     (let c = line t ! i
      in if c = 9 then 1 else if (c < 32 \<or> c = 127) \<and> has (c_lflag (tio t)) ECHOCTL then 2 else 1)"

fun rub_out :: "nat \<Rightarrow> pty \<Rightarrow> pty" where
  "rub_out 0 t = t"
| "rub_out (Suc w) t = rub_out w (out_c 8 (out_c 32 (out_c 8 t)))"

definition erase_one :: "pty \<Rightarrow> pty" where
  "erase_one t =
     (if line t = [] then t
      else let at0 = llen t - 1;
               at = (if has (c_iflag (tio t)) IUTF8 then back_cont (line t) at0 else at0);
               w = last_width t at;
               t = t\<lparr>line := take at (line t)\<rparr>
           in if has (c_lflag (tio t)) ECHO \<and> has (c_lflag (tio t)) ECHOE then rub_out w t else t)"

definition is_space :: "byte \<Rightarrow> bool" where
  "is_space c \<longleftrightarrow> c = 32 \<or> c = 9"


section \<open>Input\<close>

definition in_room :: "pty \<Rightarrow> nat" where
  "in_room t = INQ - in_len t"

definition in_put1 :: "byte \<Rightarrow> pty \<Rightarrow> pty" where
  "in_put1 c t = t\<lparr>inq := (inq t)((in_head t + in_len t) mod INQ := c), in_len := in_len t + 1\<rparr>"

fun in_put :: "byte list \<Rightarrow> pty \<Rightarrow> pty" where
  "in_put [] t = t"
| "in_put (c # cs) t = (if in_len t < INQ then in_put cs (in_put1 c t) else t)"

definition line_done :: "pty \<Rightarrow> pty" where
  "line_done t =
     (if nrec t = RECS \<or> in_room t < llen t then t\<lparr>line := []\<rparr>
      else let n = llen t;
               t = in_put (line t) t
           in t\<lparr>rec := (rec t)((rec_head t + nrec t) mod RECS := n), nrec := nrec t + 1, line := []\<rparr>)"

definition flush_input :: "pty \<Rightarrow> pty" where
  "flush_input t = t\<lparr>in_len := 0, in_head := 0, nrec := 0, rec_head := 0, line := []\<rparr>"

text \<open>The loops of word erase and line kill: \<open>erase_one\<close> while the last byte satisfies \<open>P\<close>.\<close>

lemma out_put_line [simp]: "line (out_put c t) = line t" "tio (out_put c t) = tio t"
  by (simp_all add: out_put_def)

lemma out_spaces_line [simp]: "line (out_spaces n t) = line t" "tio (out_spaces n t) = tio t"
  by (induction n arbitrary: t) auto

lemma out_c_line [simp]: "line (out_c c t) = line t" "tio (out_c c t) = tio t"
  by (simp_all add: out_c_def out_char_def Let_def)

lemma rub_out_line [simp]: "line (rub_out w t) = line t" "tio (rub_out w t) = tio t"
  by (induction w arbitrary: t) auto

lemma back_cont_le: "back_cont s i \<le> i"
  by (induction s i rule: back_cont.induct) auto

lemma erase_one_shorter:
  assumes "line t \<noteq> []"
  shows "llen (erase_one t) < llen t"
proof -
  have "back_cont (line t) (llen t - 1) < llen t"
    using back_cont_le [of "line t" "llen t - 1"] assms by (cases "line t") auto
  then show ?thesis using assms by (auto simp: erase_one_def Let_def)
qed

function erase_while :: "(byte \<Rightarrow> bool) \<Rightarrow> pty \<Rightarrow> pty" where
  "erase_while P t = (if line t \<noteq> [] \<and> P (last (line t)) then erase_while P (erase_one t) else t)"
  by pat_completeness auto
termination erase_while
  by (relation "measure (\<lambda>(P, t). llen t)") (use erase_one_shorter in auto)

declare erase_while.simps [simp del]

fun echo_all :: "byte list \<Rightarrow> pty \<Rightarrow> pty" where
  "echo_all [] t = t"
| "echo_all (c # cs) t = echo_all cs (echo_char c t)"

definition is_cc :: "pty \<Rightarrow> ctrl \<Rightarrow> byte \<Rightarrow> bool" where
  "is_cc t k c \<longleftrightarrow> c = c_cc (tio t) k \<and> c_cc (tio t) k \<noteq> 0"

definition signal_of :: "pty \<Rightarrow> byte \<Rightarrow> u32" where
  "signal_of t c =
     (if is_cc t VINTR c then PTY_EV_SIGINT else if is_cc t VQUIT c then PTY_EV_SIGQUIT
      else if is_cc t VSUSP c then PTY_EV_SIGTSTP else 0)"

text \<open>A byte of the canonical mode, after the input mapping, flow control and signals.\<close>

definition type_canon :: "byte \<Rightarrow> pty \<Rightarrow> pty" where
  "type_canon c t =
     (let lf = c_lflag (tio t)
      in if has lf IEXTEN \<and> is_cc t VLNEXT c
         then let t = t\<lparr>lnext := True\<rparr> in if has lf ECHO \<and> has lf ECHOCTL then out_c 8 (out_c 94 t) else t
         else if is_cc t VERASE c then erase_one t
         else if has lf IEXTEN \<and> is_cc t VWERASE c then erase_while (\<lambda>b. \<not> is_space b) (erase_while is_space t)
         else if is_cc t VKILL c
         then if has lf ECHO \<and> has lf ECHOKE then erase_while (\<lambda>_. True) t
              else let t = t\<lparr>line := []\<rparr> in if has lf ECHO \<and> has lf ECHOK then out_c 10 t else t
         else if has lf IEXTEN \<and> is_cc t VREPRINT c
         then if has lf ECHO then let t = out_c 10 (echo_char c t) in echo_all (line t) t else t
         else if is_cc t VEOF c then line_done t
         else let eol = (c = 10 \<or> is_cc t VEOL c \<or> is_cc t VEOL2 c);
                  t = (if llen t < LINE - 1 \<or> eol \<and> llen t < LINE then t\<lparr>line := line t @ [c]\<rparr> else t);
                  t = (if has lf ECHO \<or> c = 10 \<and> has lf ECHONL then echo_char c t else t)
              in if eol then line_done t else t)"

text \<open>The raw mode; \<open>False\<close> is a byte that could not be taken.\<close>

definition type_raw :: "byte \<Rightarrow> pty \<Rightarrow> bool \<times> pty" where
  "type_raw c t =
     (if in_room t = 0 then (False, t)
      else let t = in_put [c] t in (True, if has (c_lflag (tio t)) ECHO then echo_char c t else t))"

definition type_literal :: "byte \<Rightarrow> pty \<Rightarrow> bool \<times> pty" where
  "type_literal c t =
     (let t = t\<lparr>lnext := False\<rparr>
      in if canonical t
         then let t = (if llen t < LINE - 1 then t\<lparr>line := line t @ [c]\<rparr> else t)
              in (True, if has (c_lflag (tio t)) ECHO then echo_char c t else t)
         else type_raw c t)"

text \<open>The input mapping: \<open>None\<close> is a byte that is ignored.\<close>

definition map_input :: "u32 \<Rightarrow> byte \<Rightarrow> byte option" where
  "map_input f c =
     (let c = (if has f ISTRIP then c AND 0x7F else c)
      in if c = 13 then if has f IGNCR then None else Some (if has f ICRNL then 10 else c)
         else Some (if c = 10 \<and> has f INLCR then 13 else c))"

definition type_char :: "byte \<Rightarrow> pty \<Rightarrow> bool \<times> pty" where
  "type_char c t =
     (if lnext t then type_literal c t
      else case map_input (c_iflag (tio t)) c of None \<Rightarrow> (True, t)
      | Some c \<Rightarrow>
          let lf = c_lflag (tio t); xon = has (c_iflag (tio t)) IXON
          in if xon \<and> is_cc t VSTOP c then (True, t\<lparr>stopped := True\<rparr>)
             else if xon \<and> is_cc t VSTART c then (True, t\<lparr>stopped := False\<rparr>)
             else let t = (if xon \<and> has (c_iflag (tio t)) IXANY then t\<lparr>stopped := False\<rparr> else t)
                  in if has lf ISIG \<and> signal_of t c \<noteq> 0
                     then let t = t\<lparr>events := events t OR signal_of t c\<rparr>;
                              t = (if \<not> has lf NOFLSH then (flush_input t)\<lparr>out_len := 0\<rparr> else t)
                          in (True, if has lf ECHO then echo_char c t else t)
                     else if has lf ICANON then (True, type_canon c t)
                     else type_raw c t)"


section \<open>Reads and writes\<close>

text \<open>A result is the number of bytes, or an error number; the bytes read come with it.\<close>

datatype 'a io = Done 'a | EAGAIN | EIO

fun type_all :: "byte list \<Rightarrow> pty \<Rightarrow> nat \<times> pty" where
  "type_all [] t = (0, t)"
| "type_all (c # cs) t = (let (ok, t) = type_char c t in if \<not> ok then (0, t) else let (n, t) = type_all cs t in (n + 1, t))"

definition pty_master_write :: "byte list \<Rightarrow> pty \<Rightarrow> nat io \<times> pty" where
  "pty_master_write buf t = (let (i, t) = type_all buf t in (if i \<noteq> 0 \<or> buf = [] then Done i else EAGAIN, t))"

definition out_take :: "nat \<Rightarrow> pty \<Rightarrow> byte list \<times> pty" where
  "out_take n t =
     (let k = min (out_len t) n
      in (ring_list OUTQ (outq t) (out_head t) k, t\<lparr>out_head := (out_head t + k) mod OUTQ, out_len := out_len t - k\<rparr>))"

definition pty_master_read :: "nat \<Rightarrow> pty \<Rightarrow> byte list io \<times> pty" where
  "pty_master_read n t =
     (if out_len t = 0 then (if slave_seen t \<and> slaves t = 0 then EIO else EAGAIN, t)
      else let (bs, t) = out_take n t in (Done bs, t))"

definition in_take :: "nat \<Rightarrow> pty \<Rightarrow> byte list \<times> pty" where
  "in_take k t =
     (ring_list INQ (inq t) (in_head t) k, t\<lparr>in_head := (in_head t + k) mod INQ, in_len := in_len t - k\<rparr>)"

definition pop_rec :: "pty \<Rightarrow> pty" where
  "pop_rec t = t\<lparr>rec_head := (rec_head t + 1) mod RECS, nrec := nrec t - 1\<rparr>"

definition pty_slave_read :: "nat \<Rightarrow> pty \<Rightarrow> byte list io \<times> pty" where
  "pty_slave_read n t =
     (if canonical t
      then if nrec t = 0 then (if hung t then Done [] else EAGAIN, t)
           else let len = rec t (rec_head t)
                in if len = 0 then (Done [], pop_rec t)
                   else let k = min len n;
                            (bs, t) = in_take k t;
                            t = t\<lparr>rec := (rec t)(rec_head t := len - k)\<rparr>
                        in (Done bs, if len - k = 0 then pop_rec t else t)
      else if in_len t = 0 then (if hung t then Done [] else EAGAIN, t)
      else let (bs, t) = in_take (min (in_len t) n) t in (Done bs, t))"

fun out_all :: "byte list \<Rightarrow> pty \<Rightarrow> nat \<times> pty" where
  "out_all [] t = (0, t)"
| "out_all (c # cs) t = (let (k, t) = out_char c t in if k = 0 then (0, t) else let (n, t) = out_all cs t in (n + 1, t))"

definition pty_slave_write :: "byte list \<Rightarrow> pty \<Rightarrow> nat io \<times> pty" where
  "pty_slave_write buf t =
     (if hung t then (EIO, t) else if stopped t then (EAGAIN, t)
      else let (i, t) = out_all buf t in (if i \<noteq> 0 \<or> buf = [] then Done i else EAGAIN, t))"

definition pty_poll :: "bool \<Rightarrow> u32 \<Rightarrow> pty \<Rightarrow> u32" where
  "pty_poll master ev t =
     (let r = (if master
               then (if out_len t \<noteq> 0 then 0x001 else if slave_seen t \<and> slaves t = 0 then 0x001 OR 0x010 else 0)
                    OR (if in_room t \<noteq> 0 then 0x004 else 0)
               else (if (if canonical t then 0 < nrec t else 0 < in_len t) then 0x001 else 0)
                    OR (if hung t then 0x001 OR 0x010 else if \<not> stopped t \<and> 8 \<le> OUTQ - out_len t then 0x004 else 0))
      in r AND (ev OR 0x008 OR 0x010))"

definition pty_nread :: "bool \<Rightarrow> pty \<Rightarrow> nat" where
  "pty_nread master t =
     (if master then out_len t
      else if canonical t then if nrec t \<noteq> 0 then rec t (rec_head t) else 0
      else in_len t)"

definition pty_flush :: "nat \<Rightarrow> pty \<Rightarrow> pty" where
  "pty_flush queue t =
     (let t = (if queue = 0 \<or> queue = 2 then flush_input t else t)
      in if queue = 1 \<or> queue = 2 then t\<lparr>out_len := 0, out_head := 0\<rparr> else t)"

text \<open>The lines typed so far as raw input: an end of file among them becomes the character itself.\<close>

fun cooked :: "byte \<Rightarrow> (nat \<Rightarrow> byte) \<Rightarrow> nat list \<Rightarrow> nat \<Rightarrow> byte list" where
  "cooked eof a [] i = []"
| "cooked eof a (len # lens) i =
     (if len = 0 then eof # cooked eof a lens i
      else ring_list INQ a i len @ cooked eof a lens ((i + len) mod INQ))"

definition pty_set_termios :: "pty_termios \<Rightarrow> bool \<Rightarrow> pty \<Rightarrow> pty" where
  "pty_set_termios new flush t =
     (let was = has (c_lflag (tio t)) ICANON; now = has (c_lflag new) ICANON;
          t = t\<lparr>tio := new\<rparr>;
          t = (if flush then flush_input t else t);
          t = (if was \<and> \<not> now
               then let eof = (if c_cc (tio t) VEOF \<noteq> 0 then c_cc (tio t) VEOF else 4);
                        recs = ring_list RECS (rec t) (rec_head t) (nrec t);
                        eofs = length (filter (\<lambda>n. n = 0) recs);
                        t = (if eofs \<noteq> 0 \<and> in_len t + eofs \<le> INQ
                             then in_put (cooked eof (inq t) recs (in_head t)) (t\<lparr>in_head := 0, in_len := 0\<rparr>)
                             else t)
                    in (in_put (line t) t)\<lparr>line := [], nrec := 0, rec_head := 0\<rparr>
               else if \<not> was \<and> now \<and> in_len t \<noteq> 0
               then t\<lparr>nrec := 1, rec_head := 0, rec := (rec t)(0 := in_len t)\<rparr>
               else t)
      in if \<not> has (c_iflag new) IXON then t\<lparr>stopped := False\<rparr> else t)"

definition pty_set_winsize :: "pty_winsize \<Rightarrow> pty \<Rightarrow> pty" where
  "pty_set_winsize new t = (if ws t = new then t else t\<lparr>ws := new, events := events t OR PTY_EV_SIGWINCH\<rparr>)"

definition pty_read_mode :: "pty \<Rightarrow> bool \<times> byte \<times> byte" where
  "pty_read_mode t = (canonical t, c_cc (tio t) VMIN, c_cc (tio t) VTIME)"

end
