(* ===== verification/Pty.thy ===== *)
theory Pty
  imports Pty_Model
begin

text \<open>
  The line discipline: the invariant of the queues over every sequence of operations, the input as a queue of lines,
  the output as a queue of bytes after the \<open>OPOST\<close> mapping, erasing by characters.
\<close>

section \<open>The input side is not touched by output\<close>

definition inp :: "pty \<Rightarrow> pty_termios \<times> (nat \<Rightarrow> byte) \<times> nat \<times> nat \<times> (nat \<Rightarrow> nat) \<times> nat \<times> nat \<times> bool" where
  "inp t = (tio t, inq t, in_head t, in_len t, rec t, rec_head t, nrec t, hung t)"

definition out_ok :: "pty \<Rightarrow> bool" where
  "out_ok t \<longleftrightarrow> out_head t < OUTQ \<and> out_len t \<le> OUTQ"

definition recs :: "pty \<Rightarrow> nat list" where
  "recs t = ring_list RECS (rec t) (rec_head t) (nrec t)"

definition in_ok :: "pty \<Rightarrow> bool" where
  "in_ok t \<longleftrightarrow> in_head t < INQ \<and> in_len t \<le> INQ \<and> rec_head t < RECS \<and> nrec t \<le> RECS \<and>
     (if canonical t then sum_list (recs t) = in_len t else nrec t = 0)"

definition pty_ok :: "pty \<Rightarrow> bool" where
  "pty_ok t \<longleftrightarrow> in_ok t \<and> out_ok t \<and> llen t \<le> LINE"

definition in_list :: "pty \<Rightarrow> byte list" where
  "in_list t = ring_list INQ (inq t) (in_head t) (in_len t)"

definition out_list :: "pty \<Rightarrow> byte list" where
  "out_list t = ring_list OUTQ (outq t) (out_head t) (out_len t)"

lemma in_ok_cong: "inp t = inp u \<Longrightarrow> in_ok t = in_ok u"
  by (auto simp: inp_def in_ok_def recs_def)

lemma in_list_cong: "inp t = inp u \<Longrightarrow> in_list t = in_list u \<and> recs t = recs u"
  by (auto simp: inp_def in_list_def recs_def)

lemma inp_out [simp]:
  "inp (out_put c t) = inp t" "inp (out_spaces n t) = inp t" "inp (out_c c t) = inp t" "inp (echo_char c t) = inp t"
  "inp (rub_out w t) = inp t" "inp (echo_all cs t) = inp t"
proof -
  show put: "inp (out_put c t) = inp t" for c t by (simp add: out_put_def inp_def)
  show spaces: "inp (out_spaces n t) = inp t" for n t by (induction n arbitrary: t) (auto simp: put)
  have col: "inp (t\<lparr>column := x\<rparr>) = inp t" for t x by (simp add: inp_def)
  show out: "inp (out_c c t) = inp t" for c t by (simp add: out_c_def out_char_def Let_def put spaces col)
  show echo: "inp (echo_char c t) = inp t" for c t by (simp add: echo_char_def out)
  show "inp (rub_out w t) = inp t" for w by (induction w arbitrary: t) (auto simp: out)
  show "inp (echo_all cs t) = inp t" by (induction cs arbitrary: t) (auto simp: echo)
qed

lemma line_echo [simp]: "line (echo_char c t) = line t" "line (echo_all cs t) = line t"
proof -
  show e: "line (echo_char c t) = line t" for c t by (simp add: echo_char_def)
  show "line (echo_all cs t) = line t" by (induction cs arbitrary: t) (auto simp: e)
qed

lemma inp_tio: "inp t = inp u \<Longrightarrow> tio t = tio u"
  by (simp add: inp_def)

lemma tio_echo [simp]: "tio (echo_char c t) = tio t" "tio (echo_all cs t) = tio t"
  using inp_tio [OF inp_out(4)] inp_tio [OF inp_out(6)] by simp_all

lemma out_ok_cong: "out_head t = out_head u \<Longrightarrow> out_len t = out_len u \<Longrightarrow> out_ok t = out_ok u"
  by (simp add: out_ok_def)

lemma out_ok_out [simp]:
  "out_ok t \<Longrightarrow> out_ok (out_put c t)" "out_ok t \<Longrightarrow> out_ok (out_spaces n t)" "out_ok t \<Longrightarrow> out_ok (out_c c t)"
  "out_ok t \<Longrightarrow> out_ok (echo_char c t)" "out_ok t \<Longrightarrow> out_ok (rub_out w t)" "out_ok t \<Longrightarrow> out_ok (echo_all cs t)"
proof -
  have put: "out_ok t \<Longrightarrow> out_ok (out_put c t)" for c t by (simp add: out_put_def out_ok_def)
  have spaces: "out_ok t \<Longrightarrow> out_ok (out_spaces n t)" for n t by (induction n arbitrary: t) (auto simp: put)
  have col: "out_ok (t\<lparr>column := x\<rparr>) = out_ok t" for t x by (simp add: out_ok_def)
  have out: "out_ok t \<Longrightarrow> out_ok (out_c c t)" for c t by (simp add: out_c_def out_char_def Let_def put spaces col)
  have echo: "out_ok t \<Longrightarrow> out_ok (echo_char c t)" for c t by (simp add: echo_char_def out)
  have "out_ok t \<Longrightarrow> out_ok (rub_out w t)" for w by (induction w arbitrary: t) (auto simp: out)
  moreover have "out_ok t \<Longrightarrow> out_ok (echo_all cs t)" by (induction cs arbitrary: t) (auto simp: echo)
  ultimately show "out_ok t \<Longrightarrow> out_ok (out_put c t)" "out_ok t \<Longrightarrow> out_ok (out_spaces n t)" "out_ok t \<Longrightarrow> out_ok (out_c c t)"
    "out_ok t \<Longrightarrow> out_ok (echo_char c t)" "out_ok t \<Longrightarrow> out_ok (rub_out w t)" "out_ok t \<Longrightarrow> out_ok (echo_all cs t)"
    using put spaces out echo by blast+
qed

text \<open>Erasing changes the line and the output only.\<close>

lemma inp_line [simp]: "inp (t\<lparr>line := l\<rparr>) = inp t" "inp (t\<lparr>lnext := b\<rparr>) = inp t" "inp (t\<lparr>stopped := b\<rparr>) = inp t"
  "inp (t\<lparr>events := e\<rparr>) = inp t" "inp (t\<lparr>out_len := n\<rparr>) = inp t" "inp (t\<lparr>column := n\<rparr>) = inp t"
  by (simp_all add: inp_def)

lemma out_ok_line [simp]: "out_ok (t\<lparr>line := l\<rparr>) = out_ok t" "out_ok (t\<lparr>lnext := b\<rparr>) = out_ok t" "out_ok (t\<lparr>stopped := b\<rparr>) = out_ok t"
  "out_ok (t\<lparr>events := e\<rparr>) = out_ok t"
  by (simp_all add: out_ok_def)

lemma erase_one_inp [simp]: "inp (erase_one t) = inp t" "out_ok t \<Longrightarrow> out_ok (erase_one t)" "llen (erase_one t) \<le> llen t"
  by (auto simp: erase_one_def Let_def)

lemma erase_while_inp [simp]:
  "inp (erase_while P t) = inp t" "out_ok t \<Longrightarrow> out_ok (erase_while P t)" "llen (erase_while P t) \<le> llen t"
proof -
  have "inp (erase_while P t) = inp t \<and> (out_ok t \<longrightarrow> out_ok (erase_while P t)) \<and> llen (erase_while P t) \<le> llen t"
  proof (induction P t rule: erase_while.induct)
    case (1 P t)
    show ?case using 1 by (subst (1 2 3) erase_while.simps) (auto intro: order.trans)
  qed
  then show "inp (erase_while P t) = inp t" "out_ok t \<Longrightarrow> out_ok (erase_while P t)" "llen (erase_while P t) \<le> llen t" by auto
qed


section \<open>The queues\<close>

lemma in_put1_list:
  assumes "in_len t < INQ"
  shows "in_list (in_put1 c t) = in_list t @ [c]"
  using ring_put [OF assms, of "inq t" "in_head t" c] by (simp add: in_list_def in_put1_def)

lemma in_put_same [simp]:
  "in_head (in_put cs t) = in_head t" "tio (in_put cs t) = tio t" "rec (in_put cs t) = rec t" "rec_head (in_put cs t) = rec_head t"
  "nrec (in_put cs t) = nrec t" "line (in_put cs t) = line t" "out_head (in_put cs t) = out_head t" "out_len (in_put cs t) = out_len t"
  "outq (in_put cs t) = outq t" "hung (in_put cs t) = hung t" "recs (in_put cs t) = recs t" "out_ok (in_put cs t) = out_ok t"
  by (induction cs t rule: in_put.induct) (auto simp: in_put1_def recs_def out_ok_def)

lemma in_put_list:
  assumes "in_len t \<le> INQ"
  shows "in_list (in_put cs t) = in_list t @ take (in_room t) cs" and "in_len (in_put cs t) = min INQ (in_len t + length cs)"
  using assms
proof (induction cs t rule: in_put.induct)
  case (2 c cs t)
  case 1
  then show ?case using 2 in_put1_list [of t c]
    by (cases "in_len t < INQ") (auto simp: in_room_def in_put1_def take_Cons' Suc_diff_Suc [symmetric])
  case 2
  then show ?case using \<open>in_len t \<le> INQ\<close> "2.IH"(2) by (auto simp: in_put1_def)
qed (auto simp: in_room_def)

lemma out_put_list:
  "in_ok t \<Longrightarrow> in_ok (out_put c t)"
  "out_len t < OUTQ \<Longrightarrow> out_list (out_put c t) = out_list t @ [c]"
  using in_ok_cong [OF inp_out(1)] ring_put [of "out_len t" OUTQ "outq t" "out_head t" c]
  by (auto simp: out_list_def out_put_def)


interpretation outq: bounded_fifo out_ok out_list OUTQ out_put out_take
proof
  fix t :: pty and x n bs u
  show "out_ok t \<Longrightarrow> length (out_list t) < OUTQ \<Longrightarrow> out_ok (out_put x t) \<and> out_list (out_put x t) = out_list t @ [x]"
    using out_put_list(2) [of t x] by (simp add: out_list_def)
  show "out_ok t \<Longrightarrow> OUTQ \<le> length (out_list t) \<Longrightarrow> out_put x t = t" by (simp add: out_list_def out_put_def)
  show "out_ok t \<Longrightarrow> length (out_list t) \<le> OUTQ" by (simp add: out_list_def out_ok_def)
  assume "out_ok t" "out_take n t = (bs, u)"
  moreover have "0 < OUTQ" by (simp add: OUTQ_def)
  ultimately show "out_ok u \<and> bs = take n (out_list t) \<and> out_list u = drop n (out_list t)"
    using ring_take [of "min (out_len t) n" "out_len t" OUTQ "outq t" "out_head t"]
      ring_drop [of "min (out_len t) n" "out_len t" OUTQ "outq t" "out_head t"]
    by (auto simp: out_take_def out_list_def out_ok_def Let_def min_def)
qed

text \<open>The ready input as a queue: \<open>in_put\<close> of one byte, and reading at most what is there.\<close>

definition inq_ok :: "pty \<Rightarrow> bool" where
  "inq_ok t \<longleftrightarrow> in_head t < INQ \<and> in_len t \<le> INQ"

definition in_get :: "nat \<Rightarrow> pty \<Rightarrow> byte list \<times> pty" where
  "in_get n t = in_take (min (in_len t) n) t"

lemma in_take_list:
  assumes "inq_ok t" "k \<le> in_len t" "in_take k t = (bs, u)"
  shows "bs = take k (in_list t)" "in_list u = drop k (in_list t)" "inq_ok u"
proof -
  have "0 < INQ" by (simp add: INQ_def)
  then show "bs = take k (in_list t)" "in_list u = drop k (in_list t)" "inq_ok u"
    using assms ring_take [of k "in_len t" INQ "inq t" "in_head t"] ring_drop [of k "in_len t" INQ "inq t" "in_head t"]
    by (auto simp: in_take_def in_list_def inq_ok_def)
qed

interpretation inq: bounded_fifo inq_ok in_list INQ "\<lambda>c. in_put [c]" in_get
proof
  fix t :: pty and x n bs u
  show "inq_ok t \<Longrightarrow> length (in_list t) < INQ \<Longrightarrow> inq_ok (in_put [x] t) \<and> in_list (in_put [x] t) = in_list t @ [x]"
    using in_put1_list [of t x] by (simp add: in_list_def inq_ok_def in_put1_def)
  show "inq_ok t \<Longrightarrow> INQ \<le> length (in_list t) \<Longrightarrow> in_put [x] t = t" by (simp add: in_list_def)
  show "inq_ok t \<Longrightarrow> length (in_list t) \<le> INQ" by (simp add: in_list_def inq_ok_def)
  assume t: "inq_ok t" "in_get n t = (bs, u)"
  then show "inq_ok u \<and> bs = take n (in_list t) \<and> in_list u = drop n (in_list t)"
    using in_take_list [OF t(1), of "min (in_len t) n" bs u] by (auto simp: in_get_def in_list_def min_def)
qed


section \<open>The input as lines\<close>

fun chop :: "nat list \<Rightarrow> 'a list \<Rightarrow> 'a list list" where
  "chop [] xs = []"
| "chop (n # ns) xs = take n xs # chop ns (drop n xs)"

definition lines :: "pty \<Rightarrow> byte list list" where
  "lines t = chop (recs t) (in_list t)"

lemma chop_append: "sum_list ns = length xs \<Longrightarrow> chop (ns @ [length ys]) (xs @ ys) = chop ns xs @ [ys]"
proof (induction ns arbitrary: xs)
  case (Cons n ns)
  then show ?case using Cons.IH [of "drop n xs"] by (simp add: add.commute)
qed simp

lemma recs_length [simp]: "length (recs t) = nrec t"
  by (simp add: recs_def)

lemma in_list_length [simp]: "length (in_list t) = in_len t"
  by (simp add: in_list_def)

lemma RECS_pos: "0 < RECS" "0 < INQ"
  by (simp_all add: RECS_def INQ_def)

text \<open>A finished line becomes the last of the lines, or is lost when there is no room for it.\<close>

lemma line_done_lines:
  assumes ok: "in_ok t" and canon: "canonical t"
  shows "in_ok (line_done t)" and "line (line_done t) = []" and "tio (line_done t) = tio t"
    and "lines (line_done t) = (if nrec t = RECS \<or> in_room t < llen t then lines t else lines t @ [line t])"
    and "out_ok (line_done t) = out_ok t"
proof -
  let ?full = "nrec t = RECS \<or> in_room t < llen t"
  show "line (line_done t) = []" "tio (line_done t) = tio t" "out_ok (line_done t) = out_ok t"
    by (auto simp: line_done_def Let_def out_ok_def)
  have "in_ok (line_done t) \<and> lines (line_done t) = (if ?full then lines t else lines t @ [line t])"
  proof (cases ?full)
    case True
    then have e: "line_done t = t\<lparr>line := []\<rparr>" by (simp add: line_done_def)
    have "inp (line_done t) = inp t" by (simp add: e)
    then show ?thesis using True ok in_ok_cong [of "line_done t" t] in_list_cong [of "line_done t" t] by (simp add: lines_def)
  next
    case False
    let ?u = "in_put (line t) t"
    have len: "in_len t \<le> INQ" and nr: "nrec t < RECS" and sum: "sum_list (recs t) = in_len t"
      using ok canon False by (auto simp: in_ok_def)
    have il: "in_list ?u = in_list t @ line t" "in_len ?u = in_len t + llen t"
      using in_put_list [OF len, of "line t"] False len by (auto simp: in_room_def)
    have r: "recs (line_done t) = recs t @ [llen t]"
      using False ring_put [OF nr, of "rec t" "rec_head t" "llen t"] by (simp add: line_done_def Let_def recs_def)
    have i: "in_list (line_done t) = in_list t @ line t" "in_len (line_done t) = in_len t + llen t" "nrec (line_done t) = nrec t + 1"
      "in_head (line_done t) = in_head t" "rec_head (line_done t) = rec_head t" "canonical (line_done t)"
      using False il canon by (auto simp: line_done_def Let_def in_list_def)
    have "lines (line_done t) = lines t @ [line t]"
      using chop_append [of "recs t" "in_list t" "line t"] sum by (simp add: lines_def r i)
    moreover have "in_ok (line_done t)"
      using ok canon False i r nr sum by (auto simp: in_ok_def in_room_def)
    ultimately show ?thesis using False by simp
  qed
  then show "in_ok (line_done t)" "lines (line_done t) = (if ?full then lines t else lines t @ [line t])" by auto
qed

text \<open>A read of the slave, on the queue of lines.\<close>

fun read_lines :: "nat \<Rightarrow> bool \<Rightarrow> byte list list \<Rightarrow> byte list io \<times> byte list list" where
  "read_lines n hup [] = (if hup then Done [] else EAGAIN, [])"
| "read_lines n hup (l # ls) =
     (if l = [] then (Done [], ls) else (Done (take n l), if length l \<le> n then ls else drop n l # ls))"

lemma pop_rec_recs: "0 < nrec t \<Longrightarrow> recs (pop_rec t) = tl (recs t)"
  using ring_drop [of 1 "nrec t" RECS "rec t" "rec_head t"] by (simp add: pop_rec_def recs_def drop_Suc)

lemma pop_rec_same [simp]:
  "tio (pop_rec t) = tio t" "in_list (pop_rec t) = in_list t" "in_len (pop_rec t) = in_len t" "in_head (pop_rec t) = in_head t"
  "rec_head (pop_rec t) = (rec_head t + 1) mod RECS" "nrec (pop_rec t) = nrec t - 1" "line (pop_rec t) = line t"
  "out_ok (pop_rec t) = out_ok t"
  by (simp_all add: pop_rec_def in_list_def out_ok_def)

lemma slave_read_lines:
  assumes ok: "in_ok t" and canon: "canonical t" and r: "pty_slave_read n t = (res, u)"
  shows "(res, lines u) = read_lines n (hung t) (lines t)" and "in_ok u" and "tio u = tio t"
    and "line u = line t" and "out_ok u = out_ok t"
proof -
  have "(res, lines u) = read_lines n (hung t) (lines t) \<and> in_ok u \<and> tio u = tio t \<and> line u = line t \<and> out_ok u = out_ok t"
  proof (cases "nrec t = 0")
    case True
    then show ?thesis using ok canon r by (auto simp: pty_slave_read_def lines_def recs_def)
  next
    case False
    define len where "len = rec t (rec_head t)"
    have bounds: "in_head t < INQ" "in_len t \<le> INQ" "rec_head t < RECS" "nrec t \<le> RECS" "sum_list (recs t) = in_len t"
      using ok canon by (auto simp: in_ok_def)
    have "recs t \<noteq> []" using False recs_length [of t] by (metis list.size(3))
    moreover have "hd (recs t) = len"
      using False ring_first [of "rec_head t" RECS "nrec t" "rec t"] bounds by (simp add: recs_def len_def)
    ultimately obtain ns where ns: "recs t = len # ns" by (cases "recs t") auto
    have len: "len \<le> in_len t" using bounds(5) ns by simp
    have pop: "recs (pop_rec v) = tl (recs v)" if "nrec v = nrec t" for v using pop_rec_recs [of v] False that by simp
    show ?thesis
    proof (cases "len = 0")
      case True
      then have "u = pop_rec t" "res = Done []" using r False canon by (auto simp: pty_slave_read_def len_def)
      then show ?thesis
        using True ns bounds pop [of t] canon RECS_pos by (auto simp: lines_def in_ok_def)
    next
      case nz: False
      define k where "k = min len n"
      obtain bs v where v: "in_take k t = (bs, v)" by force
      have iq: "inq_ok t" using bounds by (simp add: inq_ok_def)
      have kl: "k \<le> in_len t" using len by (simp add: k_def)
      note T = in_take_list [OF iq kl v]
      have vs: "rec v = rec t" "rec_head v = rec_head t" "nrec v = nrec t" "tio v = tio t" "line v = line t" "out_ok v = out_ok t"
        "in_len v = in_len t - k" "in_head v < INQ"
        using v T(3) by (auto simp: in_take_def out_ok_def inq_ok_def)
      define w where "w = v\<lparr>rec := (rec v)(rec_head v := len - k)\<rparr>"
      have wr: "recs w = (len - k) # ns"
        using ring_set_first [of "rec_head t" RECS "nrec t" "rec t" "len - k"] bounds False ns
        by (simp add: w_def recs_def vs)
      have ws: "tio w = tio t" "line w = line t" "out_ok w = out_ok t" "in_list w = drop k (in_list t)" "nrec w = nrec t"
        "in_len w = in_len t - k" "in_head w < INQ" "rec_head w = rec_head t"
        using T vs by (auto simp: w_def in_list_def out_ok_def)
      have u: "u = (if len - k = 0 then pop_rec w else w)" "res = Done bs"
        using r False canon nz v by (auto simp: pty_slave_read_def len_def k_def w_def Let_def)
      have lt: "lines t = take len (in_list t) # chop ns (drop len (in_list t))" by (simp add: lines_def ns)
      have ne2: "length (take len (in_list t)) = len" using len by simp
      then have ne: "take len (in_list t) \<noteq> []" "length (take len (in_list t)) = len" using nz by (metis list.size(3), blast)
      show ?thesis
      proof (cases "len \<le> n")
        case True
        then have k: "k = len" by (simp add: k_def)
        have "lines u = chop ns (drop len (in_list t))"
          using u k pop [of w] ws wr by (simp add: lines_def)
        moreover have "in_ok u" using u k pop [of w] ws wr bounds ns canon RECS_pos by (auto simp: in_ok_def)
        ultimately show ?thesis using u k True lt ne T(1) ws by (simp del: take_eq_Nil)
      next
        case less: False
        then have k: "k = n" by (simp add: k_def)
        have "lines u = drop n (take len (in_list t)) # chop ns (drop len (in_list t))"
          using u less ws wr by (simp add: lines_def k drop_take)
        moreover have "in_ok u" using u k less ws wr bounds ns canon by (auto simp: in_ok_def)
        ultimately show ?thesis using u k less lt ne T(1) ws by (simp del: take_eq_Nil add: min_def)
      qed
    qed
  qed
  then show "(res, lines u) = read_lines n (hung t) (lines t)" "in_ok u" "tio u = tio t" "line u = line t" "out_ok u = out_ok t"
    by auto
qed


section \<open>The invariant\<close>

text \<open>Who holds a pty; only the reference operations change it.\<close>

definition refs :: "pty \<Rightarrow> int \<times> int \<times> int" where
  "refs t = (masters t, slaves t, holds t)"

lemma refs_upd [simp]:
  "refs (t\<lparr>line := l\<rparr>) = refs t" "refs (t\<lparr>lnext := b\<rparr>) = refs t" "refs (t\<lparr>stopped := b\<rparr>) = refs t" "refs (t\<lparr>events := e\<rparr>) = refs t"
  "refs (t\<lparr>out_len := n\<rparr>) = refs t" "refs (t\<lparr>column := n\<rparr>) = refs t" "refs (t\<lparr>tio := x\<rparr>) = refs t" "refs (t\<lparr>ws := y\<rparr>) = refs t"
  "refs (t\<lparr>in_len := n\<rparr>) = refs t" "refs (t\<lparr>in_head := n\<rparr>) = refs t" "refs (t\<lparr>nrec := n\<rparr>) = refs t"
  "refs (t\<lparr>rec_head := n\<rparr>) = refs t" "refs (t\<lparr>rec := r\<rparr>) = refs t" "refs (t\<lparr>out_head := n\<rparr>) = refs t"
  by (simp_all add: refs_def)

lemma refs_out [simp]:
  "refs (out_put c t) = refs t" "refs (out_spaces n t) = refs t" "refs (out_c c t) = refs t" "refs (echo_char c t) = refs t"
  "refs (rub_out w t) = refs t" "refs (echo_all cs t) = refs t" "refs (erase_one t) = refs t" "refs (in_put cs t) = refs t"
proof -
  show put: "refs (out_put c t) = refs t" for c t by (simp add: out_put_def refs_def)
  show spaces: "refs (out_spaces n t) = refs t" for n t by (induction n arbitrary: t) (auto simp: put)
  show out: "refs (out_c c t) = refs t" for c t by (simp add: out_c_def out_char_def Let_def put spaces)
  show echo: "refs (echo_char c t) = refs t" for c t by (simp add: echo_char_def out)
  show rub: "refs (rub_out w t) = refs t" for w t by (induction w arbitrary: t) (auto simp: out)
  show "refs (echo_all cs t) = refs t" by (induction cs arbitrary: t) (auto simp: echo)
  show "refs (erase_one t) = refs t" by (simp add: erase_one_def Let_def rub)
  show "refs (in_put cs t) = refs t" by (induction cs t rule: in_put.induct) (auto simp: in_put1_def refs_def)
qed

lemma refs_erase_while [simp]: "refs (erase_while P t) = refs t"
proof (induction P t rule: erase_while.induct)
  case (1 P t)
  then show ?case by (subst erase_while.simps) auto
qed

lemma refs_in [simp]: "refs (line_done t) = refs t" "refs (flush_input t) = refs t" "refs (pop_rec t) = refs t"
  by (simp_all add: line_done_def flush_input_def pop_rec_def Let_def)

lemma refs_type_parts [simp]:
  "refs (type_canon c t) = refs t" "refs (snd (type_raw c t)) = refs t" "refs (snd (type_literal c t)) = refs t"
proof -
  show "refs (type_canon c t) = refs t"
    by (simp add: type_canon_def Let_def if_distrib [of refs] cong: if_cong)
  show raw: "refs (snd (type_raw c t)) = refs t" for t by (simp add: type_raw_def Let_def del: in_put.simps)
  show "refs (snd (type_literal c t)) = refs t" by (simp add: type_literal_def Let_def raw if_distrib [of refs] cong: if_cong)
qed

lemma refs_type: "refs (snd (type_char c t)) = refs t"
  by (simp add: type_char_def Let_def if_distrib [of refs] if_distrib [of snd] cong: if_cong split: option.split)

lemma pty_okD: "pty_ok t \<Longrightarrow> in_ok t" "pty_ok t \<Longrightarrow> out_ok t" "pty_ok t \<Longrightarrow> llen t \<le> LINE"
  by (simp_all add: pty_ok_def)

text \<open>An operation that leaves the input queues alone keeps the invariant if the line does not grow too long.\<close>

lemma pty_okI: "inp u = inp t \<Longrightarrow> pty_ok t \<Longrightarrow> out_ok u \<Longrightarrow> llen u \<le> LINE \<Longrightarrow> pty_ok u"
  using in_ok_cong [of u t] by (simp add: pty_ok_def)

lemma line_done_ok:
  assumes "pty_ok t" "canonical t"
  shows "pty_ok (line_done t)"
  using line_done_lines [OF pty_okD(1) [OF assms(1)] assms(2)] assms(1) by (simp add: pty_ok_def)

lemma flush_input_ok:
  assumes "pty_ok t"
  shows "pty_ok (flush_input t)"
  using assms RECS_pos by (simp add: pty_ok_def in_ok_def out_ok_def flush_input_def recs_def)

lemma echo_ok: "pty_ok t \<Longrightarrow> pty_ok (echo_char c t)" "pty_ok t \<Longrightarrow> pty_ok (out_c c t)"
  using pty_okI [OF inp_out(4)] pty_okI [OF inp_out(3)] by (auto simp: pty_ok_def)

lemma echo_all_ok: "pty_ok t \<Longrightarrow> pty_ok (echo_all cs t)"
  by (induction cs arbitrary: t) (auto simp: echo_ok)

lemma ok_if: "(b \<Longrightarrow> pty_ok x) \<Longrightarrow> (\<not> b \<Longrightarrow> pty_ok y) \<Longrightarrow> pty_ok (if b then x else y)"
  by simp

lemma type_canon_ok:
  assumes ok: "pty_ok t" and canon: "canonical t"
  shows "pty_ok (type_canon c t)"
proof -
  note O = pty_okD [OF ok]
  have erase: "pty_ok (erase_one t)" "pty_ok (erase_while P t)" for P
    by (rule pty_okI [OF _ ok]; use O in \<open>auto intro: order.trans [OF erase_one_inp(3)] order.trans [OF erase_while_inp(3)]\<close>)+
  have erase2: "pty_ok (erase_while P (erase_while Q t))" for P Q
    by (rule pty_okI [OF _ ok]) (use O in \<open>auto intro: order.trans [OF erase_while_inp(3)] order.trans [OF erase_while_inp(3)]\<close>)
  have upd: "pty_ok (t\<lparr>lnext := True\<rparr>)" "pty_ok (t\<lparr>line := []\<rparr>)"
    by (rule pty_okI [OF _ ok]; use O in simp)+
  define u where "u = (if llen t < LINE - 1 \<or> (c = 10 \<or> is_cc t VEOL c \<or> is_cc t VEOL2 c) \<and> llen t < LINE then t\<lparr>line := line t @ [c]\<rparr> else t)"
  define w where "w = (if has (c_lflag (tio t)) ECHO \<or> c = 10 \<and> has (c_lflag (tio t)) ECHONL then echo_char c u else u)"
  have u: "pty_ok u" "tio u = tio t" by (rule pty_okI [OF _ ok]; use O in \<open>auto simp: u_def\<close>) (simp add: u_def)
  have w: "pty_ok w" "canonical w" using u canon by (simp_all add: w_def echo_ok)
  show ?thesis
    unfolding type_canon_def Let_def u_def [symmetric] w_def [symmetric]
    by (intro ok_if erase erase2 upd echo_ok echo_all_ok ok w(1) line_done_ok [OF w] line_done_ok [OF ok canon])
qed

lemma in_put_ok:
  assumes "pty_ok t" "\<not> canonical t"
  shows "pty_ok (in_put cs t)"
  using assms in_put_list(2) [of t cs] by (simp add: pty_ok_def in_ok_def)

lemma type_raw_ok:
  assumes "pty_ok t" "\<not> canonical t"
  shows "pty_ok (snd (type_raw c t))"
  using assms in_put_ok [OF assms, of "[c]"] by (simp add: type_raw_def Let_def echo_ok del: in_put.simps)

lemma pty_ok_upd [simp]: "pty_ok (t\<lparr>lnext := b\<rparr>) = pty_ok t" "pty_ok (t\<lparr>stopped := b\<rparr>) = pty_ok t" "pty_ok (t\<lparr>events := e\<rparr>) = pty_ok t"
  using in_ok_cong [OF inp_line(2)] in_ok_cong [OF inp_line(3)] in_ok_cong [OF inp_line(4)] by (simp_all add: pty_ok_def)

lemma type_literal_ok:
  assumes "pty_ok t"
  shows "pty_ok (snd (type_literal c t))"
proof (cases "canonical t")
  case True
  let ?u = "t\<lparr>lnext := False\<rparr>"
  have "pty_ok (if llen t < LINE - 1 then ?u\<lparr>line := line t @ [c]\<rparr> else ?u)"
    by (rule pty_okI [OF _ assms]) (use pty_okD [OF assms] in auto)
  then show ?thesis using True echo_ok(1) by (auto simp: type_literal_def Let_def)
next
  case False
  then show ?thesis using assms type_raw_ok [of "t\<lparr>lnext := False\<rparr>" c] by (simp add: type_literal_def)
qed

lemma type_char_ok:
  assumes ok: "pty_ok t"
  shows "pty_ok (snd (type_char c t))"
proof -
  have sig: "pty_ok ((flush_input u)\<lparr>out_len := 0\<rparr>)" if "pty_ok u" for u
    using flush_input_ok [OF that] in_ok_cong [OF inp_line(5)] by (simp add: pty_ok_def out_ok_def)
  have pick: "pty_ok (snd (if b then x else y))" if "b \<Longrightarrow> pty_ok (snd x)" "\<not> b \<Longrightarrow> pty_ok (snd y)" for b and x y :: "bool \<times> pty"
    using that by simp
  have rest: "pty_ok (snd (if has lf ISIG \<and> signal_of u d \<noteq> 0
      then (True, if has lf ECHO then echo_char d (if \<not> has lf NOFLSH then (flush_input (u\<lparr>events := e\<rparr>))\<lparr>out_len := 0\<rparr> else u\<lparr>events := e\<rparr>)
                  else (if \<not> has lf NOFLSH then (flush_input (u\<lparr>events := e\<rparr>))\<lparr>out_len := 0\<rparr> else u\<lparr>events := e\<rparr>))
      else if has lf ICANON then (True, type_canon d u) else type_raw d u))"
    if "pty_ok u" "lf = c_lflag (tio u)" for u d e lf
    using that by (simp add: sig echo_ok type_canon_ok type_raw_ok)
  show ?thesis
  proof (cases "lnext t")
    case True
    then show ?thesis using type_literal_ok [OF ok] by (simp add: type_char_def)
  next
    case F: False
    show ?thesis
    proof (cases "map_input (c_iflag (tio t)) c")
      case None
      then show ?thesis using F ok by (simp add: type_char_def)
    next
      case (Some d)
      let ?u = "if has (c_iflag (tio t)) IXON \<and> has (c_iflag (tio t)) IXANY then t\<lparr>stopped := False\<rparr> else t"
      have "pty_ok ?u" "tio ?u = tio t" using ok by auto
      with rest [of ?u "c_lflag (tio t)" d "events ?u OR signal_of ?u d"] show ?thesis
        unfolding type_char_def using F Some ok by (simp only: if_False option.case Let_def) (rule pick, simp, rule pick, simp, simp only:)
    qed
  qed
qed

lemma type_all_ok: "pty_ok t \<Longrightarrow> pty_ok (snd (type_all cs t))"
proof (induction cs arbitrary: t)
  case (Cons c cs)
  obtain b u where u: "type_char c t = (b, u)" by force
  have "pty_ok u" using type_char_ok [OF Cons.prems, of c] u by simp
  then show ?case using Cons.IH [of u] u by (simp add: case_prod_beta)
qed simp

lemma out_all_ok: "pty_ok t \<Longrightarrow> pty_ok (snd (out_all cs t)) \<and> refs (snd (out_all cs t)) = refs t"
proof (induction cs arbitrary: t)
  case (Cons c cs)
  have "snd (out_char c t) = out_c c t" by (simp add: out_c_def)
  then show ?case using Cons.IH [of "out_c c t"] echo_ok(2) [OF Cons.prems, of c] by (simp add: case_prod_beta)
qed simp

lemma slave_read_ok:
  assumes "pty_ok t"
  shows "pty_ok (snd (pty_slave_read n t))" and "refs (snd (pty_slave_read n t)) = refs t"
proof -
  obtain r u where u: "pty_slave_read n t = (r, u)" by force
  show "pty_ok (snd (pty_slave_read n t))"
  proof (cases "canonical t")
    case True
    then show ?thesis using slave_read_lines [OF pty_okD(1) [OF assms] True u] assms u by (simp add: pty_ok_def)
  next
    case False
    then show ?thesis using assms RECS_pos
      by (auto simp: pty_slave_read_def in_take_def pty_ok_def in_ok_def out_ok_def recs_def Let_def)
  qed
  show "refs (snd (pty_slave_read n t)) = refs t"
    by (simp add: pty_slave_read_def in_take_def Let_def if_distrib [of refs] if_distrib [of snd] cong: if_cong)
qed

lemma master_read_ok:
  assumes "pty_ok t"
  shows "pty_ok (snd (pty_master_read n t))" and "refs (snd (pty_master_read n t)) = refs t"
proof -
  have "pty_ok (snd (out_take n t)) \<and> refs (snd (out_take n t)) = refs t"
    using assms outq.get_front [of t n "fst (out_take n t)" "snd (out_take n t)"]
    by (auto simp: out_take_def Let_def inp_def intro!: pty_okI [OF _ assms] dest: pty_okD)
  then show "pty_ok (snd (pty_master_read n t))" "refs (snd (pty_master_read n t)) = refs t"
    using assms by (auto simp: pty_master_read_def case_prod_beta)
qed

lemma flush_ok: "pty_ok t \<Longrightarrow> pty_ok (pty_flush q t)" "refs (pty_flush q t) = refs t"
proof -
  have out: "pty_ok (u\<lparr>out_len := 0, out_head := 0\<rparr>)" if "pty_ok u" for u
    using pty_okD [OF that] by (intro pty_okI [OF _ that]) (auto simp: inp_def out_ok_def OUTQ_def)
  show "pty_ok t \<Longrightarrow> pty_ok (pty_flush q t)" using flush_input_ok [of t] by (simp add: pty_flush_def Let_def out)
  show "refs (pty_flush q t) = refs t" by (simp add: pty_flush_def Let_def)
qed

lemma in_put_any_ok:
  assumes "in_head t < INQ" "in_len t \<le> INQ" "out_ok t" "llen t \<le> LINE" "\<not> canonical t"
  shows "pty_ok ((in_put cs t)\<lparr>line := [], nrec := 0, rec_head := 0\<rparr>)"
  using assms in_put_list(2) [OF assms(2), of cs] RECS_pos by (simp add: pty_ok_def in_ok_def out_ok_def recs_def)

lemma set_termios_ok:
  assumes ok: "pty_ok t"
  shows "pty_ok (pty_set_termios new fl t)" and "refs (pty_set_termios new fl t) = refs t"
proof -
  let ?was = "has (c_lflag (tio t)) ICANON" and ?now = "has (c_lflag new) ICANON"
  define u where "u = (if fl then flush_input (t\<lparr>tio := new\<rparr>) else t\<lparr>tio := new\<rparr>)"
  have u: "in_head u < INQ" "in_len u \<le> INQ" "out_ok u" "llen u \<le> LINE" "tio u = new" "rec_head u < RECS" "nrec u \<le> RECS"
    using ok RECS_pos by (auto simp: u_def flush_input_def pty_ok_def in_ok_def out_ok_def)
  have same: "pty_ok u" if "?was = ?now"
    using that ok RECS_pos by (auto simp: u_def flush_input_def pty_ok_def in_ok_def out_ok_def recs_def)
  have one: "pty_ok (u\<lparr>nrec := 1, rec_head := 0, rec := (rec u)(0 := in_len u)\<rparr>)" if ?now
    using that u by (auto simp: pty_ok_def in_ok_def out_ok_def recs_def RECS_def ring_list_def)
  have none: "pty_ok u" if "\<not> ?was" "in_len u = 0" ?now
  proof -
    have "nrec u = 0" using that ok by (auto simp: u_def pty_ok_def in_ok_def flush_input_def)
    then show ?thesis using u that by (simp add: pty_ok_def in_ok_def recs_def)
  qed
  define d where "d = (if ?was \<and> \<not> ?now
      then let eof = (if c_cc (tio u) VEOF \<noteq> 0 then c_cc (tio u) VEOF else 4);
               rs = ring_list RECS (rec u) (rec_head u) (nrec u);
               eofs = length (filter (\<lambda>n. n = 0) rs);
               v = (if eofs \<noteq> 0 \<and> in_len u + eofs \<le> INQ
                    then in_put (cooked eof (inq u) rs (in_head u)) (u\<lparr>in_head := 0, in_len := 0\<rparr>) else u)
           in (in_put (line v) v)\<lparr>line := [], nrec := 0, rec_head := 0\<rparr>
      else if \<not> ?was \<and> ?now \<and> in_len u \<noteq> 0
      then u\<lparr>nrec := 1, rec_head := 0, rec := (rec u)(0 := in_len u)\<rparr> else u)"
  have e: "pty_set_termios new fl t = (if \<not> has (c_iflag new) IXON then d\<lparr>stopped := False\<rparr> else d)"
    by (simp only: pty_set_termios_def u_def d_def Let_def)
  have "pty_ok d"
  proof -
    have "in_head (in_put cs (u\<lparr>in_head := 0, in_len := 0\<rparr>)) < INQ \<and> in_len (in_put cs (u\<lparr>in_head := 0, in_len := 0\<rparr>)) \<le> INQ"
      for cs using in_put_list(2) [of "u\<lparr>in_head := 0, in_len := 0\<rparr>" cs] RECS_pos by simp
    moreover have "out_ok (u\<lparr>in_head := 0, in_len := 0\<rparr>)" using u by (simp add: out_ok_def)
    ultimately show ?thesis
      using u same one none by (cases ?was; cases ?now; cases "in_len u = 0") (auto simp: d_def Let_def intro!: in_put_any_ok)
  qed
  then show "pty_ok (pty_set_termios new fl t)" by (simp add: e)
  have "refs u = refs t" by (simp add: u_def)
  then have "refs d = refs t" by (simp add: d_def Let_def if_distrib [of refs] cong: if_cong)
  then show "refs (pty_set_termios new fl t) = refs t" by (simp add: e)
qed

text \<open>One operation on a pty that keeps its references, and the steps of the whole table.\<close>

inductive pty_op :: "pty \<Rightarrow> pty \<Rightarrow> bool" where
  typed: "pty_op t (snd (pty_master_write buf t))"
| shown: "pty_op t (snd (pty_master_read n t))"
| read: "pty_op t (snd (pty_slave_read n t))"
| written: "pty_op t (snd (pty_slave_write buf t))"
| flushed: "pty_op t (pty_flush q t)"
| termios: "pty_op t (pty_set_termios new fl t)"
| winsize: "pty_op t (pty_set_winsize w t)"
| evented: "pty_op t (snd (pty_events t))"
| lock: "pty_op t (t\<lparr>locked := b\<rparr>)"
| session: "pty_op t (t\<lparr>sid := i\<rparr>)"
| foreground: "pty_op t (t\<lparr>fg := i\<rparr>)"

lemma pty_op_ok:
  assumes "pty_op t u" "pty_ok t"
  shows "pty_ok u \<and> refs u = refs t"
  using assms
proof (cases rule: pty_op.cases)
  case (typed buf)
  have "refs (snd (type_all cs v)) = refs v" for cs v
  proof (induction cs arbitrary: v)
    case (Cons c cs)
    obtain b w where w: "type_char c v = (b, w)" by force
    have "refs w = refs v" using refs_type [of c v] w by simp
    then show ?case using Cons.IH [of w] w by (simp add: case_prod_beta)
  qed simp
  then show ?thesis using typed type_all_ok [OF assms(2)] by (simp add: pty_master_write_def case_prod_beta)
next
  case (written buf)
  then show ?thesis using out_all_ok [OF assms(2)] assms(2) by (simp add: pty_slave_write_def case_prod_beta)
next
  case (lock b)
  then show ?thesis using pty_okD [OF assms(2)] by (auto simp: inp_def out_ok_def refs_def intro!: pty_okI [OF _ assms(2)])
next
  case (session i)
  then show ?thesis using pty_okD [OF assms(2)] by (auto simp: inp_def out_ok_def refs_def intro!: pty_okI [OF _ assms(2)])
next
  case (foreground i)
  then show ?thesis using pty_okD [OF assms(2)] by (auto simp: inp_def out_ok_def refs_def intro!: pty_okI [OF _ assms(2)])
next
  case (winsize w)
  then show ?thesis using pty_okD [OF assms(2)] by (auto simp: pty_set_winsize_def inp_def out_ok_def refs_def intro!: pty_okI [OF _ assms(2)])
next
  case evented
  then show ?thesis using assms(2) by (simp add: pty_events_def)
qed (use assms(2) master_read_ok slave_read_ok flush_ok set_termios_ok in auto)

inductive ptys_step :: "ptys \<Rightarrow> ptys \<Rightarrow> bool" where
  new: "ptys_step g (snd (pty_new mem_t mem_out mem_tab g))"
| op: "i < length (tab g) \<Longrightarrow> tab g ! i = Some t \<Longrightarrow> pty_op t u \<Longrightarrow> ptys_step g (g\<lparr>tab := (tab g)[i := Some u]\<rparr>)"
| master: "i < length (tab g) \<Longrightarrow> tab g ! i = Some t \<Longrightarrow> ptys_step g (snd (pty_master_ref i d t g))"
| slave: "i < length (tab g) \<Longrightarrow> tab g ! i = Some t \<Longrightarrow> ptys_step g (snd (pty_slave_ref i d t g))"
| hold: "i < length (tab g) \<Longrightarrow> tab g ! i = Some t \<Longrightarrow> ptys_step g (snd (pty_hold i d t g))"

inductive ptys_reach :: "ptys \<Rightarrow> bool" where
  boot: "ptys_reach \<lparr>tab = [], cap = 0\<rparr>"
| step: "ptys_reach g \<Longrightarrow> ptys_step g h \<Longrightarrow> ptys_reach h"

definition held :: "pty \<Rightarrow> bool" where
  "held t \<longleftrightarrow> 0 < masters t \<or> 0 < slaves t \<or> 0 < holds t"

definition ptys_ok :: "ptys \<Rightarrow> bool" where
  "ptys_ok g \<longleftrightarrow> length (tab g) \<le> cap g \<and> (\<forall>t. Some t \<in> set (tab g) \<longrightarrow> pty_ok t \<and> held t)"

lemma held_refs: "refs u = refs t \<Longrightarrow> held u = held t"
  by (simp add: refs_def held_def)

lemma new_pty_ok: "pty_ok (defaults ((zero_pty out)\<lparr>masters := 1, locked := True\<rparr>))" "held (defaults ((zero_pty out)\<lparr>masters := 1, locked := True\<rparr>))"
  by (simp_all add: defaults_def zero_pty_def pty_ok_def in_ok_def out_ok_def recs_def INQ_def RECS_def OUTQ_def LINE_def held_def)

lemma set_update_mem: "x \<in> set (xs[i := y]) \<Longrightarrow> x = y \<or> x \<in> set xs"
  using set_update_subset_insert [of xs i y] by auto

lemma ptys_update:
  assumes "ptys_ok g" "\<And>t. x = Some t \<Longrightarrow> pty_ok t \<and> held t"
  shows "ptys_ok (g\<lparr>tab := (tab g)[i := x]\<rparr>)"
  using assms set_update_mem [of _ "tab g" i x] by (fastforce simp: ptys_ok_def)

lemma maybe_free_ok:
  assumes "ptys_ok g" "pty_ok t"
  shows "ptys_ok (snd (maybe_free i t g))"
  using ptys_update [OF assms(1), of "Some t" i] ptys_update [OF assms(1), of None i] assms(2)
  by (auto simp: maybe_free_def held_def)

lemma ptys_step_ok:
  assumes "ptys_step g h" "ptys_ok g"
  shows "ptys_ok h"
proof -
  have get: "pty_ok t \<and> held t" if "i < length (tab g)" "tab g ! i = Some t" for i t
    using assms(2) that nth_mem [of i "tab g"] by (simp add: ptys_ok_def)
  show ?thesis
    using assms(1)
  proof cases
    case (new mem_t mem_out mem_tab)
    have app: "ptys_ok (g\<lparr>cap := c, tab := tab g @ [Some t]\<rparr>)" if "length (tab g) < c" "pty_ok t" "held t" for c t
      using assms(2) that by (auto simp: ptys_ok_def)
    have app': "ptys_ok (g\<lparr>tab := tab g @ [Some t]\<rparr>)" if "length (tab g) < cap g" "pty_ok t" "held t" for t
      using assms(2) that by (auto simp: ptys_ok_def)
    have first: "ptys_ok (g\<lparr>cap := 16, tab := [Some t]\<rparr>)" if "pty_ok t" "held t" for t
      using that by (simp add: ptys_ok_def)
    have upd: "ptys_ok (g\<lparr>tab := (tab g)[k := Some t]\<rparr>)" if "pty_ok t" "held t" for k t
      using ptys_update [OF assms(2), of "Some t" k] that by simp
    have le: "length (tab g) \<le> cap g" using assms(2) by (simp add: ptys_ok_def)
    show ?thesis
      using new assms(2) le by (auto simp: pty_new_def Let_def new_pty_ok upd app app' first split: option.splits)
  next
    case (op i t u)
    then show ?thesis using ptys_update [OF assms(2), of "Some u" i] get [of i t] pty_op_ok [of t u] held_refs [of u t] by auto
  next
    case (master i t d)
    have "pty_ok (if b then v\<lparr>hung := True, events := e\<rparr> else v)" if "v = t\<lparr>masters := m\<rparr>" for b v e m
      using get [OF master(2,3)] that by (auto simp: pty_ok_def in_ok_def out_ok_def recs_def split: if_splits)
    then show ?thesis using master maybe_free_ok [OF assms(2)] by (simp add: pty_master_ref_def Let_def)
  next
    case (slave i t d)
    have "pty_ok (if b then v\<lparr>slave_seen := True\<rparr> else v)" if "v = t\<lparr>slaves := m\<rparr>" for b v m
      using get [OF slave(2,3)] that by (auto simp: pty_ok_def in_ok_def out_ok_def recs_def split: if_splits)
    then show ?thesis using slave maybe_free_ok [OF assms(2)] by (simp add: pty_slave_ref_def Let_def)
  next
    case (hold i t d)
    have "pty_ok (t\<lparr>holds := m\<rparr>)" for m
      using get [OF hold(2,3)] by (auto simp: pty_ok_def in_ok_def out_ok_def recs_def split: if_splits)
    then show ?thesis using hold maybe_free_ok [OF assms(2)] by (simp add: pty_hold_def)
  qed
qed


section \<open>Properties\<close>

text \<open>
  C16. Whatever is opened, closed, typed, read, written, flushed or switched, and in whatever order: the queues of every
  pty stay within their arrays, in line mode the recorded lengths of the lines add up to what is in the input queue,
  in raw mode there are none, the table fits its capacity, and a pty is in it only while somebody holds it.
\<close>

theorem pty_invariant:
  assumes "ptys_reach g" "i < length (tab g)" "tab g ! i = Some t"
  shows "in_len t \<le> INQ \<and> out_len t \<le> OUTQ \<and> nrec t \<le> RECS \<and> length (line t) \<le> LINE \<and>
    in_head t < INQ \<and> out_head t < OUTQ \<and> rec_head t < RECS \<and>
    (if canonical t then sum_list (map (\<lambda>k. rec t ((rec_head t + k) mod RECS)) [0..<nrec t]) = in_len t else nrec t = 0) \<and>
    (0 < masters t \<or> 0 < slaves t \<or> 0 < holds t) \<and> length (tab g) \<le> cap g"
proof -
  from assms(1) have "ptys_ok g"
  proof induction
    case boot
    show ?case by (simp add: ptys_ok_def)
  next
    case (step g h)
    then show ?case using ptys_step_ok by blast
  qed
  then have "pty_ok t \<and> held t \<and> length (tab g) \<le> cap g" using assms(2,3) nth_mem [of i "tab g"] by (simp add: ptys_ok_def)
  then show ?thesis by (auto simp: pty_ok_def in_ok_def out_ok_def held_def recs_def ring_list_def)
qed

definition demo_pty :: pty where
  "demo_pty = defaults ((zero_pty (\<lambda>_. 0))\<lparr>masters := 1, locked := True\<rparr>)"

theorem pty_invariant_witness:
  "\<exists>g t. ptys_reach g \<and> tab g = [Some t] \<and> t = snd (pty_master_write [104, 105, 10] demo_pty) \<and> in_len t \<le> INQ"
proof -
  let ?g = "\<lparr>tab = [Some demo_pty], cap = 16\<rparr>"
  have "snd (pty_new True (Some (\<lambda>_. 0)) True \<lparr>tab = [], cap = 0\<rparr>) = ?g" by (simp add: pty_new_def Let_def demo_pty_def)
  then have "ptys_step \<lparr>tab = [], cap = 0\<rparr> ?g" using ptys_step.new [of "\<lparr>tab = [], cap = 0\<rparr>" True "Some (\<lambda>_. 0)" True] by simp
  then have r: "ptys_reach ?g" using ptys_reach.boot ptys_reach.step by blast
  let ?t = "snd (pty_master_write [104, 105, 10] demo_pty)"
  have "ptys_step ?g (?g\<lparr>tab := [Some ?t]\<rparr>)"
    using ptys_step.op [of 0 ?g demo_pty ?t] pty_op.typed by simp
  then have "ptys_reach (?g\<lparr>tab := [Some ?t]\<rparr>)" using r ptys_reach.step by blast
  moreover from this have "in_len ?t \<le> INQ" using pty_invariant [of "?g\<lparr>tab := [Some ?t]\<rparr>" 0 ?t] by simp
  ultimately show ?thesis by (intro exI [of _ "?g\<lparr>tab := [Some ?t]\<rparr>"] exI [of _ ?t]) simp
qed

text \<open>
  C17. In line mode the input is a queue of lines. A finished line is added at its end, or dropped as a whole when there
  is no room; a read gives at most one line: from its first line as many bytes as fit, an empty line (end of file) as a
  result of 0, and with no line it waits or, after a hangup, is at the end. The rest of the line is what the next read gets.
\<close>

theorem pty_line_queue:
  assumes "in_ok t" "canonical t"
  shows "lines (line_done t) = (if nrec t < RECS \<and> length (line t) \<le> INQ - in_len t then lines t @ [line t] else lines t) \<and>
    in_ok (line_done t) \<and>
    (\<exists>res u. pty_slave_read n t = (res, u) \<and> (res, lines u) = read_lines n (hung t) (lines t) \<and> in_ok u)"
proof -
  obtain res u where u: "pty_slave_read n t = (res, u)" by force
  have "nrec t \<le> RECS" using assms by (simp add: in_ok_def)
  then show ?thesis
    using line_done_lines [OF assms] slave_read_lines [OF assms u] u by (auto simp: in_room_def)
qed

theorem pty_line_queue_witness:
  "lines (line_done (demo_pty\<lparr>line := [104, 105, 10]\<rparr>)) = [[104, 105, 10]] \<and>
   (\<exists>u. pty_slave_read 2 (line_done (demo_pty\<lparr>line := [104, 105, 10]\<rparr>)) = (Done [104, 105], u) \<and> lines u = [[10]])"
proof -
  let ?t = "demo_pty\<lparr>line := [104, 105, 10]\<rparr>"
  have ok: "in_ok ?t" "canonical ?t" "lines ?t = []" "hung ?t = False" "nrec ?t < RECS" "in_len ?t = 0" "line ?t = [104, 105, 10]"
    by (simp_all add: demo_pty_def defaults_def zero_pty_def in_ok_def recs_def lines_def INQ_def RECS_def has_def tty_flags)
  have d: "lines (line_done ?t) = [[104, 105, 10]]" "in_ok (line_done ?t)" "canonical (line_done ?t)"
    using pty_line_queue [OF ok(1,2)] ok line_done_lines(3) [OF ok(1,2)] by (auto simp: INQ_def)
  have "hung (line_done ?t) = False" using ok by (simp add: line_done_def Let_def del: in_put.simps)
  then show ?thesis using pty_line_queue [OF d(2,3), of 2] d(1) by auto
qed

text \<open>Typing and erasing a character.\<close>

lemma erase_one_line:
  assumes "has (c_iflag (tio t)) IUTF8" "line t = xs @ u8_encode cp" "unat cp < 0x200000"
  shows "line (erase_one t) = xs"
proof -
  obtain b bs where e: "u8_encode cp = b # bs" "\<not> u8_cont b" "\<forall>b \<in> set bs. u8_cont b" by (rule encode_shape [OF assms(3)])
  have "u8_prev (line t) (length xs + length (u8_encode cp)) = length xs"
    using move_by_one(2) [OF assms(3), of "[]" xs] assms(2) by simp
  then have "back_cont (line t) (llen t - 1) = length xs" using e(1) assms(2) by (simp add: u8_prev_def)
  moreover have "take (length xs) (line t) = xs" using assms(2) by simp
  ultimately show ?thesis using e(1) assms(1,2) by (simp add: erase_one_def Let_def)
qed

text \<open>
  Erasing takes back exactly one character: with UTF-8 input, when a line ends in the bytes of a character, the erase
  key leaves the line without them and the finished lines as they are.
\<close>

lemma pty_erase_character:
  assumes "canonical t" "\<not> lnext t" "has (c_iflag (tio t)) IUTF8" "\<not> has (c_iflag (tio t)) ISTRIP"
    and "c_cc (tio t) VERASE = 127" "127 \<notin> c_cc (tio t) ` {VINTR, VQUIT, VSUSP, VSTART, VSTOP, VLNEXT}"
    and "line t = xs @ u8_encode cp" "scalar cp"
  shows "\<exists>u. type_char 127 t = (True, u) \<and> line u = xs \<and> lines u = lines t"
proof -
  define v where "v = (if has (c_iflag (tio t)) IXON \<and> has (c_iflag (tio t)) IXANY then t\<lparr>stopped := False\<rparr> else t)"
  have m: "map_input (c_iflag (tio t)) 127 = Some 127" using assms(4) by (simp add: map_input_def)
  have s: "signal_of v 127 = 0" using assms(6) by (auto simp: signal_of_def is_cc_def v_def)
  have i: "\<not> is_cc t VSTOP 127" "\<not> is_cc t VSTART 127" "\<not> is_cc v VLNEXT 127" "is_cc v VERASE 127" "tio v = tio t"
    using assms(5,6) by (auto simp: is_cc_def v_def)
  have "type_char 127 t = (True, erase_one v)"
    using assms(1,2) m s i by (simp add: type_char_def type_canon_def Let_def v_def [symmetric])
  moreover have "inp v = inp t" "line v = line t" by (simp_all add: v_def)
  then have "lines (erase_one v) = lines t" using in_list_cong [of "erase_one v" t] by (simp add: lines_def)
  moreover have "line (erase_one v) = xs"
    using erase_one_line [of v xs cp] assms(3,7) scalar_bound [OF assms(8)] i(5) \<open>line v = line t\<close> by simp
  ultimately show ?thesis by simp
qed

text \<open>What \<open>OPOST\<close> makes of a byte at a column: the bytes, and the column after them.\<close>

definition opost :: "u32 \<Rightarrow> nat \<Rightarrow> byte \<Rightarrow> byte list \<times> nat" where
  "opost f col c =
     (if \<not> has f OPOST then ([c], col)
      else if c = 10 then if has f ONLCR then ([13, 10], 0) else ([10], if has f ONLRET then 0 else col)
      else if c = 13 then if has f ONOCR \<and> col = 0 then ([], col)
                          else if has f OCRNL then ([10], if has f ONLRET then 0 else col) else ([13], 0)
      else if c = 9 then if f AND XTABS = XTABS then (replicate (8 - col mod 8) 32, wrap32 (col + (8 - col mod 8)))
                         else ([9], wrap32 (col div 8 * 8 + 8))
      else if c = 8 then ([8], col - 1)
      else ([c], if 32 \<le> c \<and> \<not> u8_cont c \<and> c \<noteq> 127 then wrap32 (col + 1) else col))"

fun opost_text :: "u32 \<Rightarrow> nat \<Rightarrow> byte list \<Rightarrow> byte list \<times> nat" where
  "opost_text f col [] = ([], col)"
| "opost_text f col (c # cs) =
     (let (xs, col) = opost f col c; (ys, col) = opost_text f col cs in (xs @ ys, col))"

lemma out_put_out [simp]: "column (out_put c t) = column t" "tio (out_put c t) = tio t"
  "out_list (t\<lparr>column := x\<rparr>) = out_list t" "out_put c (t\<lparr>column := x\<rparr>) = (out_put c t)\<lparr>column := x\<rparr>"
  by (simp_all add: out_put_def out_list_def)

lemma out_put_len: "out_len t < OUTQ \<Longrightarrow> out_len (out_put c t) = out_len t + 1"
  by (simp add: out_put_def)

lemma out_spaces_list:
  "out_len t + n \<le> OUTQ \<Longrightarrow> out_list (out_spaces n t) = out_list t @ replicate n 32 \<and> column (out_spaces n t) = column t"
proof (induction n arbitrary: t)
  case (Suc n)
  then have "out_len t < OUTQ" by simp
  then show ?case using Suc.IH [of "out_put 32 t"] Suc.prems out_put_list(2) [of t 32] by (simp add: out_put_len replicate_app_Cons_same)
qed simp

lemma out_char_list:
  assumes "out_char c t = (k, u)"
  shows "if OUTQ - out_len t < 8 then k = 0 \<and> u = t
    else k \<noteq> 0 \<and> (out_list u, column u) = (out_list t @ fst (opost (c_oflag (tio t)) (column t) c), snd (opost (c_oflag (tio t)) (column t) c))"
proof (cases "OUTQ - out_len t < 8")
  case True
  then show ?thesis using assms by (simp add: out_char_def Let_def)
next
  case False
  have room: "out_len t < OUTQ" "Suc (out_len t) < OUTQ" using False by auto
  note P = out_put_list(2) [OF room(1)]
  have P2: "out_list (out_put 10 (out_put 13 t)) = out_list t @ [13, 10]"
    using out_put_list(2) [of "out_put 13 t" 10] P [of 13] room by (simp add: out_put_len)
  have S: "out_list (out_spaces (8 - column t mod 8) t) = out_list t @ replicate (8 - column t mod 8) 32"
    "column (out_spaces (8 - column t mod 8) t) = column t"
    using out_spaces_list [of t "8 - column t mod 8"] False by auto
  let ?f = "c_oflag (tio t)"
  have "fst (out_char c t) \<noteq> 0 \<and> out_list (snd (out_char c t)) = out_list t @ fst (opost ?f (column t) c) \<and>
    column (snd (out_char c t)) = snd (opost ?f (column t) c)"
  proof -
    consider "\<not> has ?f OPOST" | "has ?f OPOST" "c = 10" | "has ?f OPOST" "c = 13" | "has ?f OPOST" "c = 9" | "has ?f OPOST" "c = 8"
      | "has ?f OPOST" "c \<noteq> 10" "c \<noteq> 13" "c \<noteq> 9" "c \<noteq> 8" by blast
    then show ?thesis
    proof cases
      case 4
      have "8 - column t mod 8 \<noteq> 0" by (simp add: not_le)
      then show ?thesis using 4 False P S by (cases "?f AND XTABS = XTABS") (simp_all add: out_char_def opost_def Let_def)
    qed (use False P P2 in \<open>simp_all add: out_char_def opost_def Let_def\<close>)
  qed
  then show ?thesis using assms False by simp
qed

lemma out_char_tio: "tio (snd (out_char c t)) = tio t" "out_ok t \<Longrightarrow> out_ok (snd (out_char c t))"
  "hung (snd (out_char c t)) = hung t"
proof -
  have e: "snd (out_char c t) = out_c c t" by (simp add: out_c_def)
  show "tio (snd (out_char c t)) = tio t" "out_ok t \<Longrightarrow> out_ok (snd (out_char c t))" by (simp_all add: e)
  have "inp (out_c c t) = inp t" by simp
  then show "hung (snd (out_char c t)) = hung t" by (simp add: e inp_def)
qed

lemma out_all_list:
  assumes "out_all cs t = (i, u)"
  shows "i \<le> length cs \<and> (out_list u, column u) = (let (xs, col) = opost_text (c_oflag (tio t)) (column t) (take i cs) in (out_list t @ xs, col)) \<and>
    tio u = tio t \<and> (out_ok t \<longrightarrow> out_ok u) \<and> (i < length cs \<longrightarrow> OUTQ - out_len u < 8)"
  using assms
proof (induction cs arbitrary: t i u)
  case (Cons c cs)
  obtain k v where v: "out_char c t = (k, v)" by force
  obtain j w where w: "out_all cs v = (j, w)" by force
  note C = out_char_list [OF v]
  have t: "tio v = tio t" "out_ok t \<longrightarrow> out_ok v" using out_char_tio [where c = c and t = t] v by auto
  show ?case
  proof (cases "k = 0")
    case True
    then have "i = 0" "u = v" using Cons.prems v by auto
    moreover have "OUTQ - out_len t < 8" "v = t" using C True by (auto split: if_splits)
    ultimately show ?thesis by simp
  next
    case False
    then have i: "i = j + 1" "u = w" using Cons.prems v w by auto
    have o: "out_list v = out_list t @ fst (opost (c_oflag (tio t)) (column t) c)" "column v = snd (opost (c_oflag (tio t)) (column t) c)"
      using C False by (auto split: if_splits)
    show ?thesis using Cons.IH [OF w] i o t by (auto simp: Let_def case_prod_beta)
  qed
qed simp

text \<open>Writes of the programs and reads of the master, in any order: the bytes taken and the bytes read.\<close>

datatype out_act = Write "byte list" | Read nat

fun out_run :: "out_act list \<Rightarrow> pty \<Rightarrow> byte list \<times> byte list \<times> pty" where
  "out_run [] t = ([], [], t)"
| "out_run (Write buf # as) t =
     (let (r, u) = pty_slave_write buf t;
          (acc, got, v) = out_run as u
      in ((case r of Done i \<Rightarrow> take i buf | _ \<Rightarrow> []) @ acc, got, v))"
| "out_run (Read n # as) t =
     (let (r, u) = pty_master_read n t;
          (acc, got, v) = out_run as u
      in (acc, (case r of Done bs \<Rightarrow> bs | _ \<Rightarrow> []) @ got, v))"

lemma opost_text_append:
  "opost_text f col (cs @ ds) = (let (xs, col) = opost_text f col cs; (ys, col) = opost_text f col ds in (xs @ ys, col))"
  by (induction cs arbitrary: col) (auto simp: case_prod_beta Let_def)

text \<open>
  C18. The output of the programs reaches the master in order and complete: over any interleaving of writes and reads, what the
  master has read, followed by what is still queued, is what was queued before followed by the \<open>OPOST\<close> form of exactly
  the bytes that the writes took.
\<close>

theorem pty_output_stream:
  assumes "out_ok t" "out_run as t = (acc, got, u)"
  shows "got @ out_list u = out_list t @ fst (opost_text (c_oflag (tio t)) (column t) acc) \<and> out_ok u"
proof -
  have "got @ out_list u = out_list t @ fst (opost_text (c_oflag (tio t)) (column t) acc) \<and> out_ok u \<and>
    column u = snd (opost_text (c_oflag (tio t)) (column t) acc) \<and> tio u = tio t"
    using assms
  proof (induction as arbitrary: t acc got u)
    case (Cons a as)
    show ?case
    proof (cases a)
      case (Write buf)
      obtain r v where v: "pty_slave_write buf t = (r, v)" by force
      obtain acc' got' w where w: "out_run as v = (acc', got', w)" by (metis prod_cases3)
      let ?b = "case r of Done i \<Rightarrow> take i buf | _ \<Rightarrow> []"
      have e: "acc = ?b @ acc'" "got = got'" "u = w" using Cons.prems(2) Write v w by auto
      have V: "out_list v = out_list t @ fst (opost_text (c_oflag (tio t)) (column t) ?b)"
        "column v = snd (opost_text (c_oflag (tio t)) (column t) ?b)" "tio v = tio t" "out_ok v"
      proof -
        obtain i x where x: "out_all buf t = (i, x)" by force
        have "out_list v = out_list t @ fst (opost_text (c_oflag (tio t)) (column t) ?b) \<and>
          column v = snd (opost_text (c_oflag (tio t)) (column t) ?b) \<and> tio v = tio t \<and> out_ok v"
        proof (cases "hung t \<or> stopped t")
          case True
          then have "v = t" "?b = []" using v by (auto simp: pty_slave_write_def split: if_splits)
          then show ?thesis using Cons.prems(1) by simp
        next
          case False
          then have "v = x" "?b = take i buf" using v x by (auto simp: pty_slave_write_def)
          then show ?thesis using out_all_list [OF x] Cons.prems(1) by (simp add: case_prod_beta Let_def)
        qed
        then show "out_list v = out_list t @ fst (opost_text (c_oflag (tio t)) (column t) ?b)"
          "column v = snd (opost_text (c_oflag (tio t)) (column t) ?b)" "tio v = tio t" "out_ok v" by auto
      qed
      show ?thesis using Cons.IH [OF V(4) w] V e by (simp add: opost_text_append case_prod_beta Let_def)
    next
      case (Read n)
      obtain r v where v: "pty_master_read n t = (r, v)" by force
      obtain acc' got' w where w: "out_run as v = (acc', got', w)" by (metis prod_cases3)
      let ?b = "case r of Done bs \<Rightarrow> bs | _ \<Rightarrow> []"
      have e: "acc = acc'" "got = ?b @ got'" "u = w" using Cons.prems(2) Read v w by auto
      have "?b @ out_list v = out_list t \<and> out_ok v \<and> tio v = tio t \<and> column v = column t"
      proof (cases "out_len t = 0")
        case True
        then show ?thesis using v Cons.prems(1) by (auto simp: pty_master_read_def split: if_splits)
      next
        case False
        then have "r = Done (fst (out_take n t))" "v = snd (out_take n t)" using v by (auto simp: pty_master_read_def case_prod_beta)
        moreover have "tio (snd (out_take n t)) = tio t" "column (snd (out_take n t)) = column t" by (simp_all add: out_take_def Let_def)
        ultimately show ?thesis
          using outq.get_front [OF Cons.prems(1), of n "fst (out_take n t)" "snd (out_take n t)"] by simp
      qed
      then show ?thesis using Cons.IH [of v acc' got'] w e by auto
    qed
  qed simp
  then show ?thesis by simp
qed

theorem pty_output_stream_witness:
  "\<exists>acc got u. out_run [Write [104, 10], Read 2, Write [105]] demo_pty = (acc, got, u) \<and>
     got @ out_list u = fst (opost_text (c_oflag (tio demo_pty)) 0 acc)"
proof -
  obtain acc got u where r: "out_run [Write [104, 10], Read 2, Write [105]] demo_pty = (acc, got, u)" by (metis prod_cases3)
  have "out_ok demo_pty" "out_list demo_pty = []" "column demo_pty = 0"
    by (simp_all add: demo_pty_def defaults_def zero_pty_def out_ok_def out_list_def OUTQ_def)
  then show ?thesis using pty_output_stream [OF _ r] r by (intro exI) auto
qed

text \<open>An empty line as the end-of-file character.\<close>

definition visible :: "byte \<Rightarrow> byte list list \<Rightarrow> byte list" where
  "visible eof ls = concat (map (\<lambda>l. if l = [] then [eof] else l) ls)"

lemma visible_simps [simp]: "visible eof [] = []" "visible eof (l # ls) = (if l = [] then [eof] else l) @ visible eof ls"
  by (simp_all add: visible_def)

lemma cooked_visible:
  "cooked eof a rs h = visible eof (chop rs (ring_list INQ a h (sum_list rs)))"
proof (induction rs arbitrary: h)
  case (Cons n rs)
  show ?case
  proof (cases "n = 0")
    case True
    then show ?thesis using Cons by simp
  next
    case False
    have t: "take n (ring_list INQ a h (n + sum_list rs)) = ring_list INQ a h n" using ring_take [of n "n + sum_list rs" INQ a h] by simp
    have d: "drop n (ring_list INQ a h (n + sum_list rs)) = ring_list INQ a ((h + n) mod INQ) (sum_list rs)"
      using ring_drop [of n "n + sum_list rs" INQ a h] by simp
    have "ring_list INQ a h n \<noteq> []" using False by (metis list.size(3) ring_list_length)
    then show ?thesis using Cons False by (simp add: t d)
  qed
qed simp

lemma visible_no_eof:
  assumes "0 \<notin> set rs" "sum_list rs = length xs"
  shows "visible eof (chop rs xs) = xs"
  using assms
proof (induction rs arbitrary: xs)
  case (Cons n rs)
  then have "take n xs \<noteq> []" by auto
  then show ?case using Cons.IH [of "drop n xs"] Cons.prems by simp
qed simp

lemma visible_length: "sum_list rs = length xs \<Longrightarrow> length (visible eof (chop rs xs)) = length xs + length (filter (\<lambda>n. n = 0) rs)"
proof (induction rs arbitrary: xs)
  case (Cons n rs)
  then show ?case using Cons.IH [of "drop n xs"] by (cases "n = 0") auto
qed simp

text \<open>
  A program that turns line editing off loses nothing that was typed: when it fits the queue, the raw input is then the finished
  lines in order, each end of file as the end-of-file character, and after them the line that was being edited.
\<close>

lemma pty_raw_keeps_input:
  assumes "in_ok t" "canonical t" "\<not> has (c_lflag new) ICANON"
  defines "eof \<equiv> if c_cc new VEOF \<noteq> 0 then c_cc new VEOF else 4"
  assumes "length (visible eof (lines t) @ line t) \<le> INQ"
  shows "in_list (pty_set_termios new False t) = visible eof (lines t) @ line t \<and> line (pty_set_termios new False t) = [] \<and>
    nrec (pty_set_termios new False t) = 0"
proof -
  let ?u = "t\<lparr>tio := new\<rparr>" and ?eofs = "length (filter (\<lambda>n. n = 0) (recs t))"
  have b: "in_head t < INQ" "in_len t \<le> INQ" "sum_list (recs t) = in_len t" using assms(1,2) by (auto simp: in_ok_def)
  have len: "length (visible eof (lines t)) = in_len t + ?eofs"
    using visible_length [of "recs t" "in_list t"] b(3) by (simp add: lines_def)
  define v where "v = (if ?eofs \<noteq> 0 \<and> in_len t + ?eofs \<le> INQ
     then in_put (cooked eof (inq t) (recs t) (in_head t)) (?u\<lparr>in_head := 0, in_len := 0\<rparr>) else ?u)"
  have v: "in_list v = visible eof (lines t) \<and> in_len v = in_len t + ?eofs \<and> line v = line t"
  proof (cases "?eofs = 0")
    case True
    then have "0 \<notin> set (recs t)" by (auto simp: filter_empty_conv)
    moreover have "in_list ?u = in_list t" by (simp add: in_list_def)
    ultimately show ?thesis using True visible_no_eof [of "recs t" "in_list t" eof] b(3) by (simp add: v_def lines_def)
  next
    case False
    let ?w = "?u\<lparr>in_head := 0, in_len := 0\<rparr>"
    have c: "cooked eof (inq t) (recs t) (in_head t) = visible eof (lines t)"
      using cooked_visible [of eof "inq t" "recs t" "in_head t"] b(3) by (simp add: lines_def in_list_def)
    have w: "in_len ?w = 0" "in_list ?w = []" "in_room ?w = INQ" by (simp_all add: in_list_def in_room_def)
    have "in_list (in_put (visible eof (lines t)) ?w) = visible eof (lines t)" "in_len (in_put (visible eof (lines t)) ?w) = in_len t + ?eofs"
      using in_put_list [of ?w "visible eof (lines t)"] w len assms(5) by simp_all
    then show ?thesis using False len assms(5) by (simp add: v_def c)
  qed
  have iv: "in_len v \<le> INQ" "in_room v = INQ - (in_len t + ?eofs)" using v len assms(5) by (auto simp: in_room_def)
  have "llen t \<le> in_room v" using iv len assms(5) by simp
  then have "in_list (in_put (line v) v) = visible eof (lines t) @ line t" using in_put_list(1) [OF iv(1), of "line v"] v by simp
  moreover define w where "w = (in_put (line v) v)\<lparr>line := [], nrec := 0, rec_head := 0\<rparr>"
  moreover have "in_list (x\<lparr>line := l, nrec := n, rec_head := m\<rparr>) = in_list x" "in_list (x\<lparr>stopped := s\<rparr>) = in_list x" for x l n m s
    by (simp_all add: in_list_def)
  ultimately have "in_list w = visible eof (lines t) @ line t" "in_list (w\<lparr>stopped := False\<rparr>) = visible eof (lines t) @ line t" by simp_all
  moreover have "pty_set_termios new False t = (if \<not> has (c_iflag new) IXON then w\<lparr>stopped := False\<rparr> else w)"
    using assms(2,3) by (simp add: pty_set_termios_def Let_def w_def v_def eof_def recs_def)
  ultimately show ?thesis by (simp add: w_def)
qed

end
