(* ===== verification/Textbuf.thy ===== *)
theory Textbuf
  imports Utf8 Kstring
begin

text \<open>
  The editable text of the editor and the notepad, \<open>kernel/textbuf.c\<close>. A line is its bytes with the capacity of its
  memory; an allocation of \<open>n\<close> bytes succeeds when the argument \<open>al n\<close> of an operation says so. Cursor and selection are
  \<open>int\<close> values, as in the code.
\<close>

section \<open>Model\<close>

definition MAX_LINES :: nat where "MAX_LINES = 200000"

record tb_line =
  str :: "byte list"
  lcap :: nat

record textbuf =
  tlines :: "tb_line list"
  tcap :: nat
  cx :: int
  cy :: int
  want_x :: int
  sel :: bool
  ax :: int
  ay :: int
  dirty :: bool

function grow :: "nat \<Rightarrow> nat \<Rightarrow> nat" where
  "grow c need = (if 0 < c \<and> c < need then grow (c * 2) need else c)"
  by pat_completeness auto
termination grow by (relation "measure (\<lambda>(c, need). need - c)") auto

declare grow.simps [simp del]

definition line_reserve :: "(nat \<Rightarrow> bool) \<Rightarrow> nat \<Rightarrow> tb_line \<Rightarrow> tb_line option" where
  "line_reserve al need l =
     (if 0x80000000 \<le> need then None
      else if need + 1 \<le> lcap l then Some l
      else let c = grow (if lcap l \<noteq> 0 then lcap l else 16) (need + 1)
           in if al c then Some (l\<lparr>lcap := c\<rparr>) else None)"

definition lines_reserve :: "(nat \<Rightarrow> bool) \<Rightarrow> nat \<Rightarrow> textbuf \<Rightarrow> textbuf option" where
  "lines_reserve al need t =
     (if MAX_LINES < need then None
      else if need \<le> tcap t then Some t
      else let c = grow (if tcap t \<noteq> 0 then tcap t else 64) need
           in if al (c * 16) then Some (t\<lparr>tcap := c\<rparr>) else None)"

definition insert_line :: "(nat \<Rightarrow> bool) \<Rightarrow> nat \<Rightarrow> textbuf \<Rightarrow> bool \<times> textbuf" where
  "insert_line al i t =
     (case lines_reserve al (length (tlines t) + 1) t of None \<Rightarrow> (False, t)
      | Some t \<Rightarrow>
          (case line_reserve al 0 \<lparr>str = [], lcap = 0\<rparr> of None \<Rightarrow> (False, t)
           | Some fresh \<Rightarrow> (True, t\<lparr>tlines := take i (tlines t) @ fresh # drop i (tlines t)\<rparr>)))"

definition remove_line :: "nat \<Rightarrow> textbuf \<Rightarrow> textbuf" where
  "remove_line i t = t\<lparr>tlines := take i (tlines t) @ drop (i + 1) (tlines t)\<rparr>"

definition tb_zero :: textbuf where
  "tb_zero = \<lparr>tlines = [], tcap = 0, cx = 0, cy = 0, want_x = 0, sel = False, ax = 0, ay = 0, dirty = False\<rparr>"

definition tb_init :: "(nat \<Rightarrow> bool) \<Rightarrow> textbuf" where
  "tb_init al = snd (insert_line al 0 tb_zero)"

definition cur :: "textbuf \<Rightarrow> tb_line" where
  "cur t = tlines t ! nat (cy t)"

abbreviation text_of :: "textbuf \<Rightarrow> nat \<Rightarrow> byte list" where
  "text_of t y \<equiv> str (tlines t ! y)"

definition clamp :: "textbuf \<Rightarrow> textbuf" where
  "clamp t =
     (let t = (if cy t < 0 then t\<lparr>cy := 0\<rparr> else t);
          t = (if int (length (tlines t)) \<le> cy t then t\<lparr>cy := int (length (tlines t)) - 1\<rparr> else t);
          t = (if cx t < 0 then t\<lparr>cx := 0\<rparr> else t);
          t = (if int (length (str (cur t))) < cx t then t\<lparr>cx := int (length (str (cur t)))\<rparr> else t)
      in t\<lparr>cx := int (back_cont (str (cur t) @ [0]) (nat (cx t)))\<rparr>)"

definition tb_col :: "textbuf \<Rightarrow> int \<Rightarrow> int \<Rightarrow> int" where
  "tb_col t y x =
     (if y < 0 \<or> int (length (tlines t)) \<le> y then x
      else let l = text_of t (nat y) in int (u8_width l (nat (if x < int (length l) then x else int (length l)))))"

definition tb_byte :: "textbuf \<Rightarrow> int \<Rightarrow> int \<Rightarrow> int" where
  "tb_byte t y col =
     (if y < 0 \<or> int (length (tlines t)) \<le> y then col
      else let l = text_of t (nat y) in int (u8_byte_at_col l (length l) col))"

text \<open>The loop of \<open>tb_load\<close>; \<open>None\<close> is the failed exit.\<close>

function load_loop :: "(nat \<Rightarrow> bool) \<Rightarrow> byte list \<Rightarrow> nat \<Rightarrow> nat \<Rightarrow> textbuf \<Rightarrow> textbuf option" where
  "load_loop al txt start i nx =
     (if length txt < i then Some nx
      else if i = length txt \<or> txt ! i = 10
      then let e = (if start < i \<and> txt ! (i - 1) = 13 then i - 1 else i);
               k = length (tlines nx) - 1
           in case line_reserve al (e - start) (tlines nx ! k) of None \<Rightarrow> None
              | Some l \<Rightarrow>
                  let nx = nx\<lparr>tlines := (tlines nx)[k := l\<lparr>str := take (e - start) (drop start txt)\<rparr>]\<rparr>
                  in if i = length txt then Some nx
                     else let (ok, nx) = insert_line al (length (tlines nx)) nx
                          in if \<not> ok then None else load_loop al txt (i + 1) (i + 1) nx
      else load_loop al txt start (i + 1) nx)"
  by pat_completeness auto
termination load_loop by (relation "measure (\<lambda>(al, txt, start, i, nx). Suc (length txt) - i)") auto

declare load_loop.simps [simp del]

definition tb_load :: "(nat \<Rightarrow> bool) \<Rightarrow> byte list option \<Rightarrow> nat \<Rightarrow> textbuf \<Rightarrow> bool \<times> textbuf" where
  "tb_load al txt len t =
     (if 0x80000000 \<le> len \<or> txt = None \<and> len \<noteq> 0 then (False, t)
      else let txt = (case txt of None \<Rightarrow> [] | Some x \<Rightarrow> take len x);
               (ok, nx) = insert_line al 0 tb_zero
           in if \<not> ok then (False, t)
              else case load_loop al txt 0 0 nx of None \<Rightarrow> (False, t) | Some nx \<Rightarrow> (True, nx))"

fun join_lines :: "byte list list \<Rightarrow> byte list" where
  "join_lines [] = []"
| "join_lines [l] = l"
| "join_lines (l # ls) = l @ 10 # join_lines ls"

definition tb_text :: "(nat \<Rightarrow> bool) \<Rightarrow> textbuf \<Rightarrow> byte list option" where
  "tb_text al t =
     (let n = wrap32 (sum_list (map (\<lambda>l. length (str l) + 1) (tlines t)))
      in if al (n + 1) then Some (join_lines (map str (tlines t))) else None)"

definition tb_sel_bounds :: "textbuf \<Rightarrow> (int \<times> int \<times> int \<times> int) option" where
  "tb_sel_bounds t =
     (if \<not> sel t \<or> ax t = cx t \<and> ay t = cy t then None
      else if ay t < cy t \<or> ay t = cy t \<and> ax t < cx t then Some (ax t, ay t, cx t, cy t)
      else Some (cx t, cy t, ax t, ay t))"

definition sel_part :: "textbuf \<Rightarrow> int \<times> int \<times> int \<times> int \<Rightarrow> int \<Rightarrow> byte list" where
  "sel_part t = (\<lambda>(x0, y0, x1, y1) y.
     let l = text_of t (nat y); a = (if y = y0 then x0 else 0); b = (if y = y1 then x1 else int (length l))
     in take (nat (b - a)) (drop (nat a) l))"

definition tb_sel_text :: "(nat \<Rightarrow> bool) \<Rightarrow> textbuf \<Rightarrow> byte list option" where
  "tb_sel_text al t =
     (case tb_sel_bounds t of None \<Rightarrow> None
      | Some (x0, y0, x1, y1) \<Rightarrow>
          let n = wrap32 (sum_list (map (\<lambda>y. length (text_of t (nat y)) + 1) [y0..y1]))
          in if al (n + 1) then Some (join_lines (map (sel_part t (x0, y0, x1, y1)) [y0..y1])) else None)"

fun remove_lines :: "nat \<Rightarrow> nat \<Rightarrow> textbuf \<Rightarrow> textbuf" where
  "remove_lines y0 0 t = t"
| "remove_lines y0 (Suc y) t = (if y0 < Suc y then remove_lines y0 y (remove_line (Suc y) t) else t)"

definition tb_sel_delete :: "(nat \<Rightarrow> bool) \<Rightarrow> textbuf \<Rightarrow> textbuf" where
  "tb_sel_delete al t =
     (case tb_sel_bounds t of None \<Rightarrow> t\<lparr>sel := False\<rparr>
      | Some (x0, y0, x1, y1) \<Rightarrow>
          let a = tlines t ! nat y0; b = tlines t ! nat y1;
              tail = length (str b) - nat x1;
              t = (case line_reserve al (nat x0 + tail) a of None \<Rightarrow> t
                   | Some l \<Rightarrow> t\<lparr>tlines := (tlines t)[nat y0 := l\<lparr>str := take (nat x0) (str a) @ drop (nat x1) (str b)\<rparr>]\<rparr>);
              t = remove_lines (nat y0) (nat y1) t
          in t\<lparr>cx := x0, cy := y0, sel := False, dirty := True\<rparr>)"

text \<open>
  The loop of \<open>tb_insert\<close> over what is left of the bytes; \<open>False\<close> is the early return. A run is the bytes up to the
  next CR or LF.
\<close>

definition newline :: "(nat \<Rightarrow> bool) \<Rightarrow> textbuf \<Rightarrow> bool \<times> textbuf" where
  "newline al t =
     (let (ok, t) = insert_line al (nat (cy t) + 1) t
      in if \<not> ok then (False, t)
         else let k = nat (cy t); l = tlines t ! k; nl = tlines t ! (k + 1);
                  rest = length (str l) - nat (cx t);
                  t = (case line_reserve al rest nl of None \<Rightarrow> t
                       | Some nl \<Rightarrow> t\<lparr>tlines := (tlines t)[k := l\<lparr>str := take (nat (cx t)) (str l)\<rparr>, k + 1 := nl\<lparr>str := drop (nat (cx t)) (str l)\<rparr>]\<rparr>)
              in (True, t\<lparr>cy := cy t + 1, cx := 0\<rparr>))"

definition insert_run :: "(nat \<Rightarrow> bool) \<Rightarrow> byte list \<Rightarrow> textbuf \<Rightarrow> bool \<times> textbuf" where
  "insert_run al r t =
     (case line_reserve al (wrap32 (length (str (cur t)) + length r)) (cur t) of None \<Rightarrow> (False, t)
      | Some l \<Rightarrow>
          (True, t\<lparr>tlines := (tlines t)[nat (cy t) := l\<lparr>str := take (nat (cx t)) (str l) @ r @ drop (nat (cx t)) (str l)\<rparr>],
                   cx := cx t + int (length r)\<rparr>))"

definition plain :: "byte \<Rightarrow> bool" where
  "plain c \<longleftrightarrow> c \<noteq> 10 \<and> c \<noteq> 13"

function insert_loop :: "(nat \<Rightarrow> bool) \<Rightarrow> byte list \<Rightarrow> textbuf \<Rightarrow> bool \<times> textbuf" where
  "insert_loop al bs t =
     (case bs of [] \<Rightarrow> (True, t)
      | c # cs \<Rightarrow>
          if c = 13 then insert_loop al cs t
          else let (ok, u) = (if c = 10 then newline al t else insert_run al (takeWhile plain bs) t)
               in if \<not> ok then (False, u)
                  else insert_loop al (if c = 10 then cs else dropWhile plain bs) u)"
  by pat_completeness auto
termination insert_loop
proof (relation "measure (\<lambda>(al, bs, t). length bs)", goal_cases)
  case (3 al bs t c cs x xa y)
  then show ?case using length_dropWhile_le [of plain cs] by (auto simp: plain_def)
qed auto

declare insert_loop.simps [simp del]

definition tb_insert :: "(nat \<Rightarrow> bool) \<Rightarrow> byte list \<Rightarrow> textbuf \<Rightarrow> textbuf" where
  "tb_insert al bs t =
     (let t = (if sel t then tb_sel_delete al t else t);
          t = t\<lparr>sel := False\<rparr>;
          (ok, t) = insert_loop al bs t
      in if ok then t\<lparr>want_x := tb_col t (cy t) (cx t), dirty := True\<rparr> else t)"

definition has_sel :: "textbuf \<Rightarrow> bool" where
  "has_sel t \<longleftrightarrow> tb_sel_bounds t \<noteq> None"

definition settle :: "textbuf \<Rightarrow> textbuf" where
  "settle t = t\<lparr>want_x := tb_col t (cy t) (cx t), dirty := True\<rparr>"

definition tb_backspace :: "(nat \<Rightarrow> bool) \<Rightarrow> textbuf \<Rightarrow> textbuf" where
  "tb_backspace al t =
     (if has_sel t then tb_sel_delete al t
      else let t = t\<lparr>sel := False\<rparr>
           in if 0 < cx t
              then let l = cur t; pv = u8_prev (str l) (nat (cx t))
                   in settle (t\<lparr>tlines := (tlines t)[nat (cy t) := l\<lparr>str := take pv (str l) @ drop (nat (cx t)) (str l)\<rparr>], cx := int pv\<rparr>)
              else if 0 < cy t
              then let k = nat (cy t); p = tlines t ! (k - 1); l = cur t
                   in (case line_reserve al (wrap32 (length (str p) + length (str l))) p of None \<Rightarrow> t
                       | Some q \<Rightarrow>
                           let t = remove_line k (t\<lparr>tlines := (tlines t)[k - 1 := q\<lparr>str := str p @ str l\<rparr>]\<rparr>)
                           in settle (t\<lparr>cy := cy t - 1, cx := int (length (str p))\<rparr>))
              else t)"

definition tb_delete :: "(nat \<Rightarrow> bool) \<Rightarrow> textbuf \<Rightarrow> textbuf" where
  "tb_delete al t =
     (if has_sel t then tb_sel_delete al t
      else let t = t\<lparr>sel := False\<rparr>; l = cur t
           in if cx t < int (length (str l))
              then let d = u8_next (str l) (length (str l)) (nat (cx t)) - nat (cx t)
                   in t\<lparr>tlines := (tlines t)[nat (cy t) := l\<lparr>str := take (nat (cx t)) (str l) @ drop (nat (cx t) + d) (str l)\<rparr>], dirty := True\<rparr>
              else if cy t < int (length (tlines t)) - 1 then tb_backspace al (t\<lparr>cy := cy t + 1, cx := 0\<rparr>)
              else t)"

definition start_sel :: "bool \<Rightarrow> textbuf \<Rightarrow> textbuf" where
  "start_sel select t =
     (if select then if \<not> sel t then t\<lparr>sel := True, ax := cx t, ay := cy t\<rparr> else t else t\<lparr>sel := False\<rparr>)"

definition tb_move :: "int \<Rightarrow> int \<Rightarrow> bool \<Rightarrow> textbuf \<Rightarrow> textbuf" where
  "tb_move dx dy select t0 =
     (let t = start_sel select t0
      in if dy \<noteq> 0
         then let t = t\<lparr>cy := cy t + dy\<rparr>;
                  t = (if cy t < 0 then t\<lparr>cy := 0, want_x := 0\<rparr> else t);
                  t = (if int (length (tlines t)) \<le> cy t
                       then let t = t\<lparr>cy := int (length (tlines t)) - 1\<rparr> in t\<lparr>want_x := int (length (str (cur t)))\<rparr> else t)
              in clamp (t\<lparr>cx := tb_byte t (cy t) (want_x t)\<rparr>)
         else let t = (if dx < 0
                       then if 0 < cx t then t\<lparr>cx := int (u8_prev (str (cur t)) (nat (cx t)))\<rparr>
                            else if 0 < cy t then let t = t\<lparr>cy := cy t - 1\<rparr> in t\<lparr>cx := int (length (str (cur t)))\<rparr> else t
                       else if 0 < dx
                       then if cx t < int (length (str (cur t)))
                            then t\<lparr>cx := int (u8_next (str (cur t)) (length (str (cur t))) (nat (cx t)))\<rparr>
                            else if cy t < int (length (tlines t)) - 1 then t\<lparr>cy := cy t + 1, cx := 0\<rparr> else t
                       else t)
              in t\<lparr>want_x := tb_col t (cy t) (cx t)\<rparr>)"

definition tb_home :: "bool \<Rightarrow> textbuf \<Rightarrow> textbuf" where
  "tb_home select t = (start_sel select t)\<lparr>cx := 0, want_x := 0\<rparr>"

definition tb_end :: "bool \<Rightarrow> textbuf \<Rightarrow> textbuf" where
  "tb_end select t =
     (let t = start_sel select t; t = t\<lparr>cx := int (length (str (cur t)))\<rparr> in t\<lparr>want_x := tb_col t (cy t) (cx t)\<rparr>)"

definition tb_goto :: "int \<Rightarrow> int \<Rightarrow> bool \<Rightarrow> textbuf \<Rightarrow> textbuf" where
  "tb_goto x y select t =
     (let t = clamp ((start_sel select t)\<lparr>cy := y, cx := x\<rparr>) in t\<lparr>want_x := tb_col t (cy t) (cx t)\<rparr>)"

definition tb_select_all :: "textbuf \<Rightarrow> textbuf" where
  "tb_select_all t =
     (let t = t\<lparr>sel := True, ax := 0, ay := 0, cy := int (length (tlines t)) - 1\<rparr> in t\<lparr>cx := int (length (str (cur t)))\<rparr>)"

definition tb_cut_line :: "(nat \<Rightarrow> bool) \<Rightarrow> textbuf \<Rightarrow> byte list option \<times> textbuf" where
  "tb_cut_line al t =
     (let l = cur t
      in if \<not> al (length (str l) + 2) then (None, t)
         else let u = (if 1 < length (tlines t) then remove_line (nat (cy t)) t
                       else t\<lparr>tlines := (tlines t)[nat (cy t) := l\<lparr>str := []\<rparr>]\<rparr>);
                  u = clamp (u\<lparr>sel := False\<rparr>)
              in (Some (str l @ [10]), u\<lparr>cx := 0, dirty := True\<rparr>))"

text \<open>\<open>strncasecmp\<close> of the needle's length at a place of a line.\<close>

definition same_text :: "byte list \<Rightarrow> byte list \<Rightarrow> bool" where
  "same_text a b \<longleftrightarrow> map tolow a = map tolow b"

function find_in_line :: "byte list \<Rightarrow> byte list \<Rightarrow> nat \<Rightarrow> nat option" where
  "find_in_line nd l x =
     (if x + length nd \<le> length l
      then if same_text (take (length nd) (drop x l)) nd then Some x else find_in_line nd l (x + 1)
      else None)"
  by pat_completeness auto
termination find_in_line by (relation "measure (\<lambda>(nd, l, x). Suc (length l) - x)") auto

declare find_in_line.simps [simp del]

fun find_pass :: "byte list \<Rightarrow> nat list \<Rightarrow> textbuf \<Rightarrow> (nat \<times> nat) option" where
  "find_pass nd [] t = None"
| "find_pass nd (p # ps) t =
     (let y = (nat (cy t) + p) mod length (tlines t)
      in case find_in_line nd (text_of t y) (if p = 0 then nat (cx t) else 0) of
           Some x \<Rightarrow> Some (x, y) | None \<Rightarrow> find_pass nd ps t)"

definition tb_find :: "byte list \<Rightarrow> textbuf \<Rightarrow> bool \<times> textbuf" where
  "tb_find nd t =
     (if nd = [] then (False, t)
      else case find_pass nd [0..<length (tlines t) + 1] t of None \<Rightarrow> (False, t)
           | Some (x, y) \<Rightarrow>
               (True, t\<lparr>sel := True, ay := int y, ax := int x, cy := int y, cx := int (x + length nd)\<rparr>))"


section \<open>The text\<close>

text \<open>What the buffer holds, before and after a place of it.\<close>

definition content :: "textbuf \<Rightarrow> byte list" where
  "content t = join_lines (map str (tlines t))"

definition text_before :: "nat \<Rightarrow> nat \<Rightarrow> textbuf \<Rightarrow> byte list" where
  "text_before x y t = concat (map (\<lambda>l. str l @ [10]) (take y (tlines t))) @ take x (text_of t y)"

definition text_after :: "nat \<Rightarrow> nat \<Rightarrow> textbuf \<Rightarrow> byte list" where
  "text_after x y t = drop x (text_of t y) @ concat (map (\<lambda>l. 10 # str l) (drop (y + 1) (tlines t)))"

definition place :: "textbuf \<Rightarrow> int \<Rightarrow> int \<Rightarrow> bool" where
  "place t x y \<longleftrightarrow> 0 \<le> y \<and> y < int (length (tlines t)) \<and> 0 \<le> x \<and> x \<le> int (length (text_of t (nat y)))"

definition tb_ok :: "textbuf \<Rightarrow> bool" where
  "tb_ok t \<longleftrightarrow> place t (cx t) (cy t) \<and> (sel t \<longrightarrow> place t (ax t) (ay t))"

lemma join_lines_Cons: "join_lines (l # ls) = l @ concat (map (\<lambda>l. 10 # l) ls)"
  by (induction ls arbitrary: l) auto

lemma join_lines_append: "join_lines (xs @ l # ls) = concat (map (\<lambda>l. l @ [10]) xs) @ l @ concat (map (\<lambda>l. 10 # l) ls)"
proof (induction xs)
  case Nil
  show ?case by (simp add: join_lines_Cons)
next
  case (Cons x xs)
  then show ?case by (cases "xs @ l # ls") auto
qed

lemma map_comp_str: "map (\<lambda>l. 10 # str l) xs = map (\<lambda>l. 10 # l) (map str xs)" "map (\<lambda>l. str l @ [10]) xs = map (\<lambda>l. l @ [10]) (map str xs)"
  by simp_all

text \<open>The lines around line \<open>y\<close>.\<close>

lemma lines_at:
  assumes "y < length (tlines t)"
  shows "tlines t = take y (tlines t) @ (tlines t ! y) # drop (y + 1) (tlines t)"
  using id_take_nth_drop [OF assms] by simp

lemma content_split:
  assumes "y < length (tlines t)"
  shows "content t = text_before x y t @ text_after x y t"
proof -
  have "content t = concat (map (\<lambda>l. l @ [10]) (map str (take y (tlines t)))) @ text_of t y @ concat (map (\<lambda>l. 10 # l) (map str (drop (y + 1) (tlines t))))"
    unfolding content_def by (subst lines_at [OF assms]) (simp add: join_lines_append del: join_lines.simps)
  also have "\<dots> = concat (map (\<lambda>l. str l @ [10]) (take y (tlines t))) @ (take x (text_of t y) @ drop x (text_of t y)) @
      concat (map (\<lambda>l. 10 # str l) (drop (y + 1) (tlines t)))"
    unfolding map_comp_str append_take_drop_id ..
  finally show ?thesis by (simp only: text_before_def text_after_def append_assoc)
qed


section \<open>Memory\<close>

lemma grow_enough: "0 < c \<Longrightarrow> need \<le> grow c need \<and> c \<le> grow c need"
proof (induction c need rule: grow.induct)
  case (1 c need)
  then show ?case by (subst (1 2) grow.simps) auto
qed

lemma line_reserve_str: "line_reserve al n l = Some m \<Longrightarrow> str m = str l"
  by (auto simp: line_reserve_def Let_def split: if_splits)

text \<open>With plenty of memory every allocation succeeds.\<close>

definition plenty :: "nat \<Rightarrow> bool" where
  "plenty n = True"

lemma line_reserve_some: "n < 0x80000000 \<Longrightarrow> \<exists>m. line_reserve plenty n l = Some m"
  by (simp add: line_reserve_def Let_def plenty_def)

lemma insert_line_lines:
  assumes "insert_line al i t = (ok, u)"
  shows "u = t\<lparr>tlines := tlines u, tcap := tcap u\<rparr>"
    and "if ok then \<exists>l. str l = [] \<and> tlines u = take i (tlines t) @ l # drop i (tlines t) else tlines u = tlines t"
  using assms line_reserve_str [of al 0 "\<lparr>str = [], lcap = 0\<rparr>"]
  by (auto simp: insert_line_def lines_reserve_def Let_def split: option.splits if_splits)

lemma insert_line_works:
  assumes "length (tlines t) < MAX_LINES"
  shows "fst (insert_line plenty i t)"
proof -
  obtain l where "line_reserve plenty 0 \<lparr>str = [], lcap = 0\<rparr> = Some l" using line_reserve_some [of 0] by auto
  then show ?thesis using assms by (simp add: insert_line_def lines_reserve_def Let_def plenty_def)
qed


section \<open>Inserting\<close>

definition before :: "textbuf \<Rightarrow> byte list" where
  "before t = text_before (nat (cx t)) (nat (cy t)) t"

definition after :: "textbuf \<Rightarrow> byte list" where
  "after t = text_after (nat (cx t)) (nat (cy t)) t"

lemma placeD:
  assumes "place t x y"
  shows "nat y < length (tlines t)" "nat x \<le> length (text_of t (nat y))"
  using assms by (auto simp: place_def)

lemma place_cur: "place t (cx t) (cy t) \<Longrightarrow> nat (cx t) \<le> length (str (cur t)) \<and> cur t \<in> set (tlines t)"
  using placeD [of t "cx t" "cy t"] by (auto simp: cur_def)

lemma before_after: "place t (cx t) (cy t) \<Longrightarrow> content t = before t @ after t"
  using content_split [of "nat (cy t)" t] placeD by (simp add: before_def after_def)

lemma newline_text:
  assumes ok: "place t (cx t) (cy t)" and n: "newline al t = (b, u)"
  shows "place u (cx u) (cy u)" and "sel u = sel t"
    and "al = plenty \<Longrightarrow> length (tlines t) < MAX_LINES \<Longrightarrow> length (str (cur t)) < 0x80000000 \<Longrightarrow>
      b \<and> before u = before t @ [10] \<and> after u = after t \<and> length (tlines u) = length (tlines t) + 1"
proof -
  define k where "k = nat (cy t)"
  obtain r v where v: "insert_line al (k + 1) t = (r, v)" by force
  note V = insert_line_lines [OF v]
  have k: "k < length (tlines t)" "cy t = int k" using ok placeD [OF ok] by (auto simp: k_def place_def)
  have fields: "cx v = cx t" "cy v = cy t" "sel v = sel t" by (subst V(1), simp)+
  show s: "sel u = sel t"
    using n v fields by (auto simp: newline_def k_def case_prod_beta Let_def split: if_splits option.splits)
  show "place u (cx u) (cy u)"
  proof (cases r)
    case False
    then have "u = v" using n v by (simp add: newline_def k_def Let_def)
    then show ?thesis using ok V(2) False fields by (simp add: place_def)
  next
    case True
    then obtain l where l: "tlines v = take (k + 1) (tlines t) @ l # drop (k + 1) (tlines t)" using V(2) by auto
    then have "length (tlines v) = length (tlines t) + 1" using k by simp
    then have "int (k + 1) < int (length (tlines u))" "cy u = int (k + 1)" "cx u = 0"
      using n v True fields k by (auto simp: newline_def k_def [symmetric] Let_def split: option.splits)
    then show ?thesis by (simp add: place_def)
  qed
  assume al: "al = plenty" and ml: "length (tlines t) < MAX_LINES" and len: "length (str (cur t)) < 0x80000000"
  have r: r using insert_line_works [OF ml, of "k + 1"] v by (simp add: al)
  obtain l where l: "str l = []" "tlines v = take (k + 1) (tlines t) @ l # drop (k + 1) (tlines t)" using V(2) r by auto
  have at: "tlines v ! k = cur t" "tlines v ! (k + 1) = l" using l(2) k(1) by (simp_all add: nth_append cur_def flip: k_def)
  define x where "x = nat (cx t)"
  have x: "x \<le> length (str (cur t))" using place_cur [OF ok] by (simp add: x_def)
  have "length (str (cur t)) - x < 0x80000000" using len by simp
  then obtain m where m: "line_reserve al (length (str (cur t)) - x) l = Some m" using line_reserve_some al by blast
  let ?c = "(cur t)\<lparr>str := take x (str (cur t))\<rparr>" and ?m = "m\<lparr>str := drop x (str (cur t))\<rparr>"
  have u: "b" "u = (v\<lparr>tlines := (tlines v)[k := ?c, k + 1 := ?m]\<rparr>)\<lparr>cy := cy v + 1, cx := 0\<rparr>"
    using n v r at m fields by (auto simp: newline_def k_def [symmetric] x_def [symmetric] Let_def)
  have lines: "tlines u = take k (tlines t) @ ?c # ?m # drop (k + 1) (tlines t)"
  proof -
    have "take (k + 1) (tlines t) = take k (tlines t) @ [cur t]" using k(1) take_Suc_conv_app_nth [of k "tlines t"] by (simp add: cur_def flip: k_def)
    then show ?thesis using u(2) l(2) k(1) by (simp add: list_update_append)
  qed
  have cu: "cx u = 0" "cy u = int k + 1" using u(2) fields k by simp_all
  have "before u = before t @ [10]"
    using lines cu k(1) by (simp add: before_def text_before_def k_def [symmetric] x_def [symmetric] nat_add_distrib cur_def take_Suc_conv_app_nth)
  moreover have "after u = after t"
    using lines cu k(1) by (simp add: after_def text_after_def k_def [symmetric] x_def [symmetric] nat_add_distrib nth_append cur_def)
  ultimately show "b \<and> before u = before t @ [10] \<and> after u = after t \<and> length (tlines u) = length (tlines t) + 1"
    using u(1) lines k by simp
qed

lemma insert_run_text:
  assumes ok: "place t (cx t) (cy t)" and n: "insert_run al r t = (b, u)"
  shows "place u (cx u) (cy u)" and "sel u = sel t"
    and "al = plenty \<Longrightarrow> length (str (cur t)) + length r < 0x80000000 \<Longrightarrow>
      b \<and> before u = before t @ r \<and> after u = after t \<and> length (tlines u) = length (tlines t)"
proof -
  define k x where "k = nat (cy t)" and "x = nat (cx t)"
  have k: "k < length (tlines t)" "cy t = int k" "cx t = int x" and x: "x \<le> length (str (cur t))"
    using ok placeD [OF ok] place_cur [OF ok] by (auto simp: k_def x_def place_def)
  show "sel u = sel t" using n by (auto simp: insert_run_def split: option.splits)
  have main: "place u (cx u) (cy u) \<and> (b \<longrightarrow> before u = before t @ r \<and> after u = after t \<and> length (tlines u) = length (tlines t))"
  proof (cases b)
    case False
    then show ?thesis using n ok by (auto simp: insert_run_def split: option.splits)
  next
    case True
    then obtain l where l: "line_reserve al (wrap32 (length (str (cur t)) + length r)) (cur t) = Some l"
      using n by (auto simp: insert_run_def split: option.splits)
    have sl: "str l = str (cur t)" using line_reserve_str [OF l] .
    let ?l = "l\<lparr>str := take x (str (cur t)) @ r @ drop x (str (cur t))\<rparr>"
    have u: "tlines u = (tlines t)[k := ?l]" "cx u = int (x + length r)" "cy u = int k"
      using n l k by (auto simp: insert_run_def sl)
    have at: "tlines u ! k = ?l" "take k (tlines u) = take k (tlines t)" "drop (Suc k) (tlines u) = drop (Suc k) (tlines t)"
      using u k(1) by simp_all
    have c: "tlines t ! k = cur t" by (simp add: cur_def k_def)
    have "place u (cx u) (cy u)" using u k(1) x at by (simp add: place_def)
    moreover have "before u = before t @ r" using u at x c by (simp add: before_def text_before_def flip: k_def x_def)
    moreover have "after u = after t" using u at x c by (simp add: after_def text_after_def flip: k_def x_def)
    ultimately show ?thesis using u by simp
  qed
  then show "place u (cx u) (cy u)" ..
  assume "al = plenty" "length (str (cur t)) + length r < 0x80000000"
  then obtain m where "line_reserve al (wrap32 (length (str (cur t)) + length r)) (cur t) = Some m"
    using line_reserve_some [of "length (str (cur t)) + length r" "cur t"] by auto
  then have b using n by (auto simp: insert_run_def)
  then show "b \<and> before u = before t @ r \<and> after u = after t \<and> length (tlines u) = length (tlines t)" using main by simp
qed

lemma content_cur:
  assumes "place t (cx t) (cy t)"
  shows "length (str (cur t)) \<le> length (content t)"
proof -
  have "content t = text_before 0 (nat (cy t)) t @ text_after 0 (nat (cy t)) t" using content_split [OF placeD(1) [OF assms]] .
  then show ?thesis by (simp add: text_after_def cur_def)
qed

lemma insert_loop_text:
  assumes "place t (cx t) (cy t)" "insert_loop al bs t = (b, u)"
  shows "place u (cx u) (cy u) \<and> sel u = sel t \<and>
    (al = plenty \<longrightarrow> length (content t) + length bs < 0x80000000 \<longrightarrow> length (tlines t) + count_list bs 10 \<le> MAX_LINES \<longrightarrow>
      b \<and> before u = before t @ filter (\<lambda>c. c \<noteq> 13) bs \<and> after u = after t)"
  using assms
proof (induction "length bs" arbitrary: bs t rule: less_induct)
  case less
  show ?case
  proof (cases bs)
    case Nil
    then show ?thesis using less.prems by (subst (asm) insert_loop.simps) simp
  next
    case (Cons c cs)
    show ?thesis
    proof (cases "c = 13")
      case True
      then have "insert_loop al cs t = (b, u)" using less.prems(2) Cons by (subst (asm) insert_loop.simps) simp
      then show ?thesis using less.hyps [of cs t] less.prems(1) Cons True by auto
    next
      case False
      define step where "step = (if c = 10 then newline al t else insert_run al (takeWhile plain bs) t)"
      define ins where "ins = (if c = 10 then [10] else takeWhile plain bs)"
      define left where "left = (if c = 10 then cs else dropWhile plain bs)"
      obtain ok v where v: "step = (ok, v)" by force
      have split: "bs = ins @ left" "length left < length bs" "filter (\<lambda>c. c \<noteq> 13) ins = ins"
        using Cons False length_dropWhile_le [of plain cs] takeWhile_dropWhile_id [of plain bs] set_takeWhileD [of _ plain bs]
        by (auto simp: ins_def left_def plain_def filter_id_conv)
      have "insert_loop al bs t = (if \<not> ok then (False, v) else insert_loop al left v)"
        using v [unfolded step_def Cons] False unfolding left_def Cons by (subst insert_loop.simps) simp
      then have rest: "(b, u) = (if \<not> ok then (False, v) else insert_loop al left v)" using less.prems(2) by simp
      have V: "place v (cx v) (cy v)" "sel v = sel t"
        using newline_text(1,2) [OF less.prems(1), of al ok v] insert_run_text(1,2) [OF less.prems(1), of al _ ok v] v
        by (auto simp: step_def split: if_splits)
      have good: "ok \<and> before v = before t @ ins \<and> after v = after t \<and> length (tlines v) + count_list left 10 \<le> MAX_LINES \<and>
          length (content v) + length left < 0x80000000"
        if "al = plenty" "length (content t) + length bs < 0x80000000" "length (tlines t) + count_list bs 10 \<le> MAX_LINES"
      proof -
        have cur: "length (str (cur t)) + length ins < 0x80000000" using content_cur [OF less.prems(1)] that(2) split(1) by simp
        have cnt: "count_list ins 10 = (if c = 10 then 1 else 0)"
          using set_takeWhileD [of _ plain bs] by (auto simp: ins_def count_list_0_iff plain_def)
        have "ok \<and> before v = before t @ ins \<and> after v = after t \<and> length (tlines v) = length (tlines t) + count_list ins 10"
        proof (cases "c = 10")
          case True
          then have "newline al t = (ok, v)" "ins = [10]" using v by (simp_all add: step_def ins_def)
          moreover have "length (tlines t) < MAX_LINES" using that(3) Cons True by simp
          ultimately show ?thesis using newline_text(3) [OF less.prems(1)] that(1) cur by simp
        next
          case False
          then have "insert_run al ins t = (ok, v)" using v by (simp add: step_def ins_def)
          from insert_run_text(3) [OF less.prems(1) this that(1) cur] show ?thesis using cnt False by simp
        qed
        moreover from this have "content v = before t @ ins @ after t" using before_after [OF V(1)] by simp
        moreover have "content t = before t @ after t" by (rule before_after [OF less.prems(1)])
        ultimately show ?thesis using that split(1) by simp
      qed
      show ?thesis
      proof (cases ok)
        case True
        then have "insert_loop al left v = (b, u)" using rest by simp
        from less.hyps [OF split(2) V(1) this] show ?thesis using good V(2) split by (auto simp: True)
      next
        case False
        then show ?thesis using rest V good by auto
      qed
    qed
  qed
qed



section \<open>The selection\<close>

definition pos_le :: "int \<Rightarrow> int \<Rightarrow> int \<Rightarrow> int \<Rightarrow> bool" where
  "pos_le x0 y0 x1 y1 \<longleftrightarrow> y0 < y1 \<or> y0 = y1 \<and> x0 < x1"

lemma sel_bounds_ok:
  assumes "tb_ok t" "tb_sel_bounds t = Some (x0, y0, x1, y1)"
  shows "place t x0 y0" "place t x1 y1" "pos_le x0 y0 x1 y1"
  using assms by (auto simp: tb_ok_def tb_sel_bounds_def pos_le_def split: if_splits)

lemma remove_lines_lines:
  assumes "y0 \<le> y1" "y1 < length (tlines t)"
  shows "remove_lines y0 y1 t = t\<lparr>tlines := take (y0 + 1) (tlines t) @ drop (y1 + 1) (tlines t)\<rparr>"
  using assms
proof (induction y1 arbitrary: t)
  case 0
  then have "take 1 (tlines t) @ drop 1 (tlines t) = tlines t" by (simp del: take_Suc)
  then show ?case using 0 by simp
next
  case (Suc y)
  show ?case
  proof (cases "y0 < Suc y")
    case True
    let ?v = "remove_line (Suc y) t"
    have l: "length (tlines ?v) = length (tlines t) - 1" using Suc.prems by (simp add: remove_line_def)
    have "drop (y + 1) (tlines ?v) = drop (y + 2) (tlines t)" "take (y0 + 1) (tlines ?v) = take (y0 + 1) (tlines t)"
      using Suc.prems True by (simp_all add: remove_line_def min_def)
    then show ?thesis using Suc.IH [of ?v] True Suc.prems l by (simp add: remove_line_def)
  next
    case False
    then have "y0 = Suc y" using Suc.prems by simp
    then show ?thesis by simp
  qed
qed

lemma map_int_upto: "map int [n..<m] = [int n..int m - 1]"
  by (induction m) (auto simp: upto_rec2)

text \<open>The text of a region is what lies between its ends.\<close>

lemma content_region:
  assumes "place t x0 y0" "place t x1 y1" "pos_le x0 y0 x1 y1"
  shows "content t = text_before (nat x0) (nat y0) t @ join_lines (map (sel_part t (x0, y0, x1, y1)) [y0..y1]) @ text_after (nat x1) (nat y1) t"
proof -
  define a b p q where "a = nat y0" and "b = nat y1" and "p = nat x0" and "q = nat x1"
  let ?L = "tlines t" and ?S = "sel_part t (x0, y0, x1, y1)"
  have ints: "y0 = int a" "y1 = int b" "x0 = int p" "x1 = int q" using assms(1,2) by (auto simp: place_def a_def b_def p_def q_def)
  have len: "a < length ?L" "b < length ?L" "p \<le> length (text_of t a)" "q \<le> length (text_of t b)"
    using placeD [OF assms(1)] placeD [OF assms(2)] by (simp_all add: a_def b_def p_def q_def)
  have mid: "join_lines (map ?S [y0..y1]) @ text_after q b t = text_after p a t"
  proof (cases "a = b")
    case True
    then have pq: "p \<le> q" using assms(3) ints by (auto simp: pos_le_def)
    have "[y0..y1] = [int a]" using True ints by simp
    moreover have "take (q - p) (drop p (text_of t a)) @ drop q (text_of t a) = drop p (text_of t a)"
      using append_take_drop_id [of "q - p" "drop p (text_of t a)"] pq by (simp add: drop_drop del: append_take_drop_id)
    moreover have "nat (int q - int p) = q - p" by simp
    ultimately show ?thesis using True ints by (simp add: sel_part_def text_after_def flip: append_assoc)
  next
    case False
    then have ab: "a < b" using assms(3) ints by (auto simp: pos_le_def)
    have "[y0..y1] = map int [a..<Suc b]" using ints map_int_upto [of a "Suc b"] by simp
    then have ys: "[y0..y1] = int a # map int [Suc a..<b] @ [int b]" using ab by (simp add: upt_conv_Cons)
    have s0: "?S (int a) = drop p (text_of t a)" using ab ints len by (simp add: sel_part_def)
    have s1: "?S (int b) = take q (text_of t b)" using ab ints by (simp add: sel_part_def)
    have sm: "?S (int y) = text_of t y" if "y \<in> set [Suc a..<b]" for y using that ints by (auto simp: sel_part_def)
    have "map ?S (map int [Suc a..<b]) = map (text_of t) [Suc a..<b]" using sm by simp
    also have "\<dots> = map str (take (b - Suc a) (drop (Suc a) ?L))"
      by (rule nth_equalityI) (use len(2) in auto)
    finally have m: "map ?S (map int [Suc a..<b]) = map str (take (b - Suc a) (drop (Suc a) ?L))" .
    have "drop (Suc a) ?L = take (b - Suc a) (drop (Suc a) ?L) @ drop b ?L"
      using append_take_drop_id [of "b - Suc a" "drop (Suc a) ?L"] ab by (simp add: drop_drop del: append_take_drop_id)
    also have "drop b ?L = ?L ! b # drop (Suc b) ?L" using len(2) by (simp add: Cons_nth_drop_Suc)
    finally have d: "drop (Suc a) ?L = take (b - Suc a) (drop (Suc a) ?L) @ ?L ! b # drop (Suc b) ?L" .
    have "join_lines (map ?S [y0..y1]) = drop p (text_of t a) @ concat (map (\<lambda>l. 10 # str l) (take (b - Suc a) (drop (Suc a) ?L))) @ 10 # take q (text_of t b)"
      unfolding ys list.map(2) map_append m s0 join_lines_Cons map_comp_str(1) by (simp add: s1)
    then have "join_lines (map ?S [y0..y1]) @ text_after q b t =
      drop p (text_of t a) @ concat (map (\<lambda>l. 10 # str l) (take (b - Suc a) (drop (Suc a) ?L) @ ?L ! b # drop (Suc b) ?L))"
      by (simp add: text_after_def)
    then show ?thesis unfolding d [symmetric] by (simp add: text_after_def)
  qed
  show ?thesis using content_split [OF len(1), of p] mid by (simp add: a_def b_def p_def q_def)
qed

lemma sel_delete_text:
  assumes ok: "tb_ok t" and b: "tb_sel_bounds t = Some (x0, y0, x1, y1)"
  shows "tb_ok (tb_sel_delete al t)" and "\<not> sel (tb_sel_delete al t)"
    and "al = plenty \<Longrightarrow> length (content t) < 0x80000000 \<Longrightarrow>
      before (tb_sel_delete al t) = text_before (nat x0) (nat y0) t \<and> after (tb_sel_delete al t) = text_after (nat x1) (nat y1) t"
proof -
  note P = sel_bounds_ok [OF ok b]
  define a c p q where "a = nat y0" and "c = nat y1" and "p = nat x0" and "q = nat x1"
  let ?L = "tlines t" and ?u = "tb_sel_delete al t"
  have ints: "y0 = int a" "x0 = int p" using P(1) by (auto simp: place_def a_def p_def)
  have len: "a < length ?L" "c < length ?L" "p \<le> length (text_of t a)" "q \<le> length (text_of t c)"
    using placeD [OF P(1)] placeD [OF P(2)] by (simp_all add: a_def c_def p_def q_def)
  have ac: "a \<le> c" using P by (auto simp: pos_le_def a_def c_def)
  define v where "v = (case line_reserve al (p + (length (text_of t c) - q)) (?L ! a) of None \<Rightarrow> t
     | Some l \<Rightarrow> t\<lparr>tlines := ?L[a := l\<lparr>str := take p (text_of t a) @ drop q (text_of t c)\<rparr>]\<rparr>)"
  have v: "length (tlines v) = length ?L" "take a (tlines v) = take a ?L" "drop (c + 1) (tlines v) = drop (c + 1) ?L"
    using ac by (auto simp: v_def split: option.splits)
  have va: "p \<le> length (text_of v a)"
    using len by (auto simp: v_def split: option.splits)
  have u: "?u = (v\<lparr>tlines := take (a + 1) (tlines v) @ drop (c + 1) (tlines v)\<rparr>)\<lparr>cx := x0, cy := y0, sel := False, dirty := True\<rparr>"
  proof -
    have "?u = (remove_lines a c v)\<lparr>cx := x0, cy := y0, sel := False, dirty := True\<rparr>"
      by (simp only: tb_sel_delete_def b option.case prod.case Let_def v_def a_def c_def p_def q_def)
    then show ?thesis using remove_lines_lines [OF ac, of v] v(1) len(2) by simp
  qed
  have take: "take (a + 1) (tlines v) = take a ?L @ [tlines v ! a]" using take_Suc_conv_app_nth [of a "tlines v"] v len by simp
  have lu: "tlines ?u = take a ?L @ tlines v ! a # drop (c + 1) ?L" using u take v by simp
  then have at: "tlines ?u ! a = tlines v ! a" "take a (tlines ?u) = take a ?L" "drop (a + 1) (tlines ?u) = drop (c + 1) ?L" "a < length (tlines ?u)"
    using len by (simp_all add: nth_append)
  show "\<not> sel ?u" using u by simp
  show "tb_ok ?u" using at va ints u by (simp add: tb_ok_def place_def)
  assume al: "al = plenty" and small: "length (content t) < 0x80000000"
  have "p + (length (text_of t c) - q) \<le> length (content t)"
  proof -
    have "content t = text_before p a t @ join_lines (map (sel_part t (x0, y0, x1, y1)) [y0..y1]) @ text_after q c t"
      using content_region [OF P] by (simp add: a_def c_def p_def q_def)
    then show ?thesis using len by (simp add: text_before_def text_after_def)
  qed
  then have "p + (length (text_of t c) - q) < 0x80000000" using small by simp
  then obtain l where l: "line_reserve al (p + (length (text_of t c) - q)) (?L ! a) = Some l" using line_reserve_some al by blast
  have "text_of v a = take p (text_of t a) @ drop q (text_of t c)" using l len by (simp add: v_def)
  moreover have "cx ?u = int p" "cy ?u = int a" using u ints by simp_all
  ultimately show "before ?u = text_before (nat x0) (nat y0) t \<and> after ?u = text_after (nat x1) (nat y1) t"
    using at len by (simp add: before_def after_def text_before_def text_after_def a_def [symmetric] c_def [symmetric] p_def [symmetric] q_def [symmetric])
qed


section \<open>Loading\<close>

fun split_lines :: "byte list \<Rightarrow> byte list list" where
  "split_lines [] = [[]]"
| "split_lines (c # cs) = (if c = 10 then [] # split_lines cs else (c # hd (split_lines cs)) # tl (split_lines cs))"

definition strip_cr :: "byte list \<Rightarrow> byte list" where
  "strip_cr l = (if l \<noteq> [] \<and> last l = 13 then butlast l else l)"

lemma split_lines_ne [simp]: "split_lines cs \<noteq> []"
  by (cases cs) auto

lemma split_lines_plain: "10 \<notin> set xs \<Longrightarrow> split_lines xs = [xs]"
  by (induction xs) auto

lemma split_lines_line: "10 \<notin> set xs \<Longrightarrow> split_lines (xs @ 10 # ys) = xs # split_lines ys"
  by (induction xs) auto

lemma join_split: "join_lines (split_lines cs) = cs"
proof (induction cs)
  case (Cons c cs)
  obtain l ls where l: "split_lines cs = l # ls" by (cases "split_lines cs") auto
  then show ?case using Cons by (cases "c = 10") (auto simp: join_lines_Cons)
qed simp

lemma strip_cr_text: "13 \<notin> set cs \<Longrightarrow> map strip_cr (split_lines cs) = split_lines cs"
proof (induction cs)
  case (Cons c cs)
  obtain l ls where l: "split_lines cs = l # ls" by (cases "split_lines cs") auto
  have "strip_cr (c # l) = c # l" if "strip_cr l = l" using that Cons.prems by (auto simp: strip_cr_def)
  then show ?case using Cons l by (auto simp: strip_cr_def)
qed (simp add: strip_cr_def)

text \<open>The bytes of a line without its CR, as the loop cuts them.\<close>

lemma cut_line:
  assumes "start \<le> i" "i \<le> length cs"
  shows "take ((if start < i \<and> cs ! (i - 1) = 13 then i - 1 else i) - start) (drop start cs) = strip_cr (take (i - start) (drop start cs))"
proof (cases "start < i")
  case False
  then show ?thesis using assms by (simp add: strip_cr_def)
next
  case True
  let ?l = "take (i - start) (drop start cs)"
  have "?l \<noteq> []" using True assms by simp
  then have "last ?l = cs ! (i - 1)" using True assms by (simp add: last_conv_nth)
  moreover have "butlast ?l = take (i - 1 - start) (drop start cs)" using True assms by (simp add: butlast_take)
  ultimately show ?thesis using True \<open>?l \<noteq> []\<close> by (simp add: strip_cr_def)
qed

lemma load_loop_lines:
  assumes "length txt < 0x80000000" "start \<le> i" "i \<le> length txt" "10 \<notin> set (take (i - start) (drop start txt))"
    and "tlines nx \<noteq> []" "length (tlines nx) + length (split_lines (drop start txt)) \<le> MAX_LINES + 1"
  shows "\<exists>u. load_loop plenty txt start i nx = Some u \<and> cx u = cx nx \<and> cy u = cy nx \<and> sel u = sel nx \<and>
    map str (tlines u) = butlast (map str (tlines nx)) @ map strip_cr (split_lines (drop start txt))"
  using assms
proof (induction "length txt - i" arbitrary: start i nx)
  case 0
  then have i: "i = length txt" by simp
  define k e where "k = length (tlines nx) - 1" and "e = (if start < i \<and> txt ! (i - 1) = 13 then i - 1 else i)"
  have "e - start < 0x80000000" using 0 i by (auto simp: e_def)
  then obtain l where l: "line_reserve plenty (e - start) (tlines nx ! k) = Some l" using line_reserve_some by blast
  let ?u = "nx\<lparr>tlines := (tlines nx)[k := l\<lparr>str := take (e - start) (drop start txt)\<rparr>]\<rparr>"
  have "load_loop plenty txt start i nx = Some ?u"
    using i l by (subst load_loop.simps) (simp add: Let_def k_def e_def)
  moreover have "split_lines (drop start txt) = [drop start txt]" using 0 i by (intro split_lines_plain) simp
  moreover have "take (e - start) (drop start txt) = strip_cr (drop start txt)"
    using i "0.prems" cut_line [of start i "txt"] by (simp add: e_def)
  moreover have "(map str (tlines nx))[k := x] = butlast (map str (tlines nx)) @ [x]" for x
    using 0 by (simp add: k_def butlast_conv_take list_update_beyond upd_conv_take_nth_drop)
  ultimately show ?case by (simp add: map_update)
next
  case (Suc n)
  then have lt: "i < length txt" by simp
  show ?case
  proof (cases "txt ! i = 10")
    case False
    have "load_loop plenty txt start i nx = load_loop plenty txt start (i + 1) nx"
      using lt False by (subst load_loop.simps) simp
    moreover have "take (i + 1 - start) (drop start txt) = take (i - start) (drop start txt) @ [txt ! i]"
      using Suc.prems lt take_Suc_conv_app_nth [of "i - start" "drop start txt"] by (simp add: Suc_diff_le)
    then have "10 \<notin> set (take (i + 1 - start) (drop start txt))" using Suc.prems(4) False by simp
    ultimately show ?thesis using Suc.hyps(1) [of "i + 1" start nx] Suc.hyps(2) Suc.prems lt by simp
  next
    case True
    define k e where "k = length (tlines nx) - 1" and "e = (if start < i \<and> txt ! (i - 1) = 13 then i - 1 else i)"
    have "e - start < 0x80000000" using Suc.prems lt by (auto simp: e_def)
    then obtain l where l: "line_reserve plenty (e - start) (tlines nx ! k) = Some l" using line_reserve_some by blast
    let ?v = "nx\<lparr>tlines := (tlines nx)[k := l\<lparr>str := take (e - start) (drop start txt)\<rparr>]\<rparr>"
    let ?n = "length (tlines nx)"
    have d: "drop start txt = take (i - start) (drop start txt) @ 10 # drop (i + 1) txt"
      using id_take_nth_drop [of "i - start" "drop start txt"] Suc.prems lt True by (simp add: add.commute)
    have sp: "split_lines (drop start txt) = take (i - start) (drop start txt) # split_lines (drop (i + 1) txt)"
      by (subst d) (rule split_lines_line [OF Suc.prems(4)])
    obtain ok w where w: "insert_line plenty ?n ?v = (ok, w)" by force
    have "0 < length (split_lines (drop (i + 1) txt))" by simp
    moreover have "length (split_lines (drop start txt)) = 1 + length (split_lines (drop (i + 1) txt))" unfolding sp by simp
    ultimately have "?n < MAX_LINES" using Suc.prems(6) by linarith
    then have ok: ok using insert_line_works [of ?v ?n] w by simp
    obtain m where m: "str m = []" "tlines w = tlines ?v @ [m]" using insert_line_lines(2) [OF w] ok by auto
    have f: "cx w = cx nx" "cy w = cy nx" "sel w = sel nx" by (subst insert_line_lines(1) [OF w], simp)+
    have "load_loop plenty txt start i nx = load_loop plenty txt (i + 1) (i + 1) w"
      using lt True l w ok by (subst load_loop.simps) (simp add: Let_def k_def e_def)
    moreover have "\<exists>u. load_loop plenty txt (i + 1) (i + 1) w = Some u \<and> cx u = cx w \<and> cy u = cy w \<and> sel u = sel w \<and>
      map str (tlines u) = butlast (map str (tlines w)) @ map strip_cr (split_lines (drop (i + 1) txt))"
      using Suc.hyps(2) Suc.prems lt m sp by (intro Suc.hyps(1)) auto
    moreover have "(map str (tlines nx))[k := x] = butlast (map str (tlines nx)) @ [x]" for x
      using Suc.prems(5) by (simp add: k_def butlast_conv_take upd_conv_take_nth_drop)
    moreover have "take (e - start) (drop start txt) = strip_cr (take (i - start) (drop start txt))"
      using cut_line [of start i "txt"] Suc.prems by (simp add: e_def)
    ultimately show ?thesis using f m sp by (auto simp: map_update butlast_append)
  qed
qed


section \<open>Every operation keeps the cursor in the text\<close>

lemma back_cont_le': "back_cont l i \<le> i"
  by (induction l i rule: back_cont.induct) auto

lemma u8_prev_le: "u8_prev l i \<le> i"
  using back_cont_le' [of l "i - 1"] by (auto simp: u8_prev_def)

lemma u8_next_le: "i \<le> n \<Longrightarrow> i \<le> u8_next l n i \<and> u8_next l n i \<le> n"
proof -
  have "i \<le> skip_cont l n i \<and> skip_cont l n i \<le> max i n" for i
  proof (induction l n i rule: skip_cont.induct)
    case (1 l n i)
    then show ?case by (subst (1 2) skip_cont.simps) auto
  qed
  from this [of "i + 1"] show "i \<le> n \<Longrightarrow> i \<le> u8_next l n i \<and> u8_next l n i \<le> n" by (auto simp: u8_next_def)
qed

lemma place_line: "place t x y \<Longrightarrow> tlines u = tlines t \<Longrightarrow> place u x y"
  by (simp add: place_def)

lemma clamp_place:
  assumes "tlines t \<noteq> []"
  shows "place (clamp t) (cx (clamp t)) (cy (clamp t)) \<and> tlines (clamp t) = tlines t \<and> sel (clamp t) = sel t \<and>
    ax (clamp t) = ax t \<and> ay (clamp t) = ay t"
proof -
  define y where "y = (let y = (if cy t < 0 then 0 else cy t) in if int (length (tlines t)) \<le> y then int (length (tlines t)) - 1 else y)"
  have y: "0 \<le> y" "y < int (length (tlines t))" using assms by (auto simp: y_def Let_def)
  define x where "x = (let x = (if cx t < 0 then 0 else cx t) in if int (length (text_of t (nat y))) < x then int (length (text_of t (nat y))) else x)"
  have x: "0 \<le> x" "x \<le> int (length (text_of t (nat y)))" by (auto simp: x_def Let_def)
  have e: "clamp t = t\<lparr>cy := y, cx := int (back_cont (text_of t (nat y) @ [0]) (nat x))\<rparr>"
    by (simp add: clamp_def Let_def x_def y_def cur_def)
  have "back_cont (text_of t (nat y) @ [0]) (nat x) \<le> nat x" by (rule back_cont_le')
  then show ?thesis using x y by (simp add: e place_def)
qed

lemma tb_okD: "tb_ok t \<Longrightarrow> place t (cx t) (cy t)" "tb_ok t \<Longrightarrow> tlines t \<noteq> []"
  by (auto simp: tb_ok_def place_def)

lemma tb_ok_deselect: "tb_ok t \<Longrightarrow> tb_ok (t\<lparr>sel := False\<rparr>)"
  by (simp add: tb_ok_def place_def)

lemma tb_ok_want [simp]: "tb_ok (t\<lparr>want_x := w, dirty := d\<rparr>) = tb_ok t" "tb_ok (t\<lparr>want_x := w\<rparr>) = tb_ok t" "tb_ok (settle t) = tb_ok t"
  by (simp_all add: tb_ok_def place_def settle_def)

lemma sel_delete_ok: "tb_ok t \<Longrightarrow> tb_ok (tb_sel_delete al t) \<and> \<not> sel (tb_sel_delete al t)"
proof (cases "tb_sel_bounds t")
  case None
  then show "tb_ok t \<Longrightarrow> ?thesis" using tb_ok_deselect by (simp add: tb_sel_delete_def)
next
  case (Some r)
  then show "tb_ok t \<Longrightarrow> ?thesis" using sel_delete_text(1,2) by (cases r) auto
qed

lemma insert_ok: "tb_ok t \<Longrightarrow> tb_ok (tb_insert al bs t)"
proof -
  assume ok: "tb_ok t"
  define v where "v = (if sel t then tb_sel_delete al t else t)\<lparr>sel := False\<rparr>"
  have "tb_ok (if sel t then tb_sel_delete al t else t)" using ok sel_delete_ok [OF ok, of al] by simp
  then have "tb_ok v" unfolding v_def by (rule tb_ok_deselect)
  then have v: "place v (cx v) (cy v)" by (rule tb_okD(1))
  have w: "\<not> sel v" by (simp add: v_def)
  obtain b u where u: "insert_loop al bs v = (b, u)" by force
  have "place u (cx u) (cy u) \<and> \<not> sel u" using insert_loop_text [OF v u] w by simp
  then have "tb_ok u" by (simp add: tb_ok_def)
  then show ?thesis using u by (simp add: tb_insert_def Let_def v_def)
qed

lemma backspace_ok:
  assumes ok: "tb_ok t"
  shows "tb_ok (tb_backspace al t)"
proof (cases "has_sel t")
  case True
  then show ?thesis using sel_delete_ok [OF ok] by (simp add: tb_backspace_def)
next
  case F: False
  define u where "u = t\<lparr>sel := False\<rparr>"
  have u: "place u (cx u) (cy u)" "\<not> sel u" "tlines u \<noteq> []" using tb_okD [OF ok] by (auto simp: u_def place_def)
  have e: "tb_backspace al t = (if 0 < cx u
      then let l = cur u; pv = u8_prev (str l) (nat (cx u))
           in settle (u\<lparr>tlines := (tlines u)[nat (cy u) := l\<lparr>str := take pv (str l) @ drop (nat (cx u)) (str l)\<rparr>], cx := int pv\<rparr>)
      else if 0 < cy u
      then let k = nat (cy u); p = tlines u ! (k - 1); l = cur u
           in (case line_reserve al (wrap32 (length (str p) + length (str l))) p of None \<Rightarrow> u
               | Some q \<Rightarrow>
                   let v = remove_line k (u\<lparr>tlines := (tlines u)[k - 1 := q\<lparr>str := str p @ str l\<rparr>]\<rparr>)
                   in settle (v\<lparr>cy := cy v - 1, cx := int (length (str p))\<rparr>))
      else u)"
    unfolding tb_backspace_def u_def Let_def using F by (simp only: if_False)
  show ?thesis
  proof (cases "0 < cx u")
    case True
    have "u8_prev (str (cur u)) (nat (cx u)) \<le> length (str (cur u))"
      using u8_prev_le [of "str (cur u)" "nat (cx u)"] place_cur [OF u(1)] by linarith
    then show ?thesis using True u e placeD(1) [OF u(1)] by (simp add: tb_ok_def place_def Let_def settle_def)
  next
    case x: False
    show ?thesis
    proof (cases "0 < cy u")
      case True
      define k where "k = nat (cy u)"
      have k: "0 < k" "k < length (tlines u)" "cy u = int k" using True u(1) by (auto simp: k_def place_def)
      show ?thesis
      proof (cases "line_reserve al (wrap32 (length (text_of u (k - 1)) + length (str (cur u)))) (tlines u ! (k - 1))")
        case None
        then show ?thesis using e x True u by (simp add: k_def tb_ok_def Let_def)
      next
        case (Some q)
        let ?v = "remove_line k (u\<lparr>tlines := (tlines u)[k - 1 := q\<lparr>str := text_of u (k - 1) @ str (cur u)\<rparr>]\<rparr>)"
        have b: "tb_backspace al t = settle (?v\<lparr>cy := cy ?v - 1, cx := int (length (text_of u (k - 1)))\<rparr>)"
          using e x True Some by (simp add: k_def [symmetric] Let_def)
        have v: "length (tlines ?v) = length (tlines u) - 1" "text_of ?v (k - 1) = text_of u (k - 1) @ str (cur u)"
          "cy ?v = int k" "sel ?v = False"
          using k u(2) by (simp_all add: remove_line_def nth_append)
        have "nat (int k - 1) = k - 1" using k by simp
        then show ?thesis unfolding b settle_def tb_ok_def place_def using v k by simp
      qed
    next
      case False
      then show ?thesis using e x u by (simp add: tb_ok_def)
    qed
  qed
qed

lemma delete_ok:
  assumes ok: "tb_ok t"
  shows "tb_ok (tb_delete al t)"
proof (cases "has_sel t")
  case True
  then show ?thesis using sel_delete_ok [OF ok] by (simp add: tb_delete_def)
next
  case F: False
  define u where "u = t\<lparr>sel := False\<rparr>"
  have u: "place u (cx u) (cy u)" "\<not> sel u" using tb_okD [OF ok] by (auto simp: u_def place_def)
  have e: "tb_delete al t = (if cx u < int (length (str (cur u)))
      then let d = u8_next (str (cur u)) (length (str (cur u))) (nat (cx u)) - nat (cx u)
           in u\<lparr>tlines := (tlines u)[nat (cy u) := (cur u)\<lparr>str := take (nat (cx u)) (str (cur u)) @ drop (nat (cx u) + d) (str (cur u))\<rparr>], dirty := True\<rparr>
      else if cy u < int (length (tlines u)) - 1 then tb_backspace al (u\<lparr>cy := cy u + 1, cx := 0\<rparr>) else u)"
    unfolding tb_delete_def u_def Let_def using F by (simp only: if_False)
  have "tb_ok (u\<lparr>cy := cy u + 1, cx := 0\<rparr>)" if "cy u < int (length (tlines u)) - 1"
    using that u by (simp add: tb_ok_def place_def)
  moreover have "tb_ok (u\<lparr>tlines := (tlines u)[nat (cy u) := m\<lparr>str := take (nat (cx u)) (str (cur u)) @ r\<rparr>], dirty := True\<rparr>)" for m r
    using u placeD [OF u(1)] by (simp add: tb_ok_def place_def cur_def)
  moreover have "tb_ok u" using u by (simp add: tb_ok_def)
  ultimately show ?thesis using e backspace_ok by (simp add: Let_def)
qed

lemma start_sel_ok: "tb_ok t \<Longrightarrow> tb_ok (start_sel b t)" "tlines (start_sel b t) = tlines t" "cx (start_sel b t) = cx t" "cy (start_sel b t) = cy t"
  by (auto simp: start_sel_def tb_ok_def place_def)

lemma tb_ok_move: "tb_ok t \<Longrightarrow> place t x y \<Longrightarrow> tb_ok (t\<lparr>cx := x, cy := y\<rparr>)"
  by (simp add: tb_ok_def place_def)

lemma clamp_ok:
  assumes "sel t \<longrightarrow> place t (ax t) (ay t)" "tlines t \<noteq> []"
  shows "tb_ok (clamp t)"
  using clamp_place [OF assms(2)] assms(1) place_line [of t _ _ "clamp t"] by (auto simp: tb_ok_def)

lemma move_ok:
  assumes "tb_ok t"
  shows "tb_ok (tb_move dx dy b t)"
proof -
  define u where "u = start_sel b t"
  have u: "tb_ok u" using start_sel_ok(1) [OF assms] by (simp add: u_def)
  note U = tb_okD [OF u]
  have anchor: "sel u \<longrightarrow> place u (ax u) (ay u)" using u by (simp add: tb_ok_def)
  have len: "nat (cx u) \<le> length (str (cur u))" using place_cur [OF U(1)] by simp
  show ?thesis
  proof (cases "dy = 0")
    case False
    then show ?thesis
      unfolding tb_move_def Let_def u_def [symmetric] using U(2) anchor
      by (simp add: place_def) (auto intro!: clamp_ok simp: place_def)
  next
    case True
    define v where "v = (if dx < 0
       then if 0 < cx u then u\<lparr>cx := int (u8_prev (str (cur u)) (nat (cx u)))\<rparr>
            else if 0 < cy u then (u\<lparr>cy := cy u - 1\<rparr>)\<lparr>cx := int (length (str (cur (u\<lparr>cy := cy u - 1\<rparr>))))\<rparr> else u
       else if 0 < dx
       then if cx u < int (length (str (cur u)))
            then u\<lparr>cx := int (u8_next (str (cur u)) (length (str (cur u))) (nat (cx u)))\<rparr>
            else if cy u < int (length (tlines u)) - 1 then u\<lparr>cy := cy u + 1, cx := 0\<rparr> else u
       else u)"
    have e: "tb_move dx dy b t = v\<lparr>want_x := tb_col v (cy v) (cx v)\<rparr>"
      unfolding tb_move_def Let_def v_def u_def using True by (simp only: simp_thms if_False)
    have "u8_prev (str (cur u)) (nat (cx u)) \<le> length (str (cur u))"
      using u8_prev_le [of "str (cur u)" "nat (cx u)"] len by linarith
    moreover have "u8_next (str (cur u)) (length (str (cur u))) (nat (cx u)) \<le> length (str (cur u))"
      using u8_next_le [OF len] by blast
    ultimately have "tb_ok v" using u by (simp add: v_def tb_ok_def place_def cur_def)
    then show ?thesis by (simp add: e)
  qed
qed

lemma goto_ok: "tb_ok t \<Longrightarrow> tb_ok (tb_goto x y b t)"
proof -
  assume ok: "tb_ok t"
  have "tb_ok (start_sel b t)" by (rule start_sel_ok(1) [OF ok])
  then have "sel (start_sel b t) \<longrightarrow> place (start_sel b t) (ax (start_sel b t)) (ay (start_sel b t))" "tlines (start_sel b t) \<noteq> []"
    using tb_okD(2) by (auto simp: tb_ok_def)
  then show ?thesis by (simp add: tb_goto_def Let_def) (auto intro!: clamp_ok simp: place_def)
qed

lemma cut_line_ok: "tb_ok t \<Longrightarrow> tb_ok (snd (tb_cut_line al t))"
proof -
  assume ok: "tb_ok t"
  define u where "u = (if 1 < length (tlines t) then remove_line (nat (cy t)) t else t\<lparr>tlines := (tlines t)[nat (cy t) := (cur t)\<lparr>str := []\<rparr>]\<rparr>)"
  have "nat (cy t) < length (tlines t)" using placeD(1) [OF tb_okD(1) [OF ok]] .
  then have ne: "tlines (u\<lparr>sel := False\<rparr>) \<noteq> []" using tb_okD(2) [OF ok] by (auto simp: u_def remove_line_def)
  have "tb_ok ((clamp (u\<lparr>sel := False\<rparr>))\<lparr>cx := 0, dirty := True\<rparr>)"
    using clamp_place [OF ne] by (auto simp: tb_ok_def place_def)
  then show ?thesis using ok by (simp add: tb_cut_line_def Let_def u_def)
qed

lemma find_in_line_bound: "find_in_line nd l x = Some y \<Longrightarrow> y + length nd \<le> length l \<and> same_text (take (length nd) (drop y l)) nd"
proof (induction nd l x rule: find_in_line.induct)
  case (1 nd l x)
  then show ?case by (subst (asm) find_in_line.simps) (auto split: if_splits)
qed

lemma find_ok:
  assumes ok: "tb_ok t" and f: "tb_find nd t = (b, u)"
  shows "tb_ok u" and "b \<Longrightarrow> same_text (sel_part u (ax u, ay u, cx u, cy u) (cy u)) nd \<and> tlines u = tlines t"
proof -
  have pass: "find_pass nd ps t = Some (x, y) \<Longrightarrow> y < length (tlines t) \<and> x + length nd \<le> length (text_of t y) \<and>
      same_text (take (length nd) (drop x (text_of t y))) nd" for ps x y
    using tb_okD(2) [OF ok] find_in_line_bound by (induction ps) (auto simp: Let_def split: option.splits)
  have cases: "\<not> b \<and> u = t \<or> b \<and> (\<exists>x y. y < length (tlines t) \<and> x + length nd \<le> length (text_of t y) \<and>
      same_text (take (length nd) (drop x (text_of t y))) nd \<and>
      u = t\<lparr>sel := True, ay := int y, ax := int x, cy := int y, cx := int x + int (length nd)\<rparr>)"
    using f unfolding tb_find_def by (auto split: if_splits option.splits dest!: pass simp del: upt_Suc)
  show "tb_ok u" using cases ok by (auto simp: tb_ok_def place_def)
  show "b \<Longrightarrow> same_text (sel_part u (ax u, ay u, cx u, cy u) (cy u)) nd \<and> tlines u = tlines t"
    using cases by (auto simp: sel_part_def)
qed

text \<open>Every operation of the editor, with any outcome of the allocations.\<close>

inductive tb_step :: "textbuf \<Rightarrow> textbuf \<Rightarrow> bool" where
  insert: "tb_step t (tb_insert al bs t)"
| backspace: "tb_step t (tb_backspace al t)"
| delete: "tb_step t (tb_delete al t)"
| delete_sel: "tb_step t (tb_sel_delete al t)"
| move: "tb_step t (tb_move dx dy b t)"
| home: "tb_step t (tb_home b t)"
| end_of_line: "tb_step t (tb_end b t)"
| goto: "tb_step t (tb_goto x y b t)"
| all: "tb_step t (tb_select_all t)"
| cut: "tb_step t (snd (tb_cut_line al t))"
| find: "tb_step t (snd (tb_find nd t))"

lemma home_ok: "tb_ok t \<Longrightarrow> tb_ok (tb_home b t)"
  using start_sel_ok(1) [of t b] by (simp add: tb_home_def tb_ok_def place_def)

lemma end_ok: "tb_ok t \<Longrightarrow> tb_ok (tb_end b t)"
  using start_sel_ok(1) [of t b] by (simp add: tb_end_def tb_ok_def place_def Let_def cur_def)

lemma select_all_ok: "tb_ok t \<Longrightarrow> tb_ok (tb_select_all t)"
  by (auto simp: tb_select_all_def tb_ok_def place_def Let_def cur_def)

lemma tb_step_ok: "tb_step t u \<Longrightarrow> tb_ok t \<Longrightarrow> tb_ok u"
proof (induction rule: tb_step.induct)
  case (find t nd)
  then show ?case using find_ok(1) [of t nd] by (cases "tb_find nd t") auto
qed (simp_all add: insert_ok backspace_ok delete_ok sel_delete_ok move_ok goto_ok cut_line_ok home_ok end_ok select_all_ok)


section \<open>Properties\<close>



text \<open>
  C20. Opening a text gives its lines, cut at LF and each without a CR at its end, with the cursor at the start; the text
  of the buffer is those lines joined with LF, so a text without CRs is saved as it was opened.
\<close>

theorem tb_load_text:
  assumes "length bs < 0x80000000" "length (split_lines bs) \<le> MAX_LINES"
  shows "\<exists>u. tb_load plenty (Some bs) (length bs) t = (True, u) \<and> map str (tlines u) = map strip_cr (split_lines bs) \<and>
    cx u = 0 \<and> cy u = 0 \<and> \<not> sel u \<and> tb_text plenty u = Some (join_lines (map strip_cr (split_lines bs))) \<and>
    (13 \<notin> set bs \<longrightarrow> tb_text plenty u = Some bs)"
proof -
  obtain ok nx where nx: "insert_line plenty 0 tb_zero = (ok, nx)" by force
  have z: "length (tlines tb_zero) < MAX_LINES" by (simp add: tb_zero_def MAX_LINES_def)
  have ok: ok using insert_line_works [OF z, of 0] nx by simp
  obtain l where l: "tlines nx = [l]" using insert_line_lines(2) [OF nx] ok by (auto simp: tb_zero_def)
  have f: "cx nx = 0" "cy nx = 0" "\<not> sel nx" by (subst insert_line_lines(1) [OF nx], simp add: tb_zero_def)+
  obtain u where u: "load_loop plenty bs 0 0 nx = Some u" "cx u = 0" "cy u = 0" "\<not> sel u"
    "map str (tlines u) = map strip_cr (split_lines bs)"
    using load_loop_lines [of bs 0 0 nx] assms l f by auto
  have "tb_load plenty (Some bs) (length bs) t = (True, u)" using assms(1) nx ok u(1) by (simp add: tb_load_def)
  moreover have "tb_text plenty u = Some (join_lines (map strip_cr (split_lines bs)))" using u(5) by (simp add: tb_text_def Let_def plenty_def)
  ultimately show ?thesis using u by (auto simp: strip_cr_text join_split)
qed

theorem tb_load_text_witness:
  "\<exists>u. tb_load plenty (Some [0x61, 0x0D, 0x0A, 0x62]) 4 (tb_init plenty) = (True, u) \<and> tb_text plenty u = Some [0x61, 0x0A, 0x62]"
proof -
  have l: "length [0x61, 0x0D, 0x0A, 0x62 :: 8 word] = 4" by simp
  have m: "map strip_cr (split_lines [0x61, 0x0D, 0x0A, 0x62]) = [[0x61], [0x62]]" by (simp add: strip_cr_def)
  have "length (split_lines [0x61, 0x0D, 0x0A, 0x62]) \<le> MAX_LINES" by (simp add: MAX_LINES_def)
  from tb_load_text [of "[0x61, 0x0D, 0x0A, 0x62]" "tb_init plenty", OF _ this] show ?thesis unfolding l m by auto
qed



text \<open>
  Deleting the selection removes exactly the text that \<open>tb_sel_text\<close> gives for it; the cursor is where it began.
\<close>

lemma tb_sel_delete_text:
  assumes "tb_ok t" "tb_sel_bounds t \<noteq> None" "length (content t) < 0x80000000"
  shows "\<exists>w. tb_sel_text plenty t = Some w \<and>
    content t = before (tb_sel_delete plenty t) @ w @ after (tb_sel_delete plenty t) \<and>
    content (tb_sel_delete plenty t) = before (tb_sel_delete plenty t) @ after (tb_sel_delete plenty t) \<and> \<not> sel (tb_sel_delete plenty t)"
proof -
  obtain x0 y0 x1 y1 where b: "tb_sel_bounds t = Some (x0, y0, x1, y1)" using assms(2) by (cases "tb_sel_bounds t") auto
  note D = sel_delete_text [OF assms(1) b, where al = plenty]
  have "tb_sel_text plenty t = Some (join_lines (map (sel_part t (x0, y0, x1, y1)) [y0..y1]))"
    by (simp add: tb_sel_text_def b Let_def plenty_def)
  then show ?thesis
    using content_region [OF sel_bounds_ok [OF assms(1) b]] D(2) D(3) [OF refl assms(3)] before_after [OF tb_okD(1) [OF D(1)]] by auto
qed

end
