(* ===== verification/Block_Stream.thy ===== *)
theory Block_Stream
  imports Prelude
begin

text \<open>
  What the hash functions and Poly1305 share: words to bytes and back, a stream of bytes that is worked off in blocks, the contract
  of such a stream as a locale, and the padding that ends it. A context keeps the bytes that wait for a full block;
  \<open>cbuf\<close> is that part of the code's buffer, its length the code's \<open>buf_len\<close>.
\<close>

section \<open>Words and bytes\<close>

definition be32 :: "byte list \<Rightarrow> u32" where
  "be32 p = push_bit 24 (ucast (p ! 0)) OR push_bit 16 (ucast (p ! 1)) OR push_bit 8 (ucast (p ! 2)) OR ucast (p ! 3)"

definition put_be32 :: "u32 \<Rightarrow> byte list" where
  "put_be32 v = [ucast (drop_bit 24 v), ucast (drop_bit 16 v), ucast (drop_bit 8 v), ucast v]"

definition le32 :: "byte list \<Rightarrow> u32" where
  "le32 p = ucast (p ! 0) OR push_bit 8 (ucast (p ! 1)) OR push_bit 16 (ucast (p ! 2)) OR push_bit 24 (ucast (p ! 3))"

definition put_le32 :: "u32 \<Rightarrow> byte list" where
  "put_le32 v = [ucast v, ucast (drop_bit 8 v), ucast (drop_bit 16 v), ucast (drop_bit 24 v)]"

text \<open>The eight bytes of a 64-bit word, the highest first.\<close>

definition be64_bytes :: "u64 \<Rightarrow> byte list" where
  "be64_bytes v = map (\<lambda>i. ucast (drop_bit (56 - i * 8) v)) [0..<8]"

lemma put_be32_length [simp]: "length (put_be32 v) = 4"
  by (simp add: put_be32_def)

lemma put_le32_length [simp]: "length (put_le32 v) = 4"
  by (simp add: put_le32_def)

lemma be64_bytes_length [simp]: "length (be64_bytes v) = 8"
  by (simp add: be64_bytes_def)

lemma less_4: "(\<forall>j < 4. P j) \<longleftrightarrow> P 0 \<and> P 1 \<and> P 2 \<and> P (3::nat)"
proof -
  have "(j < 4) = (j = 0 \<or> j = 1 \<or> j = 2 \<or> j = 3)" for j :: nat by auto
  then show ?thesis by auto
qed

lemma be32_put [simp]: "be32 (put_be32 v) = v"
proof (rule bit_word_eqI)
  fix n
  assume "n < LENGTH(32)"
  then consider "n < 8" | "8 \<le> n" "n < 16" | "16 \<le> n" "n < 24" | "24 \<le> n" "n < 32" by fastforce
  then show "bit (be32 (put_be32 v)) n = bit v n" by cases (auto simp: be32_def put_be32_def bit_simps)
qed

lemma le32_put [simp]: "le32 (put_le32 v) = v"
proof (rule bit_word_eqI)
  fix n
  assume "n < LENGTH(32)"
  then consider "n < 8" | "8 \<le> n" "n < 16" | "16 \<le> n" "n < 24" | "24 \<le> n" "n < 32" by fastforce
  then show "bit (le32 (put_le32 v)) n = bit v n" by cases (auto simp: le32_def put_le32_def bit_simps)
qed


section \<open>Blocks\<close>

text \<open>The whole blocks of \<open>xs\<close> through \<open>f\<close>, and what is left.\<close>

function absorb :: "('h \<Rightarrow> byte list \<Rightarrow> 'h) \<Rightarrow> nat \<Rightarrow> 'h \<Rightarrow> byte list \<Rightarrow> 'h \<times> byte list" where
  "absorb f B s xs = (if B = 0 \<or> length xs < B then (s, xs) else absorb f B (f s (take B xs)) (drop B xs))"
  by pat_completeness auto
termination by (relation "measure (\<lambda>(f, B, s, xs). length xs)") auto

declare absorb.simps [simp del]

function chunks :: "nat \<Rightarrow> byte list \<Rightarrow> byte list list" where
  "chunks B xs = (if B = 0 \<or> length xs < B then [] else take B xs # chunks B (drop B xs))"
  by pat_completeness auto
termination by (relation "measure (\<lambda>(B, xs). length xs)") auto

declare chunks.simps [simp del]

lemma absorb_chunks: "fst (absorb f B s xs) = foldl f s (chunks B xs)"
  by (induction f B s xs rule: absorb.induct) (subst absorb.simps, subst chunks.simps, auto)

lemma absorb_rest: "snd (absorb f B s xs) = drop (length xs - length xs mod B) xs"
proof (induction f B s xs rule: absorb.induct)
  case (1 f B s xs)
  show ?case
  proof (cases "B = 0 \<or> length xs < B")
    case True
    then show ?thesis by (auto simp: absorb.simps)
  next
    case False
    then have m: "(length xs - B) mod B = length xs mod B" by (simp add: le_mod_geq)
    have "length xs mod B \<le> length xs - B" using m by (metis mod_less_eq_dividend)
    then have "length xs - B - length xs mod B + B = length xs - length xs mod B" using False by linarith
    then show ?thesis using 1 [OF False] False m by (subst absorb.simps) (simp add: add.commute)
  qed
qed

lemma absorb_rest_length [simp]: "0 < B \<Longrightarrow> length (snd (absorb f B s xs)) = length xs mod B"
  by (simp add: absorb_rest)

lemma absorb_small: "length xs < B \<Longrightarrow> absorb f B s xs = (s, xs)"
  by (simp add: absorb.simps)

lemma absorb_block: "0 < B \<Longrightarrow> length b = B \<Longrightarrow> absorb f B s (b @ xs) = absorb f B (f s b) xs"
  by (subst absorb.simps) simp

lemma absorb_append: "absorb f B s (xs @ ys) = absorb f B (fst (absorb f B s xs)) (snd (absorb f B s xs) @ ys)"
proof (induction f B s xs rule: absorb.induct)
  case (1 f B s xs)
  show ?case
  proof (cases "B = 0 \<or> length xs < B")
    case True
    then show ?thesis by (simp add: absorb.simps [of f B s xs])
  next
    case False
    then have "absorb f B s (xs @ ys) = absorb f B (f s (take B xs)) (drop B xs @ ys)" by (subst absorb.simps) simp
    then show ?thesis using 1 [OF False] False by (simp add: absorb.simps [of f B s xs])
  qed
qed


section \<open>Contexts\<close>

text \<open>The context of every hash function here: the words of the state, the length so far, the bytes that wait.\<close>

record 'w hash_ctx =
  ch :: "'w list"
  ctotal :: u64
  cbuf :: "byte list"

abbreviation buf_len :: "'w hash_ctx \<Rightarrow> nat" where
  "buf_len c \<equiv> length (cbuf c)"

definition ctx_view :: "'w hash_ctx \<Rightarrow> 'w list \<times> byte list" where
  "ctx_view c = (ch c, cbuf c)"

lemma ctx_view_simps [simp]: "fst (ctx_view c) = ch c" "snd (ctx_view c) = cbuf c"
  by (simp_all add: ctx_view_def)

text \<open>
  The loop \<open>while (len)\<close> with which SHA-512, MD5 and SHA-1 take bytes: the buffer is filled up, and worked off whenever it is full.
  A context whose buffer is full already would keep the loop from advancing; the contexts of the program never are, and the
  function stops there.
\<close>

function fill :: "('w list \<Rightarrow> byte list \<Rightarrow> 'w list) \<Rightarrow> nat \<Rightarrow> byte list \<Rightarrow> 'w hash_ctx \<Rightarrow> 'w hash_ctx" where
  "fill blk B p c =
     (if p = [] \<or> B \<le> buf_len c then c
      else let n = min (B - buf_len c) (length p);
               c = c\<lparr>cbuf := cbuf c @ take n p\<rparr>
           in fill blk B (drop n p) (if buf_len c = B then c\<lparr>ch := blk (ch c) (cbuf c), cbuf := []\<rparr> else c))"
  by pat_completeness auto
termination by (relation "measure (\<lambda>(blk, B, p, c). length p)") auto

declare fill.simps [simp del]

lemma fill_step:
  fixes blk :: "'w list \<Rightarrow> byte list \<Rightarrow> 'w list" and c :: "'w hash_ctx"
  assumes "p \<noteq> []" "buf_len c < B"
  defines "n \<equiv> min (B - buf_len c) (length p)"
  defines "b \<equiv> cbuf c @ take n p"
  defines "c' \<equiv> (if length b = B then c\<lparr>ch := blk (ch c) b, cbuf := []\<rparr> else c\<lparr>cbuf := b\<rparr>)"
  shows "fill blk B p c = fill blk B (drop n p) c'" "length (drop n p) < length p" "buf_len c' < B"
    "absorb blk B (ch c') (cbuf c' @ drop n p) = absorb blk B (ch c) (cbuf c @ p)" "ctotal c' = ctotal c"
proof -
  show "fill blk B p c = fill blk B (drop n p) c'"
    using assms(1,2) by (subst fill.simps) (simp add: Let_def c'_def b_def n_def cong: if_cong)
  have l: "length b \<le> B" using assms(2) by (simp add: b_def n_def)
  show "length (drop n p) < length p" using assms(1,2) by (simp add: n_def)
  show "buf_len c' < B" using l assms(2) by (simp add: c'_def)
  have p: "cbuf c @ p = b @ drop n p" by (simp add: b_def)
  show "absorb blk B (ch c') (cbuf c' @ drop n p) = absorb blk B (ch c) (cbuf c @ p)"
    unfolding p using absorb_block [of B b blk "ch c" "drop n p"] assms(2) by (simp add: c'_def)
  show "ctotal c' = ctotal c" by (simp add: c'_def)
qed

lemma fill_view:
  "buf_len c < B \<Longrightarrow> ctx_view (fill blk B p c) = absorb blk B (ch c) (cbuf c @ p) \<and> buf_len (fill blk B p c) < B \<and>
    ctotal (fill blk B p c) = ctotal c"
proof (induction "length p" arbitrary: p c rule: less_induct)
  case less
  show ?case
  proof (cases "p = []")
    case True
    then show ?thesis using less.prems by (simp add: fill.simps ctx_view_def absorb_small)
  next
    case False
    note st = fill_step(1,3,4,5) [where blk = blk, OF False less.prems]
    show ?thesis using less.hyps [OF fill_step(2) [OF False less.prems] st(2)] unfolding st(1,3,4) by simp
  qed
qed


section \<open>The contract of a stream\<close>

text \<open>
  \<open>upd\<close> feeds bytes to a context, \<open>view\<close> is what the context has worked off and what waits. However the bytes are
  cut into pieces, the result is that of all of them at once.
\<close>

locale block_stream =
  fixes step :: "'h \<Rightarrow> byte list \<Rightarrow> 'h" and B :: nat and upd :: "byte list \<Rightarrow> 's \<Rightarrow> 's" and view :: "'s \<Rightarrow> 'h \<times> byte list"
    and ok :: "'s \<Rightarrow> bool"
  assumes B_pos: "0 < B"
    and ok_pending: "ok s \<Longrightarrow> length (snd (view s)) < B"
    and upd_ok: "ok s \<Longrightarrow> ok (upd d s)"
    and upd_view: "ok s \<Longrightarrow> view (upd d s) = absorb step B (fst (view s)) (snd (view s) @ d)"
begin

lemma updates_ok: "ok s \<Longrightarrow> ok (fold upd ds s)"
  by (induction ds arbitrary: s) (auto intro: upd_ok)

lemma updates_view: "ok s \<Longrightarrow> view (fold upd ds s) = absorb step B (fst (view s)) (snd (view s) @ concat ds)"
proof (induction ds arbitrary: s)
  case Nil
  then show ?case using ok_pending [OF Nil] by (simp add: absorb_small)
next
  case (Cons d ds)
  have "view (fold upd (d # ds) s) = absorb step B (fst (view (upd d s))) (snd (view (upd d s)) @ concat ds)"
    using Cons.IH [OF upd_ok [OF Cons.prems]] by simp
  then show ?case using absorb_append [of step B "fst (view s)" "snd (view s) @ d" "concat ds"] upd_view [OF Cons.prems] by simp
qed

lemma updates_total:
  fixes tot :: "'s \<Rightarrow> u64"
  assumes "ok s" "\<And>d s. ok s \<Longrightarrow> tot (upd d s) = tot s + of_nat (length d)"
  shows "tot (fold upd ds s) = tot s + of_nat (length (concat ds))"
  using assms(1) by (induction ds arbitrary: s) (simp_all add: assms(2) upd_ok add.assoc)

end


section \<open>Padding\<close>

text \<open>\<open>while (c->buf_len != n) update(c, &zero, 1)\<close>\<close>

partial_function (option) pad_zeros :: "(byte list \<Rightarrow> 's \<Rightarrow> 's) \<Rightarrow> ('s \<Rightarrow> nat) \<Rightarrow> nat \<Rightarrow> 's \<Rightarrow> 's option" where
  "pad_zeros upd len n s = (if len s = n then Some s else pad_zeros upd len n (upd [0] s))"

declare pad_zeros.simps [code]

text \<open>How many zeros bring \<open>p\<close> waiting bytes to \<open>n\<close> of a block of \<open>B\<close>.\<close>

definition zeros_to :: "nat \<Rightarrow> nat \<Rightarrow> nat \<Rightarrow> nat" where
  "zeros_to B n p = (if p \<le> n then n - p else B - p + n)"

lemma zeros_to_step: "p < B \<Longrightarrow> n < B \<Longrightarrow> p \<noteq> n \<Longrightarrow> zeros_to B n p = Suc (zeros_to B n (Suc p mod B))"
  by (cases "Suc p = B") (auto simp: zeros_to_def)

text \<open>
  The padding of all these hash functions: a byte 0x80, zeros up to the length field, and the length field, so that blocks
  of \<open>B\<close> bytes come out; \<open>n\<close> bytes of the last one are before the length field.
\<close>

definition md_pad :: "nat \<Rightarrow> nat \<Rightarrow> byte list \<Rightarrow> byte list \<Rightarrow> byte list" where
  "md_pad B n len m = m @ 0x80 # replicate (zeros_to B n (Suc (length m) mod B)) 0 @ len"

lemma md_pad_length:
  assumes "0 < B" "n < B" "length len = B - n"
  shows "B dvd length (md_pad B n len m)"
proof -
  define p where "p = Suc (length m) mod B"
  have p: "p < B" using assms(1) by (simp add: p_def)
  have "p + zeros_to B n p = n \<or> p + zeros_to B n p = B + n" using p by (auto simp: zeros_to_def)
  then have "(p + zeros_to B n p + (B - n)) mod B = 0" using assms(2) by auto
  then have "(Suc (length m) + (zeros_to B n p + (B - n))) mod B = 0" unfolding p_def by (metis add.assoc mod_add_left_eq)
  then show ?thesis using assms(3) by (simp add: md_pad_def p_def mod_eq_0_iff_dvd add.assoc)
qed

locale padded_stream = block_stream step B upd view ok
  for step :: "'h \<Rightarrow> byte list \<Rightarrow> 'h" and B upd and view :: "'s \<Rightarrow> 'h \<times> byte list" and ok +
  fixes len :: "'s \<Rightarrow> nat" and n :: nat
  assumes len_view: "len s = length (snd (view s))" and n_less: "n < B"
begin

lemma pad_zeros_stream:
  "ok s \<Longrightarrow> \<exists>s'. pad_zeros upd len n s = Some s' \<and> ok s' \<and>
    view s' = absorb step B (fst (view s)) (snd (view s) @ replicate (zeros_to B n (length (snd (view s)))) 0)"
proof (induction "zeros_to B n (length (snd (view s)))" arbitrary: s)
  case 0
  then have "length (snd (view s)) = n" using ok_pending [OF 0(2)] n_less by (auto simp: zeros_to_def split: if_splits)
  then show ?case using 0 ok_pending [OF 0(2)] by (simp add: pad_zeros.simps len_view absorb_small)
next
  case (Suc k)
  define p where "p = length (snd (view s))"
  have p: "p < B" using ok_pending [OF Suc.prems] by (simp add: p_def)
  have ne: "p \<noteq> n" using Suc.hyps(2) by (auto simp: p_def zeros_to_def)
  have v: "view (upd [0] s) = absorb step B (fst (view s)) (snd (view s) @ [0])" using upd_view [OF Suc.prems] .
  have l: "length (snd (view (upd [0] s))) = Suc p mod B" using B_pos by (simp add: v p_def)
  have k: "k = zeros_to B n (length (snd (view (upd [0] s))))"
    using Suc.hyps(2) zeros_to_step [OF p n_less ne] l by (simp add: p_def)
  obtain s' where s': "pad_zeros upd len n (upd [0] s) = Some s'" "ok s'"
    "view s' = absorb step B (fst (view (upd [0] s))) (snd (view (upd [0] s)) @ replicate k 0)"
    using Suc.hyps(1) [OF k upd_ok [OF Suc.prems]] k by auto
  have "pad_zeros upd len n s = Some s'" using s'(1) ne by (subst pad_zeros.simps) (simp add: len_view p_def)
  moreover have "view s' = absorb step B (fst (view s)) (snd (view s) @ replicate (Suc k) 0)"
    using s'(3) absorb_append [of step B "fst (view s)" "snd (view s) @ [0]" "replicate k 0"] by (simp add: v)
  ultimately show ?case using s'(2) Suc.hyps(2) by auto
qed

text \<open>The end of a hash: the byte 0x80, the zeros, the length.\<close>

lemma finish_stream:
  assumes "ok s" "view s = absorb step B iv m" "length lenb = B - n"
  shows "\<exists>s'. pad_zeros upd len n (upd [0x80] s) = Some s' \<and> view (upd lenb s') = (foldl step iv (chunks B (md_pad B n lenb m)), [])"
proof -
  have v: "view (upd [0x80] s) = absorb step B iv (m @ [0x80])"
    using upd_view [OF assms(1)] assms(2) absorb_append [of step B iv m "[0x80]"] by simp
  have l: "length (snd (view (upd [0x80] s))) = Suc (length m) mod B" using B_pos by (simp add: v)
  obtain s' where s': "pad_zeros upd len n (upd [0x80] s) = Some s'" "ok s'"
    "view s' = absorb step B (fst (view (upd [0x80] s))) (snd (view (upd [0x80] s)) @ replicate (zeros_to B n (Suc (length m) mod B)) 0)"
    using pad_zeros_stream [OF upd_ok [OF assms(1), of "[0x80]"]] l by auto
  let ?z = "replicate (zeros_to B n (Suc (length m) mod B)) 0"
  have "view s' = absorb step B iv (m @ 0x80 # ?z)"
    using s'(3) absorb_append [of step B iv "m @ [0x80]" ?z] by (simp add: v)
  then have e: "view (upd lenb s') = absorb step B iv (md_pad B n lenb m)"
    using upd_view [OF s'(2), of lenb] absorb_append [of step B iv "m @ 0x80 # ?z" lenb] by (simp add: md_pad_def)
  have "snd (absorb step B iv (md_pad B n lenb m)) = []"
    using md_pad_length [OF B_pos n_less assms(3)] by (simp add: absorb_rest dvd_eq_mod_eq_0)
  then show ?thesis using s'(1) e absorb_chunks [of step B iv] by (metis prod.collapse)
qed

end


section \<open>Keyed hashes\<close>

text \<open>RFC 2104: the keyed hash of a hash function \<open>H\<close> with blocks of \<open>B\<close> bytes.\<close>

definition hmac_key :: "(byte list \<Rightarrow> byte list) \<Rightarrow> nat \<Rightarrow> byte list \<Rightarrow> byte list" where
  "hmac_key H B key = (let k = if length key > B then H key else key in k @ replicate (B - length k) 0)"

definition hmac_spec :: "(byte list \<Rightarrow> byte list) \<Rightarrow> nat \<Rightarrow> byte list \<Rightarrow> byte list \<Rightarrow> byte list" where
  "hmac_spec H B key m =
     H (map (\<lambda>b. b XOR 0x5c) (hmac_key H B key) @ H (map (\<lambda>b. b XOR 0x36) (hmac_key H B key) @ m))"

text \<open>
  The interface of a hash function that takes a message in pieces: \<open>H\<close> is the hash of the message. The keyed hash made of two of
  its contexts is \<open>hmac_spec\<close>.
\<close>

locale stream_hash =
  fixes init :: 's and upd :: "byte list \<Rightarrow> 's \<Rightarrow> 's" and fin :: "'s \<Rightarrow> byte list option" and H :: "byte list \<Rightarrow> byte list"
  assumes fin_updates: "fin (fold upd ds init) = Some (H (concat ds))"
begin

lemma whole: "fin (upd m init) = Some (H m)"
  using fin_updates [of "[m]"] by simp

lemma keyed:
  "do {
     ih \<leftarrow> fin (fold upd ds (upd (map (\<lambda>b. b XOR 0x36) (hmac_key H B key)) init));
     fin (upd ih (upd (map (\<lambda>b. b XOR 0x5c) (hmac_key H B key)) init))
   } = Some (hmac_spec H B key (concat ds))"
  using fin_updates [of "map (\<lambda>b. b XOR 0x36) (hmac_key H B key) # ds"]
    fin_updates [of "[map (\<lambda>b. b XOR 0x5c) (hmac_key H B key), x]" for x]
  by (simp add: hmac_spec_def)

end

text \<open>\<open>memset(k, 0, B)\<close>, then the key or its hash at the front.\<close>

definition key_block :: "nat \<Rightarrow> byte list \<Rightarrow> byte list" where
  "key_block B k = k @ drop (length k) (replicate B 0)"

lemma key_block_key: "key_block B (if B < length key then H key else key) = hmac_key H B key"
  by (simp add: key_block_def hmac_key_def Let_def)

definition xor_bytes :: "byte list \<Rightarrow> byte list \<Rightarrow> byte list" where
  "xor_bytes xs ks = map2 (XOR) xs ks"

lemma xor_bytes_length [simp]: "length (xor_bytes xs ks) = min (length xs) (length ks)"
  by (simp add: xor_bytes_def)

lemma xor_bytes_twice: "length xs \<le> length ks \<Longrightarrow> xor_bytes (xor_bytes xs ks) ks = xs"
proof (induction xs arbitrary: ks)
  case (Cons x xs)
  then show ?case by (cases ks) (auto simp: xor_bytes_def xor.assoc)
qed (simp add: xor_bytes_def)

end
