(* ===== verification/Sha2.thy ===== *)
theory Sha2
  imports Block_Stream
begin

text \<open>
  SHA-256 and SHA-512 (\<open>crypto/sha256.c\<close>, \<open>crypto/sha512.c\<close>) with the contexts that take a message in pieces, and what is built on
  SHA-256: HMAC, HKDF and PBKDF2. An output array is the list the function gives; the loop that adds zeros up to the
  length field is a partial function, so a hash is an option, and the theorems say that it is there.
\<close>

section \<open>SHA-256\<close>

definition K256 :: "u32 list" where
  "K256 = concat
    [[0x428a2f98, 0x71374491, 0xb5c0fbcf, 0xe9b5dba5, 0x3956c25b, 0x59f111f1, 0x923f82a4, 0xab1c5ed5],
     [0xd807aa98, 0x12835b01, 0x243185be, 0x550c7dc3, 0x72be5d74, 0x80deb1fe, 0x9bdc06a7, 0xc19bf174],
     [0xe49b69c1, 0xefbe4786, 0x0fc19dc6, 0x240ca1cc, 0x2de92c6f, 0x4a7484aa, 0x5cb0a9dc, 0x76f988da],
     [0x983e5152, 0xa831c66d, 0xb00327c8, 0xbf597fc7, 0xc6e00bf3, 0xd5a79147, 0x06ca6351, 0x14292967],
     [0x27b70a85, 0x2e1b2138, 0x4d2c6dfc, 0x53380d13, 0x650a7354, 0x766a0abb, 0x81c2c92e, 0x92722c85],
     [0xa2bfe8a1, 0xa81a664b, 0xc24b8b70, 0xc76c51a3, 0xd192e819, 0xd6990624, 0xf40e3585, 0x106aa070],
     [0x19a4c116, 0x1e376c08, 0x2748774c, 0x34b0bcb5, 0x391c0cb3, 0x4ed8aa4a, 0x5b9cca4f, 0x682e6ff3],
     [0x748f82ee, 0x78a5636f, 0x84c87814, 0x8cc70208, 0x90befffa, 0xa4506ceb, 0xbef9a3f7, 0xc67178f2]]"

definition ROR :: "u32 \<Rightarrow> nat \<Rightarrow> u32" where
  "ROR x n = drop_bit n x OR push_bit (32 - n) x"

text \<open>The message schedule: the sixteen words of the block, then \<open>n\<close> more.\<close>

definition load256 :: "byte list \<Rightarrow> u32 list" where
  "load256 p = map (\<lambda>i. be32 (drop (i * 4) p)) [0..<16]"

definition next256 :: "u32 list \<Rightarrow> nat \<Rightarrow> u32" where
  "next256 w i =
     (let s0 = ROR (w ! (i - 15)) 7 XOR ROR (w ! (i - 15)) 18 XOR drop_bit 3 (w ! (i - 15));
          s1 = ROR (w ! (i - 2)) 17 XOR ROR (w ! (i - 2)) 19 XOR drop_bit 10 (w ! (i - 2))
      in w ! (i - 16) + s0 + w ! (i - 7) + s1)"

definition schedule256 :: "byte list \<Rightarrow> u32 list" where
  "schedule256 p = fold (\<lambda>i w. w @ [next256 w i]) [16..<64] (load256 p)"

type_synonym 'w vars = "'w \<times> 'w \<times> 'w \<times> 'w \<times> 'w \<times> 'w \<times> 'w \<times> 'w"

definition round256 :: "u32 list \<Rightarrow> nat \<Rightarrow> u32 vars \<Rightarrow> u32 vars" where
  "round256 w i = (\<lambda>(a, b, c, d, e, f, g, hh).
     let t1 = hh + (ROR e 6 XOR ROR e 11 XOR ROR e 25) + ((e AND f) XOR (NOT e AND g)) + K256 ! i + w ! i;
         t2 = (ROR a 2 XOR ROR a 13 XOR ROR a 22) + ((a AND b) XOR (a AND c) XOR (b AND c))
     in (t1 + t2, a, b, c, d + t1, e, f, g))"

definition compress256 :: "u32 list \<Rightarrow> byte list \<Rightarrow> u32 list" where
  "compress256 h p =
     (case fold (round256 (schedule256 p)) [0..<64] (h ! 0, h ! 1, h ! 2, h ! 3, h ! 4, h ! 5, h ! 6, h ! 7) of
        (a, b, c, d, e, f, g, hh) \<Rightarrow>
          [h ! 0 + a, h ! 1 + b, h ! 2 + c, h ! 3 + d, h ! 4 + e, h ! 5 + f, h ! 6 + g, h ! 7 + hh])"

type_synonym sha256_ctx = "u32 hash_ctx"

definition SHA256_BLOCK :: nat where "SHA256_BLOCK = 64"
definition SHA256_LEN :: nat where "SHA256_LEN = 32"

definition iv256 :: "u32 list" where
  "iv256 = [0x6a09e667, 0xbb67ae85, 0x3c6ef372, 0xa54ff53a, 0x510e527f, 0x9b05688c, 0x1f83d9ab, 0x5be0cd19]"

definition sha256_init :: sha256_ctx where
  "sha256_init = \<lparr>ch = iv256, ctotal = 0, cbuf = []\<rparr>"

function whole256 :: "byte list \<Rightarrow> sha256_ctx \<Rightarrow> sha256_ctx" where
  "whole256 p c =
     (if SHA256_BLOCK \<le> length p then whole256 (drop SHA256_BLOCK p) (c\<lparr>ch := compress256 (ch c) (take SHA256_BLOCK p)\<rparr>)
      else if p \<noteq> [] then c\<lparr>cbuf := p\<rparr> else c)"
  by pat_completeness auto
termination by (relation "measure (\<lambda>(p, c). length p)") (auto simp: SHA256_BLOCK_def)

declare whole256.simps [simp del]

definition sha256_update :: "byte list \<Rightarrow> sha256_ctx \<Rightarrow> sha256_ctx" where
  "sha256_update data c0 =
     (let c = c0\<lparr>ctotal := ctotal c0 + of_nat (length data)\<rparr>
      in if cbuf c \<noteq> [] then
           let n = min (SHA256_BLOCK - length (cbuf c)) (length data);
               c = c\<lparr>cbuf := cbuf c @ take n data\<rparr>
           in if length (cbuf c) < SHA256_BLOCK then c
              else whole256 (drop n data) (c\<lparr>ch := compress256 (ch c) (cbuf c), cbuf := []\<rparr>)
         else whole256 data c)"

definition out256 :: "u32 list \<Rightarrow> byte list" where
  "out256 h = concat (map (\<lambda>i. put_be32 (h ! i)) [0..<8])"

definition sha256_final :: "sha256_ctx \<Rightarrow> byte list option" where
  "sha256_final c0 =
     (let bits = ctotal c0 * 8
      in do {
        c \<leftarrow> pad_zeros sha256_update buf_len 56 (sha256_update [0x80] c0);
        let c = sha256_update (be64_bytes bits) c;
        Some (out256 (ch c))
      })"

definition sha256 :: "byte list \<Rightarrow> byte list option" where
  "sha256 data = sha256_final (sha256_update data sha256_init)"


section \<open>HMAC\<close>

record hmac_sha256_ctx =
  inner :: sha256_ctx
  outer :: sha256_ctx

definition hmac_sha256_init :: "byte list \<Rightarrow> hmac_sha256_ctx option" where
  "hmac_sha256_init key = do {
     k \<leftarrow> (if SHA256_BLOCK < length key then sha256 key else Some key);
     let k = key_block SHA256_BLOCK k;
     Some \<lparr>inner = sha256_update (map (\<lambda>b. b XOR 0x36) k) sha256_init,
           outer = sha256_update (map (\<lambda>b. b XOR 0x5c) k) sha256_init\<rparr>
   }"

definition hmac_sha256_update :: "byte list \<Rightarrow> hmac_sha256_ctx \<Rightarrow> hmac_sha256_ctx" where
  "hmac_sha256_update data c = c\<lparr>inner := sha256_update data (inner c)\<rparr>"

definition hmac_sha256_final :: "hmac_sha256_ctx \<Rightarrow> byte list option" where
  "hmac_sha256_final c = do {
     ih \<leftarrow> sha256_final (inner c);
     sha256_final (sha256_update ih (outer c))
   }"

definition hmac_sha256 :: "byte list \<Rightarrow> byte list \<Rightarrow> byte list option" where
  "hmac_sha256 key data = do {
     c \<leftarrow> hmac_sha256_init key;
     hmac_sha256_final (hmac_sha256_update data c)
   }"


section \<open>HKDF and PBKDF2\<close>

definition hkdf_extract :: "byte list \<Rightarrow> byte list \<Rightarrow> byte list option" where
  "hkdf_extract salt ikm = hmac_sha256 (if salt = [] then replicate SHA256_LEN 0 else salt) ikm"

text \<open>The loop of \<open>hkdf_expand\<close>: \<open>t\<close> is the last block, \<open>want\<close> how many bytes are missing, \<open>k\<close> the counter.\<close>

function expand_loop :: "byte list \<Rightarrow> byte list \<Rightarrow> byte list \<Rightarrow> byte \<Rightarrow> nat \<Rightarrow> byte list option" where
  "expand_loop prk info t k want =
     (if want = 0 then Some []
      else do {
        c \<leftarrow> hmac_sha256_init prk;
        t \<leftarrow> hmac_sha256_final (hmac_sha256_update [k] (hmac_sha256_update info (hmac_sha256_update t c)));
        let n = min want SHA256_LEN;
        rest \<leftarrow> expand_loop prk info t (k + 1) (want - n);
        Some (take n t @ rest)
      })"
  by pat_completeness auto
termination by (relation "measure (\<lambda>(prk, info, t, k, want). want)") (auto simp: SHA256_LEN_def)

declare expand_loop.simps [simp del]

definition hkdf_expand :: "byte list \<Rightarrow> byte list \<Rightarrow> nat \<Rightarrow> byte list option" where
  "hkdf_expand prk info out_len = expand_loop prk info [] 1 out_len"

fun pbkdf2_loop :: "nat \<Rightarrow> hmac_sha256_ctx \<Rightarrow> byte list \<Rightarrow> byte list \<Rightarrow> byte list option" where
  "pbkdf2_loop 0 base u out = Some out"
| "pbkdf2_loop (Suc n) base u out = do {
     u \<leftarrow> hmac_sha256_final (hmac_sha256_update u base);
     pbkdf2_loop n base u (xor_bytes out u)
   }"

definition pbkdf2_sha256 :: "byte list \<Rightarrow> byte list \<Rightarrow> nat \<Rightarrow> byte list option" where
  "pbkdf2_sha256 pw salt iterations = do {
     base \<leftarrow> hmac_sha256_init pw;
     u \<leftarrow> hmac_sha256_final (hmac_sha256_update [0, 0, 0, 1] (hmac_sha256_update salt base));
     pbkdf2_loop (iterations - 1) base u u
   }"


section \<open>SHA-512\<close>

definition K512 :: "u64 list" where
  "K512 = concat
    [[0x428a2f98d728ae22, 0x7137449123ef65cd, 0xb5c0fbcfec4d3b2f, 0xe9b5dba58189dbbc],
     [0x3956c25bf348b538, 0x59f111f1b605d019, 0x923f82a4af194f9b, 0xab1c5ed5da6d8118],
     [0xd807aa98a3030242, 0x12835b0145706fbe, 0x243185be4ee4b28c, 0x550c7dc3d5ffb4e2],
     [0x72be5d74f27b896f, 0x80deb1fe3b1696b1, 0x9bdc06a725c71235, 0xc19bf174cf692694],
     [0xe49b69c19ef14ad2, 0xefbe4786384f25e3, 0x0fc19dc68b8cd5b5, 0x240ca1cc77ac9c65],
     [0x2de92c6f592b0275, 0x4a7484aa6ea6e483, 0x5cb0a9dcbd41fbd4, 0x76f988da831153b5],
     [0x983e5152ee66dfab, 0xa831c66d2db43210, 0xb00327c898fb213f, 0xbf597fc7beef0ee4],
     [0xc6e00bf33da88fc2, 0xd5a79147930aa725, 0x06ca6351e003826f, 0x142929670a0e6e70],
     [0x27b70a8546d22ffc, 0x2e1b21385c26c926, 0x4d2c6dfc5ac42aed, 0x53380d139d95b3df],
     [0x650a73548baf63de, 0x766a0abb3c77b2a8, 0x81c2c92e47edaee6, 0x92722c851482353b],
     [0xa2bfe8a14cf10364, 0xa81a664bbc423001, 0xc24b8b70d0f89791, 0xc76c51a30654be30],
     [0xd192e819d6ef5218, 0xd69906245565a910, 0xf40e35855771202a, 0x106aa07032bbd1b8],
     [0x19a4c116b8d2d0c8, 0x1e376c085141ab53, 0x2748774cdf8eeb99, 0x34b0bcb5e19b48a8],
     [0x391c0cb3c5c95a63, 0x4ed8aa4ae3418acb, 0x5b9cca4f7763e373, 0x682e6ff3d6b2b8a3],
     [0x748f82ee5defb2fc, 0x78a5636f43172f60, 0x84c87814a1f0ab72, 0x8cc702081a6439ec],
     [0x90befffa23631e28, 0xa4506cebde82bde9, 0xbef9a3f7b2c67915, 0xc67178f2e372532b],
     [0xca273eceea26619c, 0xd186b8c721c0c207, 0xeada7dd6cde0eb1e, 0xf57d4f7fee6ed178],
     [0x06f067aa72176fba, 0x0a637dc5a2c898a6, 0x113f9804bef90dae, 0x1b710b35131c471b],
     [0x28db77f523047d84, 0x32caab7b40c72493, 0x3c9ebe0a15c9bebc, 0x431d67c49c100d4c],
     [0x4cc5d4becb3e42b6, 0x597f299cfc657e2a, 0x5fcb6fab3ad6faec, 0x6c44198c4a475817]]"

definition rotr :: "u64 \<Rightarrow> nat \<Rightarrow> u64" where
  "rotr x n = drop_bit n x OR push_bit (64 - n) x"

definition load512 :: "byte list \<Rightarrow> u64 list" where
  "load512 p = map (\<lambda>i. fold (\<lambda>j v. push_bit 8 v OR ucast (p ! (i * 8 + j))) [0..<8] 0) [0..<16]"

definition next512 :: "u64 list \<Rightarrow> nat \<Rightarrow> u64" where
  "next512 w i =
     (let s0 = rotr (w ! (i - 15)) 1 XOR rotr (w ! (i - 15)) 8 XOR drop_bit 7 (w ! (i - 15));
          s1 = rotr (w ! (i - 2)) 19 XOR rotr (w ! (i - 2)) 61 XOR drop_bit 6 (w ! (i - 2))
      in w ! (i - 16) + s0 + w ! (i - 7) + s1)"

definition schedule512 :: "byte list \<Rightarrow> u64 list" where
  "schedule512 p = fold (\<lambda>i w. w @ [next512 w i]) [16..<80] (load512 p)"

definition round512 :: "u64 list \<Rightarrow> nat \<Rightarrow> u64 vars \<Rightarrow> u64 vars" where
  "round512 w i = (\<lambda>(a, b, cc, d, e, f, g, h).
     let S1 = rotr e 14 XOR rotr e 18 XOR rotr e 41;
         chv = (e AND f) XOR (NOT e AND g);
         t1 = h + S1 + chv + K512 ! i + w ! i;
         S0 = rotr a 28 XOR rotr a 34 XOR rotr a 39;
         maj = (a AND b) XOR (a AND cc) XOR (b AND cc);
         t2 = S0 + maj
     in (t1 + t2, a, b, cc, d + t1, e, f, g))"

definition compress512 :: "u64 list \<Rightarrow> byte list \<Rightarrow> u64 list" where
  "compress512 hs p =
     (case fold (round512 (schedule512 p)) [0..<80] (hs ! 0, hs ! 1, hs ! 2, hs ! 3, hs ! 4, hs ! 5, hs ! 6, hs ! 7) of
        (a, b, cc, d, e, f, g, h) \<Rightarrow>
          [hs ! 0 + a, hs ! 1 + b, hs ! 2 + cc, hs ! 3 + d, hs ! 4 + e, hs ! 5 + f, hs ! 6 + g, hs ! 7 + h])"

type_synonym sha512_ctx = "u64 hash_ctx"

definition SHA512_BLOCK :: nat where "SHA512_BLOCK = 128"

definition iv512 :: "u64 list" where
  "iv512 = [0x6a09e667f3bcc908, 0xbb67ae8584caa73b, 0x3c6ef372fe94f82b, 0xa54ff53a5f1d36f1,
     0x510e527fade682d1, 0x9b05688c2b3e6c1f, 0x1f83d9abfb41bd6b, 0x5be0cd19137e2179]"

definition sha512_init :: sha512_ctx where
  "sha512_init = \<lparr>ch = iv512, ctotal = 0, cbuf = []\<rparr>"

definition sha512_update :: "byte list \<Rightarrow> sha512_ctx \<Rightarrow> sha512_ctx" where
  "sha512_update data c = fill compress512 SHA512_BLOCK data (c\<lparr>ctotal := ctotal c + of_nat (length data)\<rparr>)"

definition out512 :: "u64 list \<Rightarrow> byte list" where
  "out512 h = concat (map (\<lambda>i. map (\<lambda>j. ucast (drop_bit (56 - 8 * j) (h ! i))) [0..<8]) [0..<8])"

definition sha512_final :: "sha512_ctx \<Rightarrow> byte list option" where
  "sha512_final c0 =
     (let bits = ctotal c0 * 8
      in do {
        c \<leftarrow> pad_zeros sha512_update buf_len (SHA512_BLOCK - 16) (sha512_update [0x80] c0);
        let c = sha512_update (replicate 8 0 @ rev (map (\<lambda>i. ucast (drop_bit (8 * i) bits)) [0..<8])) c;
        Some (out512 (ch c))
      })"

definition sha512 :: "byte list \<Rightarrow> byte list option" where
  "sha512 data = sha512_final (sha512_update data sha512_init)"


section \<open>Both take a message in pieces\<close>

lemma whole256_view: "cbuf c = [] \<Longrightarrow> ctx_view (whole256 p c) = absorb compress256 SHA256_BLOCK (ch c) p"
proof (induction p c rule: whole256.induct)
  case (1 p c)
  then show ?case
    by (subst whole256.simps, subst absorb.simps) (auto simp: ctx_view_def not_less SHA256_BLOCK_def)
qed

lemma whole256_buf: "cbuf c = [] \<Longrightarrow> buf_len (whole256 p c) < SHA256_BLOCK"
  using arg_cong [OF whole256_view, of c snd p] by (simp add: SHA256_BLOCK_def)

lemma sha256_update_view:
  assumes "buf_len c < SHA256_BLOCK"
  shows "ctx_view (sha256_update d c) = absorb compress256 SHA256_BLOCK (ch c) (cbuf c @ d)"
    and "buf_len (sha256_update d c) < SHA256_BLOCK"
proof -
  show v: "ctx_view (sha256_update d c) = absorb compress256 SHA256_BLOCK (ch c) (cbuf c @ d)"
  proof (cases "cbuf c = []")
    case True
    then show ?thesis by (simp add: sha256_update_def Let_def whole256_view)
  next
    case ne: False
    show ?thesis
    proof (cases "length (cbuf c @ d) < SHA256_BLOCK")
      case True
      then show ?thesis using ne assms by (simp add: sha256_update_def Let_def absorb_small ctx_view_def)
    next
      case False
      let ?n = "SHA256_BLOCK - buf_len c"
      have n: "min ?n (length d) = ?n" using False by simp
      have "absorb compress256 SHA256_BLOCK (ch c) ((cbuf c @ take ?n d) @ drop ?n d) =
          absorb compress256 SHA256_BLOCK (compress256 (ch c) (cbuf c @ take ?n d)) (drop ?n d)"
        using False assms by (intro absorb_block) (auto simp: SHA256_BLOCK_def)
      moreover have "length (cbuf c @ take ?n d) = SHA256_BLOCK" using False assms by simp
      ultimately show ?thesis using ne n by (simp add: sha256_update_def Let_def whole256_view)
    qed
  qed
  have "cbuf (sha256_update d c) = snd (absorb compress256 SHA256_BLOCK (ch c) (cbuf c @ d))"
    using arg_cong [OF v, of snd] by simp
  then show "buf_len (sha256_update d c) < SHA256_BLOCK" by (simp add: SHA256_BLOCK_def)
qed

interpretation sha256_ctx: padded_stream compress256 SHA256_BLOCK sha256_update ctx_view "\<lambda>c. buf_len c < SHA256_BLOCK" buf_len 56
  by unfold_locales (simp_all add: sha256_update_view, simp_all add: SHA256_BLOCK_def)

lemma whole256_total [simp]: "ctotal (whole256 p c) = ctotal c"
  by (induction p c rule: whole256.induct) (subst whole256.simps, simp)

lemma sha256_update_total [simp]: "ctotal (sha256_update d c) = ctotal c + of_nat (length d)"
  by (simp add: sha256_update_def Let_def)

interpretation sha512_ctx: padded_stream compress512 SHA512_BLOCK sha512_update ctx_view "\<lambda>c. buf_len c < SHA512_BLOCK" buf_len "SHA512_BLOCK - 16"
  using fill_view [where B = SHA512_BLOCK and blk = compress512]
  by unfold_locales (simp_all add: sha512_update_def, simp_all add: SHA512_BLOCK_def)


text \<open>FIPS 180-4: the padded message, block by block.\<close>

definition sha256_spec :: "byte list \<Rightarrow> byte list" where
  "sha256_spec m = out256 (foldl compress256 iv256 (chunks 64 (md_pad 64 56 (be64_bytes (of_nat (8 * length m))) m)))"

definition sha512_spec :: "byte list \<Rightarrow> byte list" where
  "sha512_spec m =
     out512 (foldl compress512 iv512 (chunks 128 (md_pad 128 112 (replicate 8 0 @ be64_bytes (of_nat (8 * length m))) m)))"

text \<open>A context that has taken the message \<open>m\<close> ends with its hash.\<close>

lemma sha256_final_spec:
  assumes "buf_len c < SHA256_BLOCK" "ctx_view c = absorb compress256 SHA256_BLOCK iv256 m" "ctotal c = of_nat (length m)"
  shows "sha256_final c = Some (sha256_spec m)"
proof -
  have b: "of_nat (8 * length m) = ctotal c * 8" by (simp add: assms(3) mult.commute)
  obtain s where s: "pad_zeros sha256_update buf_len 56 (sha256_update [0x80] c) = Some s"
    "ctx_view (sha256_update (be64_bytes (ctotal c * 8)) s) =
      (foldl compress256 iv256 (chunks SHA256_BLOCK (md_pad SHA256_BLOCK 56 (be64_bytes (ctotal c * 8)) m)), [])"
    using sha256_ctx.finish_stream [OF assms(1,2), of "be64_bytes (ctotal c * 8)"] by (auto simp: SHA256_BLOCK_def)
  show ?thesis using s unfolding sha256_spec_def b by (simp add: sha256_final_def SHA256_BLOCK_def ctx_view_def)
qed

lemma sha512_final_spec:
  assumes "buf_len c < SHA512_BLOCK" "ctx_view c = absorb compress512 SHA512_BLOCK iv512 m" "ctotal c = of_nat (length m)"
  shows "sha512_final c = Some (sha512_spec m)"
proof -
  let ?l = "replicate 8 0 @ be64_bytes (ctotal c * 8)"
  have b: "of_nat (8 * length m) = ctotal c * 8" by (simp add: assms(3) mult.commute)
  have r: "replicate 8 0 @ rev (map (\<lambda>i. ucast (drop_bit (8 * i) (ctotal c * 8))) [0..<8]) = ?l"
    by (simp add: be64_bytes_def upt_rec)
  obtain s where s: "pad_zeros sha512_update buf_len (SHA512_BLOCK - 16) (sha512_update [0x80] c) = Some s"
    "ctx_view (sha512_update ?l s) = (foldl compress512 iv512 (chunks SHA512_BLOCK (md_pad SHA512_BLOCK (SHA512_BLOCK - 16) ?l m)), [])"
    using sha512_ctx.finish_stream [OF assms(1,2), of ?l] by (auto simp: SHA512_BLOCK_def)
  show ?thesis using s unfolding sha512_final_def Let_def r sha512_spec_def b by (simp add: SHA512_BLOCK_def ctx_view_def)
qed

lemma sha256_updates:
  "sha256_final (fold sha256_update ds sha256_init) = Some (sha256_spec (concat ds))"
proof (rule sha256_final_spec)
  have i: "buf_len sha256_init < SHA256_BLOCK" by (simp add: sha256_init_def SHA256_BLOCK_def)
  show "buf_len (fold sha256_update ds sha256_init) < SHA256_BLOCK" by (rule sha256_ctx.updates_ok [OF i])
  show "ctx_view (fold sha256_update ds sha256_init) = absorb compress256 SHA256_BLOCK iv256 (concat ds)"
    using sha256_ctx.updates_view [OF i] by (simp add: ctx_view_def sha256_init_def)
  show "ctotal (fold sha256_update ds sha256_init) = of_nat (length (concat ds))"
    using sha256_ctx.updates_total [OF i, of ctotal] by (simp add: sha256_init_def)
qed

lemma sha512_update_total: "buf_len c < SHA512_BLOCK \<Longrightarrow> ctotal (sha512_update d c) = ctotal c + of_nat (length d)"
  by (simp add: sha512_update_def fill_view)

lemma sha512_updates:
  "sha512_final (fold sha512_update ds sha512_init) = Some (sha512_spec (concat ds))"
proof (rule sha512_final_spec)
  have i: "buf_len sha512_init < SHA512_BLOCK" by (simp add: sha512_init_def SHA512_BLOCK_def)
  show "buf_len (fold sha512_update ds sha512_init) < SHA512_BLOCK" by (rule sha512_ctx.updates_ok [OF i])
  show "ctx_view (fold sha512_update ds sha512_init) = absorb compress512 SHA512_BLOCK iv512 (concat ds)"
    using sha512_ctx.updates_view [OF i] by (simp add: ctx_view_def sha512_init_def)
  show "ctotal (fold sha512_update ds sha512_init) = of_nat (length (concat ds))"
    using sha512_ctx.updates_total [OF i, of ctotal] by (simp add: sha512_update_total) (simp add: sha512_init_def)
qed

interpretation sha256_hash: stream_hash sha256_init sha256_update sha256_final sha256_spec
  by unfold_locales (rule sha256_updates)

interpretation sha512_hash: stream_hash sha512_init sha512_update sha512_final sha512_spec
  by unfold_locales (rule sha512_updates)

lemma out256_length [simp]: "length (out256 h) = 32"
  by (simp add: out256_def length_concat o_def sum_list_triv)

lemma sha256_spec_length [simp]: "length (sha256_spec m) = 32"
  unfolding sha256_spec_def by (rule out256_length)


section \<open>The keyed hash and the key derivations\<close>

text \<open>The context of the keyed hash after the pieces \<open>ds\<close>.\<close>

definition hmac_ctx :: "byte list \<Rightarrow> byte list list \<Rightarrow> hmac_sha256_ctx" where
  "hmac_ctx key ds =
     \<lparr>inner = fold sha256_update (map (\<lambda>b. b XOR 0x36) (hmac_key sha256_spec 64 key) # ds) sha256_init,
      outer = sha256_update (map (\<lambda>b. b XOR 0x5c) (hmac_key sha256_spec 64 key)) sha256_init\<rparr>"

lemma hmac_init_ctx: "hmac_sha256_init key = Some (hmac_ctx key [])"
proof -
  have "(if SHA256_BLOCK < length key then sha256 key else Some key) = Some (if 64 < length key then sha256_spec key else key)"
    by (simp add: SHA256_BLOCK_def sha256_def sha256_hash.whole)
  then show ?thesis by (simp add: hmac_sha256_init_def hmac_ctx_def SHA256_BLOCK_def Let_def key_block_key)
qed

lemma hmac_update_ctx: "hmac_sha256_update d (hmac_ctx key ds) = hmac_ctx key (ds @ [d])"
  by (simp add: hmac_sha256_update_def hmac_ctx_def)

lemma hmac_final_ctx: "hmac_sha256_final (hmac_ctx key ds) = Some (hmac_spec sha256_spec 64 key (concat ds))"
  using sha256_hash.keyed [of ds 64 key] by (simp add: hmac_sha256_final_def hmac_ctx_def)

lemmas hmac_run = hmac_init_ctx hmac_update_ctx hmac_final_ctx

abbreviation hmac256 :: "byte list \<Rightarrow> byte list \<Rightarrow> byte list" where
  "hmac256 \<equiv> hmac_spec sha256_spec 64"

lemma hmac256_length [simp]: "length (hmac256 k m) = 32"
  by (simp add: hmac_spec_def)

text \<open>RFC 5869: \<open>T(i) = HMAC(PRK, T(i-1) | info | i)\<close>, and the blocks from \<open>T(k)\<close> on.\<close>

fun hkdf_T :: "byte list \<Rightarrow> byte list \<Rightarrow> nat \<Rightarrow> byte list" where
  "hkdf_T prk info 0 = []"
| "hkdf_T prk info (Suc i) = hmac256 prk (hkdf_T prk info i @ info @ [of_nat (Suc i)])"

definition hkdf_stream :: "byte list \<Rightarrow> byte list \<Rightarrow> nat \<Rightarrow> nat \<Rightarrow> byte list" where
  "hkdf_stream prk info k n = concat (map (hkdf_T prk info) [k..<k + n])"

lemma hkdf_stream_Suc: "hkdf_stream prk info k (Suc n) = hkdf_T prk info k @ hkdf_stream prk info (Suc k) n"
  by (simp add: hkdf_stream_def upt_conv_Cons del: upt_Suc)

lemma hkdf_stream_add: "hkdf_stream prk info i (m + j) = hkdf_stream prk info i m @ hkdf_stream prk info (i + m) j"
  using upt_add_eq_append [of i "i + m" j] by (simp add: hkdf_stream_def add.assoc)

lemma hkdf_stream_long: "0 < i \<Longrightarrow> m \<le> length (hkdf_stream prk info i m)"
proof (induction m arbitrary: i)
  case (Suc m)
  have "length (hkdf_T prk info i) = 32" using Suc.prems by (cases i) auto
  then show ?case using Suc.IH [of "Suc i"] by (simp add: hkdf_stream_Suc)
qed simp

lemma hkdf_stream_take: "0 < i \<Longrightarrow> take m (hkdf_stream prk info i (m + j)) = take m (hkdf_stream prk info i m)"
  using hkdf_stream_long [of i m prk info] by (simp add: hkdf_stream_add)

lemma expand_loop_stream:
  "expand_loop prk info (hkdf_T prk info k) (of_nat (Suc k)) want = Some (take want (hkdf_stream prk info (Suc k) want))"
proof (induction want arbitrary: k rule: less_induct)
  case (less want)
  show ?case
  proof (cases want)
    case 0
    then show ?thesis by (simp add: expand_loop.simps)
  next
    case (Suc w)
    let ?n = "min want SHA256_LEN"
    have n: "?n \<le> want" "0 < ?n" using Suc by (auto simp: SHA256_LEN_def)
    have ih: "expand_loop prk info (hkdf_T prk info (Suc k)) (of_nat (Suc (Suc k))) (want - ?n) =
        Some (take (want - ?n) (hkdf_stream prk info (Suc (Suc k)) (want - ?n)))"
      using less [of "want - ?n" "Suc k"] n by simp
    have tl: "length (hkdf_T prk info (Suc k)) = SHA256_LEN" by (simp add: SHA256_LEN_def)
    have long: "take m (hkdf_stream prk info i (m + j)) = take m (hkdf_stream prk info i m)" if "0 < i" for m i j
      using hkdf_stream_take [OF that] by blast
    have "take want (hkdf_stream prk info (Suc k) want) =
        take ?n (hkdf_T prk info (Suc k)) @ take (want - ?n) (hkdf_stream prk info (Suc (Suc k)) w)"
      using tl Suc by (auto simp: hkdf_stream_Suc min_def)
    also have "take (want - ?n) (hkdf_stream prk info (Suc (Suc k)) w) = take (want - ?n) (hkdf_stream prk info (Suc (Suc k)) (want - ?n))"
      using long [of "Suc (Suc k)" "want - ?n" "?n - 1"] n Suc by simp
    finally have r: "take want (hkdf_stream prk info (Suc k) want) =
        take ?n (hkdf_T prk info (Suc k)) @ take (want - ?n) (hkdf_stream prk info (Suc (Suc k)) (want - ?n))" .
    have "expand_loop prk info (hkdf_T prk info k) (of_nat (Suc k)) want = do {
        rest \<leftarrow> expand_loop prk info (hkdf_T prk info (Suc k)) (of_nat (Suc (Suc k))) (want - ?n);
        Some (take ?n (hkdf_T prk info (Suc k)) @ rest) }"
      using Suc by (subst expand_loop.simps) (simp add: hmac_run Let_def add.commute)
    then show ?thesis using ih r by simp
  qed
qed

text \<open>RFC 8018: \<open>U(1) = HMAC(P, S | 1)\<close>, \<open>U(i + 1) = HMAC(P, U(i))\<close>, and the sum of the first \<open>c\<close>.\<close>

fun pbkdf2_U :: "byte list \<Rightarrow> byte list \<Rightarrow> nat \<Rightarrow> byte list" where
  "pbkdf2_U pw salt 0 = hmac256 pw (salt @ [0, 0, 0, 1])"
| "pbkdf2_U pw salt (Suc i) = hmac256 pw (pbkdf2_U pw salt i)"

definition pbkdf2_sum :: "byte list \<Rightarrow> byte list \<Rightarrow> nat \<Rightarrow> byte list" where
  "pbkdf2_sum pw salt c = foldl xor_bytes (pbkdf2_U pw salt 0) (map (pbkdf2_U pw salt) [1..<c])"

lemma pbkdf2_loop_sum:
  "pbkdf2_loop n (hmac_ctx pw []) (pbkdf2_U pw salt i) out = Some (foldl xor_bytes out (map (pbkdf2_U pw salt) [Suc i..<Suc i + n]))"
proof (induction n arbitrary: i out)
  case (Suc n)
  have "hmac_sha256_final (hmac_sha256_update (pbkdf2_U pw salt i) (hmac_ctx pw [])) = Some (pbkdf2_U pw salt (Suc i))"
    by (simp add: hmac_run)
  then show ?case using Suc.IH [of "Suc i" "xor_bytes out (pbkdf2_U pw salt (Suc i))"]
    by (simp add: upt_conv_Cons [of "Suc i"] del: upt_Suc pbkdf2_U.simps)
qed simp


section \<open>Properties\<close>

text \<open>
  C27. However a message is cut into pieces, SHA-256 and SHA-512 end, and give the hash of FIPS 180-4: the padded message through the
  compression function, block by block.
\<close>

theorem sha2_stream:
  "sha256_final (fold sha256_update ds sha256_init) = Some (sha256_spec (concat ds)) \<and>
   sha512_final (fold sha512_update ds sha512_init) = Some (sha512_spec (concat ds)) \<and>
   sha256 m = Some (sha256_spec m) \<and> sha512 m = Some (sha512_spec m) \<and>
   64 dvd length (md_pad 64 56 (be64_bytes (of_nat (8 * length m))) m) \<and>
   128 dvd length (md_pad 128 112 (replicate 8 0 @ be64_bytes (of_nat (8 * length m))) m)"
  by (auto simp: sha256_updates sha512_updates sha256_def sha512_def sha256_hash.whole sha512_hash.whole intro!: md_pad_length)

text \<open>
  The functions on top of SHA-256 are those of their standards: HMAC of RFC 2104, with the message in pieces too, HKDF of RFC
  5869, the first block of PBKDF2 of RFC 8018; none of them fails.
\<close>

lemma sha256_keyed:
  "hmac_sha256 key m = Some (hmac256 key m) \<and>
   do { c \<leftarrow> hmac_sha256_init key; hmac_sha256_final (fold hmac_sha256_update ds c) } = Some (hmac256 key (concat ds)) \<and>
   hkdf_extract salt m = Some (hmac256 (if salt = [] then replicate 32 0 else salt) m) \<and>
   hkdf_expand prk info n = Some (take n (hkdf_stream prk info 1 n)) \<and>
   pbkdf2_sha256 pw salt c = Some (pbkdf2_sum pw salt c)"
proof (intro conjI)
  have h: "hmac_sha256 k x = Some (hmac256 k x)" for k x by (simp add: hmac_sha256_def hmac_run)
  show "hmac_sha256 key m = Some (hmac256 key m)" by (rule h)
  have "fold hmac_sha256_update ds (hmac_ctx key es) = hmac_ctx key (es @ ds)" for es
    by (induction ds arbitrary: es) (simp_all add: hmac_update_ctx)
  then show "do { c \<leftarrow> hmac_sha256_init key; hmac_sha256_final (fold hmac_sha256_update ds c) } = Some (hmac256 key (concat ds))"
    by (simp add: hmac_init_ctx hmac_final_ctx)
  show "hkdf_extract salt m = Some (hmac256 (if salt = [] then replicate 32 0 else salt) m)"
    by (simp add: hkdf_extract_def h SHA256_LEN_def)
  show "hkdf_expand prk info n = Some (take n (hkdf_stream prk info 1 n))"
    using expand_loop_stream [of prk info 0 n] by (simp add: hkdf_expand_def)
  have "[1..<c] = [Suc 0..<Suc 0 + (c - 1)]" by (cases c) auto
  then show "pbkdf2_sha256 pw salt c = Some (pbkdf2_sum pw salt c)"
    using pbkdf2_loop_sum [of "c - 1" pw salt 0] by (simp add: pbkdf2_sha256_def hmac_run pbkdf2_sum_def del: upt_Suc)
qed

end
