(* ===== verification/Md5.thy ===== *)
theory Md5
  imports Block_Stream "HOL-Library.Multiset"
begin

text \<open>
  What NTLM is made of (\<open>crypto/md5.c\<close>): MD5 and MD4 over the same context, HMAC-MD5, and the stream cipher RC4.
\<close>

section \<open>The compression functions\<close>

definition ROL :: "u32 \<Rightarrow> nat \<Rightarrow> u32" where
  "ROL x n = push_bit n x OR drop_bit (32 - n) x"

definition words_le :: "byte list \<Rightarrow> u32 list" where
  "words_le p = map (\<lambda>i. le32 (drop (4 * i) p)) [0..<16]"

definition K5 :: "u32 list" where
  "K5 =
    [0xd76aa478, 0xe8c7b756, 0x242070db, 0xc1bdceee, 0xf57c0faf, 0x4787c62a, 0xa8304613, 0xfd469501,
     0x698098d8, 0x8b44f7af, 0xffff5bb1, 0x895cd7be, 0x6b901122, 0xfd987193, 0xa679438e, 0x49b40821,
     0xf61e2562, 0xc040b340, 0x265e5a51, 0xe9b6c7aa, 0xd62f105d, 0x02441453, 0xd8a1e681, 0xe7d3fbc8,
     0x21e1cde6, 0xc33707d6, 0xf4d50d87, 0x455a14ed, 0xa9e3e905, 0xfcefa3f8, 0x676f02d9, 0x8d2a4c8a,
     0xfffa3942, 0x8771f681, 0x6d9d6122, 0xfde5380c, 0xa4beea44, 0x4bdecfa9, 0xf6bb4b60, 0xbebfbc70,
     0x289b7ec6, 0xeaa127fa, 0xd4ef3085, 0x04881d05, 0xd9d4d039, 0xe6db99e5, 0x1fa27cf8, 0xc4ac5665,
     0xf4292244, 0x432aff97, 0xab9423a7, 0xfc93a039, 0x655b59c3, 0x8f0ccc92, 0xffeff47d, 0x85845dd1,
     0x6fa87e4f, 0xfe2ce6e0, 0xa3014314, 0x4e0811a1, 0xf7537e82, 0xbd3af235, 0x2ad7d2bb, 0xeb86d391]"

definition R5 :: "nat list" where
  "R5 =
    [7, 12, 17, 22, 7, 12, 17, 22, 7, 12, 17, 22, 7, 12, 17, 22,
     5, 9, 14, 20, 5, 9, 14, 20, 5, 9, 14, 20, 5, 9, 14, 20,
     4, 11, 16, 23, 4, 11, 16, 23, 4, 11, 16, 23, 4, 11, 16, 23,
     6, 10, 15, 21, 6, 10, 15, 21, 6, 10, 15, 21, 6, 10, 15, 21]"

definition md5_round :: "u32 list \<Rightarrow> nat \<Rightarrow> u32 \<times> u32 \<times> u32 \<times> u32 \<Rightarrow> u32 \<times> u32 \<times> u32 \<times> u32" where
  "md5_round m i = (\<lambda>(a, b, c, d).
     let (f, g) = (if i < 16 then ((b AND c) OR (NOT b AND d), i)
                   else if i < 32 then ((d AND b) OR (NOT d AND c), (5 * i + 1) mod 16)
                   else if i < 48 then (b XOR c XOR d, (3 * i + 5) mod 16)
                   else (c XOR (b OR NOT d), (7 * i) mod 16))
     in (d, b + ROL (a + f + K5 ! i + m ! g) (R5 ! i), b, c))"

definition md5_block :: "u32 list \<Rightarrow> byte list \<Rightarrow> u32 list" where
  "md5_block h p =
     (case fold (md5_round (words_le p)) [0..<64] (h ! 0, h ! 1, h ! 2, h ! 3) of
        (a, b, c, d) \<Rightarrow> [h ! 0 + a, h ! 1 + b, h ! 2 + c, h ! 3 + d])"

text \<open>The three rounds of MD4, each sixteen steps.\<close>

definition md4_step :: "(u32 \<Rightarrow> u32 \<Rightarrow> u32 \<Rightarrow> u32) \<Rightarrow> u32 \<Rightarrow> nat list \<Rightarrow> (nat \<Rightarrow> nat) \<Rightarrow> u32 list \<Rightarrow> nat \<Rightarrow>
    u32 \<times> u32 \<times> u32 \<times> u32 \<Rightarrow> u32 \<times> u32 \<times> u32 \<times> u32" where
  "md4_step fn k s ord x i = (\<lambda>(a, b, c, d).
     let t = a + fn b c d + x ! ord i + k in (d, ROL t (s ! (i mod 4)), b, c))"

definition md4_F :: "u32 \<Rightarrow> u32 \<Rightarrow> u32 \<Rightarrow> u32" where
  "md4_F x y z = (x AND y) OR (NOT x AND z)"

definition md4_G :: "u32 \<Rightarrow> u32 \<Rightarrow> u32 \<Rightarrow> u32" where
  "md4_G x y z = (x AND y) OR (x AND z) OR (y AND z)"

definition md4_H :: "u32 \<Rightarrow> u32 \<Rightarrow> u32 \<Rightarrow> u32" where
  "md4_H x y z = x XOR y XOR z"

definition o3 :: "nat list" where
  "o3 = [0, 8, 4, 12, 2, 10, 6, 14, 1, 9, 5, 13, 3, 11, 7, 15]"

definition md4_block :: "u32 list \<Rightarrow> byte list \<Rightarrow> u32 list" where
  "md4_block h p =
     (let x = words_le p;
          v = fold (md4_step md4_F 0 [3, 7, 11, 19] (\<lambda>i. i) x) [0..<16] (h ! 0, h ! 1, h ! 2, h ! 3);
          v = fold (md4_step md4_G 0x5A827999 [3, 5, 9, 13] (\<lambda>i. (i mod 4) * 4 + i div 4) x) [0..<16] v
      in case fold (md4_step md4_H 0x6ED9EBA1 [3, 9, 11, 15] (\<lambda>i. o3 ! i) x) [0..<16] v of
           (a, b, c, d) \<Rightarrow> [h ! 0 + a, h ! 1 + b, h ! 2 + c, h ! 3 + d])"


section \<open>Contexts\<close>

type_synonym md5_ctx = "u32 hash_ctx"

definition ctx_init :: md5_ctx where
  "ctx_init = \<lparr>ch = [0x67452301, 0xefcdab89, 0x98badcfe, 0x10325476], ctotal = 0, cbuf = []\<rparr>"

definition ctx_update :: "(u32 list \<Rightarrow> byte list \<Rightarrow> u32 list) \<Rightarrow> byte list \<Rightarrow> md5_ctx \<Rightarrow> md5_ctx" where
  "ctx_update blk data c = fill blk 64 data (c\<lparr>ctotal := ctotal c + of_nat (length data)\<rparr>)"

definition le64_bytes :: "u64 \<Rightarrow> byte list" where
  "le64_bytes v = map (\<lambda>i. ucast (drop_bit (8 * i) v)) [0..<8]"

definition out_md :: "u32 list \<Rightarrow> byte list" where
  "out_md h = concat (map (\<lambda>i. map (\<lambda>j. ucast (drop_bit (8 * j) (h ! i))) [0..<4]) [0..<4])"

definition ctx_final :: "(u32 list \<Rightarrow> byte list \<Rightarrow> u32 list) \<Rightarrow> md5_ctx \<Rightarrow> byte list option" where
  "ctx_final blk c0 =
     (let bits = ctotal c0 * 8
      in do {
        c \<leftarrow> pad_zeros (ctx_update blk) buf_len 56 (ctx_update blk [0x80] c0);
        let c = ctx_update blk (le64_bytes bits) c;
        Some (out_md (ch c))
      })"

definition md5_init :: md5_ctx where
  "md5_init = ctx_init"

definition md5_update :: "byte list \<Rightarrow> md5_ctx \<Rightarrow> md5_ctx" where
  "md5_update = ctx_update md5_block"

definition md5_final :: "md5_ctx \<Rightarrow> byte list option" where
  "md5_final = ctx_final md5_block"

definition md5 :: "byte list \<Rightarrow> byte list option" where
  "md5 data = md5_final (md5_update data md5_init)"

definition md4 :: "byte list \<Rightarrow> byte list option" where
  "md4 data = ctx_final md4_block (ctx_update md4_block data ctx_init)"

record hmac_md5_ctx =
  inner5 :: md5_ctx
  outer5 :: md5_ctx

definition hmac_md5_init :: "byte list \<Rightarrow> hmac_md5_ctx option" where
  "hmac_md5_init key = do {
     k \<leftarrow> (if 64 < length key then md5 key else Some key);
     let k = key_block 64 k;
     Some \<lparr>inner5 = md5_update (map (\<lambda>b. b XOR 0x36) k) md5_init,
           outer5 = md5_update (map (\<lambda>b. b XOR 0x5c) k) md5_init\<rparr>
   }"

definition hmac_md5_update :: "byte list \<Rightarrow> hmac_md5_ctx \<Rightarrow> hmac_md5_ctx" where
  "hmac_md5_update data c = c\<lparr>inner5 := md5_update data (inner5 c)\<rparr>"

definition hmac_md5_final :: "hmac_md5_ctx \<Rightarrow> byte list option" where
  "hmac_md5_final c = do {
     ih \<leftarrow> md5_final (inner5 c);
     md5_final (md5_update ih (outer5 c))
   }"

definition hmac_md5 :: "byte list \<Rightarrow> byte list \<Rightarrow> byte list option" where
  "hmac_md5 key data = do {
     c \<leftarrow> hmac_md5_init key;
     hmac_md5_final (hmac_md5_update data c)
   }"


section \<open>RC4\<close>

record rc4 =
  rs :: "byte list"
  ri :: byte
  rj :: byte

definition swap_at :: "nat \<Rightarrow> nat \<Rightarrow> byte list \<Rightarrow> byte list" where
  "swap_at i j s = s[i := s ! j, j := s ! i]"

text \<open>An empty key would be a division by zero.\<close>

definition rc4_init :: "byte list \<Rightarrow> rc4 option" where
  "rc4_init key = (if key = [] then None else
      let (s, j) = fold (\<lambda>i (s, j). let j = j + s ! i + key ! (i mod length key) in (swap_at i (unat j) s, j))
                     [0..<256] (map of_nat [0..<256], 0)
      in Some \<lparr>rs = s, ri = 0, rj = 0\<rparr>)"

text \<open>One byte of the key stream, and the state after it.\<close>

definition rc4_next :: "rc4 \<Rightarrow> byte \<times> rc4" where
  "rc4_next r =
     (let i = ri r + 1;
          j = rj r + rs r ! unat i;
          s = swap_at (unat i) (unat j) (rs r)
      in (s ! unat (s ! unat i + s ! unat j), r\<lparr>rs := s, ri := i, rj := j\<rparr>))"

fun rc4_crypt :: "byte list \<Rightarrow> rc4 \<Rightarrow> byte list \<times> rc4" where
  "rc4_crypt [] r = ([], r)"
| "rc4_crypt (b # buf) r =
     (let (k, r) = rc4_next r; (out, r) = rc4_crypt buf r in ((b XOR k) # out, r))"


section \<open>The hash functions\<close>

definition md_spec :: "(u32 list \<Rightarrow> byte list \<Rightarrow> u32 list) \<Rightarrow> byte list \<Rightarrow> byte list" where
  "md_spec blk m =
     out_md (foldl blk [0x67452301, 0xefcdab89, 0x98badcfe, 0x10325476]
       (chunks 64 (md_pad 64 56 (le64_bytes (of_nat (8 * length m))) m)))"

interpretation md_ctx: padded_stream blk 64 "ctx_update blk" ctx_view "\<lambda>c. buf_len c < 64" buf_len 56 for blk
  using fill_view [where B = 64 and blk = blk] by unfold_locales (simp_all add: ctx_update_def)

lemma ctx_updates:
  "ctx_final blk (fold (ctx_update blk) ds ctx_init) = Some (md_spec blk (concat ds))"
proof -
  define c where "c = fold (ctx_update blk) ds ctx_init"
  have i: "buf_len ctx_init < 64" by (simp add: ctx_init_def)
  have l: "buf_len c < 64" using md_ctx.updates_ok [OF i] by (simp add: c_def)
  have v: "ctx_view c = absorb blk 64 [0x67452301, 0xefcdab89, 0x98badcfe, 0x10325476] (concat ds)"
    using md_ctx.updates_view [OF i] by (simp add: c_def ctx_init_def)
  have "ctotal c = of_nat (length (concat ds))"
    using md_ctx.updates_total [OF i, of ctotal] unfolding c_def by (simp add: ctx_update_def fill_view) (simp add: ctx_init_def)
  then have b: "of_nat (8 * length (concat ds)) = ctotal c * 8" by (simp add: mult.commute)
  have ll: "length (le64_bytes (ctotal c * 8)) = 64 - 56" by (simp add: le64_bytes_def)
  show ?thesis using md_ctx.finish_stream [OF l v ll] unfolding c_def [symmetric] md_spec_def b
    by (auto simp: ctx_final_def Let_def ctx_view_def)
qed

interpretation md5_hash: stream_hash md5_init md5_update md5_final "md_spec md5_block"
  by unfold_locales (simp add: ctx_updates md5_init_def md5_update_def md5_final_def)

interpretation md4_hash: stream_hash ctx_init "ctx_update md4_block" "ctx_final md4_block" "md_spec md4_block"
  by unfold_locales (rule ctx_updates)

lemma hmac_md5_spec:
  "do { c \<leftarrow> hmac_md5_init key; hmac_md5_final (fold hmac_md5_update ds c) } = Some (hmac_spec (md_spec md5_block) 64 key (concat ds))"
proof -
  have k: "(if 64 < length key then md5 key else Some key) = Some (if 64 < length key then md_spec md5_block key else key)"
    by (simp add: md5_def md5_hash.whole)
  have u: "fold hmac_md5_update ds c = c\<lparr>inner5 := fold md5_update ds (inner5 c)\<rparr>" for c
    by (induction ds arbitrary: c) (simp_all add: hmac_md5_update_def)
  show ?thesis using md5_hash.keyed [of ds 64 key]
    by (simp add: hmac_md5_init_def k key_block_key u hmac_md5_final_def Let_def)
qed


section \<open>The key stream\<close>

definition rc4_ok :: "rc4 \<Rightarrow> bool" where
  "rc4_ok r \<longleftrightarrow> mset (rs r) = mset (map of_nat [0..<256])"

lemma swap_mset: "i < length s \<Longrightarrow> j < length s \<Longrightarrow> mset (swap_at i j s) = mset s"
  unfolding swap_at_def by (rule mset_swap)

lemma rc4_ok_length: "rc4_ok r \<Longrightarrow> length (rs r) = 256"
  unfolding rc4_ok_def by (drule mset_eq_length) simp

lemma byte_index: "unat (b :: byte) < 256"
  using unsigned_less [of b] by simp

lemma rc4_next_ok: "rc4_ok r \<Longrightarrow> rc4_ok (snd (rc4_next r))"
  using rc4_ok_length [of r] by (simp add: rc4_ok_def rc4_next_def Let_def swap_mset byte_index)

lemma rc4_init_ok: "key \<noteq> [] \<Longrightarrow> \<exists>r. rc4_init key = Some r \<and> rc4_ok r"
proof -
  assume "key \<noteq> []"
  let ?f = "\<lambda>i (s, j). let j = j + s ! i + key ! (i mod length key) in (swap_at i (unat j) s, j)"
  have "mset (fst (fold ?f is (s, j))) = mset s" if "\<forall>i\<in>set is. i < 256" "length s = 256" for "is" s j
    using that
  proof (induction "is" arbitrary: s j)
    case (Cons i "is")
    have "mset (swap_at i k s) = mset s" if "k < 256" for k using Cons.prems that by (simp add: swap_mset)
    then show ?case using Cons.IH Cons.prems by (simp add: Let_def byte_index swap_at_def)
  qed simp
  from this [of "[0..<256]" "map of_nat [0..<256]" 0] \<open>key \<noteq> []\<close> show ?thesis
    by (simp add: rc4_ok_def rc4_init_def case_prod_beta)
qed

fun rc4_keystream :: "nat \<Rightarrow> rc4 \<Rightarrow> byte list" where
  "rc4_keystream 0 r = []"
| "rc4_keystream (Suc n) r = fst (rc4_next r) # rc4_keystream n (snd (rc4_next r))"

lemma rc4_keystream_length [simp]: "length (rc4_keystream n r) = n"
  by (induction n arbitrary: r) auto

lemma rc4_crypt_xor: "rc4_crypt xs r = (xor_bytes xs (rc4_keystream (length xs) r), ((snd \<circ> rc4_next) ^^ length xs) r)"
  by (induction xs arbitrary: r) (simp_all add: Let_def case_prod_beta xor_bytes_def funpow_swap1)

lemma rc4_crypt_append:
  "rc4_crypt (xs @ ys) r = (fst (rc4_crypt xs r) @ fst (rc4_crypt ys (snd (rc4_crypt xs r))), snd (rc4_crypt ys (snd (rc4_crypt xs r))))"
  by (induction xs arbitrary: r) (simp_all add: Let_def case_prod_beta)


section \<open>Properties\<close>

text \<open>
  C28. MD5, MD4 and HMAC-MD5 end for every message, however it is cut into pieces, and give the padded message through the
  compression function, and RFC 2104 over MD5.
\<close>

theorem md5_stream:
  "md5_final (fold md5_update ds md5_init) = Some (md_spec md5_block (concat ds)) \<and>
   md5 m = Some (md_spec md5_block m) \<and> md4 m = Some (md_spec md4_block m) \<and>
   hmac_md5 key m = Some (hmac_spec (md_spec md5_block) 64 key m) \<and>
   do { c \<leftarrow> hmac_md5_init key; hmac_md5_final (fold hmac_md5_update ds c) } = Some (hmac_spec (md_spec md5_block) 64 key (concat ds))"
  using hmac_md5_spec [of key "[m]"]
  by (simp add: md5_hash.fin_updates md5_def md5_hash.whole md4_def md4_hash.whole hmac_md5_spec hmac_md5_def)

text \<open>
  RC4: the state set up from a key is a permutation of the bytes and stays one; the stream goes on across calls; and decrypting
  from the state the sender began with gives the text back and leaves both in the same state.
\<close>

lemma rc4_roundtrip:
  assumes "key \<noteq> []"
  shows "\<exists>r. rc4_init key = Some r \<and> rc4_ok (snd (rc4_crypt xs r)) \<and>
    rc4_crypt (xs @ ys) r = (case rc4_crypt xs r of (x, r) \<Rightarrow> case rc4_crypt ys r of (y, r) \<Rightarrow> (x @ y, r)) \<and>
    rc4_crypt (fst (rc4_crypt (xs @ ys) r)) r = (xs @ ys, snd (rc4_crypt (xs @ ys) r))"
proof -
  obtain r where r: "rc4_init key = Some r" "rc4_ok r" using rc4_init_ok [OF assms] by blast
  have "rc4_ok r \<Longrightarrow> rc4_ok (snd (rc4_crypt xs r))" for r
    by (induction xs arbitrary: r) (simp_all add: Let_def case_prod_beta rc4_next_ok)
  then have "rc4_ok (snd (rc4_crypt xs r))" using r(2) .
  moreover have "rc4_crypt (xs @ ys) r = (case rc4_crypt xs r of (x, r) \<Rightarrow> case rc4_crypt ys r of (y, r) \<Rightarrow> (x @ y, r))"
    by (simp add: rc4_crypt_append case_prod_beta)
  moreover have "rc4_crypt (fst (rc4_crypt zs r)) r = (zs, snd (rc4_crypt zs r))" for zs
    by (simp add: rc4_crypt_xor xor_bytes_twice)
  ultimately show ?thesis using r(1) by blast
qed

end
