(* ===== verification/Ciphers.thy ===== *)
theory Ciphers
  imports Block_Stream
begin

text \<open>
  What the ciphers share: the comparison that takes the same time for every difference, the loop that adds a key stream block by
  block, and the contract of an authenticated cipher as a locale, made of a key stream and a tag.
\<close>

section \<open>Comparing tags\<close>

definition ct_memcmp :: "byte list \<Rightarrow> byte list \<Rightarrow> nat \<Rightarrow> byte" where
  "ct_memcmp x y len = fold (\<lambda>i d. d OR (x ! i XOR y ! i)) [0..<len] 0"

lemma or_eq_0: "a OR b = 0 \<longleftrightarrow> a = 0 \<and> b = (0 :: 'a :: len word)"
  by (auto simp: bit_eq_iff bit_simps)

lemma xor_eq_0: "a XOR b = 0 \<longleftrightarrow> a = (b :: 'a :: len word)"
  by (auto simp: bit_eq_iff bit_simps)

lemma ct_memcmp_0: "ct_memcmp x y len = 0 \<longleftrightarrow> (\<forall>i < len. x ! i = y ! i)"
proof -
  have "fold (\<lambda>i d. d OR (x ! i XOR y ! i)) ks d = 0 \<longleftrightarrow> d = 0 \<and> (\<forall>i \<in> set ks. x ! i = y ! i)" for ks d
    by (induction ks arbitrary: d) (auto simp: or_eq_0 xor_eq_0)
  then show ?thesis by (auto simp: ct_memcmp_def)
qed

lemma ct_memcmp_eq: "length x = n \<Longrightarrow> length y = n \<Longrightarrow> ct_memcmp x y n = 0 \<longleftrightarrow> x = y"
  by (auto simp: ct_memcmp_0 intro: nth_equalityI)


section \<open>Key streams\<close>

text \<open>
  \<open>while (len) { block(ks); n = len < B ? len : B; buf[0..n) ^= ks; buf += n; len -= n; }\<close> with the counter \<open>c\<close> going on by \<open>nxt\<close>.
\<close>

function ctr_xor :: "('c \<Rightarrow> byte list) \<Rightarrow> ('c \<Rightarrow> 'c) \<Rightarrow> nat \<Rightarrow> 'c \<Rightarrow> byte list \<Rightarrow> byte list" where
  "ctr_xor ks nxt B c buf =
     (if buf = [] \<or> B = 0 then buf else xor_bytes (take B buf) (ks c) @ ctr_xor ks nxt B (nxt c) (drop B buf))"
  by pat_completeness auto
termination by (relation "measure (\<lambda>(ks, nxt, B, c, buf). length buf)") auto

declare ctr_xor.simps [simp del]

lemma ctr_xor_Nil [simp]: "ctr_xor ks nxt B c [] = []"
  by (simp add: ctr_xor.simps)

lemma ctr_xor_length [simp]: "(\<And>c. length (ks c) = B) \<Longrightarrow> length (ctr_xor ks nxt B c buf) = length buf"
proof (induction ks nxt B c buf rule: ctr_xor.induct)
  case (1 ks nxt B c buf)
  then show ?case by (cases "buf = [] \<or> B = 0") (simp_all add: ctr_xor.simps [of ks nxt B c buf])
qed

text \<open>The whole key stream, and that the loop adds it.\<close>

fun keystream :: "('c \<Rightarrow> byte list) \<Rightarrow> ('c \<Rightarrow> 'c) \<Rightarrow> nat \<Rightarrow> 'c \<Rightarrow> byte list" where
  "keystream ks nxt 0 c = []"
| "keystream ks nxt (Suc n) c = ks c @ keystream ks nxt n (nxt c)"

lemma ctr_xor_keystream:
  assumes "\<And>c. length (ks c) = B" "0 < B"
  shows "length buf \<le> n * B \<Longrightarrow> ctr_xor ks nxt B c buf = xor_bytes buf (keystream ks nxt n c)"
proof (induction n arbitrary: c buf)
  case 0
  then show ?case by (simp add: ctr_xor.simps xor_bytes_def)
next
  case (Suc n)
  show ?case
  proof (cases "buf = []")
    case True
    then show ?thesis by (simp add: ctr_xor.simps xor_bytes_def)
  next
    case False
    have ih: "ctr_xor ks nxt B (nxt c) (drop B buf) = xor_bytes (drop B buf) (keystream ks nxt n (nxt c))"
      using Suc by simp
    have "xor_bytes buf (ks c @ keystream ks nxt n (nxt c)) =
        xor_bytes (take B buf) (ks c) @ xor_bytes (drop B buf) (keystream ks nxt n (nxt c))"
      by (simp add: xor_bytes_def zip_append2 assms(1))
    then show ?thesis using False assms ih by (simp add: ctr_xor.simps [of ks nxt B c buf])
  qed
qed

lemma ctr_xor_twice:
  assumes "\<And>c. length (ks c) = B"
  shows "ctr_xor ks nxt B c (ctr_xor ks nxt B c buf) = buf"
proof (induction "length buf" arbitrary: c buf rule: less_induct)
  case less
  show ?case
  proof (cases "buf = [] \<or> B = 0")
    case True
    then show ?thesis by (simp add: ctr_xor.simps)
  next
    case False
    let ?r = "ctr_xor ks nxt B (nxt c) (drop B buf)"
    have ih: "ctr_xor ks nxt B (nxt c) ?r = drop B buf" using False by (intro less) simp
    have e: "ctr_xor ks nxt B c buf = xor_bytes (take B buf) (ks c) @ ?r" using False by (simp add: ctr_xor.simps [of ks nxt B c buf])
    have l: "length (xor_bytes (take B buf) (ks c)) = min (length buf) B" by (simp add: assms)
    have "length (xor_bytes (take B buf) (ks c)) = B \<or> ?r = [] \<and> length (xor_bytes (take B buf) (ks c)) \<le> B"
      by (cases "length buf \<le> B") (simp_all add: assms)
    then have s: "take B (xor_bytes (take B buf) (ks c) @ ?r) = xor_bytes (take B buf) (ks c)" "drop B (xor_bytes (take B buf) (ks c) @ ?r) = ?r"
      by fastforce+
    have "0 < length (xor_bytes (take B buf) (ks c))" unfolding l using False by simp
    then have ne: "xor_bytes (take B buf) (ks c) @ ?r \<noteq> []" by (metis append_is_Nil_conv length_greater_0_conv)
    have "ctr_xor ks nxt B c (ctr_xor ks nxt B c buf) = xor_bytes (xor_bytes (take B buf) (ks c)) (ks c) @ ctr_xor ks nxt B (nxt c) ?r"
      unfolding e using ne False by (subst ctr_xor.simps) (simp only: s de_Morgan_disj simp_thms if_False)
    also have "\<dots> = take B buf @ drop B buf" unfolding ih using xor_bytes_twice [of "take B buf" "ks c"] by (simp add: assms)
    finally show ?thesis by simp
  qed
qed


section \<open>Pieces\<close>

text \<open>A text in pieces of \<open>B\<close> bytes, the last one possibly shorter.\<close>

function pieces :: "nat \<Rightarrow> byte list \<Rightarrow> byte list list" where
  "pieces B xs = (if B = 0 \<or> xs = [] then [] else take B xs # pieces B (drop B xs))"
  by pat_completeness auto
termination by (relation "measure (\<lambda>(B, xs). length xs)") auto

declare pieces.simps [simp del]


section \<open>Authenticated ciphers\<close>

text \<open>
  A cipher that encrypts with a key stream and puts a tag over the associated data and the cipher text. \<open>seal\<close> gives the cipher
  text and the tag, \<open>open_seal\<close> the result code and the buffer.
\<close>

locale aead =
  fixes crypt :: "byte list \<Rightarrow> byte list" and tag :: "byte list \<Rightarrow> byte list \<Rightarrow> byte list"
    and seal :: "byte list \<Rightarrow> byte list \<Rightarrow> byte list \<times> byte list" and unseal :: "byte list \<Rightarrow> byte list \<Rightarrow> byte list \<Rightarrow> int \<times> byte list"
  assumes crypt_twice: "crypt (crypt x) = x"
    and tag_length: "length (tag aad c) = 16"
    and seal: "seal aad p = (crypt p, tag aad (crypt p))"
    and unseal: "unseal aad c t = (if ct_memcmp (tag aad c) t 16 \<noteq> 0 then (-1, c) else (0, crypt c))"
begin

lemma unseal_seal: "unseal aad (fst (seal aad p)) (snd (seal aad p)) = (0, p)"
  by (simp add: seal unseal ct_memcmp_0 crypt_twice)

lemma unseal_iff: "length t = 16 \<Longrightarrow> unseal aad c t = (if t = tag aad c then (0, crypt c) else (-1, c))"
  using ct_memcmp_eq [OF tag_length, of t aad c] by (auto simp: unseal)

lemma unseal_sealed: "length t = 16 \<Longrightarrow> fst (unseal aad c t) = 0 \<Longrightarrow> \<exists>p. seal aad p = (c, t) \<and> unseal aad c t = (0, p)"
  using unseal_iff [of t aad c] crypt_twice by (auto simp: seal split: if_splits)

end

end
