(* ===== verification/Poly1305.thy ===== *)
theory Poly1305
  imports Block_Stream
begin

text \<open>
  Poly1305 (\<open>crypto/aead.c\<close>): the accumulator in five 26-bit limbs, 64-bit products with delayed carries, and the final reduction
  without branches, against the arithmetic modulo \<open>2^130 - 5\<close> that RFC 8439 defines.
\<close>

section \<open>The code\<close>

record poly1305 =
  p_r :: "u32 list"
  p_s :: "u32 list"
  p_h :: "u32 list"
  p_buf :: "byte list"

definition poly_init :: "byte list \<Rightarrow> poly1305" where
  "poly_init key =
     \<lparr>p_r = [le32 key AND 0x3ffffff,
             drop_bit 2 (le32 (drop 3 key)) AND 0x3ffff03,
             drop_bit 4 (le32 (drop 6 key)) AND 0x3ffc0ff,
             drop_bit 6 (le32 (drop 9 key)) AND 0x3f03fff,
             drop_bit 8 (le32 (drop 12 key)) AND 0x00fffff],
      p_s = map (\<lambda>i. le32 (drop (16 + 4 * i) key)) [0..<4],
      p_h = [0, 0, 0, 0, 0], p_buf = []\<rparr>"

text \<open>The three steps of \<open>poly_block\<close>: the block added to the limbs, the products, the carries.\<close>

definition poly_add :: "u32 list \<Rightarrow> byte list \<Rightarrow> u32 \<Rightarrow> u32 list" where
  "poly_add h m hibit =
     [h ! 0 + (le32 m AND 0x3ffffff),
      h ! 1 + (drop_bit 2 (le32 (drop 3 m)) AND 0x3ffffff),
      h ! 2 + (drop_bit 4 (le32 (drop 6 m)) AND 0x3ffffff),
      h ! 3 + (drop_bit 6 (le32 (drop 9 m)) AND 0x3ffffff),
      h ! 4 + (drop_bit 8 (le32 (drop 12 m)) OR hibit)]"

definition mul64 :: "u32 \<Rightarrow> u32 \<Rightarrow> u64" where
  "mul64 a b = ucast a * ucast b"

definition poly_mul :: "u32 list \<Rightarrow> u32 list \<Rightarrow> u64 list" where
  "poly_mul h r =
     (let r0 = r ! 0; r1 = r ! 1; r2 = r ! 2; r3 = r ! 3; r4 = r ! 4;
          s1 = r1 * 5; s2 = r2 * 5; s3 = r3 * 5; s4 = r4 * 5;
          h0 = h ! 0; h1 = h ! 1; h2 = h ! 2; h3 = h ! 3; h4 = h ! 4
      in [mul64 h0 r0 + mul64 h1 s4 + mul64 h2 s3 + mul64 h3 s2 + mul64 h4 s1,
          mul64 h0 r1 + mul64 h1 r0 + mul64 h2 s4 + mul64 h3 s3 + mul64 h4 s2,
          mul64 h0 r2 + mul64 h1 r1 + mul64 h2 r0 + mul64 h3 s4 + mul64 h4 s3,
          mul64 h0 r3 + mul64 h1 r2 + mul64 h2 r1 + mul64 h3 r0 + mul64 h4 s4,
          mul64 h0 r4 + mul64 h1 r3 + mul64 h2 r2 + mul64 h3 r1 + mul64 h4 r0])"

definition poly_carry :: "u64 list \<Rightarrow> u32 list" where
  "poly_carry d =
     (let d0 = d ! 0;
          c = ucast (drop_bit 26 d0) :: u32; h0 = ucast d0 AND 0x3ffffff;
          d1 = d ! 1 + ucast c; c = ucast (drop_bit 26 d1) :: u32; h1 = ucast d1 AND 0x3ffffff;
          d2 = d ! 2 + ucast c; c = ucast (drop_bit 26 d2) :: u32; h2 = ucast d2 AND 0x3ffffff;
          d3 = d ! 3 + ucast c; c = ucast (drop_bit 26 d3) :: u32; h3 = ucast d3 AND 0x3ffffff;
          d4 = d ! 4 + ucast c; c = ucast (drop_bit 26 d4) :: u32; h4 = ucast d4 AND 0x3ffffff;
          h0 = h0 + c * 5; c = drop_bit 26 h0; h0 = h0 AND 0x3ffffff;
          h1 = h1 + c
      in [h0, h1, h2, h3, h4])"

definition poly_block :: "poly1305 \<Rightarrow> byte list \<Rightarrow> u32 \<Rightarrow> poly1305" where
  "poly_block p m hibit = p\<lparr>p_h := poly_carry (poly_mul (poly_add (p_h p) m hibit) (p_r p))\<rparr>"

function poly_whole :: "byte list \<Rightarrow> poly1305 \<Rightarrow> poly1305" where
  "poly_whole m p =
     (if 16 \<le> length m then poly_whole (drop 16 m) (poly_block p (take 16 m) (push_bit 24 1))
      else if m \<noteq> [] then p\<lparr>p_buf := m\<rparr> else p)"
  by pat_completeness auto
termination by (relation "measure (\<lambda>(m, p). length m)") auto

declare poly_whole.simps [simp del]

definition poly_update :: "byte list \<Rightarrow> poly1305 \<Rightarrow> poly1305" where
  "poly_update m p =
     (if p_buf p \<noteq> [] then
        let n = min (16 - length (p_buf p)) (length m);
            p = p\<lparr>p_buf := p_buf p @ take n m\<rparr>
        in if length (p_buf p) < 16 then p
           else poly_whole (drop n m) ((poly_block p (p_buf p) (push_bit 24 1))\<lparr>p_buf := []\<rparr>)
      else poly_whole m p)"

text \<open>The steps of \<open>poly_finish\<close>: the last block, the carries, the choice between \<open>h\<close> and \<open>h - p\<close>, the words, the sum with \<open>s\<close>.\<close>

definition poly_last :: "poly1305 \<Rightarrow> poly1305" where
  "poly_last p =
     (if p_buf p \<noteq> []
      then (poly_block p (p_buf p @ 1 # replicate (15 - length (p_buf p)) 0) 0)\<lparr>p_buf := []\<rparr> else p)"

definition poly_reduce :: "u32 list \<Rightarrow> u32 list" where
  "poly_reduce h =
     (let h0 = h ! 0; h1 = h ! 1; h2 = h ! 2; h3 = h ! 3; h4 = h ! 4;
          c = drop_bit 26 h1; h1 = h1 AND 0x3ffffff;
          h2 = h2 + c; c = drop_bit 26 h2; h2 = h2 AND 0x3ffffff;
          h3 = h3 + c; c = drop_bit 26 h3; h3 = h3 AND 0x3ffffff;
          h4 = h4 + c; c = drop_bit 26 h4; h4 = h4 AND 0x3ffffff;
          h0 = h0 + c * 5; c = drop_bit 26 h0; h0 = h0 AND 0x3ffffff;
          h1 = h1 + c
      in [h0, h1, h2, h3, h4])"

definition poly_select :: "u32 list \<Rightarrow> u32 list" where
  "poly_select h =
     (let h0 = h ! 0; h1 = h ! 1; h2 = h ! 2; h3 = h ! 3; h4 = h ! 4;
          g0 = h0 + 5; c = drop_bit 26 g0; g0 = g0 AND 0x3ffffff;
          g1 = h1 + c; c = drop_bit 26 g1; g1 = g1 AND 0x3ffffff;
          g2 = h2 + c; c = drop_bit 26 g2; g2 = g2 AND 0x3ffffff;
          g3 = h3 + c; c = drop_bit 26 g3; g3 = g3 AND 0x3ffffff;
          g4 = h4 + c - push_bit 26 1;
          msk = drop_bit 31 g4 - 1;
          nmsk = NOT msk
      in [(h0 AND nmsk) OR (g0 AND msk), (h1 AND nmsk) OR (g1 AND msk), (h2 AND nmsk) OR (g2 AND msk),
          (h3 AND nmsk) OR (g3 AND msk), (h4 AND nmsk) OR (g4 AND msk)])"

definition poly_pack :: "u32 list \<Rightarrow> u32 list" where
  "poly_pack h =
     [h ! 0 OR push_bit 26 (h ! 1),
      drop_bit 6 (h ! 1) OR push_bit 20 (h ! 2),
      drop_bit 12 (h ! 2) OR push_bit 14 (h ! 3),
      drop_bit 18 (h ! 3) OR push_bit 8 (h ! 4)]"

definition poly_sum :: "u32 list \<Rightarrow> u32 list \<Rightarrow> u32 list" where
  "poly_sum h s =
     (let f0 = ucast (h ! 0) + ucast (s ! 0) :: u64;
          f1 = ucast (h ! 1) + ucast (s ! 1) + drop_bit 32 f0;
          f2 = ucast (h ! 2) + ucast (s ! 2) + drop_bit 32 f1;
          f3 = ucast (h ! 3) + ucast (s ! 3) + drop_bit 32 f2
      in [ucast f0, ucast f1, ucast f2, ucast f3])"

definition poly_finish :: "poly1305 \<Rightarrow> byte list" where
  "poly_finish p = concat (map put_le32 (poly_sum (poly_pack (poly_select (poly_reduce (p_h (poly_last p))))) (p_s p)))"

definition poly1305_mac :: "byte list \<Rightarrow> byte list \<Rightarrow> byte list" where
  "poly1305_mac msg key = poly_finish (poly_update msg (poly_init key))"


section \<open>Numbers from bytes\<close>

fun le_num :: "byte list \<Rightarrow> nat" where
  "le_num [] = 0"
| "le_num (b # bs) = unat b + 256 * le_num bs"

lemma unat_byte_less: "unat (b :: byte) < 256"
  using unsigned_less [of b] by simp

lemma le_num_less: "le_num bs < 256 ^ length bs"
proof (induction bs)
  case (Cons b bs)
  have "unat b + 256 * le_num bs < 256 * Suc (le_num bs)" using unat_byte_less [of b] by simp
  also have "\<dots> \<le> 256 * 256 ^ length bs" using Cons.IH by (intro mult_le_mono2) simp
  finally show ?case by simp
qed simp

lemma le_num_bound: "length m \<le> k \<Longrightarrow> le_num m < 2 ^ (8 * k)"
  using order.strict_trans2 [OF le_num_less [of m] power_increasing [of "length m" k "256 :: nat"]] by (simp add: power_mult)

lemma le_num_append: "le_num (xs @ ys) = le_num xs + 256 ^ length xs * le_num ys"
  by (induction xs) (simp_all add: algebra_simps)

lemma le_num_drop: "le_num (drop k m) = drop_bit (8 * k) (le_num m)"
proof (cases "k \<le> length m")
  case True
  have "le_num m = le_num (take k m) + 256 ^ k * le_num (drop k m)"
    using le_num_append [of "take k m" "drop k m"] True by simp
  moreover have "le_num (take k m) < 256 ^ k" using le_num_less [of "take k m"] True by simp
  ultimately show ?thesis by (simp add: drop_bit_eq_div power_mult)
next
  case False
  then have "le_num m < 2 ^ (8 * k)" by (intro le_num_bound) simp
  then show ?thesis using False by (simp add: drop_bit_eq_div)
qed

lemma le_num_take: "le_num (take k m) = take_bit (8 * k) (le_num m)"
proof (cases "k \<le> length m")
  case True
  have "le_num m = le_num (take k m) + 256 ^ k * le_num (drop k m)"
    using le_num_append [of "take k m" "drop k m"] True by simp
  moreover have "le_num (take k m) < 256 ^ k" using le_num_less [of "take k m"] True by simp
  ultimately show ?thesis by (simp add: take_bit_eq_mod power_mult)
next
  case False
  then have "le_num m < 2 ^ (8 * k)" by (intro le_num_bound) simp
  then show ?thesis using False by (simp add: take_bit_eq_mod)
qed

lemma unat_le32:
  assumes "4 \<le> length m"
  shows "unat (le32 m) = take_bit 32 (le_num m)"
proof -
  obtain a b c d r where m: "m = a # b # c # d # r" using assms by (auto simp: numeral_eq_Suc Suc_le_length_iff)
  let ?b = "push_bit 8 (ucast b) :: u32" and ?c = "push_bit 16 (ucast c) :: u32" and ?d = "push_bit 24 (ucast d) :: u32"
  have "?c OR ?d = ?c + ?d" "?b OR (?c OR ?d) = ?b + (?c OR ?d)" "ucast a OR (?b OR ?c OR ?d) = ucast a + (?b OR ?c OR ?d)"
    by (rule disjunctive_add_eq_or [symmetric], rule bit_word_eqI, auto simp: bit_simps dest!: bit_imp_le_length)+
  then have "le32 m = ucast a + (?b + (?c + ?d))" by (simp add: m le32_def)
  define N where "N = le_num [a, b, c, d]"
  have "le32 m = of_nat N" using \<open>le32 m = _\<close> by (simp add: N_def push_bit_eq_mult algebra_simps)
  moreover have "N < 2 ^ 32" using le_num_less [of "[a, b, c, d]"] by (simp add: N_def)
  ultimately have "unat (le32 m) = N" by (simp add: unat_of_nat)
  then have "unat (le32 m) = le_num (take 4 m)" by (simp add: m N_def)
  then show ?thesis using le_num_take [of 4 m] by simp
qed


section \<open>One block\<close>

lemma low26: "x AND 0x3ffffff = take_bit 26 (x :: 'a :: len word)"
  by (simp add: take_bit_eq_mask mask_eq_exp_minus_1)

lemma unat_low26: "unat (x AND 0x3ffffff) = unat (x :: u32) mod 2 ^ 26"
  unfolding low26 unsigned_take_bit_eq by (simp add: take_bit_eq_mod)

lemma unat_carry: "unat (drop_bit 26 x) = unat (x :: u32) div 2 ^ 26"
  by (simp add: drop_bit_eq_div unat_div)

lemma unat_low64: "unat ((ucast (d :: u64) :: u32) AND 0x3ffffff) = unat d mod 2 ^ 26"
  unfolding low26 unsigned_take_bit_eq unsigned_ucast_eq by simp (simp add: take_bit_eq_mod)

lemma unat_carry64: "unat d < 2 ^ 58 \<Longrightarrow> unat (ucast (drop_bit 26 (d :: u64)) :: u32) = unat d div 2 ^ 26"
proof -
  assume "unat d < 2 ^ 58"
  then have "unat d div 2 ^ 26 < 2 ^ 32" by (simp add: div_less_iff_less_mult)
  then show ?thesis by (simp add: unsigned_ucast_eq drop_bit_eq_div unat_div take_bit_eq_mod)
qed

lemma unat_ucast64 [simp]: "unat (ucast (x :: u32) :: u64) = unat x"
proof -
  have "unat x < 2 ^ LENGTH(32)" by (rule unsigned_less)
  then show ?thesis by (simp add: unsigned_ucast_eq take_bit_eq_mod)
qed

lemma unat_plus64: "unat a + unat b < 2 ^ 64 \<Longrightarrow> unat (a + b :: u64) = unat a + unat b"
  using unat_add_lem [of a b] by simp

lemma unat_plus32: "unat a + unat b < 2 ^ 32 \<Longrightarrow> unat (a + b :: u32) = unat a + unat b"
  using unat_add_lem [of a b] by simp

lemma unat_mul64: "unat (mul64 a b) = unat a * unat b"
proof -
  have "unat a * unat b < 2 ^ 32 * 2 ^ 32"
    using unsigned_less [of a] unsigned_less [of b] by (intro mult_strict_mono) auto
  then show ?thesis using unat_mult_lem [of "ucast a :: u64" "ucast b"] by (simp add: mul64_def)
qed

text \<open>The number in the limbs, the prime, and the bounds of the limbs between the blocks.\<close>

definition val5 :: "nat list \<Rightarrow> nat" where
  "val5 h = h ! 0 + 2 ^ 26 * h ! 1 + 2 ^ 52 * h ! 2 + 2 ^ 78 * h ! 3 + 2 ^ 104 * h ! 4"

definition P1305 :: nat where
  "P1305 = 2 ^ 130 - 5"

definition limbs :: "u32 list \<Rightarrow> nat list" where
  "limbs h = map unat h"

definition h_ok :: "u32 list \<Rightarrow> bool" where
  "h_ok h \<longleftrightarrow> length h = 5 \<and> unat (h ! 0) < 2 ^ 26 \<and> unat (h ! 1) < 2 ^ 26 + 64 \<and> unat (h ! 2) < 2 ^ 26 \<and>
     unat (h ! 3) < 2 ^ 26 \<and> unat (h ! 4) < 2 ^ 26"

definition r_ok :: "u32 list \<Rightarrow> bool" where
  "r_ok r \<longleftrightarrow> length r = 5 \<and> (\<forall>i < 5. unat (r ! i) < 2 ^ 26)"

definition sum_ok :: "u32 list \<Rightarrow> bool" where
  "sum_ok h \<longleftrightarrow> length h = 5 \<and> (\<forall>i < 5. unat (h ! i) < 2 ^ 27 + 64)"

lemma all_less_5: "(\<forall>i < 5. Q i) \<longleftrightarrow> Q 0 \<and> Q 1 \<and> Q 2 \<and> Q 3 \<and> Q (4 :: nat)"
proof -
  have "i < 5 \<longleftrightarrow> i = 0 \<or> i = 1 \<or> i = 2 \<or> i = 3 \<or> i = 4" for i :: nat by auto
  then show ?thesis by auto
qed

text \<open>The products modulo the prime: the limbs that go past \<open>2^130\<close> come back times 5.\<close>

definition prods :: "nat list \<Rightarrow> nat list \<Rightarrow> nat list" where
  "prods h r =
     [h ! 0 * r ! 0 + 5 * (h ! 1 * r ! 4 + h ! 2 * r ! 3 + h ! 3 * r ! 2 + h ! 4 * r ! 1),
      h ! 0 * r ! 1 + h ! 1 * r ! 0 + 5 * (h ! 2 * r ! 4 + h ! 3 * r ! 3 + h ! 4 * r ! 2),
      h ! 0 * r ! 2 + h ! 1 * r ! 1 + h ! 2 * r ! 0 + 5 * (h ! 3 * r ! 4 + h ! 4 * r ! 3),
      h ! 0 * r ! 3 + h ! 1 * r ! 2 + h ! 2 * r ! 1 + h ! 3 * r ! 0 + 5 * (h ! 4 * r ! 4),
      h ! 0 * r ! 4 + h ! 1 * r ! 3 + h ! 2 * r ! 2 + h ! 3 * r ! 1 + h ! 4 * r ! 0]"

lemma prods_mod: "\<exists>k. val5 h * val5 r = val5 (prods h r) + k * P1305"
proof -
  let ?B = "2 ^ 26 :: int"
  let ?k = "h ! 1 * r ! 4 + h ! 2 * r ! 3 + h ! 3 * r ! 2 + h ! 4 * r ! 1 + 2 ^ 26 * (h ! 2 * r ! 4 + h ! 3 * r ! 3 + h ! 4 * r ! 2) +
    2 ^ 52 * (h ! 3 * r ! 4 + h ! 4 * r ! 3) + 2 ^ 78 * (h ! 4 * r ! 4)"
  have "val5 h * val5 r = val5 (prods h r) + ?k * P1305"
    unfolding val5_def prods_def P1305_def by (simp add: algebra_simps)
  then show ?thesis by blast
qed

lemma row_sum:
  assumes "unat a \<le> T" "unat b \<le> T" "unat c \<le> T" "unat d \<le> T" "unat e \<le> T" "T \<le> 45036017748541440"
  shows "unat (a + b + c + d + e :: u64) = unat a + unat b + unat c + unat d + unat e"
proof -
  have "unat (a + b) = unat a + unat b" using assms by (intro unat_plus64) simp
  moreover from this have "unat (a + b + c) = unat a + unat b + unat c" using assms by (subst unat_plus64) simp_all
  moreover from this have "unat (a + b + c + d) = unat a + unat b + unat c + unat d" using assms by (subst unat_plus64) simp_all
  ultimately show ?thesis using assms by (subst unat_plus64) simp_all
qed

lemma row_le:
  assumes "unat a \<le> T" "unat b \<le> T" "unat c \<le> T" "unat d \<le> T" "unat e \<le> T" "T \<le> 45036017748541440"
  shows "unat (a + b + c + d + e :: u64) \<le> 5 * T"
  using row_sum [OF assms] assms by simp

lemma mul_bound:
  assumes "unat a < 2 ^ 27 + 64" "unat b \<le> k * 2 ^ 26"
  shows "unat (mul64 a b) \<le> k * 9007203549708288"
proof -
  have "unat a * unat b \<le> (2 ^ 27 + 64) * (k * 2 ^ 26)" using assms by (intro mult_le_mono) auto
  then show ?thesis by (simp add: unat_mul64)
qed

lemma poly_mul_prods:
  assumes "sum_ok h" "r_ok r"
  shows "map unat (poly_mul h r) = prods (limbs h) (limbs r)"
    and "\<forall>i < 5. unat (poly_mul h r ! i) \<le> 225180088742707200" and "unat (poly_mul h r ! 4) \<le> 45036017748541440"
proof -
  have h: "unat (h ! 0) < 2 ^ 27 + 64" "unat (h ! 1) < 2 ^ 27 + 64" "unat (h ! 2) < 2 ^ 27 + 64" "unat (h ! 3) < 2 ^ 27 + 64"
    "unat (h ! 4) < 2 ^ 27 + 64" using assms(1) by (auto simp: sum_ok_def all_less_5)
  have r: "unat (r ! i) \<le> 2 ^ 26" if "i < 5" for i using assms(2) that by (auto simp: r_ok_def less_imp_le)
  have five: "unat (r ! i * 5) = 5 * unat (r ! i)" if "i < 5" for i
    using unat_mult_lem [of "r ! i" 5] r [OF that] by (simp add: mult.commute)
  have t: "unat (mul64 (h ! j) (r ! i)) \<le> 9007203549708288" "unat (mul64 (h ! j) (r ! i)) \<le> 45036017748541440"
      "unat (mul64 (h ! j) (r ! i * 5)) \<le> 45036017748541440" if "i < 5" "j < 5" for i j
    using mul_bound [of "h ! j" "r ! i" 1] mul_bound [of "h ! j" "r ! i * 5" 5] five [OF that(1)] r [OF that(1)] assms(1) that(2)
    by (auto simp: sum_ok_def)
  have nth: "limbs h ! 0 = unat (h ! 0)" "limbs h ! 1 = unat (h ! 1)" "limbs h ! 2 = unat (h ! 2)" "limbs h ! 3 = unat (h ! 3)"
    "limbs h ! 4 = unat (h ! 4)" "limbs r ! 0 = unat (r ! 0)" "limbs r ! 1 = unat (r ! 1)" "limbs r ! 2 = unat (r ! 2)"
    "limbs r ! 3 = unat (r ! 3)" "limbs r ! 4 = unat (r ! 4)"
    using assms by (simp_all add: limbs_def sum_ok_def r_ok_def)
  note rows = row_sum [where T = 45036017748541440]
  show "map unat (poly_mul h r) = prods (limbs h) (limbs r)"
    unfolding poly_mul_def Let_def prods_def nth
    by (simp add: rows t, simp add: unat_mul64 five)
  show "\<forall>i < 5. unat (poly_mul h r ! i) \<le> 225180088742707200"
    unfolding poly_mul_def Let_def all_less_5 using row_le [where T = 45036017748541440] t by simp
  show "unat (poly_mul h r ! 4) \<le> 45036017748541440"
    unfolding poly_mul_def Let_def using row_le [where T = 9007203549708288] t(1) by simp
qed

text \<open>One carry: what stays in a limb and what goes on, without loss.\<close>

lemma carry_step:
  fixes d :: u64 and c :: u32
  assumes "unat d \<le> 225180088742707200"
  defines "e \<equiv> d + ucast c"
  shows "unat e = unat d + unat c" "unat (ucast (drop_bit 26 e) :: u32) = (unat d + unat c) div 2 ^ 26"
    "unat ((ucast e :: u32) AND 0x3ffffff) = (unat d + unat c) mod 2 ^ 26"
proof -
  have "unat c < 2 ^ LENGTH(32)" by (rule unsigned_less)
  then show e: "unat e = unat d + unat c" unfolding e_def using assms(1) by (subst unat_plus64) simp_all
  then have "unat e < 2 ^ 58" using assms(1) \<open>unat c < _\<close> by simp
  then show "unat (ucast (drop_bit 26 e) :: u32) = (unat d + unat c) div 2 ^ 26" using e by (subst unat_carry64) simp_all
  show "unat ((ucast e :: u32) AND 0x3ffffff) = (unat d + unat c) mod 2 ^ 26" using e by (simp add: unat_low64)
qed

lemma carries_val:
  fixes d0 d1 d2 d3 d4 :: nat
  defines "q0 \<equiv> d0 div 2 ^ 26"
  defines "q1 \<equiv> (d1 + q0) div 2 ^ 26"
  defines "q2 \<equiv> (d2 + q1) div 2 ^ 26"
  defines "q3 \<equiv> (d3 + q2) div 2 ^ 26"
  defines "q4 \<equiv> (d4 + q3) div 2 ^ 26"
  defines "t \<equiv> d0 mod 2 ^ 26 + 5 * q4"
  shows "val5 [d0, d1, d2, d3, d4] =
    val5 [t mod 2 ^ 26, (d1 + q0) mod 2 ^ 26 + t div 2 ^ 26, (d2 + q1) mod 2 ^ 26, (d3 + q2) mod 2 ^ 26, (d4 + q3) mod 2 ^ 26] + q4 * P1305"
proof -
  have "d0 = d0 mod 2 ^ 26 + 2 ^ 26 * q0" "d1 + q0 = (d1 + q0) mod 2 ^ 26 + 2 ^ 26 * q1" "d2 + q1 = (d2 + q1) mod 2 ^ 26 + 2 ^ 26 * q2"
    "d3 + q2 = (d3 + q2) mod 2 ^ 26 + 2 ^ 26 * q3" "d4 + q3 = (d4 + q3) mod 2 ^ 26 + 2 ^ 26 * q4" "t = t mod 2 ^ 26 + 2 ^ 26 * (t div 2 ^ 26)"
    unfolding q0_def q1_def q2_def q3_def q4_def by simp_all
  then show ?thesis unfolding val5_def P1305_def t_def by simp
qed

lemma poly_carry_val:
  assumes "\<forall>i < 5. unat (d ! i) \<le> 225180088742707200" "unat (d ! 4) \<le> 45036017748541440" "length d = 5"
  shows "h_ok (poly_carry d)" and "\<exists>k. val5 (map unat d) = val5 (limbs (poly_carry d)) + k * P1305"
proof -
  define c0 where "c0 = (ucast (drop_bit 26 (d ! 0)) :: u32)"
  define c1 where "c1 = (ucast (drop_bit 26 (d ! 1 + ucast c0)) :: u32)"
  define c2 where "c2 = (ucast (drop_bit 26 (d ! 2 + ucast c1)) :: u32)"
  define c3 where "c3 = (ucast (drop_bit 26 (d ! 3 + ucast c2)) :: u32)"
  define c4 where "c4 = (ucast (drop_bit 26 (d ! 4 + ucast c3)) :: u32)"
  define t where "t = (ucast (d ! 0) AND 0x3ffffff) + c4 * 5"
  have D: "unat (d ! 0) \<le> 225180088742707200" "unat (d ! 1) \<le> 225180088742707200" "unat (d ! 2) \<le> 225180088742707200"
    "unat (d ! 3) \<le> 225180088742707200" "unat (d ! 4) \<le> 225180088742707200" using assms(1) by (simp_all add: all_less_5)
  have u0: "unat c0 = unat (d ! 0) div 2 ^ 26" using D(1) by (simp add: c0_def unat_carry64)
  note u1 = carry_step [OF D(2), of c0, folded c1_def]
  note u2 = carry_step [OF D(3), of c1, folded c2_def]
  note u3 = carry_step [OF D(4), of c2, folded c3_def]
  note u4 = carry_step [OF D(5), of c3, folded c4_def]
  have c3: "unat c3 < 2 ^ 32" using unsigned_less [of c3] by simp
  have c4: "unat c4 \<le> 671089024" using u4(2) assms(2) c3 by simp
  have five: "unat (c4 * 5) = 5 * unat c4" using unat_mult_lem [of c4 5] c4 by (simp add: mult.commute)
  have low: "unat (ucast (d ! 0) AND 0x3ffffff :: u32) = unat (d ! 0) mod 2 ^ 26" by (rule unat_low64)
  have t: "unat t = unat (d ! 0) mod 2 ^ 26 + 5 * unat c4"
    unfolding t_def using five low c4 by (subst unat_plus32) simp_all
  have tc: "unat t div 2 ^ 26 < 64" using t c4 by (simp add: div_less_iff_less_mult)
  have h1: "unat ((ucast (d ! 1 + ucast c0) AND 0x3ffffff) + drop_bit 26 t) = (unat (d ! 1) + unat c0) mod 2 ^ 26 + unat t div 2 ^ 26"
    using u1(3) tc by (subst unat_plus32) (simp_all add: unat_carry)
  have res: "poly_carry d = [t AND 0x3ffffff, (ucast (d ! 1 + ucast c0) AND 0x3ffffff) + drop_bit 26 t, ucast (d ! 2 + ucast c1) AND 0x3ffffff,
      ucast (d ! 3 + ucast c2) AND 0x3ffffff, ucast (d ! 4 + ucast c3) AND 0x3ffffff]"
    by (simp add: poly_carry_def Let_def c0_def c1_def c2_def c3_def c4_def t_def)
  show "h_ok (poly_carry d)" unfolding res using tc h1 by (simp add: h_ok_def u2(3) u3(3) u4(3) unat_low26 add_less_le_mono)
  have "map unat d = [unat (d ! 0), unat (d ! 1), unat (d ! 2), unat (d ! 3), unat (d ! 4)]"
    using assms(3) by (intro nth_equalityI) (auto simp: less_Suc_eq numeral_eq_Suc)
  moreover have "val5 [unat (d ! 0), unat (d ! 1), unat (d ! 2), unat (d ! 3), unat (d ! 4)] =
      val5 (limbs (poly_carry d)) + unat c4 * P1305"
    unfolding res limbs_def list.map h1 u2(3) u3(3) u4(3) unat_low26 [of t] t u4(2) u3(2) u2(2) u1(2) u0 by (rule carries_val)
  ultimately show "\<exists>k. val5 (map unat d) = val5 (limbs (poly_carry d)) + k * P1305" by metis
qed

text \<open>A number of 16 bytes in limbs of 26 bits.\<close>

lemma limb_bits:
  assumes "k + 4 \<le> length m" "j + 26 \<le> 32"
  shows "unat (drop_bit j (le32 (drop k m)) AND 0x3ffffff) = take_bit 26 (drop_bit (8 * k + j) (le_num m))"
proof -
  have "unat (drop_bit j (le32 (drop k m)) AND 0x3ffffff) = take_bit 26 (drop_bit j (take_bit 32 (drop_bit (8 * k) (le_num m))))"
    using assms unat_le32 [of "drop k m"] by (simp add: low26 unsigned_take_bit_eq unsigned_drop_bit_eq le_num_drop)
  also have "\<dots> = take_bit 26 (drop_bit (8 * k + j) (le_num m))"
    using assms by (intro bit_eqI) (auto simp: bit_simps add.assoc)
  finally show ?thesis .
qed

lemma split_limbs:
  "n = n mod 2 ^ 26 + 2 ^ 26 * (n div 2 ^ 26 mod 2 ^ 26) + 2 ^ 52 * (n div 2 ^ 52 mod 2 ^ 26) + 2 ^ 78 * (n div 2 ^ 78 mod 2 ^ 26) +
    2 ^ 104 * (n div 2 ^ 104 :: nat)"
proof -
  define a where "a = n div 2 ^ 26"
  define b where "b = a div 2 ^ 26"
  define c where "c = b div 2 ^ 26"
  define d where "d = c div 2 ^ 26"
  have d: "n div 2 ^ 52 = b" "n div 2 ^ 78 = c" "n div 2 ^ 104 = d"
    by (simp_all add: a_def b_def c_def d_def flip: div_mult2_eq)
  have "n = n mod 2 ^ 26 + 2 ^ 26 * a" "a = a mod 2 ^ 26 + 2 ^ 26 * b" "b = b mod 2 ^ 26 + 2 ^ 26 * c" "c = c mod 2 ^ 26 + 2 ^ 26 * d"
    by (simp_all add: a_def b_def c_def d_def)
  then show ?thesis unfolding d a_def [symmetric] by simp
qed

lemma top_limb:
  assumes "length m = 16" "hibit = 0 \<or> hibit = push_bit 24 1"
  shows "unat (drop_bit 8 (le32 (drop 12 m)) OR hibit) = le_num m div 2 ^ 104 + unat hibit" "le_num m div 2 ^ 104 < 2 ^ 24"
proof -
  let ?x = "drop_bit 8 (le32 (drop 12 m))"
  have "take_bit 32 (drop_bit 96 (le_num m)) = drop_bit 96 (le_num m)"
    using le_num_bound [of m 16] assms(1) by (simp add: take_bit_eq_mod drop_bit_eq_div div_less_iff_less_mult)
  then have x: "unat ?x = le_num m div 2 ^ 104"
    using unat_le32 [of "drop 12 m"] assms(1) by (simp add: unat_div le_num_drop drop_bit_eq_div flip: div_mult2_eq)
  show l: "le_num m div 2 ^ 104 < 2 ^ 24" using le_num_bound [of m 16] assms(1) by (simp add: div_less_iff_less_mult)
  have "bit (?x AND push_bit 24 1) n = bit 0 n" for n
    unfolding bit_and_iff bit_drop_bit_eq o_apply bit_push_bit_iff bit_1_iff by (auto dest: bit_imp_le_length)
  then have "?x AND push_bit 24 1 = 0" by (rule bit_eqI)
  then have "?x AND hibit = 0" using assms(2) by auto
  then have "?x OR hibit = ?x + hibit" by (rule disjunctive_add_eq_or [symmetric])
  moreover have "unat (?x + hibit) = unat ?x + unat hibit" using assms(2) l x by (intro unat_plus32) auto
  ultimately show "unat (?x OR hibit) = le_num m div 2 ^ 104 + unat hibit" using x by simp
qed

lemma poly_add_val:
  assumes "h_ok h" "length m = 16" "hibit = 0 \<or> hibit = push_bit 24 1"
  shows "sum_ok (poly_add h m hibit)" "val5 (limbs (poly_add h m hibit)) = val5 (limbs h) + le_num m + unat hibit * 2 ^ 104"
proof -
  let ?N = "le_num m"
  have h: "length h = 5" "unat (h ! 0) < 2 ^ 26" "unat (h ! 1) < 2 ^ 26 + 64" "unat (h ! 2) < 2 ^ 26" "unat (h ! 3) < 2 ^ 26"
    "unat (h ! 4) < 2 ^ 26" using assms(1) by (auto simp: h_ok_def)
  have l: "unat (le32 m AND 0x3ffffff) = ?N mod 2 ^ 26"
    "unat (drop_bit 2 (le32 (drop 3 m)) AND 0x3ffffff) = ?N div 2 ^ 26 mod 2 ^ 26"
    "unat (drop_bit 4 (le32 (drop 6 m)) AND 0x3ffffff) = ?N div 2 ^ 52 mod 2 ^ 26"
    "unat (drop_bit 6 (le32 (drop 9 m)) AND 0x3ffffff) = ?N div 2 ^ 78 mod 2 ^ 26"
    using limb_bits [of 0 m 0] limb_bits [of 3 m 2] limb_bits [of 6 m 4] limb_bits [of 9 m 6] assms(2)
    by (simp_all add: take_bit_eq_mod drop_bit_eq_div)
  note top = top_limb [OF assms(2,3)]
  have hi: "unat hibit \<le> 2 ^ 24" using assms(3) by auto
  have m: "unat (le32 m AND 0x3ffffff) < 2 ^ 26" "unat (drop_bit 2 (le32 (drop 3 m)) AND 0x3ffffff) < 2 ^ 26"
    "unat (drop_bit 4 (le32 (drop 6 m)) AND 0x3ffffff) < 2 ^ 26" "unat (drop_bit 6 (le32 (drop 9 m)) AND 0x3ffffff) < 2 ^ 26"
    by (simp_all add: unat_low26)
  have s: "unat (h ! 0 + (le32 m AND 0x3ffffff)) = unat (h ! 0) + unat (le32 m AND 0x3ffffff)"
    "unat (h ! 1 + (drop_bit 2 (le32 (drop 3 m)) AND 0x3ffffff)) = unat (h ! 1) + unat (drop_bit 2 (le32 (drop 3 m)) AND 0x3ffffff)"
    "unat (h ! 2 + (drop_bit 4 (le32 (drop 6 m)) AND 0x3ffffff)) = unat (h ! 2) + unat (drop_bit 4 (le32 (drop 6 m)) AND 0x3ffffff)"
    "unat (h ! 3 + (drop_bit 6 (le32 (drop 9 m)) AND 0x3ffffff)) = unat (h ! 3) + unat (drop_bit 6 (le32 (drop 9 m)) AND 0x3ffffff)"
    "unat (h ! 4 + (drop_bit 8 (le32 (drop 12 m)) OR hibit)) = unat (h ! 4) + unat (drop_bit 8 (le32 (drop 12 m)) OR hibit)"
    by (intro unat_plus32, use h m top hi in simp)+
  have t: "unat (drop_bit 8 (le32 (drop 12 m)) OR hibit) < 2 ^ 26" using top hi by simp
  have "unat (h ! 0 + (le32 m AND 0x3ffffff)) < 2 ^ 27 + 64"
    "unat (h ! 1 + (drop_bit 2 (le32 (drop 3 m)) AND 0x3ffffff)) < 2 ^ 27 + 64"
    "unat (h ! 2 + (drop_bit 4 (le32 (drop 6 m)) AND 0x3ffffff)) < 2 ^ 27 + 64"
    "unat (h ! 3 + (drop_bit 6 (le32 (drop 9 m)) AND 0x3ffffff)) < 2 ^ 27 + 64"
    "unat (h ! 4 + (drop_bit 8 (le32 (drop 12 m)) OR hibit)) < 2 ^ 27 + 64"
    unfolding s using h m t by (simp_all del: One_nat_def)
  then show "sum_ok (poly_add h m hibit)" by (simp add: sum_ok_def all_less_5 poly_add_def)
  have "limbs (poly_add h m hibit) = [unat (h ! 0) + ?N mod 2 ^ 26, unat (h ! 1) + ?N div 2 ^ 26 mod 2 ^ 26, unat (h ! 2) + ?N div 2 ^ 52 mod 2 ^ 26,
      unat (h ! 3) + ?N div 2 ^ 78 mod 2 ^ 26, unat (h ! 4) + (?N div 2 ^ 104 + unat hibit)]"
    unfolding limbs_def poly_add_def list.map s l top(1) ..
  then have "val5 (limbs (poly_add h m hibit)) = val5 (limbs h) + (?N mod 2 ^ 26 + 2 ^ 26 * (?N div 2 ^ 26 mod 2 ^ 26) +
      2 ^ 52 * (?N div 2 ^ 52 mod 2 ^ 26) + 2 ^ 78 * (?N div 2 ^ 78 mod 2 ^ 26) + 2 ^ 104 * (?N div 2 ^ 104)) + unat hibit * 2 ^ 104"
    using h(1) by (simp add: val5_def limbs_def)
  then show "val5 (limbs (poly_add h m hibit)) = val5 (limbs h) + le_num m + unat hibit * 2 ^ 104"
    by (simp only: split_limbs [of ?N, symmetric])
qed

lemma poly_block_val:
  assumes "h_ok (p_h p)" "r_ok (p_r p)" "length m = 16" "hibit = 0 \<or> hibit = push_bit 24 1"
  shows "h_ok (p_h (poly_block p m hibit))"
    and "val5 (limbs (p_h (poly_block p m hibit))) mod P1305 =
      (val5 (limbs (p_h p)) + le_num m + unat hibit * 2 ^ 104) * val5 (limbs (p_r p)) mod P1305"
proof -
  note a = poly_add_val [OF assms(1,3,4)]
  let ?h = "poly_add (p_h p) m hibit"
  note d = poly_mul_prods [OF a(1) assms(2)]
  have l: "length (poly_mul ?h (p_r p)) = 5" by (simp add: poly_mul_def Let_def)
  note c = poly_carry_val [OF d(2,3) l]
  show "h_ok (p_h (poly_block p m hibit))" using c(1) by (simp add: poly_block_def)
  obtain k where k: "val5 (prods (limbs ?h) (limbs (p_r p))) = val5 (limbs (p_h (poly_block p m hibit))) + k * P1305"
    using c(2) by (auto simp: d(1) poly_block_def)
  obtain j where "val5 (limbs ?h) * val5 (limbs (p_r p)) = val5 (prods (limbs ?h) (limbs (p_r p))) + j * P1305"
    using prods_mod by blast
  then have "val5 (limbs ?h) * val5 (limbs (p_r p)) = val5 (limbs (p_h (poly_block p m hibit))) + (k + j) * P1305"
    using k by (simp add: distrib_right)
  then show "val5 (limbs (p_h (poly_block p m hibit))) mod P1305 =
      (val5 (limbs (p_h p)) + le_num m + unat hibit * 2 ^ 104) * val5 (limbs (p_r p)) mod P1305"
    unfolding a(2) by (metis mod_mult_self1)
qed


section \<open>The key\<close>

definition clamp1305 :: nat where
  "clamp1305 = 0x0ffffffc0ffffffc0ffffffc0fffffff"

definition r1305 :: "byte list \<Rightarrow> nat" where
  "r1305 key = le_num (take 16 key) AND clamp1305"

definition s1305 :: "byte list \<Rightarrow> nat" where
  "s1305 key = le_num (drop 16 key)"

lemma masked_limb:
  assumes "k + 4 \<le> length m" "j + 26 \<le> 32" "msk AND 0x3ffffff = msk"
  shows "unat (drop_bit j (le32 (drop k m)) AND msk) = take_bit 26 (drop_bit (8 * k + j) (le_num m)) AND unat msk"
proof -
  have "drop_bit j (le32 (drop k m)) AND msk = (drop_bit j (le32 (drop k m)) AND 0x3ffffff) AND msk"
    unfolding and.assoc using assms(3) by (simp add: and.commute)
  then show ?thesis using limb_bits [OF assms(1,2)] by (simp add: unsigned_and_eq)
qed

lemma take_drop_and: "take_bit n (drop_bit k (a AND b)) = take_bit n (drop_bit k a) AND take_bit n (drop_bit k (b :: nat))"
  by (simp add: drop_bit_and)

lemma clamp_limb: "take_bit 26 (drop_bit k (le_num (take 16 key) AND clamp1305)) =
    take_bit 26 (drop_bit k (le_num key)) AND take_bit 26 (drop_bit k clamp1305)"
proof -
  have "take_bit 128 clamp1305 = clamp1305" by (simp add: clamp1305_def take_bit_eq_mod)
  moreover have "take_bit 128 (le_num key) AND take_bit 128 clamp1305 = le_num key AND take_bit 128 clamp1305"
    by (intro bit_eqI) (auto simp: bit_simps)
  ultimately have "le_num (take 16 key) AND clamp1305 = le_num key AND clamp1305" using le_num_take [of 16 key] by simp
  then show ?thesis by (simp add: take_drop_and)
qed

lemma low20: "n AND 0xfffff = take_bit 20 (n :: nat)" "x AND 0xfffff = take_bit 20 (x :: u32)"
proof -
  have m: "(0xfffff :: nat) = mask 20" "(0xfffff :: u32) = mask 20" by (simp_all add: mask_eq_exp_minus_1)
  show "n AND 0xfffff = take_bit 20 n" by (simp only: m(1) take_bit_eq_mask)
  show "x AND 0xfffff = take_bit 20 x" by (simp only: m(2) take_bit_eq_mask)
qed

lemma top_key_limb:
  assumes "length key = 32"
  shows "unat (drop_bit 8 (le32 (drop 12 key)) AND 0xfffff) = take_bit 26 (drop_bit 104 (le_num key)) AND 0xfffff"
proof -
  have "unat (drop_bit 8 (le32 (drop 12 key)) AND 0xfffff) = take_bit 20 (drop_bit 8 (take_bit 32 (drop_bit 96 (le_num key))))"
    using assms unat_le32 [of "drop 12 key"] by (simp add: low20 unsigned_take_bit_eq unsigned_drop_bit_eq le_num_drop)
  also have "\<dots> = take_bit 20 (drop_bit 104 (le_num key))" by (intro bit_eqI) (auto simp: bit_simps)
  finally show ?thesis by (simp add: low20)
qed

lemma clamp_limbs:
  "take_bit 26 (drop_bit 0 clamp1305) = 0x3ffffff" "take_bit 26 (drop_bit 26 clamp1305) = 0x3ffff03"
  "take_bit 26 (drop_bit 52 clamp1305) = 0x3ffc0ff" "take_bit 26 (drop_bit 78 clamp1305) = 0x3f03fff"
  "take_bit 26 (drop_bit 104 clamp1305) = 0xfffff" "drop_bit 104 clamp1305 = 0xfffff"
  by (simp_all add: clamp1305_def take_bit_eq_mod drop_bit_eq_div)

lemma poly_init_r:
  assumes "length key = 32"
  shows "r_ok (p_r (poly_init key))" "val5 (limbs (p_r (poly_init key))) = r1305 key"
proof -
  let ?R = "r1305 key"
  have R: "unat (le32 key AND 0x3ffffff) = take_bit 26 (drop_bit 0 ?R)"
    "unat (drop_bit 2 (le32 (drop 3 key)) AND 0x3ffff03) = take_bit 26 (drop_bit 26 ?R)"
    "unat (drop_bit 4 (le32 (drop 6 key)) AND 0x3ffc0ff) = take_bit 26 (drop_bit 52 ?R)"
    "unat (drop_bit 6 (le32 (drop 9 key)) AND 0x3f03fff) = take_bit 26 (drop_bit 78 ?R)"
    "unat (drop_bit 8 (le32 (drop 12 key)) AND 0xfffff) = take_bit 26 (drop_bit 104 ?R)"
    unfolding r1305_def clamp_limb clamp_limbs
    using masked_limb [of 0 key 0 "0x3ffffff"] masked_limb [of 3 key 2 "0x3ffff03"] masked_limb [of 6 key 4 "0x3ffc0ff"]
      masked_limb [of 9 key 6 "0x3f03fff"] top_key_limb [OF assms] assms
    by simp_all
  have t: "take_bit 26 (drop_bit 104 ?R) = drop_bit 104 ?R"
    by (simp only: r1305_def drop_bit_and clamp_limbs low20 take_bit_take_bit)
  show "r_ok (p_r (poly_init key))" unfolding r_ok_def all_less_5 poly_init_def using R by (simp add: take_bit_eq_mod)
  have l: "limbs (p_r (poly_init key)) = [take_bit 26 (drop_bit 0 ?R), take_bit 26 (drop_bit 26 ?R), take_bit 26 (drop_bit 52 ?R),
      take_bit 26 (drop_bit 78 ?R), drop_bit 104 ?R]"
    using R t by (simp add: limbs_def poly_init_def)
  have "val5 (limbs (p_r (poly_init key))) = ?R mod 2 ^ 26 + 2 ^ 26 * (?R div 2 ^ 26 mod 2 ^ 26) + 2 ^ 52 * (?R div 2 ^ 52 mod 2 ^ 26) +
      2 ^ 78 * (?R div 2 ^ 78 mod 2 ^ 26) + 2 ^ 104 * (?R div 2 ^ 104)"
    unfolding l val5_def by (simp add: take_bit_eq_mod drop_bit_eq_div)
  then show "val5 (limbs (p_r (poly_init key))) = r1305 key" by (simp only: split_limbs [of ?R, symmetric])
qed

lemma poly_init_s:
  assumes "length key = 32"
  shows "length (p_s (poly_init key)) = 4"
    and "unat (p_s (poly_init key) ! 0) + 2 ^ 32 * unat (p_s (poly_init key) ! 1) + 2 ^ 64 * unat (p_s (poly_init key) ! 2) +
      2 ^ 96 * unat (p_s (poly_init key) ! 3) = s1305 key"
proof -
  show "length (p_s (poly_init key)) = 4" by (simp add: poly_init_def)
  have s: "unat (le32 (drop k key)) = le_num (take 4 (drop k key))" if "k + 4 \<le> 32" for k
    using unat_le32 [of "drop k key"] le_num_take [of 4 "drop k key"] assms that by simp
  have "drop 16 key = take 4 (drop 16 key) @ take 4 (drop 20 key) @ take 4 (drop 24 key) @ take 4 (drop 28 key)"
    using assms by (intro nth_equalityI) (auto simp: nth_append)
  then have "s1305 key = le_num (take 4 (drop 16 key) @ take 4 (drop 20 key) @ take 4 (drop 24 key) @ take 4 (drop 28 key))"
    by (simp only: s1305_def)
  then show "unat (p_s (poly_init key) ! 0) + 2 ^ 32 * unat (p_s (poly_init key) ! 1) + 2 ^ 64 * unat (p_s (poly_init key) ! 2) +
      2 ^ 96 * unat (p_s (poly_init key) ! 3) = s1305 key"
    using assms by (simp add: poly_init_def s le_num_append)
qed


section \<open>The end\<close>

definition norm5 :: "u32 list \<Rightarrow> bool" where
  "norm5 h \<longleftrightarrow> length h = 5 \<and> (\<forall>i < 5. unat (h ! i) < 2 ^ 26)"

lemma carry32:
  assumes "unat a < 2 ^ 26 + 64" "unat c < 2 ^ 26"
  shows "unat (a + c :: u32) = unat a + unat c" "unat (drop_bit 26 (a + c)) = (unat a + unat c) div 2 ^ 26"
    "unat ((a + c) AND 0x3ffffff) = (unat a + unat c) mod 2 ^ 26" "(unat a + unat c) div 2 ^ 26 \<le> 2"
proof -
  show e: "unat (a + c) = unat a + unat c" using assms by (intro unat_plus32) simp
  show "unat (drop_bit 26 (a + c)) = (unat a + unat c) div 2 ^ 26" by (simp only: unat_carry e)
  show "unat ((a + c) AND 0x3ffffff) = (unat a + unat c) mod 2 ^ 26" by (simp only: unat_low26 e)
  have "(unat a + unat c) div 2 ^ 26 \<le> (2 ^ 27 + 64 :: nat) div 2 ^ 26" using assms by (intro div_le_mono) simp
  then show "(unat a + unat c) div 2 ^ 26 \<le> 2" by simp
qed

lemma poly_reduce_val:
  assumes "h_ok h"
  shows "norm5 (poly_reduce h)" "\<exists>k. val5 (limbs h) = val5 (limbs (poly_reduce h)) + k * P1305"
proof -
  define c1 where "c1 = drop_bit 26 (h ! 1)"
  define c2 where "c2 = drop_bit 26 (h ! 2 + c1)"
  define c3 where "c3 = drop_bit 26 (h ! 3 + c2)"
  define c4 where "c4 = drop_bit 26 (h ! 4 + c3)"
  define t where "t = h ! 0 + c4 * 5"
  have h: "length h = 5" "unat (h ! 0) < 2 ^ 26" "unat (h ! 1) < 2 ^ 26 + 64" "unat (h ! 2) < 2 ^ 26 + 64" "unat (h ! 3) < 2 ^ 26 + 64"
    "unat (h ! 4) < 2 ^ 26 + 64" using assms by (auto simp: h_ok_def)
  have h': "unat (h ! 2) < 2 ^ 26" "unat (h ! 3) < 2 ^ 26" "unat (h ! 4) < 2 ^ 26" using assms by (auto simp: h_ok_def)
  have u1: "unat c1 = unat (h ! 1) div 2 ^ 26" by (simp add: c1_def unat_carry)
  have l1: "unat c1 < 2 ^ 26" using h(3) by (simp add: u1 div_less_iff_less_mult)
  note u2 = carry32 [OF h(4) l1, folded c2_def]
  have l2: "unat c2 < 2 ^ 26" using u2(2,4) by simp
  note u3 = carry32 [OF h(5) l2, folded c3_def]
  have l3: "unat c3 < 2 ^ 26" using u3(2,4) by simp
  note u4 = carry32 [OF h(6) l3, folded c4_def]
  have l4: "unat c4 \<le> 2" using u4(2,4) by simp
  have "unat (c4 * 5) = 5 * unat c4" using unat_mult_lem [of c4 5] l4 by (simp add: mult.commute)
  then have t: "unat t = unat (h ! 0) + 5 * unat c4" unfolding t_def using h(2) l4 by (subst unat_plus32) simp_all
  have top: "(unat (h ! 1)) mod 2 ^ 26 + unat t div 2 ^ 26 < 2 ^ 26"
  proof (cases "unat c4 = 0")
    case True
    then show ?thesis using t h(2) by simp
  next
    case False
    have less: "b \<noteq> 0" if "(a + b) div 2 ^ 26 \<noteq> 0" "a < 2 ^ 26" for a b :: nat using that by (metis add.right_neutral div_less)
    have "unat c3 \<noteq> 0" using less [OF _ h'(3)] False by (simp only: u4(2))
    then have "unat c2 \<noteq> 0" using less [OF _ h'(2)] by (simp only: u3(2))
    then have "unat c1 \<noteq> 0" using less [OF _ h'(1)] by (simp only: u2(2))
    then have "2 ^ 26 \<le> unat (h ! 1)" using u1 by (metis div_less not_less)
    then have "unat (h ! 1) mod 2 ^ 26 < 64" using h(3) by (simp add: le_mod_geq)
    moreover have "unat t div 2 ^ 26 \<le> 2" using t h(2) l4 by simp
    ultimately show ?thesis by simp
  qed
  then have h1: "unat ((h ! 1 AND 0x3ffffff) + drop_bit 26 t) = unat (h ! 1) mod 2 ^ 26 + unat t div 2 ^ 26"
    by (subst unat_plus32) (simp_all add: unat_low26 unat_carry)
  have res: "poly_reduce h = [t AND 0x3ffffff, (h ! 1 AND 0x3ffffff) + drop_bit 26 t, (h ! 2 + c1) AND 0x3ffffff,
      (h ! 3 + c2) AND 0x3ffffff, (h ! 4 + c3) AND 0x3ffffff]"
    by (simp add: poly_reduce_def Let_def c1_def c2_def c3_def c4_def t_def)
  show "norm5 (poly_reduce h)"
    unfolding res norm5_def all_less_5 using top h1 by (simp add: unat_low26)
  have z: "unat (h ! 0) div 2 ^ 26 = 0" "unat (h ! 0) mod 2 ^ 26 = unat (h ! 0)" using h(2) by simp_all
  have "limbs h = [unat (h ! 0), unat (h ! 1), unat (h ! 2), unat (h ! 3), unat (h ! 4)]"
    unfolding limbs_def using h(1) by (intro nth_equalityI) (auto simp: less_Suc_eq numeral_eq_Suc)
  moreover have "val5 [unat (h ! 0), unat (h ! 1), unat (h ! 2), unat (h ! 3), unat (h ! 4)] = val5 (limbs (poly_reduce h)) + unat c4 * P1305"
    using carries_val [of "unat (h ! 0)" "unat (h ! 1)" "unat (h ! 2)" "unat (h ! 3)" "unat (h ! 4)"]
    unfolding res limbs_def list.map h1 u2(3) u3(3) u4(3) unat_low26 [of t] t u4(2) u3(2) u2(2) u1 z add_0_right .
  ultimately show "\<exists>k. val5 (limbs h) = val5 (limbs (poly_reduce h)) + k * P1305" by metis
qed

lemma val5_less: "norm5 h \<Longrightarrow> val5 (limbs h) < 2 ^ 130"
  unfolding norm5_def all_less_5 by (simp add: val5_def limbs_def)

text \<open>The mask is all ones when \<open>h - p\<close> is not negative, else zero.\<close>

lemma borrow_mask:
  assumes "unat v \<le> 2 ^ 26"
  shows "drop_bit 31 (v - push_bit 26 1 :: u32) - 1 = (if unat v = 2 ^ 26 then NOT 0 else 0)"
proof (cases "unat v = 2 ^ 26")
  case True
  then have "v = push_bit 26 1" by (simp add: word_unat_eq_iff)
  then show ?thesis using True by simp
next
  case False
  then have l: "unat v < 2 ^ 26" using assms by simp
  have p: "unat (push_bit 26 1 :: u32) = 2 ^ 26" by simp
  have "unat (v - push_bit 26 1) = 2 ^ 32 + unat v - 2 ^ 26"
    using l by (subst unat_sub_if') (simp add: p word_le_nat_alt)
  then have "unat (drop_bit 31 (v - push_bit 26 1)) = 1" using l by (simp add: drop_bit_eq_div unat_div)
  then have "drop_bit 31 (v - push_bit 26 1) = 1" by (simp only: word_unat_eq_iff unsigned_1)
  then show ?thesis using False by simp
qed

lemma poly_select_val:
  assumes "norm5 h"
  shows "norm5 (poly_select h)" "val5 (limbs (poly_select h)) = val5 (limbs h) mod P1305"
proof -
  define c0 where "c0 = drop_bit 26 (h ! 0 + 5)"
  define c1 where "c1 = drop_bit 26 (h ! 1 + c0)"
  define c2 where "c2 = drop_bit 26 (h ! 2 + c1)"
  define c3 where "c3 = drop_bit 26 (h ! 3 + c2)"
  define v where "v = h ! 4 + c3"
  define g where "g = [(h ! 0 + 5) AND 0x3ffffff, (h ! 1 + c0) AND 0x3ffffff, (h ! 2 + c1) AND 0x3ffffff, (h ! 3 + c2) AND 0x3ffffff]"
  have h: "length h = 5" "unat (h ! 0) < 2 ^ 26 + 64" "unat (h ! 1) < 2 ^ 26 + 64" "unat (h ! 2) < 2 ^ 26 + 64" "unat (h ! 3) < 2 ^ 26 + 64"
    "unat (h ! 4) < 2 ^ 26" using assms by (auto simp: norm5_def all_less_5)
  have b: "unat (h ! 0) < 2 ^ 26" "unat (h ! 1) < 2 ^ 26" "unat (h ! 2) < 2 ^ 26" "unat (h ! 3) < 2 ^ 26"
    using assms by (auto simp: norm5_def all_less_5)
  have one: "(unat a + n) div 2 ^ 26 \<le> 1" if "unat a < 2 ^ 26" "n \<le> 5" for a :: u32 and n
  proof -
    have "(unat a + n) div 2 ^ 26 \<le> (2 ^ 26 + 5) div 2 ^ 26" using that by (intro div_le_mono) simp
    then show ?thesis by simp
  qed
  have u5: "unat (5 :: u32) = 5" "unat (5 :: u32) < 2 ^ 26" by simp_all
  note u0 = carry32 [OF h(2) u5(2), folded c0_def, unfolded u5(1)]
  have l0: "unat c0 \<le> 1" unfolding u0(2) using one [OF b(1), of 5] by simp
  then have k0: "unat c0 < 2 ^ 26" by simp
  note u1 = carry32 [OF h(3) k0, folded c1_def]
  have l1: "unat c1 \<le> 1" unfolding u1(2) using one [OF b(2), of "unat c0"] l0 by simp
  then have k1: "unat c1 < 2 ^ 26" by simp
  note u2 = carry32 [OF h(4) k1, folded c2_def]
  have l2: "unat c2 \<le> 1" unfolding u2(2) using one [OF b(3), of "unat c1"] l1 by simp
  then have k2: "unat c2 < 2 ^ 26" by simp
  note u3 = carry32 [OF h(5) k2, folded c3_def]
  have l3: "unat c3 \<le> 1" unfolding u3(2) using one [OF b(4), of "unat c2"] l2 by simp
  have v: "unat v = unat (h ! 4) + unat c3" unfolding v_def using h(6) l3 by (intro unat_plus32) simp
  have vl: "unat v \<le> 2 ^ 26" using v h(6) l3 by simp
  have hl: "h = [h ! 0, h ! 1, h ! 2, h ! 3, h ! 4]" using h(1) by (intro nth_equalityI) (auto simp: less_Suc_eq numeral_eq_Suc)
  have z: "v = push_bit 26 1" if "unat v = 2 ^ 26" using that by (simp add: word_unat_eq_iff)
  have res: "poly_select h = (if unat v = 2 ^ 26 then g @ [0] else h)"
    unfolding poly_select_def Let_def c0_def [symmetric] c1_def [symmetric] c2_def [symmetric] c3_def [symmetric] v_def [symmetric]
      borrow_mask [OF vl] using z hl by (auto simp: g_def)
  show "norm5 (poly_select h)" unfolding res using assms by (simp add: g_def norm5_def all_less_5 unat_low26)
  define e0 where "e0 = (unat (h ! 0) + 5) mod 2 ^ 26"
  define e1 where "e1 = (unat (h ! 1) + unat c0) mod 2 ^ 26"
  define e2 where "e2 = (unat (h ! 2) + unat c1) mod 2 ^ 26"
  define e3 where "e3 = (unat (h ! 3) + unat c2) mod 2 ^ 26"
  have e: "unat (h ! 0) + 5 = e0 + 2 ^ 26 * unat c0" "unat (h ! 1) + unat c0 = e1 + 2 ^ 26 * unat c1"
    "unat (h ! 2) + unat c1 = e2 + 2 ^ 26 * unat c2" "unat (h ! 3) + unat c2 = e3 + 2 ^ 26 * unat c3"
    unfolding e0_def e1_def e2_def e3_def u0(2) u1(2) u2(2) u3(2) by simp_all
  have val: "val5 (limbs h) = unat (h ! 0) + 2 ^ 26 * unat (h ! 1) + 2 ^ 52 * unat (h ! 2) + 2 ^ 78 * unat (h ! 3) + 2 ^ 104 * unat (h ! 4)"
    using h(1) by (simp add: val5_def limbs_def)
  have sum: "val5 (limbs h) + 5 = e0 + 2 ^ 26 * e1 + 2 ^ 52 * e2 + 2 ^ 78 * e3 + 2 ^ 104 * unat v"
    unfolding val v using e by simp
  have less: "val5 (limbs h) < 2 ^ 130" by (rule val5_less [OF assms])
  have el: "e0 < 2 ^ 26" "e1 < 2 ^ 26" "e2 < 2 ^ 26" "e3 < 2 ^ 26" by (simp_all add: e0_def e1_def e2_def e3_def)
  show "val5 (limbs (poly_select h)) = val5 (limbs h) mod P1305"
  proof (cases "unat v = 2 ^ 26")
    case True
    have gv: "val5 (limbs (g @ [0])) = e0 + 2 ^ 26 * e1 + 2 ^ 52 * e2 + 2 ^ 78 * e3"
      unfolding g_def limbs_def append.simps list.map u0(3) u1(3) u2(3) u3(3) e0_def e1_def e2_def e3_def by (simp add: val5_def)
    then have "val5 (limbs h) = val5 (limbs (g @ [0])) + P1305" using sum True by (simp add: P1305_def)
    moreover have "val5 (limbs (g @ [0])) < P1305" using calculation less by (simp add: P1305_def)
    ultimately show ?thesis using True by (simp add: res)
  next
    case False
    then have "unat v \<le> 2 ^ 26 - 1" using vl by simp
    then have "val5 (limbs h) < P1305" using sum el by (simp add: P1305_def)
    then show ?thesis using False by (simp add: res)
  qed
qed

lemma unat_or_shift:
  assumes "unat x < 2 ^ n" "n < 32"
  shows "unat (x OR push_bit n y :: u32) = (unat x + 2 ^ n * unat y) mod 2 ^ 32"
proof -
  have x: "x = take_bit n x" using assms(1) by (simp add: word_unat_eq_iff unsigned_take_bit_eq take_bit_nat_eq_self)
  have "bit (take_bit n x AND push_bit n y) i = bit 0 i" for i by (auto simp: bit_simps)
  then have "take_bit n x AND push_bit n y = 0" by (rule bit_eqI)
  then have "x AND push_bit n y = 0" using x by simp
  then have "x OR push_bit n y = x + push_bit n y" by (rule disjunctive_add_eq_or [symmetric])
  moreover have "unat (push_bit n y) = 2 ^ n * unat y mod 2 ^ 32"
    unfolding unsigned_push_bit_eq by (simp add: push_bit_eq_mult take_bit_eq_mod mult.commute)
  ultimately show ?thesis by (simp add: unat_word_ariths mod_add_right_eq)
qed

definition val4 :: "u32 list \<Rightarrow> nat" where
  "val4 w = unat (w ! 0) + 2 ^ 32 * unat (w ! 1) + 2 ^ 64 * unat (w ! 2) + 2 ^ 96 * unat (w ! 3)"

lemma unat_u32_less: "unat (x :: u32) < 2 ^ 32"
  using unsigned_less [of x] by simp

lemma val4_less: "val4 w < 2 ^ 128"
  using unat_u32_less [of "w ! 0"] unat_u32_less [of "w ! 1"] unat_u32_less [of "w ! 2"] unat_u32_less [of "w ! 3"] by (simp add: val4_def)

text \<open>A word of 32 bits from two limbs: the upper part of one and the lower part of the next.\<close>

lemma shifted_pair:
  fixes a b :: nat
  assumes "a < 2 ^ n" "n \<le> 32"
  shows "(a + 2 ^ n * b) mod 2 ^ 32 = a + 2 ^ n * (b mod 2 ^ (32 - n))"
proof -
  have p: "2 ^ n * 2 ^ (32 - n) = (2 ^ 32 :: nat)" unfolding power_add [symmetric] using assms(2) by simp
  have e: "2 ^ n * (b mod 2 ^ (32 - n)) = (2 ^ n * b) mod 2 ^ 32" unfolding p [symmetric] by (rule mult_mod_right)
  have "b mod 2 ^ (32 - n) + 1 \<le> 2 ^ (32 - n)" by (simp add: Suc_leI)
  then have "2 ^ n * (b mod 2 ^ (32 - n) + 1) \<le> 2 ^ n * 2 ^ (32 - n)" by (rule mult_le_mono2)
  then have "a + 2 ^ n * (b mod 2 ^ (32 - n)) < 2 ^ 32" unfolding p using assms(1) unfolding distrib_left by linarith
  then have "(a + 2 ^ n * b mod 2 ^ 32) mod 2 ^ 32 = a + 2 ^ n * (b mod 2 ^ (32 - n))" unfolding e by (rule mod_less)
  then show ?thesis by (simp only: mod_add_right_eq)
qed

lemma pair_word:
  "unat x < 2 ^ n \<Longrightarrow> n < 32 \<Longrightarrow> unat (x OR push_bit n y :: u32) = unat x + 2 ^ n * (unat y mod 2 ^ (32 - n))"
  by (subst unat_or_shift) (simp_all only: shifted_pair less_imp_le)

lemma pack_sum:
  fixes h0 :: nat
  assumes "h1 = a1 + 2 ^ 6 * b1" "h2 = a2 + 2 ^ 12 * b2" "h3 = a3 + 2 ^ 18 * b3" "h4 = a4 + 2 ^ 24 * b4"
  shows "h0 + 2 ^ 26 * h1 + 2 ^ 52 * h2 + 2 ^ 78 * h3 + 2 ^ 104 * h4 =
    h0 + 2 ^ 26 * a1 + 2 ^ 32 * (b1 + 2 ^ 20 * a2) + 2 ^ 64 * (b2 + 2 ^ 14 * a3) + 2 ^ 96 * (b3 + 2 ^ 8 * a4) + 2 ^ 128 * b4"
  unfolding assms by simp

lemma carry_sum:
  fixes f0 :: nat
  assumes "f0 = w0 + s0" "f1 = w1 + s1 + c0" "f2 = w2 + s2 + c1" "f3 = w3 + s3 + c2"
    "f0 = r0 + 2 ^ 32 * c0" "f1 = r1 + 2 ^ 32 * c1" "f2 = r2 + 2 ^ 32 * c2" "f3 = r3 + 2 ^ 32 * c3"
  shows "w0 + 2 ^ 32 * w1 + 2 ^ 64 * w2 + 2 ^ 96 * w3 + (s0 + 2 ^ 32 * s1 + 2 ^ 64 * s2 + 2 ^ 96 * s3) =
    r0 + 2 ^ 32 * r1 + 2 ^ 64 * r2 + 2 ^ 96 * r3 + 2 ^ 128 * c3"
  using assms by simp

lemma poly_pack_val:
  assumes "norm5 h"
  shows "val4 (poly_pack h) = val5 (limbs h) mod 2 ^ 128"
proof -
  have h: "length h = 5" "unat (h ! 0) < 2 ^ 26" "unat (h ! 1) < 2 ^ 26" "unat (h ! 2) < 2 ^ 26" "unat (h ! 3) < 2 ^ 26" "unat (h ! 4) < 2 ^ 26"
    using assms by (auto simp: norm5_def all_less_5)
  have d: "unat (drop_bit 6 (h ! 1)) = unat (h ! 1) div 2 ^ 6" "unat (drop_bit 12 (h ! 2)) = unat (h ! 2) div 2 ^ 12"
    "unat (drop_bit 18 (h ! 3)) = unat (h ! 3) div 2 ^ 18" by (simp_all add: drop_bit_eq_div unat_div)
  have b: "unat (h ! 1) div 2 ^ 6 < 2 ^ 20" "unat (h ! 2) div 2 ^ 12 < 2 ^ 14" "unat (h ! 3) div 2 ^ 18 < 2 ^ 8"
    using h by (simp_all add: div_less_iff_less_mult)
  have w: "unat (h ! 0 OR push_bit 26 (h ! 1)) = unat (h ! 0) + 2 ^ 26 * (unat (h ! 1) mod 2 ^ 6)"
    "unat (drop_bit 6 (h ! 1) OR push_bit 20 (h ! 2)) = unat (h ! 1) div 2 ^ 6 + 2 ^ 20 * (unat (h ! 2) mod 2 ^ 12)"
    "unat (drop_bit 12 (h ! 2) OR push_bit 14 (h ! 3)) = unat (h ! 2) div 2 ^ 12 + 2 ^ 14 * (unat (h ! 3) mod 2 ^ 18)"
    "unat (drop_bit 18 (h ! 3) OR push_bit 8 (h ! 4)) = unat (h ! 3) div 2 ^ 18 + 2 ^ 8 * (unat (h ! 4) mod 2 ^ 24)"
    using pair_word [of "h ! 0" 26 "h ! 1"] pair_word [of "drop_bit 6 (h ! 1)" 20 "h ! 2"]
      pair_word [of "drop_bit 12 (h ! 2)" 14 "h ! 3"] pair_word [of "drop_bit 18 (h ! 3)" 8 "h ! 4"] h(2) b
    unfolding d by (simp_all add: less_imp_le del: power_numeral)
  have s: "unat (h ! 1) = unat (h ! 1) mod 2 ^ 6 + 2 ^ 6 * (unat (h ! 1) div 2 ^ 6)"
    "unat (h ! 2) = unat (h ! 2) mod 2 ^ 12 + 2 ^ 12 * (unat (h ! 2) div 2 ^ 12)"
    "unat (h ! 3) = unat (h ! 3) mod 2 ^ 18 + 2 ^ 18 * (unat (h ! 3) div 2 ^ 18)"
    "unat (h ! 4) = unat (h ! 4) mod 2 ^ 24 + 2 ^ 24 * (unat (h ! 4) div 2 ^ 24)" by simp_all
  have v: "val5 (limbs h) = unat (h ! 0) + 2 ^ 26 * unat (h ! 1) + 2 ^ 52 * unat (h ! 2) + 2 ^ 78 * unat (h ! 3) + 2 ^ 104 * unat (h ! 4)"
    using h(1) by (simp add: val5_def limbs_def)
  have q: "val4 (poly_pack h) = unat (h ! 0) + 2 ^ 26 * (unat (h ! 1) mod 2 ^ 6) + 2 ^ 32 * (unat (h ! 1) div 2 ^ 6 + 2 ^ 20 * (unat (h ! 2) mod 2 ^ 12)) +
      2 ^ 64 * (unat (h ! 2) div 2 ^ 12 + 2 ^ 14 * (unat (h ! 3) mod 2 ^ 18)) + 2 ^ 96 * (unat (h ! 3) div 2 ^ 18 + 2 ^ 8 * (unat (h ! 4) mod 2 ^ 24))"
    using w by (simp add: val4_def poly_pack_def)
  have "val5 (limbs h) = val4 (poly_pack h) + 2 ^ 128 * (unat (h ! 4) div 2 ^ 24)"
    unfolding v q by (rule pack_sum [OF s])
  then show ?thesis using val4_less [of "poly_pack h"] by simp
qed

lemma poly_sum_val:
  "val4 (poly_sum w s) = (val4 w + val4 s) mod 2 ^ 128"
proof -
  note l = unat_u32_less
  define f0 where "f0 = (ucast (w ! 0) + ucast (s ! 0) :: u64)"
  define f1 where "f1 = ucast (w ! 1) + ucast (s ! 1) + drop_bit 32 f0"
  define f2 where "f2 = ucast (w ! 2) + ucast (s ! 2) + drop_bit 32 f1"
  define f3 where "f3 = ucast (w ! 3) + ucast (s ! 3) + drop_bit 32 f2"
  have d: "unat (drop_bit 32 f) = unat f div 2 ^ 32" "unat (ucast f :: u32) = unat f mod 2 ^ 32" for f :: u64
    by (simp_all add: drop_bit_eq_div unat_div unsigned_ucast_eq take_bit_eq_mod)
  have step: "unat (ucast a + ucast b + c :: u64) = unat a + unat b + unat c" if "unat c < 2 ^ 32" for a b :: u32 and c :: u64
  proof -
    have "unat (ucast a + ucast b :: u64) = unat a + unat b" using l [of a] l [of b] by (subst unat_plus64) simp_all
    then show ?thesis using l [of a] l [of b] that by (subst unat_plus64) simp_all
  qed
  have q: "unat f div 2 ^ 32 < 2 ^ 32" for f :: u64 using unsigned_less [of f] by (simp add: div_less_iff_less_mult)
  have carry: "unat (ucast a + ucast b + drop_bit 32 f :: u64) = unat a + unat b + unat f div 2 ^ 32" for a b :: u32 and f :: u64
    using step [of "drop_bit 32 f" a b] q [of f] by (simp only: d)
  have u0: "unat f0 = unat (w ! 0) + unat (s ! 0)" unfolding f0_def using step [of 0 "w ! 0" "s ! 0"] by simp
  note u = u0 carry [of "w ! 1" "s ! 1" f0, folded f1_def] carry [of "w ! 2" "s ! 2" f1, folded f2_def] carry [of "w ! 3" "s ! 3" f2, folded f3_def]
  have r: "unat f = unat f mod 2 ^ 32 + 2 ^ 32 * (unat f div 2 ^ 32)" for f :: u64 by simp
  have e: "val4 (poly_sum w s) = unat f0 mod 2 ^ 32 + 2 ^ 32 * (unat f1 mod 2 ^ 32) + 2 ^ 64 * (unat f2 mod 2 ^ 32) + 2 ^ 96 * (unat f3 mod 2 ^ 32)"
    unfolding val4_def poly_sum_def Let_def f0_def [symmetric] f1_def [symmetric] f2_def [symmetric] f3_def [symmetric] by (simp add: d)
  have "val4 w + val4 s = val4 (poly_sum w s) + 2 ^ 128 * (unat f3 div 2 ^ 32)"
    unfolding e unfolding val4_def by (rule carry_sum [OF u r r r r])
  then show ?thesis using val4_less [of "poly_sum w s"] by simp
qed

lemma le_num_put: "le_num (put_le32 v) = unat v"
  using unat_le32 [of "put_le32 v"] le_num_bound [of "put_le32 v" 4] by (simp add: take_bit_eq_mod)

lemma poly_finish_val:
  assumes "h_ok (p_h (poly_last p))" "length (p_s p) = 4"
  shows "length (poly_finish p) = 16"
    and "le_num (poly_finish p) = (val5 (limbs (p_h (poly_last p))) mod P1305 + val4 (p_s p)) mod 2 ^ 128"
proof -
  let ?h = "p_h (poly_last p)"
  define w where "w = poly_sum (poly_pack (poly_select (poly_reduce ?h))) (p_s p)"
  have wl: "w = [w ! 0, w ! 1, w ! 2, w ! 3]" by (simp add: w_def poly_sum_def Let_def)
  have f: "poly_finish p = put_le32 (w ! 0) @ put_le32 (w ! 1) @ put_le32 (w ! 2) @ put_le32 (w ! 3)"
    unfolding poly_finish_def w_def [symmetric] by (subst wl) simp
  show "length (poly_finish p) = 16" by (simp add: f)
  obtain k where k: "val5 (limbs ?h) = val5 (limbs (poly_reduce ?h)) + k * P1305" using poly_reduce_val(2) [OF assms(1)] by blast
  note n = poly_reduce_val(1) [OF assms(1)]
  have "val5 (limbs (poly_select (poly_reduce ?h))) = val5 (limbs ?h) mod P1305"
    using poly_select_val(2) [OF n] k by simp
  then have "val4 w = (val5 (limbs ?h) mod P1305 mod 2 ^ 128 + val4 (p_s p)) mod 2 ^ 128"
    unfolding w_def poly_sum_val using poly_pack_val [OF poly_select_val(1) [OF n]] by simp
  moreover have "le_num (poly_finish p) = val4 w" by (simp add: f le_num_append le_num_put val4_def)
  ultimately show "le_num (poly_finish p) = (val5 (limbs ?h) mod P1305 + val4 (p_s p)) mod 2 ^ 128" by (simp add: mod_add_left_eq)
qed


section \<open>The message in pieces\<close>

definition poly_step :: "u32 list \<Rightarrow> u32 list \<Rightarrow> byte list \<Rightarrow> u32 list" where
  "poly_step r h m = poly_carry (poly_mul (poly_add h m (push_bit 24 1)) r)"

definition poly_view :: "poly1305 \<Rightarrow> u32 list \<times> byte list" where
  "poly_view p = (p_h p, p_buf p)"

lemma poly_view_simps [simp]: "fst (poly_view p) = p_h p" "snd (poly_view p) = p_buf p"
  by (simp_all add: poly_view_def)

lemma poly_block_keeps [simp]: "p_r (poly_block p m b) = p_r p" "p_s (poly_block p m b) = p_s p" "p_buf (poly_block p m b) = p_buf p"
  "p_h (poly_block p m (push_bit 24 1)) = poly_step (p_r p) (p_h p) m"
  by (simp_all add: poly_block_def poly_step_def)

lemma poly_whole_keeps [simp]: "p_r (poly_whole m p) = p_r p" "p_s (poly_whole m p) = p_s p"
  by (induction m p rule: poly_whole.induct; subst poly_whole.simps; simp)+

lemma poly_update_keeps [simp]: "p_r (poly_update m p) = p_r p" "p_s (poly_update m p) = p_s p"
  by (simp_all add: poly_update_def Let_def)

lemma poly_whole_view: "p_buf p = [] \<Longrightarrow> poly_view (poly_whole m p) = absorb (poly_step (p_r p)) 16 (p_h p) m"
proof (induction m p rule: poly_whole.induct)
  case (1 m p)
  show ?case using 1(1) [OF _] 1(2)
    by (subst poly_whole.simps, subst absorb.simps) (auto simp: poly_view_def not_less simp del: push_bit_of_1)
qed

lemma poly_update_view:
  assumes "length (p_buf p) < 16"
  shows "poly_view (poly_update d p) = absorb (poly_step (p_r p)) 16 (p_h p) (p_buf p @ d)"
proof (cases "p_buf p = []")
  case True
  then show ?thesis by (simp add: poly_update_def poly_whole_view)
next
  case ne: False
  show ?thesis
  proof (cases "length (p_buf p @ d) < 16")
    case True
    then show ?thesis using ne assms by (simp add: poly_update_def Let_def absorb_small poly_view_def)
  next
    case False
    let ?n = "16 - length (p_buf p)"
    have n: "min ?n (length d) = ?n" using False by simp
    have "absorb (poly_step (p_r p)) 16 (p_h p) ((p_buf p @ take ?n d) @ drop ?n d) =
        absorb (poly_step (p_r p)) 16 (poly_step (p_r p) (p_h p) (p_buf p @ take ?n d)) (drop ?n d)"
      using False assms by (intro absorb_block) auto
    moreover have "length (p_buf p @ take ?n d) = 16" using False assms by simp
    ultimately show ?thesis using ne n
      by (simp add: poly_update_def Let_def poly_whole_view del: push_bit_of_1)
  qed
qed

interpretation poly: block_stream "poly_step r" 16 poly_update poly_view "\<lambda>p. p_r p = r \<and> length (p_buf p) < 16" for r
proof unfold_locales
  fix p :: poly1305 and d
  assume ok: "p_r p = r \<and> length (p_buf p) < 16"
  then show v: "poly_view (poly_update d p) = absorb (poly_step r) 16 (fst (poly_view p)) (snd (poly_view p) @ d)"
    using poly_update_view by auto
  have "p_buf (poly_update d p) = snd (absorb (poly_step r) 16 (p_h p) (p_buf p @ d))" using arg_cong [OF v, of snd] by simp
  then show "p_r (poly_update d p) = r \<and> length (p_buf (poly_update d p)) < 16" using ok by simp
qed auto

text \<open>RFC 8439: the blocks of the message, the last one possibly short, each with a byte 1 behind it.\<close>

definition blocks16 :: "byte list \<Rightarrow> byte list list" where
  "blocks16 m = chunks 16 m @ (if 16 dvd length m then [] else [drop (length m - length m mod 16) m])"

definition poly_acc :: "nat \<Rightarrow> byte list \<Rightarrow> nat" where
  "poly_acc r m = foldl (\<lambda>a b. (a + le_num (b @ [1])) * r mod P1305) 0 (blocks16 m)"

lemma chunks_length: "b \<in> set (chunks B xs) \<Longrightarrow> length b = B"
  by (induction B xs rule: chunks.induct) (subst (asm) chunks.simps, auto split: if_splits)

lemma hibit_val: "unat (push_bit 24 1 :: u32) * 2 ^ 104 = 2 ^ 128"
  by simp

lemma poly_step_val:
  assumes "h_ok h" "r_ok r" "length m = 16"
  shows "h_ok (poly_step r h m)"
    and "val5 (limbs (poly_step r h m)) mod P1305 = (val5 (limbs h) mod P1305 + le_num (m @ [1])) * val5 (limbs r) mod P1305"
proof -
  let ?p = "\<lparr>p_r = r, p_s = [], p_h = h, p_buf = []\<rparr>"
  have hi: "(push_bit 24 1 :: u32) = 0 \<or> (push_bit 24 1 :: u32) = push_bit 24 1" by (rule disjI2) (rule refl)
  have b: "le_num (m @ [1]) = le_num m + unat (push_bit 24 1 :: u32) * 2 ^ 104"
    using assms(3) unfolding hibit_val by (simp add: le_num_append)
  note v = poly_block_val [of ?p m "push_bit 24 1", OF _ _ assms(3) hi]
  show "h_ok (poly_step r h m)" using v(1) assms by (simp del: push_bit_of_1)
  have "val5 (limbs (poly_step r h m)) mod P1305 = (val5 (limbs h) + le_num (m @ [1])) * val5 (limbs r) mod P1305"
    using v(2) assms unfolding b by (simp del: push_bit_of_1 add: add.assoc)
  then show "val5 (limbs (poly_step r h m)) mod P1305 = (val5 (limbs h) mod P1305 + le_num (m @ [1])) * val5 (limbs r) mod P1305"
    by (metis mod_add_left_eq mod_mult_left_eq)
qed

lemma poly_chunks_val:
  assumes "r_ok r" "h_ok h" "\<forall>b \<in> set bs. length b = 16"
  shows "h_ok (foldl (poly_step r) h bs)"
    and "val5 (limbs (foldl (poly_step r) h bs)) mod P1305 =
      foldl (\<lambda>a b. (a + le_num (b @ [1])) * val5 (limbs r) mod P1305) (val5 (limbs h) mod P1305) bs"
  using assms(2,3)
proof (induction bs arbitrary: h)
  case (Cons b bs)
  {
    case 1
    then show ?case using Cons.IH(1) [of "poly_step r h b"] poly_step_val(1) [OF _ assms(1)] by simp
  next
    case 2
    then show ?case using Cons.IH(2) [of "poly_step r h b"] poly_step_val [OF _ assms(1), of h b] by simp
  }
qed simp_all

text \<open>A context that has taken the message \<open>m\<close> ends with the tag of RFC 8439.\<close>

lemma poly_tag:
  assumes "length key = 32" "poly_view p = absorb (poly_step (p_r (poly_init key))) 16 [0, 0, 0, 0, 0] m"
    "p_r p = p_r (poly_init key)" "p_s p = p_s (poly_init key)"
  shows "length (poly_finish p) = 16" "le_num (poly_finish p) = (poly_acc (r1305 key) m + s1305 key) mod 2 ^ 128"
proof -
  let ?r = "p_r (poly_init key)" and ?f = "\<lambda>a b. (a + le_num (b @ [1])) * r1305 key mod P1305"
  note r = poly_init_r [OF assms(1)] and s = poly_init_s [OF assms(1)]
  have z: "h_ok [0, 0, 0, 0, 0]" "val5 (limbs [0, 0, 0, 0, 0]) mod P1305 = 0" by (simp_all add: h_ok_def limbs_def val5_def)
  have h: "p_h p = foldl (poly_step ?r) [0, 0, 0, 0, 0] (chunks 16 m)" using arg_cong [OF assms(2), of fst] by (simp add: absorb_chunks)
  have b: "p_buf p = drop (length m - length m mod 16) m" using arg_cong [OF assms(2), of snd] by (simp add: absorb_rest)
  have "\<forall>b \<in> set (chunks 16 m). length b = 16" by (simp add: chunks_length)
  note c = poly_chunks_val [OF r(1) z(1) this, folded h, unfolded z(2) r(2)]
  have last: "h_ok (p_h (poly_last p)) \<and> val5 (limbs (p_h (poly_last p))) mod P1305 = poly_acc (r1305 key) m"
  proof (cases "p_buf p = []")
    case True
    moreover have "length (p_buf p) = length m mod 16" using b by simp
    ultimately have "16 dvd length m" by (simp add: dvd_eq_mod_eq_0)
    then show ?thesis using True c by (simp add: poly_last_def poly_acc_def blocks16_def)
  next
    case False
    let ?b = "p_buf p @ 1 # replicate (15 - length (p_buf p)) 0"
    have n: "\<not> 16 dvd length m" using False b by (auto simp: dvd_eq_mod_eq_0)
    have l: "length ?b = 16" using b by simp
    have zero: "le_num (replicate k 0) = 0" for k by (induction k) simp_all
    have "le_num ?b = le_num (p_buf p @ [1])" by (simp add: le_num_append zero)
    moreover have rp: "r_ok (p_r p)" "val5 (limbs (p_r p)) = r1305 key" using r assms(3) by simp_all
    ultimately have "h_ok (p_h (poly_block p ?b 0))"
      "val5 (limbs (p_h (poly_block p ?b 0))) mod P1305 = (val5 (limbs (p_h p)) + le_num (p_buf p @ [1])) * r1305 key mod P1305"
      using poly_block_val [OF c(1) rp(1) l, of 0] by simp_all
    moreover have "(val5 (limbs (p_h p)) + le_num (p_buf p @ [1])) * r1305 key mod P1305 = ?f (val5 (limbs (p_h p)) mod P1305) (p_buf p)"
      by (metis mod_add_left_eq mod_mult_left_eq)
    ultimately show ?thesis using False n c(2) b by (simp add: poly_last_def poly_acc_def blocks16_def)
  qed
  have "val4 (p_s p) = s1305 key" using s(2) assms(4) by (simp add: val4_def)
  then show "length (poly_finish p) = 16" "le_num (poly_finish p) = (poly_acc (r1305 key) m + s1305 key) mod 2 ^ 128"
    using poly_finish_val [of p] last s(1) assms(4) by simp_all
qed

lemma poly_updates_tag:
  assumes "length key = 32"
  shows "length (poly_finish (fold poly_update ds (poly_init key))) = 16"
    "le_num (poly_finish (fold poly_update ds (poly_init key))) = (poly_acc (r1305 key) (concat ds) + s1305 key) mod 2 ^ 128"
proof -
  let ?p = "fold poly_update ds (poly_init key)"
  have i: "p_r (poly_init key) = p_r (poly_init key) \<and> length (p_buf (poly_init key)) < 16" by (simp add: poly_init_def)
  have "p_r (fold poly_update ds p) = p_r p \<and> p_s (fold poly_update ds p) = p_s p" for p
    by (induction ds arbitrary: p) simp_all
  moreover have "poly_view ?p = absorb (poly_step (p_r (poly_init key))) 16 [0, 0, 0, 0, 0] (concat ds)"
    using poly.updates_view [OF i] by (simp add: poly_init_def)
  ultimately show "length (poly_finish ?p) = 16" "le_num (poly_finish ?p) = (poly_acc (r1305 key) (concat ds) + s1305 key) mod 2 ^ 128"
    using poly_tag [OF assms, of ?p] by simp_all
qed


section \<open>Property\<close>

text \<open>
  C24. Poly1305 in 26-bit limbs is Poly1305: for every key of 32 bytes and every message, also in pieces, the 16 bytes of the tag are the
  number \<open>(((c1 r^n + c2 r^(n-1) + ... + cn r) mod (2^130 - 5)) + s) mod 2^128\<close> of RFC 8439, with no carry or overflow lost.
\<close>

theorem poly1305_equiv:
  assumes "length key = 32"
  shows "length (poly1305_mac msg key) = 16 \<and>
    le_num (poly1305_mac msg key) = (poly_acc (r1305 key) msg + s1305 key) mod 2 ^ 128 \<and>
    le_num (poly_finish (fold poly_update ds (poly_init key))) = (poly_acc (r1305 key) (concat ds) + s1305 key) mod 2 ^ 128"
  using poly_updates_tag [OF assms, of "[msg]"] poly_updates_tag [OF assms, of ds] by (simp add: poly1305_mac_def)

theorem poly1305_equiv_witness:
  "length (poly1305_mac [1, 2, 3] (replicate 32 7)) = 16 \<and>
   le_num (poly1305_mac [1, 2, 3] (replicate 32 7)) = (poly_acc (r1305 (replicate 32 7)) [1, 2, 3] + s1305 (replicate 32 7)) mod 2 ^ 128"
  using poly1305_equiv [of "replicate 32 7" "[1, 2, 3]" "[]"] unfolding length_replicate by blast

end
