(* ===== verification/Chacha.thy ===== *)
theory Chacha
  imports Ciphers Poly1305
begin

text \<open>
  ChaCha20 (\<open>crypto/chacha20.c\<close>) and the authenticated cipher it makes with Poly1305 (\<open>crypto/aead.c\<close>).
\<close>

definition ROTL :: "u32 \<Rightarrow> nat \<Rightarrow> u32" where
  "ROTL x n = push_bit n x OR drop_bit (32 - n) x"

text \<open>The macro \<open>QR\<close> on four places of the state.\<close>

definition QR :: "nat \<Rightarrow> nat \<Rightarrow> nat \<Rightarrow> nat \<Rightarrow> u32 list \<Rightarrow> u32 list" where
  "QR ja jb jc jd x =
     (let a = x ! ja; b = x ! jb; c = x ! jc; d = x ! jd;
          a = a + b; d = d XOR a; d = ROTL d 16;
          c = c + d; b = b XOR c; b = ROTL b 12;
          a = a + b; d = d XOR a; d = ROTL d 8;
          c = c + d; b = b XOR c; b = ROTL b 7
      in x[ja := a, jb := b, jc := c, jd := d])"

definition double_round :: "u32 list \<Rightarrow> u32 list" where
  "double_round x =
     (let x = QR 0 4 8 12 x; x = QR 1 5 9 13 x; x = QR 2 6 10 14 x; x = QR 3 7 11 15 x;
          x = QR 0 5 10 15 x; x = QR 1 6 11 12 x; x = QR 2 7 8 13 x
      in QR 3 4 9 14 x)"

definition chacha20_state :: "byte list \<Rightarrow> u32 \<Rightarrow> byte list \<Rightarrow> u32 list" where
  "chacha20_state key counter nonce =
     [0x61707865, 0x3320646e, 0x79622d32, 0x6b206574] @ map (\<lambda>i. le32 (drop (i * 4) key)) [0..<8] @
     [counter, le32 nonce, le32 (drop 4 nonce), le32 (drop 8 nonce)]"

definition chacha20_block :: "byte list \<Rightarrow> u32 \<Rightarrow> byte list \<Rightarrow> byte list" where
  "chacha20_block key counter nonce =
     (let s = chacha20_state key counter nonce; x = (double_round ^^ 10) s
      in concat (map (\<lambda>i. put_le32 (x ! i + s ! i)) [0..<16]))"

definition chacha20_xor :: "byte list \<Rightarrow> u32 \<Rightarrow> byte list \<Rightarrow> byte list \<Rightarrow> byte list" where
  "chacha20_xor key counter nonce buf = ctr_xor (\<lambda>c. chacha20_block key c nonce) (\<lambda>c. c + 1) 64 counter buf"

definition cc_tag :: "byte list \<Rightarrow> byte list \<Rightarrow> byte list \<Rightarrow> byte list \<Rightarrow> byte list" where
  "cc_tag key nonce aad ct =
     (let block = chacha20_block key 0 nonce;
          p = poly_init (take 32 block);
          p = poly_update aad p;
          p = (if length aad mod 16 \<noteq> 0 then poly_update (replicate (16 - length aad mod 16) 0) p else p);
          p = poly_update ct p;
          p = (if length ct mod 16 \<noteq> 0 then poly_update (replicate (16 - length ct mod 16) 0) p else p);
          p = poly_update (put_le32 (of_nat (length aad)) @ replicate 4 0 @ put_le32 (of_nat (length ct)) @ replicate 4 0) p
      in poly_finish p)"

definition chacha20poly1305_seal :: "byte list \<Rightarrow> byte list \<Rightarrow> byte list \<Rightarrow> byte list \<Rightarrow> byte list \<times> byte list" where
  "chacha20poly1305_seal key nonce aad buf =
     (let buf = chacha20_xor key 1 nonce buf in (buf, cc_tag key nonce aad buf))"

definition chacha20poly1305_open :: "byte list \<Rightarrow> byte list \<Rightarrow> byte list \<Rightarrow> byte list \<Rightarrow> byte list \<Rightarrow> int \<times> byte list" where
  "chacha20poly1305_open key nonce aad buf tag =
     (let expect = cc_tag key nonce aad buf
      in if ct_memcmp expect tag 16 \<noteq> 0 then (-1, buf) else (0, chacha20_xor key 1 nonce buf))"


section \<open>The key stream\<close>

lemma chacha20_block_length [simp]: "length (chacha20_block key c nonce) = 64"
  by (simp add: chacha20_block_def Let_def length_concat o_def sum_list_triv)

lemma chacha20_xor_twice: "chacha20_xor key c nonce (chacha20_xor key c nonce buf) = buf"
  unfolding chacha20_xor_def by (rule ctr_xor_twice) simp


section \<open>The tag\<close>

definition pad16 :: "byte list \<Rightarrow> byte list" where
  "pad16 xs = xs @ replicate ((16 - length xs mod 16) mod 16) 0"

text \<open>What the tag is over: the associated data and the text, each filled up to 16 bytes, and their lengths as 64-bit numbers.\<close>

definition cc_message :: "byte list \<Rightarrow> byte list \<Rightarrow> byte list" where
  "cc_message aad ct = pad16 aad @ pad16 ct @ put_le32 (of_nat (length aad)) @ replicate 4 0 @ put_le32 (of_nat (length ct)) @ replicate 4 0"

lemma poly_update_pad:
  "(if length xs mod 16 \<noteq> 0 then poly_update (replicate (16 - length xs mod 16) 0) p else p) =
    fold poly_update (if length xs mod 16 \<noteq> 0 then [replicate ((16 - length xs mod 16) mod 16) 0] else []) p"
  by simp

lemma cc_tag_poly:
  defines "z \<equiv> \<lambda>xs :: byte list. if length xs mod 16 \<noteq> 0 then [replicate ((16 - length xs mod 16) mod 16) 0] else []"
  shows "cc_tag key nonce aad ct = poly_finish (fold poly_update ([aad] @ z aad @ [ct] @ z ct @
    [put_le32 (of_nat (length aad)) @ replicate 4 0 @ put_le32 (of_nat (length ct)) @ replicate 4 0]) (poly_init (take 32 (chacha20_block key 0 nonce))))"
  unfolding cc_tag_def Let_def poly_update_pad z_def by simp

lemma cc_tag_spec:
  fixes key nonce :: "byte list"
  defines "k \<equiv> take 32 (chacha20_block key 0 nonce)"
  shows "length (cc_tag key nonce aad ct) = 16"
    "le_num (cc_tag key nonce aad ct) = (poly_acc (r1305 k) (cc_message aad ct) + s1305 k) mod 2 ^ 128"
proof -
  let ?z = "\<lambda>xs :: byte list. if length xs mod 16 \<noteq> 0 then [replicate ((16 - length xs mod 16) mod 16) (0 :: byte)] else []"
  let ?l = "put_le32 (of_nat (length aad)) @ replicate 4 0 @ put_le32 (of_nat (length ct)) @ replicate 4 0"
  have k: "length k = 32" by (simp add: k_def)
  have "concat ([aad] @ ?z aad @ [ct] @ ?z ct @ [?l]) = cc_message aad ct" by (simp add: cc_message_def pad16_def)
  then show "length (cc_tag key nonce aad ct) = 16"
    "le_num (cc_tag key nonce aad ct) = (poly_acc (r1305 k) (cc_message aad ct) + s1305 k) mod 2 ^ 128"
    using poly_updates_tag [OF k, of "[aad] @ ?z aad @ [ct] @ ?z ct @ [?l]"] unfolding cc_tag_poly k_def by simp_all
qed

interpretation chacha_aead: aead "chacha20_xor key 1 nonce" "cc_tag key nonce" "chacha20poly1305_seal key nonce" "chacha20poly1305_open key nonce"
  for key nonce
  by unfold_locales (simp_all add: chacha20_xor_twice cc_tag_spec chacha20poly1305_seal_def chacha20poly1305_open_def Let_def)


section \<open>Property\<close>

text \<open>
  C23. ChaCha20-Poly1305: what was sealed opens to the text; a text and tag that open were sealed like that, for every other tag the
  result is -1 and the buffer is left alone; and the tag is that of RFC 8439 over the padded data and the lengths, under the
  first 32 bytes of block 0.
\<close>

theorem chacha20poly1305_contract:
  fixes key nonce aad p c t :: "byte list"
  assumes "length t = 16"
  defines "k \<equiv> take 32 (chacha20_block key 0 nonce)"
  shows "(case chacha20poly1305_seal key nonce aad p of (ct, tag) \<Rightarrow> length ct = length p \<and> chacha20poly1305_open key nonce aad ct tag = (0, p)) \<and>
    chacha20poly1305_open key nonce aad c t =
      (if \<exists>p. chacha20poly1305_seal key nonce aad p = (c, t) then (0, chacha20_xor key 1 nonce c) else (-1, c)) \<and>
    le_num (snd (chacha20poly1305_seal key nonce aad p)) =
      (poly_acc (r1305 k) (cc_message aad (fst (chacha20poly1305_seal key nonce aad p))) + s1305 k) mod 2 ^ 128"
proof (intro conjI)
  show "case chacha20poly1305_seal key nonce aad p of (ct, tag) \<Rightarrow> length ct = length p \<and> chacha20poly1305_open key nonce aad ct tag = (0, p)"
    using chacha_aead.unseal_seal [of key nonce aad p] by (simp add: case_prod_beta chacha_aead.seal) (simp add: chacha20_xor_def)
  have "(\<exists>p. chacha20poly1305_seal key nonce aad p = (c, t)) \<longleftrightarrow> t = cc_tag key nonce aad c"
    using chacha20_xor_twice [of key 1 nonce c] by (auto simp: chacha_aead.seal)
  then show "chacha20poly1305_open key nonce aad c t =
      (if \<exists>p. chacha20poly1305_seal key nonce aad p = (c, t) then (0, chacha20_xor key 1 nonce c) else (-1, c))"
    using chacha_aead.unseal_iff [OF assms(1)] by simp
  show "le_num (snd (chacha20poly1305_seal key nonce aad p)) =
      (poly_acc (r1305 k) (cc_message aad (fst (chacha20poly1305_seal key nonce aad p))) + s1305 k) mod 2 ^ 128"
    unfolding chacha_aead.seal fst_conv snd_conv k_def by (rule cc_tag_spec(2))
qed

theorem chacha20poly1305_contract_witness:
  "chacha20poly1305_open (replicate 32 1) (replicate 12 2) [3] (fst (chacha20poly1305_seal (replicate 32 1) (replicate 12 2) [3] [4, 5]))
    (snd (chacha20poly1305_seal (replicate 32 1) (replicate 12 2) [3] [4, 5])) = (0, [4, 5])"
  using chacha20poly1305_contract [where t = "replicate 16 0" and key = "replicate 32 1" and nonce = "replicate 12 2" and aad = "[3]" and p = "[4, 5]"]
  unfolding length_replicate
  by (auto simp: case_prod_beta)

end
