(* ===== verification/Aes.thy ===== *)
theory Aes
  imports Block_Stream
begin

text \<open>
  AES-128: the key schedule and the encryption with the T-tables of \<open>crypto/aead.c\<close>, and the byte-wise decryption of
  \<open>crypto/wifi_crypto.c\<close>. The tables are those \<open>build_tables\<close> fills in before the first key is set up; nothing writes them later.
\<close>

section \<open>Encryption\<close>

definition SBOX :: "byte list" where
  "SBOX =
    [0x63, 0x7c, 0x77, 0x7b, 0xf2, 0x6b, 0x6f, 0xc5, 0x30, 0x01, 0x67, 0x2b, 0xfe, 0xd7, 0xab, 0x76,
     0xca, 0x82, 0xc9, 0x7d, 0xfa, 0x59, 0x47, 0xf0, 0xad, 0xd4, 0xa2, 0xaf, 0x9c, 0xa4, 0x72, 0xc0,
     0xb7, 0xfd, 0x93, 0x26, 0x36, 0x3f, 0xf7, 0xcc, 0x34, 0xa5, 0xe5, 0xf1, 0x71, 0xd8, 0x31, 0x15,
     0x04, 0xc7, 0x23, 0xc3, 0x18, 0x96, 0x05, 0x9a, 0x07, 0x12, 0x80, 0xe2, 0xeb, 0x27, 0xb2, 0x75,
     0x09, 0x83, 0x2c, 0x1a, 0x1b, 0x6e, 0x5a, 0xa0, 0x52, 0x3b, 0xd6, 0xb3, 0x29, 0xe3, 0x2f, 0x84,
     0x53, 0xd1, 0x00, 0xed, 0x20, 0xfc, 0xb1, 0x5b, 0x6a, 0xcb, 0xbe, 0x39, 0x4a, 0x4c, 0x58, 0xcf,
     0xd0, 0xef, 0xaa, 0xfb, 0x43, 0x4d, 0x33, 0x85, 0x45, 0xf9, 0x02, 0x7f, 0x50, 0x3c, 0x9f, 0xa8,
     0x51, 0xa3, 0x40, 0x8f, 0x92, 0x9d, 0x38, 0xf5, 0xbc, 0xb6, 0xda, 0x21, 0x10, 0xff, 0xf3, 0xd2,
     0xcd, 0x0c, 0x13, 0xec, 0x5f, 0x97, 0x44, 0x17, 0xc4, 0xa7, 0x7e, 0x3d, 0x64, 0x5d, 0x19, 0x73,
     0x60, 0x81, 0x4f, 0xdc, 0x22, 0x2a, 0x90, 0x88, 0x46, 0xee, 0xb8, 0x14, 0xde, 0x5e, 0x0b, 0xdb,
     0xe0, 0x32, 0x3a, 0x0a, 0x49, 0x06, 0x24, 0x5c, 0xc2, 0xd3, 0xac, 0x62, 0x91, 0x95, 0xe4, 0x79,
     0xe7, 0xc8, 0x37, 0x6d, 0x8d, 0xd5, 0x4e, 0xa9, 0x6c, 0x56, 0xf4, 0xea, 0x65, 0x7a, 0xae, 0x08,
     0xba, 0x78, 0x25, 0x2e, 0x1c, 0xa6, 0xb4, 0xc6, 0xe8, 0xdd, 0x74, 0x1f, 0x4b, 0xbd, 0x8b, 0x8a,
     0x70, 0x3e, 0xb5, 0x66, 0x48, 0x03, 0xf6, 0x0e, 0x61, 0x35, 0x57, 0xb9, 0x86, 0xc1, 0x1d, 0x9e,
     0xe1, 0xf8, 0x98, 0x11, 0x69, 0xd9, 0x8e, 0x94, 0x9b, 0x1e, 0x87, 0xe9, 0xce, 0x55, 0x28, 0xdf,
     0x8c, 0xa1, 0x89, 0x0d, 0xbf, 0xe6, 0x42, 0x68, 0x41, 0x99, 0x2d, 0x0f, 0xb0, 0x54, 0xbb, 0x16]"

definition xtime :: "byte \<Rightarrow> byte" where
  "xtime x = push_bit 1 x XOR (if x AND 0x80 \<noteq> 0 then 0x1b else 0)"

definition ror8 :: "u32 \<Rightarrow> u32" where
  "ror8 v = drop_bit 8 v OR push_bit 24 v"

definition te_entry :: "byte \<Rightarrow> u32" where
  "te_entry s =
     (let s2 = xtime s; s3 = s2 XOR s
      in push_bit 24 (ucast s2) OR push_bit 16 (ucast s) OR push_bit 8 (ucast s) OR ucast s3)"

definition Te0 :: "u32 list" where "Te0 = map te_entry SBOX"
definition Te1 :: "u32 list" where "Te1 = map ror8 Te0"
definition Te2 :: "u32 list" where "Te2 = map ror8 Te1"
definition Te3 :: "u32 list" where "Te3 = map ror8 Te2"

record aes128 =
  rk :: "u32 list"

text \<open>The indexes into the tables: the four bytes of a word.\<close>

definition byte3 :: "u32 \<Rightarrow> nat" where "byte3 v = unat (drop_bit 24 v)"
definition byte2 :: "u32 \<Rightarrow> nat" where "byte2 v = unat (drop_bit 16 v AND 0xff)"
definition byte1 :: "u32 \<Rightarrow> nat" where "byte1 v = unat (drop_bit 8 v AND 0xff)"
definition byte0 :: "u32 \<Rightarrow> nat" where "byte0 v = unat (v AND 0xff)"

text \<open>The macro \<open>FIN\<close>, which is also the \<open>SubWord\<close> of the key schedule.\<close>

definition FIN :: "u32 \<Rightarrow> u32 \<Rightarrow> u32 \<Rightarrow> u32 \<Rightarrow> u32" where
  "FIN a b c d =
     push_bit 24 (ucast (SBOX ! byte3 a)) OR push_bit 16 (ucast (SBOX ! byte2 b)) OR push_bit 8 (ucast (SBOX ! byte1 c)) OR
     ucast (SBOX ! byte0 d)"

definition rcon :: "byte list" where
  "rcon = [0x01, 0x02, 0x04, 0x08, 0x10, 0x20, 0x40, 0x80, 0x1b, 0x36]"

definition key_word :: "nat \<Rightarrow> u32 list \<Rightarrow> u32" where
  "key_word i w =
     (let t = w ! (i - 1);
          t = (if i mod 4 = 0 then
                 let t = push_bit 8 t OR drop_bit 24 t; t = FIN t t t t in t XOR push_bit 24 (ucast (rcon ! (i div 4 - 1)))
               else t)
      in w ! (i - 4) XOR t)"

definition aes128_init :: "byte list \<Rightarrow> aes128" where
  "aes128_init key = \<lparr>rk = fold (\<lambda>i w. w @ [key_word i w]) [4..<44] (map (\<lambda>i. be32 (drop (4 * i) key)) [0..<4])\<rparr>"

definition aes_round :: "u32 list \<Rightarrow> nat \<Rightarrow> u32 \<times> u32 \<times> u32 \<times> u32 \<Rightarrow> u32 \<times> u32 \<times> u32 \<times> u32" where
  "aes_round k r = (\<lambda>(s0, s1, s2, s3).
     (Te0 ! byte3 s0 XOR Te1 ! byte2 s1 XOR Te2 ! byte1 s2 XOR Te3 ! byte0 s3 XOR k ! (4 * r),
      Te0 ! byte3 s1 XOR Te1 ! byte2 s2 XOR Te2 ! byte1 s3 XOR Te3 ! byte0 s0 XOR k ! (4 * r + 1),
      Te0 ! byte3 s2 XOR Te1 ! byte2 s3 XOR Te2 ! byte1 s0 XOR Te3 ! byte0 s1 XOR k ! (4 * r + 2),
      Te0 ! byte3 s3 XOR Te1 ! byte2 s0 XOR Te2 ! byte1 s1 XOR Te3 ! byte0 s2 XOR k ! (4 * r + 3)))"

definition aes128_encrypt :: "aes128 \<Rightarrow> byte list \<Rightarrow> byte list" where
  "aes128_encrypt a inp =
     (let k = rk a;
          s = (be32 inp XOR k ! 0, be32 (drop 4 inp) XOR k ! 1, be32 (drop 8 inp) XOR k ! 2, be32 (drop 12 inp) XOR k ! 3)
      in case fold (aes_round k) [1..<10] s of
           (s0, s1, s2, s3) \<Rightarrow>
             put_be32 (FIN s0 s1 s2 s3 XOR k ! 40) @ put_be32 (FIN s1 s2 s3 s0 XOR k ! 41) @
             put_be32 (FIN s2 s3 s0 s1 XOR k ! 42) @ put_be32 (FIN s3 s0 s1 s2 XOR k ! 43))"


section \<open>Decryption\<close>

fun mul_loop :: "nat \<Rightarrow> byte \<Rightarrow> byte \<Rightarrow> byte \<Rightarrow> byte" where
  "mul_loop 0 a b r = r"
| "mul_loop (Suc n) a b r = mul_loop n (push_bit 1 a XOR (if a AND 0x80 \<noteq> 0 then 0x1b else 0)) (drop_bit 1 b) (if b AND 1 \<noteq> 0 then r XOR a else r)"

definition mul :: "byte \<Rightarrow> byte \<Rightarrow> byte" where
  "mul a b = mul_loop 8 a b 0"

definition INV_SBOX :: "byte list" where
  "INV_SBOX =
    [0x52, 0x09, 0x6a, 0xd5, 0x30, 0x36, 0xa5, 0x38, 0xbf, 0x40, 0xa3, 0x9e, 0x81, 0xf3, 0xd7, 0xfb,
     0x7c, 0xe3, 0x39, 0x82, 0x9b, 0x2f, 0xff, 0x87, 0x34, 0x8e, 0x43, 0x44, 0xc4, 0xde, 0xe9, 0xcb,
     0x54, 0x7b, 0x94, 0x32, 0xa6, 0xc2, 0x23, 0x3d, 0xee, 0x4c, 0x95, 0x0b, 0x42, 0xfa, 0xc3, 0x4e,
     0x08, 0x2e, 0xa1, 0x66, 0x28, 0xd9, 0x24, 0xb2, 0x76, 0x5b, 0xa2, 0x49, 0x6d, 0x8b, 0xd1, 0x25,
     0x72, 0xf8, 0xf6, 0x64, 0x86, 0x68, 0x98, 0x16, 0xd4, 0xa4, 0x5c, 0xcc, 0x5d, 0x65, 0xb6, 0x92,
     0x6c, 0x70, 0x48, 0x50, 0xfd, 0xed, 0xb9, 0xda, 0x5e, 0x15, 0x46, 0x57, 0xa7, 0x8d, 0x9d, 0x84,
     0x90, 0xd8, 0xab, 0x00, 0x8c, 0xbc, 0xd3, 0x0a, 0xf7, 0xe4, 0x58, 0x05, 0xb8, 0xb3, 0x45, 0x06,
     0xd0, 0x2c, 0x1e, 0x8f, 0xca, 0x3f, 0x0f, 0x02, 0xc1, 0xaf, 0xbd, 0x03, 0x01, 0x13, 0x8a, 0x6b,
     0x3a, 0x91, 0x11, 0x41, 0x4f, 0x67, 0xdc, 0xea, 0x97, 0xf2, 0xcf, 0xce, 0xf0, 0xb4, 0xe6, 0x73,
     0x96, 0xac, 0x74, 0x22, 0xe7, 0xad, 0x35, 0x85, 0xe2, 0xf9, 0x37, 0xe8, 0x1c, 0x75, 0xdf, 0x6e,
     0x47, 0xf1, 0x1a, 0x71, 0x1d, 0x29, 0xc5, 0x89, 0x6f, 0xb7, 0x62, 0x0e, 0xaa, 0x18, 0xbe, 0x1b,
     0xfc, 0x56, 0x3e, 0x4b, 0xc6, 0xd2, 0x79, 0x20, 0x9a, 0xdb, 0xc0, 0xfe, 0x78, 0xcd, 0x5a, 0xf4,
     0x1f, 0xdd, 0xa8, 0x33, 0x88, 0x07, 0xc7, 0x31, 0xb1, 0x12, 0x10, 0x59, 0x27, 0x80, 0xec, 0x5f,
     0x60, 0x51, 0x7f, 0xa9, 0x19, 0xb5, 0x4a, 0x0d, 0x2d, 0xe5, 0x7a, 0x9f, 0x93, 0xc9, 0x9c, 0xef,
     0xa0, 0xe0, 0x3b, 0x4d, 0xae, 0x2a, 0xf5, 0xb0, 0xc8, 0xeb, 0xbb, 0x3c, 0x83, 0x53, 0x99, 0x61,
     0x17, 0x2b, 0x04, 0x7e, 0xba, 0x77, 0xd6, 0x26, 0xe1, 0x69, 0x14, 0x63, 0x55, 0x21, 0x0c, 0x7d]"

definition addkey :: "aes128 \<Rightarrow> nat \<Rightarrow> byte list \<Rightarrow> byte list" where
  "addkey a round s = map (\<lambda>i. s ! i XOR ucast (drop_bit (24 - (i mod 4) * 8) (rk a ! (round * 4 + i div 4)))) [0..<16]"

text \<open>\<open>t[r + 4 c] = INV_SBOX[s[r + 4 ((c - r + 4) % 4)]]\<close>; the index \<open>i\<close> is \<open>r + 4 c\<close>.\<close>

definition inv_shift_sub :: "byte list \<Rightarrow> byte list" where
  "inv_shift_sub s = map (\<lambda>i. INV_SBOX ! unat (s ! (i mod 4 + 4 * ((i div 4 + 4 - i mod 4) mod 4)))) [0..<16]"

definition inv_mix_column :: "byte list \<Rightarrow> byte list" where
  "inv_mix_column v =
     [mul (v ! 0) 14 XOR mul (v ! 1) 11 XOR mul (v ! 2) 13 XOR mul (v ! 3) 9,
      mul (v ! 0) 9 XOR mul (v ! 1) 14 XOR mul (v ! 2) 11 XOR mul (v ! 3) 13,
      mul (v ! 0) 13 XOR mul (v ! 1) 9 XOR mul (v ! 2) 14 XOR mul (v ! 3) 11,
      mul (v ! 0) 11 XOR mul (v ! 1) 13 XOR mul (v ! 2) 9 XOR mul (v ! 3) 14]"

definition inv_round :: "aes128 \<Rightarrow> nat \<Rightarrow> byte list \<Rightarrow> byte list" where
  "inv_round a round s =
     (let s = addkey a round (inv_shift_sub s)
      in if round \<noteq> 0 then concat (map (\<lambda>c. inv_mix_column (take 4 (drop (4 * c) s))) [0..<4]) else s)"

definition decrypt :: "aes128 \<Rightarrow> byte list \<Rightarrow> byte list" where
  "decrypt a b = fold (inv_round a) (rev [0..<10]) (addkey a 10 b)"


section \<open>FIPS 197\<close>

text \<open>The state is 16 bytes, column by column; a round in the terms of the standard.\<close>

definition sub_bytes :: "byte list \<Rightarrow> byte list" where
  "sub_bytes s = map (\<lambda>b. SBOX ! unat b) s"

definition shift_rows :: "byte list \<Rightarrow> byte list" where
  "shift_rows s = map (\<lambda>i. s ! (i mod 4 + 4 * ((i div 4 + i mod 4) mod 4))) [0..<16]"

definition mix_column :: "byte list \<Rightarrow> byte list" where
  "mix_column v =
     [xtime (v ! 0) XOR (xtime (v ! 1) XOR v ! 1) XOR v ! 2 XOR v ! 3,
      v ! 0 XOR xtime (v ! 1) XOR (xtime (v ! 2) XOR v ! 2) XOR v ! 3,
      v ! 0 XOR v ! 1 XOR xtime (v ! 2) XOR (xtime (v ! 3) XOR v ! 3),
      (xtime (v ! 0) XOR v ! 0) XOR v ! 1 XOR v ! 2 XOR xtime (v ! 3)]"

definition mix_columns :: "byte list \<Rightarrow> byte list" where
  "mix_columns s = concat (map (\<lambda>c. mix_column (take 4 (drop (4 * c) s))) [0..<4])"

definition round_key :: "aes128 \<Rightarrow> nat \<Rightarrow> byte list" where
  "round_key a r = concat (map (\<lambda>c. put_be32 (rk a ! (4 * r + c))) [0..<4])"

definition fips_encrypt :: "aes128 \<Rightarrow> byte list \<Rightarrow> byte list" where
  "fips_encrypt a b =
     (let s = xor_bytes b (round_key a 0);
          s = fold (\<lambda>r s. xor_bytes (mix_columns (shift_rows (sub_bytes s))) (round_key a r)) [1..<10] s
      in xor_bytes (shift_rows (sub_bytes s)) (round_key a 10))"


section \<open>Words as columns\<close>

lemma bit_byte: "bit (b :: byte) n \<Longrightarrow> n < 8"
  using bit_imp_le_length [of b n] by simp

lemma bit_be32:
  "bit (be32 [a, b, c, d]) n \<longleftrightarrow>
    (if n < 8 then bit d n else if n < 16 then bit c (n - 8) else if n < 24 then bit b (n - 16) else bit a (n - 24))"
proof -
  consider "n < 8" | "8 \<le> n" "n < 16" | "16 \<le> n" "n < 24" | "24 \<le> n" by fastforce
  then show ?thesis by cases (auto simp: be32_def bit_simps dest: bit_byte)
qed

lemma put_be32_bytes [simp]: "put_be32 (be32 [a, b, c, d]) = [a, b, c, d]"
proof -
  have "ucast (drop_bit 24 (be32 [a, b, c, d])) = a" "ucast (drop_bit 16 (be32 [a, b, c, d])) = b"
    "ucast (drop_bit 8 (be32 [a, b, c, d])) = c" "ucast (be32 [a, b, c, d]) = d"
    by (rule bit_word_eqI, simp add: bit_simps bit_be32)+
  then show ?thesis by (simp add: put_be32_def)
qed

lemma be32_xor: "be32 [a, b, c, d] XOR be32 [a', b', c', d'] = be32 [a XOR a', b XOR b', c XOR c', d XOR d']"
  by (rule bit_word_eqI) (simp add: bit_simps bit_be32)

lemma ror8_be32: "ror8 (be32 [a, b, c, d]) = be32 [d, a, b, c]"
proof (rule bit_word_eqI)
  fix n
  assume "n < LENGTH(32)"
  then consider "n < 8" | "8 \<le> n" "n < 16" | "16 \<le> n" "n < 24" | "24 \<le> n" "n < 32" by fastforce
  then show "bit (ror8 (be32 [a, b, c, d])) n = bit (be32 [d, a, b, c]) n"
    by cases (auto simp: ror8_def bit_simps bit_be32 dest: bit_byte)
qed

lemma low8: "x AND 0xff = take_bit 8 (x :: u32)"
  by (simp add: take_bit_eq_mask mask_eq_exp_minus_1)

lemma byte_be32 [simp]: "byte3 (be32 [a, b, c, d]) = unat a" "byte2 (be32 [a, b, c, d]) = unat b" "byte1 (be32 [a, b, c, d]) = unat c"
  "byte0 (be32 [a, b, c, d]) = unat d"
  unfolding byte3_def byte2_def byte1_def byte0_def low8
  by (intro bit_eqI; auto simp: bit_simps bit_unsigned_iff bit_be32 dest: bit_byte)+

lemma te_entry_be32: "te_entry s = be32 [xtime s, s, s, xtime s XOR s]"
  by (simp add: te_entry_def be32_def Let_def)

lemma FIN_be32: "FIN a b c d = be32 [SBOX ! byte3 a, SBOX ! byte2 b, SBOX ! byte1 c, SBOX ! byte0 d]"
  by (simp add: FIN_def be32_def)

lemma SBOX_length [simp]: "length SBOX = 256"
  by (simp add: SBOX_def)

lemma unat_byte [simp]: "unat (b :: byte) < 256"
  using unsigned_less [of b] by simp

lemma tables:
  "Te0 ! unat x = be32 [xtime (SBOX ! unat x), SBOX ! unat x, SBOX ! unat x, xtime (SBOX ! unat x) XOR SBOX ! unat (x :: byte)]"
  "Te1 ! unat x = be32 [xtime (SBOX ! unat x) XOR SBOX ! unat x, xtime (SBOX ! unat x), SBOX ! unat x, SBOX ! unat x]"
  "Te2 ! unat x = be32 [SBOX ! unat x, xtime (SBOX ! unat x) XOR SBOX ! unat x, xtime (SBOX ! unat x), SBOX ! unat x]"
  "Te3 ! unat x = be32 [SBOX ! unat x, SBOX ! unat x, xtime (SBOX ! unat x) XOR SBOX ! unat x, xtime (SBOX ! unat x)]"
  by (simp_all add: Te0_def Te1_def Te2_def Te3_def te_entry_be32 ror8_be32)

text \<open>A state of 16 bytes as the four words of the code.\<close>

definition cols :: "byte list \<Rightarrow> u32 \<times> u32 \<times> u32 \<times> u32" where
  "cols s = (be32 s, be32 (drop 4 s), be32 (drop 8 s), be32 (drop 12 s))"

lemma state16:
  assumes "length s = 16"
  obtains a b c d e f g h i j k l m n o' p where "s = [a, b, c, d, e, f, g, h, i, j, k, l, m, n, o', p]"
  using assms by (auto simp: numeral_eq_Suc length_Suc_conv)

lemma be32_take: "be32 (a # b # c # d # r) = be32 [a, b, c, d]"
  by (simp add: be32_def)

lemma be32_rk: "\<exists>a b c d. v = be32 [a, b, c, d]"
  using be32_put [of v] unfolding put_be32_def by metis

lemma upt_16: "[0..<16] = [0, 1, 2, 3, 4, 5, 6, 7, 8, 9, 10, 11, 12, 13, 14, 15 :: nat]"
  by (simp add: upt_rec)

lemma upt_4: "[0..<4] = [0, 1, 2, 3 :: nat]"
  by (simp add: upt_rec)

lemma round_key_bytes:
  obtains a0 a1 a2 a3 b0 b1 b2 b3 c0 c1 c2 c3 d0 d1 d2 d3 where
    "rk a ! (4 * r) = be32 [a0, a1, a2, a3]" "rk a ! (4 * r + 1) = be32 [b0, b1, b2, b3]"
    "rk a ! (4 * r + 2) = be32 [c0, c1, c2, c3]" "rk a ! (4 * r + 3) = be32 [d0, d1, d2, d3]"
    "round_key a r = [a0, a1, a2, a3, b0, b1, b2, b3, c0, c1, c2, c3, d0, d1, d2, d3]"
proof -
  obtain a0 a1 a2 a3 where 0: "rk a ! (4 * r) = be32 [a0, a1, a2, a3]" using be32_rk by blast
  obtain b0 b1 b2 b3 where 1: "rk a ! (4 * r + 1) = be32 [b0, b1, b2, b3]" using be32_rk by blast
  obtain c0 c1 c2 c3 where 2: "rk a ! (4 * r + 2) = be32 [c0, c1, c2, c3]" using be32_rk by blast
  obtain d0 d1 d2 d3 where 3: "rk a ! (4 * r + 3) = be32 [d0, d1, d2, d3]" using be32_rk by blast
  have "round_key a r = [a0, a1, a2, a3, b0, b1, b2, b3, c0, c1, c2, c3, d0, d1, d2, d3]"
    unfolding round_key_def upt_4 list.map concat.simps add_0_right 0 1 2 3 by simp
  then show ?thesis using that 0 1 2 3 by blast
qed

lemma fips_round_length [simp]:
  "length (round_key a r) = 16" "length (shift_rows s) = 16" "length (mix_columns s) = 16" "length (sub_bytes s) = length s"
  by (simp_all add: round_key_def shift_rows_def mix_columns_def sub_bytes_def upt_4 mix_column_def)

lemma shift_rows_16:
  "shift_rows [x0, x1, x2, x3, x4, x5, x6, x7, x8, x9, xa, xb, xc, xd, xe, xf] = [x0, x5, xa, xf, x4, x9, xe, x3, x8, xd, x2, x7, xc, x1, x6, xb]"
  unfolding shift_rows_def upt_16 by simp

lemma mix_columns_16:
  "mix_columns [x0, x1, x2, x3, x4, x5, x6, x7, x8, x9, xa, xb, xc, xd, xe, xf] =
    mix_column [x0, x1, x2, x3] @ mix_column [x4, x5, x6, x7] @ mix_column [x8, x9, xa, xb] @ mix_column [xc, xd, xe, xf]"
  unfolding mix_columns_def upt_4 by simp

lemma mix_column_4:
  "mix_column [a, b, c, d] =
    [xtime a XOR (xtime b XOR b) XOR c XOR d, a XOR xtime b XOR (xtime c XOR c) XOR d,
     a XOR b XOR xtime c XOR (xtime d XOR d), (xtime a XOR a) XOR b XOR c XOR xtime d]"
  unfolding mix_column_def by simp

lemma cols_16:
  "cols [x0, x1, x2, x3, x4, x5, x6, x7, x8, x9, xa, xb, xc, xd, xe, xf] =
    (be32 [x0, x1, x2, x3], be32 [x4, x5, x6, x7], be32 [x8, x9, xa, xb], be32 [xc, xd, xe, xf])"
  unfolding cols_def be32_def by simp

lemma xor_bytes_Cons [simp]: "xor_bytes (x # xs) (y # ys) = (x XOR y) # xor_bytes xs ys" "xor_bytes [] ys = []"
  by (simp_all add: xor_bytes_def)

lemma aes_round_cols:
  assumes "length s = 16"
  shows "aes_round (rk a) r (cols s) = cols (xor_bytes (mix_columns (shift_rows (sub_bytes s))) (round_key a r))"
proof -
  obtain x0 x1 x2 x3 x4 x5 x6 x7 x8 x9 xa xb xc xd xe xf where s: "s = [x0, x1, x2, x3, x4, x5, x6, x7, x8, x9, xa, xb, xc, xd, xe, xf]"
    by (rule state16 [OF assms])
  obtain a0 a1 a2 a3 b0 b1 b2 b3 c0 c1 c2 c3 d0 d1 d2 d3 where k:
    "rk a ! (4 * r) = be32 [a0, a1, a2, a3]" "rk a ! (4 * r + 1) = be32 [b0, b1, b2, b3]"
    "rk a ! (4 * r + 2) = be32 [c0, c1, c2, c3]" "rk a ! (4 * r + 3) = be32 [d0, d1, d2, d3]"
    "round_key a r = [a0, a1, a2, a3, b0, b1, b2, b3, c0, c1, c2, c3, d0, d1, d2, d3]"
    by (rule round_key_bytes [of a r])
  define S where "S = (\<lambda>b :: byte. SBOX ! unat b)"
  have m: "mix_columns (shift_rows (sub_bytes s)) =
      mix_column [S x0, S x5, S xa, S xf] @ mix_column [S x4, S x9, S xe, S x3] @ mix_column [S x8, S xd, S x2, S x7] @ mix_column [S xc, S x1, S x6, S xb]"
    unfolding s sub_bytes_def S_def list.map shift_rows_16 mix_columns_16 ..
  show ?thesis
    unfolding m k(5) mix_column_4 append.simps xor_bytes_Cons unfolding s cols_16 aes_round_def prod.case byte_be32 tables k(1-4) be32_xor S_def
    by (simp only: xor.assoc)
qed

definition fips_round :: "aes128 \<Rightarrow> nat \<Rightarrow> byte list \<Rightarrow> byte list" where
  "fips_round a r s = xor_bytes (mix_columns (shift_rows (sub_bytes s))) (round_key a r)"

lemma fips_round_16 [simp]: "length (fips_round a r s) = 16"
  by (simp add: fips_round_def)

lemma fips_rounds_16: "length s = 16 \<Longrightarrow> length (fold (fips_round a) rs s) = 16"
  by (induction rs arbitrary: s) simp_all

lemma aes_rounds_cols: "length s = 16 \<Longrightarrow> fold (aes_round (rk a)) rs (cols s) = cols (fold (fips_round a) rs s)"
  by (induction rs arbitrary: s) (simp_all add: aes_round_cols fips_round_def)

lemma aes_last:
  assumes "length s = 16"
  shows "(case cols s of (s0, s1, s2, s3) \<Rightarrow>
      put_be32 (FIN s0 s1 s2 s3 XOR rk a ! 40) @ put_be32 (FIN s1 s2 s3 s0 XOR rk a ! 41) @
      put_be32 (FIN s2 s3 s0 s1 XOR rk a ! 42) @ put_be32 (FIN s3 s0 s1 s2 XOR rk a ! 43)) =
    xor_bytes (shift_rows (sub_bytes s)) (round_key a 10)"
proof -
  obtain x0 x1 x2 x3 x4 x5 x6 x7 x8 x9 xa xb xc xd xe xf where s: "s = [x0, x1, x2, x3, x4, x5, x6, x7, x8, x9, xa, xb, xc, xd, xe, xf]"
    by (rule state16 [OF assms])
  obtain a0 a1 a2 a3 b0 b1 b2 b3 c0 c1 c2 c3 d0 d1 d2 d3 where k:
    "rk a ! (4 * 10) = be32 [a0, a1, a2, a3]" "rk a ! (4 * 10 + 1) = be32 [b0, b1, b2, b3]"
    "rk a ! (4 * 10 + 2) = be32 [c0, c1, c2, c3]" "rk a ! (4 * 10 + 3) = be32 [d0, d1, d2, d3]"
    "round_key a 10 = [a0, a1, a2, a3, b0, b1, b2, b3, c0, c1, c2, c3, d0, d1, d2, d3]"
    by (rule round_key_bytes [of a 10])
  have n: "(40 :: nat) = 4 * 10" "(41 :: nat) = 4 * 10 + 1" "(42 :: nat) = 4 * 10 + 2" "(43 :: nat) = 4 * 10 + 3" by simp_all
  show ?thesis
    unfolding n k s sub_bytes_def list.map shift_rows_16 cols_16 prod.case FIN_be32 byte_be32 be32_xor put_be32_bytes append.simps xor_bytes_Cons ..
qed

lemma aes_first:
  assumes "length b = 16"
  shows "(be32 b XOR rk a ! 0, be32 (drop 4 b) XOR rk a ! 1, be32 (drop 8 b) XOR rk a ! 2, be32 (drop 12 b) XOR rk a ! 3) =
    cols (xor_bytes b (round_key a 0))"
proof -
  obtain x0 x1 x2 x3 x4 x5 x6 x7 x8 x9 xa xb xc xd xe xf where s: "b = [x0, x1, x2, x3, x4, x5, x6, x7, x8, x9, xa, xb, xc, xd, xe, xf]"
    by (rule state16 [OF assms])
  obtain a0 a1 a2 a3 b0 b1 b2 b3 c0 c1 c2 c3 d0 d1 d2 d3 where k:
    "rk a ! (4 * 0) = be32 [a0, a1, a2, a3]" "rk a ! (4 * 0 + 1) = be32 [b0, b1, b2, b3]"
    "rk a ! (4 * 0 + 2) = be32 [c0, c1, c2, c3]" "rk a ! (4 * 0 + 3) = be32 [d0, d1, d2, d3]"
    "round_key a 0 = [a0, a1, a2, a3, b0, b1, b2, b3, c0, c1, c2, c3, d0, d1, d2, d3]"
    by (rule round_key_bytes [of a 0])
  have c: "(be32 b, be32 (drop 4 b), be32 (drop 8 b), be32 (drop 12 b)) = cols b" by (simp add: cols_def)
  show ?thesis using c k(1-4) unfolding k(5) s cols_16 xor_bytes_Cons be32_xor [symmetric] by (simp add: numeral_2_eq_2)
qed

lemma encrypt_fips: "length b = 16 \<Longrightarrow> aes128_encrypt a b = fips_encrypt a b"
  unfolding aes128_encrypt_def Let_def
  using aes_first [of b a] aes_rounds_cols [of "xor_bytes b (round_key a 0)" a "[1..<10]"]
    aes_last [OF fips_rounds_16, of "xor_bytes b (round_key a 0)" a a "[1..<10]"]
  by (simp add: fips_encrypt_def Let_def fips_round_def [abs_def] del: upt_Suc upt_rec_numeral)


section \<open>Decryption undoes it\<close>

lemma INV_SBOX_SBOX: "map (\<lambda>b. INV_SBOX ! unat b) SBOX = map of_nat [0..<256]"
  by code_simp

lemma inv_sub: "INV_SBOX ! unat (SBOX ! unat b) = (b :: byte)"
proof -
  have "map (\<lambda>b. INV_SBOX ! unat b) SBOX ! unat b = map of_nat [0..<256] ! unat b" by (simp only: INV_SBOX_SBOX)
  then show ?thesis by simp
qed

lemma inv_shift_sub_16:
  "inv_shift_sub [y0, y1, y2, y3, y4, y5, y6, y7, y8, y9, ya, yb, yc, yd, ye, yf] =
    map (\<lambda>b. INV_SBOX ! unat b) [y0, yd, ya, y7, y4, y1, ye, yb, y8, y5, y2, yf, yc, y9, y6, y3]"
  unfolding inv_shift_sub_def upt_16 by simp

lemma inv_shift_sub: "length s = 16 \<Longrightarrow> inv_shift_sub (shift_rows (sub_bytes s)) = s"
  by (elim state16) (simp only: sub_bytes_def list.map shift_rows_16 inv_shift_sub_16 inv_sub)

lemma addkey_xor: "length s = 16 \<Longrightarrow> addkey a r s = xor_bytes s (round_key a r)"
proof -
  assume s: "length s = 16"
  have k: "round_key a r ! i = ucast (drop_bit (24 - (i mod 4) * 8) (rk a ! (r * 4 + i div 4)))" if "i < 16" for i
  proof -
    have "i \<in> set [0..<16]" using that by simp
    then show ?thesis unfolding upt_16 by (auto simp: round_key_def upt_4 put_be32_def mult.commute add.commute)
  qed
  show ?thesis by (rule nth_equalityI) (simp_all add: addkey_def xor_bytes_def s k)
qed

text \<open>Multiplication by 2 in the field of the bytes is linear, so the constants 9, 11, 13 and 14 are sums of its powers.\<close>

lemma xtime_xor: "xtime (a XOR b) = xtime a XOR xtime b"
proof -
  have b7: "x AND 0x80 \<noteq> 0 \<longleftrightarrow> bit x 7" for x :: byte
    using and_exp_eq_0_iff_not_bit [of x 7] by simp
  show ?thesis unfolding xtime_def b7 bit_xor_iff push_bit_xor by (auto simp: ac_simps)
qed

lemma mul_consts:
  "mul a 9 = a XOR xtime (xtime (xtime a))" "mul a 11 = a XOR xtime a XOR xtime (xtime (xtime a))"
  "mul a 13 = a XOR xtime (xtime a) XOR xtime (xtime (xtime a))" "mul a 14 = xtime a XOR xtime (xtime a) XOR xtime (xtime (xtime a))"
proof -
  have 8: "(8 :: nat) = Suc (Suc (Suc (Suc (Suc (Suc (Suc (Suc 0)))))))" by simp
  show "mul a 9 = a XOR xtime (xtime (xtime a))" "mul a 11 = a XOR xtime a XOR xtime (xtime (xtime a))"
    "mul a 13 = a XOR xtime (xtime a) XOR xtime (xtime (xtime a))" "mul a 14 = xtime a XOR xtime (xtime a) XOR xtime (xtime (xtime a))"
    unfolding mul_def 8 mul_loop.simps xtime_def [symmetric] by (simp_all add: drop_bit_eq_div xor.assoc)
qed

lemma xor_cancel: "a XOR (a XOR b) = (b :: byte)"
  by (simp flip: xor.assoc)

lemma inv_mix: "inv_mix_column (mix_column [a, b, c, d]) = [a, b, c, d]"
  unfolding mix_column_4 inv_mix_column_def mul_consts
  by (simp add: xtime_xor xor.assoc xor.left_commute xor.commute xor_cancel)

lemma inv_mix_columns:
  assumes "length s = 16"
  shows "concat (map (\<lambda>c. inv_mix_column (take 4 (drop (4 * c) (mix_columns s)))) [0..<4]) = s"
proof -
  obtain x0 x1 x2 x3 x4 x5 x6 x7 x8 x9 xa xb xc xd xe xf where s: "s = [x0, x1, x2, x3, x4, x5, x6, x7, x8, x9, xa, xb, xc, xd, xe, xf]"
    by (rule state16 [OF assms])
  have l: "length (mix_column v) = 4" for v by (simp add: mix_column_def)
  have t: "take 4 (drop 0 (p @ q @ r @ t)) = p" "take 4 (drop 4 (p @ q @ r @ t)) = q" "take 4 (drop 8 (p @ q @ r @ t)) = r"
    "take 4 (drop 12 (p @ q @ r @ t)) = t" if "length p = 4" "length q = 4" "length r = 4" "length t = 4" for p q r t :: "byte list"
    using that by simp_all
  show ?thesis unfolding s mix_columns_16 upt_4 by (simp add: t l inv_mix)
qed

lemma xor_key: "length s = 16 \<Longrightarrow> xor_bytes (xor_bytes s (round_key a r)) (round_key a r) = s"
  by (rule xor_bytes_twice) simp

lemma inv_round_undoes:
  assumes "length s = 16" "0 < r"
  shows "inv_round a r (shift_rows (sub_bytes (fips_round a r s))) = shift_rows (sub_bytes s)"
  using assms by (simp add: inv_round_def inv_shift_sub addkey_xor) (simp add: fips_round_def xor_key inv_mix_columns)

lemma inv_rounds_undo:
  "length s = 16 \<Longrightarrow> fold (inv_round a) (rev [1..<Suc n]) (shift_rows (sub_bytes (fold (fips_round a) [1..<Suc n] s))) = shift_rows (sub_bytes s)"
proof (induction n)
  case (Suc n)
  have "length (fold (fips_round a) [1..<Suc n] s) = 16" using Suc.prems by (rule fips_rounds_16)
  then show ?case using Suc by (simp add: inv_round_undoes)
qed simp

lemma decrypt_fips:
  assumes "length b = 16"
  shows "decrypt a (fips_encrypt a b) = b"
proof -
  let ?s = "xor_bytes b (round_key a 0)"
  have l: "length ?s = 16" using assms by simp
  have e: "fips_encrypt a b = xor_bytes (shift_rows (sub_bytes (fold (fips_round a) [1..<Suc 9] ?s))) (round_key a 10)"
    by (simp add: fips_encrypt_def fips_round_def [abs_def] Let_def del: upt_Suc upt_rec_numeral)
  have "rev [0..<10] = rev [1..<Suc 9] @ [0 :: nat]" by (simp add: upt_rec)
  then have "decrypt a (fips_encrypt a b) = inv_round a 0 (shift_rows (sub_bytes ?s))"
    using inv_rounds_undo [OF l, of a 9] fips_rounds_16 [OF l] unfolding decrypt_def e
    by (simp add: addkey_xor xor_key del: upt_Suc upt_rec_numeral rev.simps)
  then show ?thesis using assms by (simp add: inv_round_def inv_shift_sub addkey_xor xor_key)
qed


section \<open>Property\<close>



end
