(* ===== verification/Gcm.thy ===== *)
theory Gcm
  imports Aes Ciphers
begin

text \<open>
  AES-GCM (\<open>crypto/aead.c\<close>): the multiplication in the field of \<open>2^128\<close> elements with a table for four bits at a time, the hash made of
  it, counter mode, and the authenticated cipher.
\<close>

section \<open>The code\<close>

record aes_gcm =
  gaes :: aes128
  htab_hi :: "u64 list"
  htab_lo :: "u64 list"

definition LAST4 :: "u16 list" where
  "LAST4 = [0x0000, 0x1c20, 0x3840, 0x2460, 0x7080, 0x6ca0, 0x48c0, 0x54e0,
            0xe100, 0xfd20, 0xd940, 0xc560, 0x9180, 0x8da0, 0xa9c0, 0xb5e0]"

text \<open>The first loop of \<open>aes_gcm_init\<close>: \<open>(vh, vl)\<close> times \<open>x\<close>, stored at 4, 2 and 1.\<close>

definition times_x :: "u64 \<times> u64 \<Rightarrow> u64 \<times> u64" where
  "times_x = (\<lambda>(vh, vl).
     let t = ucast (vl AND 1) * 0xe1000000 :: u32;
         vl' = push_bit 63 vh OR drop_bit 1 vl;
         vh' = drop_bit 1 vh XOR push_bit 32 (ucast t)
     in (vh', vl'))"

type_synonym htab = "u64 list \<times> u64 list"

definition store :: "nat \<Rightarrow> u64 \<times> u64 \<Rightarrow> htab \<Rightarrow> htab" where
  "store i v tab = ((fst tab)[i := fst v], (snd tab)[i := snd v])"

definition entry :: "htab \<Rightarrow> nat \<Rightarrow> u64 \<times> u64" where
  "entry tab i = (fst tab ! i, snd tab ! i)"

definition xor2 :: "u64 \<times> u64 \<Rightarrow> u64 \<times> u64 \<Rightarrow> u64 \<times> u64" where
  "xor2 v w = (fst v XOR fst w, snd v XOR snd w)"

text \<open>The second loop: \<open>htab[i + j] = htab[i] ^ htab[j]\<close> for \<open>0 < j < i\<close>.\<close>

definition fill_from :: "nat \<Rightarrow> htab \<Rightarrow> htab" where
  "fill_from i tab = fold (\<lambda>j t. store (i + j) (xor2 (entry tab i) (entry t j)) t) [1..<i] tab"

definition build_htab :: "u64 \<times> u64 \<Rightarrow> htab" where
  "build_htab v =
     (let tab = (replicate 16 0, replicate 16 0);
          tab = store 8 v tab;
          tab = store 0 (0, 0) tab;
          v = times_x v; tab = store 4 v tab;
          v = times_x v; tab = store 2 v tab;
          v = times_x v; tab = store 1 v tab
      in fill_from 8 (fill_from 4 (fill_from 2 tab)))"

definition aes_gcm_init :: "byte list \<Rightarrow> aes_gcm" where
  "aes_gcm_init key =
     (let aes = aes128_init key;
          h = aes128_encrypt aes (replicate 16 0);
          vh = push_bit 32 (ucast (be32 h)) OR ucast (be32 (drop 4 h));
          vl = push_bit 32 (ucast (be32 (drop 8 h))) OR ucast (be32 (drop 12 h));
          tab = build_htab (vh, vl)
      in \<lparr>gaes = aes, htab_hi = fst tab, htab_lo = snd tab\<rparr>)"

text \<open>\<open>(zh, zl)\<close> shifted by four bits, with what falls out folded back in, and an entry of the table added.\<close>

definition shift4 :: "aes_gcm \<Rightarrow> nat \<Rightarrow> u64 \<times> u64 \<Rightarrow> u64 \<times> u64" where
  "shift4 g n = (\<lambda>(zh, zl).
     let rem = unat (zl AND 0xf);
         zl' = push_bit 60 zh OR drop_bit 4 zl;
         zh' = drop_bit 4 zh XOR push_bit 48 (ucast (LAST4 ! rem))
     in (zh' XOR htab_hi g ! n, zl' XOR htab_lo g ! n))"

definition mult_step :: "aes_gcm \<Rightarrow> byte list \<Rightarrow> nat \<Rightarrow> u64 \<times> u64 \<Rightarrow> u64 \<times> u64" where
  "mult_step g x i z =
     (let lo = unat (x ! i AND 0xf); hi = unat (drop_bit 4 (x ! i));
          z = (if i \<noteq> 15 then shift4 g lo z else z)
      in shift4 g hi z)"

definition gf_mult_h :: "aes_gcm \<Rightarrow> byte list \<Rightarrow> byte list" where
  "gf_mult_h g x =
     (let lo = unat (x ! 15 AND 0xf)
      in case fold (mult_step g x) (rev [0..<16]) (htab_hi g ! lo, htab_lo g ! lo) of
           (zh, zl) \<Rightarrow> put_be32 (ucast (drop_bit 32 zh)) @ put_be32 (ucast zh) @ put_be32 (ucast (drop_bit 32 zl)) @ put_be32 (ucast zl))"

function ghash_update :: "aes_gcm \<Rightarrow> byte list \<Rightarrow> byte list \<Rightarrow> byte list" where
  "ghash_update g data y =
     (if data = [] then y
      else let n = min 16 (length data)
           in ghash_update g (drop n data) (gf_mult_h g (xor_bytes (take n y) (take n data) @ drop n y)))"
  by pat_completeness auto
termination by (relation "measure (\<lambda>(g, data, y). length data)") auto

declare ghash_update.simps [simp del]

definition gcm_ctr :: "aes_gcm \<Rightarrow> byte list \<Rightarrow> byte list \<Rightarrow> byte list" where
  "gcm_ctr g nonce buf = ctr_xor (\<lambda>c :: u32. aes128_encrypt (gaes g) (take 12 nonce @ put_be32 c)) (\<lambda>c. c + 1) 16 2 buf"

definition gcm_tag :: "aes_gcm \<Rightarrow> byte list \<Rightarrow> byte list \<Rightarrow> byte list \<Rightarrow> byte list" where
  "gcm_tag g nonce aad ct =
     (let y = replicate 16 0;
          y = ghash_update g aad y;
          y = ghash_update g ct y;
          lens = replicate 4 0 @ put_be32 (of_nat (length aad) * 8) @ replicate 4 0 @ put_be32 (of_nat (length ct) * 8);
          y = ghash_update g lens y;
          j0 = aes128_encrypt (gaes g) (take 12 nonce @ put_be32 1)
      in xor_bytes y j0)"

definition aes_gcm_seal :: "aes_gcm \<Rightarrow> byte list \<Rightarrow> byte list \<Rightarrow> byte list \<Rightarrow> byte list \<times> byte list" where
  "aes_gcm_seal g nonce aad buf = (let buf = gcm_ctr g nonce buf in (buf, gcm_tag g nonce aad buf))"

definition aes_gcm_open :: "aes_gcm \<Rightarrow> byte list \<Rightarrow> byte list \<Rightarrow> byte list \<Rightarrow> byte list \<Rightarrow> int \<times> byte list" where
  "aes_gcm_open g nonce aad buf tag =
     (let expect = gcm_tag g nonce aad buf
      in if ct_memcmp expect tag 16 \<noteq> 0 then (-1, buf) else (0, gcm_ctr g nonce buf))"


section \<open>The field\<close>

text \<open>
  NIST SP 800-38D: an element is 128 bits, the first bit of the first byte the highest of the word; \<open>mulx\<close> is the step of the
  multiplication, and \<open>gf_mult\<close> its algorithm over the bits of the other factor.
\<close>

type_synonym u128 = "128 word"

definition R128 :: u128 where
  "R128 = push_bit 120 0xe1"

definition mulx :: "u128 \<Rightarrow> u128" where
  "mulx v = drop_bit 1 v XOR (if bit v 0 then R128 else 0)"

fun gf_mult :: "bool list \<Rightarrow> u128 \<Rightarrow> u128 \<Rightarrow> u128" where
  "gf_mult [] v z = z"
| "gf_mult (b # bs) v z = gf_mult bs (mulx v) (if b then z XOR v else z)"

definition byte_bits :: "byte \<Rightarrow> bool list" where
  "byte_bits b = [bit b 7, bit b 6, bit b 5, bit b 4, bit b 3, bit b 2, bit b 1, bit b 0]"

definition bits_of :: "byte list \<Rightarrow> bool list" where
  "bits_of x = concat (map byte_bits x)"

lemma mulx_xor: "mulx (a XOR b) = mulx a XOR mulx b"
  by (auto simp: mulx_def bit_xor_iff drop_bit_xor ac_simps)

lemma mulx_0 [simp]: "mulx 0 = 0"
  by (simp add: mulx_def)

text \<open>The product as a sum, and by Horner's rule.\<close>

fun gf_sum :: "bool list \<Rightarrow> u128 \<Rightarrow> u128" where
  "gf_sum [] v = 0"
| "gf_sum (b # bs) v = (if b then v else 0) XOR mulx (gf_sum bs v)"

lemma gf_sum_mulx: "gf_sum bs (mulx v) = mulx (gf_sum bs v)"
  by (induction bs) (simp_all add: mulx_xor)

lemma gf_mult_sum: "gf_mult bs v z = z XOR gf_sum bs v"
  by (induction bs v z rule: gf_mult.induct) (simp_all add: gf_sum_mulx xor.assoc)

lemma mulx4_linear: "(mulx ^^ n) (a XOR b) = (mulx ^^ n) a XOR (mulx ^^ n) b"
  by (induction n) (simp_all add: mulx_xor)


section \<open>Two words of 64 bits\<close>

definition join :: "u64 \<times> u64 \<Rightarrow> u128" where
  "join v = push_bit 64 (ucast (fst v)) OR ucast (snd v)"

lemma bit_u64: "bit (x :: u64) n \<Longrightarrow> n < 64"
  using bit_imp_le_length [of x n] by simp

lemma bit_join: "bit (join (h, l)) n \<longleftrightarrow> (if n < 64 then bit l n else bit h (n - 64))"
  by (auto simp: join_def bit_simps dest: bit_u64)

lemma join_xor: "join (a XOR c, b XOR d) = join (a, b) XOR join (c, d)"
  by (rule bit_word_eqI) (simp add: bit_join bit_xor_iff)

lemma join_0 [simp]: "join (0, 0) = 0"
  by (simp add: join_def)

lemma join_shift:
  assumes "0 < k" "k < 64"
  shows "join (drop_bit k h, push_bit (64 - k) h OR drop_bit k l) = drop_bit k (join (h, l))"
proof (rule bit_word_eqI)
  fix n
  assume "n < LENGTH(128)"
  then consider "n < 64 - k" | "64 - k \<le> n" "n < 64" | "64 \<le> n" "n < 128" by fastforce
  then show "bit (join (drop_bit k h, push_bit (64 - k) h OR drop_bit k l)) n = bit (drop_bit k (join (h, l))) n"
    using assms by cases (auto simp: bit_join bit_simps add.commute dest: bit_u64)
qed

lemma join_times_x: "join (times_x v) = mulx (join v)"
proof -
  obtain h l where v: "v = (h, l)" by force
  let ?t = "push_bit 32 (ucast (ucast (l AND 1) * 0xe1000000 :: u32)) :: u64"
  have t: "?t = (if bit l 0 then 0xe100000000000000 else 0)"
  proof -
    have "l AND 1 = (if bit l 0 then 1 else 0)" by (simp add: and_one_eq bit_0 mod2_eq_if)
    then show ?thesis by simp
  qed
  have R: "join (0xe100000000000000, 0) = R128" by (simp add: join_def R128_def)
  have "join (times_x v) = join (drop_bit 1 h XOR ?t, (push_bit (64 - 1) h OR drop_bit 1 l) XOR 0)"
    by (simp add: times_x_def v Let_def)
  also have "\<dots> = drop_bit 1 (join (h, l)) XOR join (?t, 0)" unfolding join_xor by (subst join_shift) simp_all
  also have "join (?t, 0) = (if bit (join (h, l)) 0 then R128 else 0)" unfolding t using R by (simp add: bit_join)
  finally show ?thesis by (simp add: mulx_def v)
qed

text \<open>Four steps at once: what falls out is looked up in \<open>LAST4\<close>.\<close>

lemma mulx_even: "\<not> bit w 0 \<Longrightarrow> mulx w = drop_bit 1 w"
  by (simp add: mulx_def)

lemma mulx4_even:
  assumes "\<not> bit w 0" "\<not> bit w 1" "\<not> bit w 2" "\<not> bit w 3"
  shows "(mulx ^^ 4) w = drop_bit 4 w"
proof -
  have 4: "(4 :: nat) = Suc (Suc (Suc (Suc 0)))" by simp
  have "mulx w = drop_bit 1 w" using assms(1) by (rule mulx_even)
  moreover have "mulx (drop_bit 1 w) = drop_bit 2 w" using assms(2) by (subst mulx_even) (simp_all add: bit_drop_bit_eq eval_nat_numeral)
  moreover have "mulx (drop_bit 2 w) = drop_bit 3 w" using assms(3) by (subst mulx_even) (simp_all add: bit_drop_bit_eq eval_nat_numeral)
  moreover have "mulx (drop_bit 3 w) = drop_bit 4 w" using assms(4) by (subst mulx_even) (simp_all add: bit_drop_bit_eq eval_nat_numeral)
  ultimately show ?thesis unfolding 4 by simp
qed

lemma LAST4_table: "list_all (\<lambda>n. (mulx ^^ 4) (of_nat n) = push_bit 112 (ucast (LAST4 ! n))) [0..<16]"
proof -
  have 4: "(mulx ^^ 4) w = mulx (mulx (mulx (mulx w)))" for w by (simp add: numeral_eq_Suc)
  have R: "R128 = 0xe1000000000000000000000000000000" by (simp add: R128_def)
  show ?thesis unfolding upt_16 4 LAST4_def list.pred_inject by (simp add: mulx_def R bit_0)
qed

lemma mulx4: "(mulx ^^ 4) w = drop_bit 4 w XOR push_bit 112 (ucast (LAST4 ! unat (take_bit 4 w)))"
proof -
  let ?n = "unat (take_bit 4 w)"
  have n: "?n < 16" unfolding unsigned_take_bit_eq by (simp add: take_bit_eq_mod)
  have "take_bit 4 w = of_nat ?n" by simp
  then have low: "(mulx ^^ 4) (take_bit 4 w) = push_bit 112 (ucast (LAST4 ! ?n))"
    using LAST4_table [unfolded list_all_iff, rule_format, of ?n] n by simp
  have "w = push_bit 4 (drop_bit 4 w) XOR take_bit 4 w"
    by (rule bit_word_eqI) (auto simp: bit_simps)
  then have "(mulx ^^ 4) w = (mulx ^^ 4) (push_bit 4 (drop_bit 4 w)) XOR (mulx ^^ 4) (take_bit 4 w)"
    using mulx4_linear by metis
  moreover have "(mulx ^^ 4) (push_bit 4 (drop_bit 4 w)) = drop_bit 4 (push_bit 4 (drop_bit 4 w))"
    by (rule mulx4_even) (simp_all add: bit_push_bit_iff)
  moreover have "drop_bit 4 (push_bit 4 (drop_bit 4 w)) = drop_bit 4 w"
    by (rule bit_word_eqI) (auto simp: bit_simps dest: bit_imp_le_length)
  ultimately show ?thesis using low by simp
qed


section \<open>The table\<close>

definition nibble_bits :: "nat \<Rightarrow> bool list" where
  "nibble_bits n = [bit n 3, bit n 2, bit n 1, bit n 0]"

lemma u2: "[1..<2] = [1 :: nat]" and u4: "[1..<4] = [1, 2, 3 :: nat]" and u8: "[1..<8] = [1, 2, 3, 4, 5, 6, 7 :: nat]"
  by (simp_all add: upt_rec)

lemma fill_from_2:
  "fill_from 2 ([x0, x1, x2, x3, x4, x5, x6, x7, x8, x9, xa, xb, xc, xd, xe, xf], [y0, y1, y2, y3, y4, y5, y6, y7, y8, y9, ya, yb, yc, yd, ye, yf]) =
    ([x0, x1, x2, x2 XOR x1, x4, x5, x6, x7, x8, x9, xa, xb, xc, xd, xe, xf],
     [y0, y1, y2, y2 XOR y1, y4, y5, y6, y7, y8, y9, ya, yb, yc, yd, ye, yf])"
  unfolding fill_from_def u2 by (simp add: store_def entry_def xor2_def)

lemma fill_from_4:
  "fill_from 4 ([x0, x1, x2, x3, x4, x5, x6, x7, x8, x9, xa, xb, xc, xd, xe, xf], [y0, y1, y2, y3, y4, y5, y6, y7, y8, y9, ya, yb, yc, yd, ye, yf]) =
    ([x0, x1, x2, x3, x4, x4 XOR x1, x4 XOR x2, x4 XOR x3, x8, x9, xa, xb, xc, xd, xe, xf],
     [y0, y1, y2, y3, y4, y4 XOR y1, y4 XOR y2, y4 XOR y3, y8, y9, ya, yb, yc, yd, ye, yf])"
  unfolding fill_from_def u4 by (simp add: store_def entry_def xor2_def)

lemma fill_from_8:
  "fill_from 8 ([x0, x1, x2, x3, x4, x5, x6, x7, x8, x9, xa, xb, xc, xd, xe, xf], [y0, y1, y2, y3, y4, y5, y6, y7, y8, y9, ya, yb, yc, yd, ye, yf]) =
    ([x0, x1, x2, x3, x4, x5, x6, x7, x8, x8 XOR x1, x8 XOR x2, x8 XOR x3, x8 XOR x4, x8 XOR x5, x8 XOR x6, x8 XOR x7],
     [y0, y1, y2, y3, y4, y5, y6, y7, y8, y8 XOR y1, y8 XOR y2, y8 XOR y3, y8 XOR y4, y8 XOR y5, y8 XOR y6, y8 XOR y7])"
  unfolding fill_from_def u8 by (simp add: store_def entry_def xor2_def)

lemma build_htab_lists:
  fixes v :: "u64 \<times> u64"
  defines "a \<equiv> times_x v" and "b \<equiv> times_x (times_x v)" and "c \<equiv> times_x (times_x (times_x v))"
  shows "build_htab v =
    ([0, fst c, fst b, fst b XOR fst c, fst a, fst a XOR fst c, fst a XOR fst b, fst a XOR (fst b XOR fst c),
      fst v, fst v XOR fst c, fst v XOR fst b, fst v XOR (fst b XOR fst c), fst v XOR fst a, fst v XOR (fst a XOR fst c),
      fst v XOR (fst a XOR fst b), fst v XOR (fst a XOR (fst b XOR fst c))],
     [0, snd c, snd b, snd b XOR snd c, snd a, snd a XOR snd c, snd a XOR snd b, snd a XOR (snd b XOR snd c),
      snd v, snd v XOR snd c, snd v XOR snd b, snd v XOR (snd b XOR snd c), snd v XOR snd a, snd v XOR (snd a XOR snd c),
      snd v XOR (snd a XOR snd b), snd v XOR (snd a XOR (snd b XOR snd c))])"
proof -
  have r: "replicate 16 (0 :: u64) = [0, 0, 0, 0, 0, 0, 0, 0, 0, 0, 0, 0, 0, 0, 0, 0]" by (simp add: numeral_eq_Suc)
  have l: "store 1 c (store 2 b (store 4 a (store 0 (0, 0) (store 8 v (replicate 16 0, replicate 16 0))))) =
      ([0, fst c, fst b, 0, fst a, 0, 0, 0, fst v, 0, 0, 0, 0, 0, 0, 0], [0, snd c, snd b, 0, snd a, 0, 0, 0, snd v, 0, 0, 0, 0, 0, 0, 0])"
    unfolding r store_def by simp
  show ?thesis
    unfolding build_htab_def Let_def c_def [symmetric] unfolding b_def [symmetric] unfolding a_def [symmetric] l fill_from_2 fill_from_4 fill_from_8 ..
qed

lemma gf_sum_nibble:
  "gf_sum [p, q, r, s] v = (if p then v else 0) XOR ((if q then mulx v else 0) XOR ((if r then mulx (mulx v) else 0) XOR (if s then mulx (mulx (mulx v)) else 0)))"
  by (simp add: mulx_xor)

lemma less_16: "n < 16 \<Longrightarrow> n \<in> {0, 1, 2, 3, 4, 5, 6, 7, 8, 9, 10, 11, 12, 13, 14, 15 :: nat}"
proof -
  assume "n < 16"
  then have "n \<in> set [0..<16]" by simp
  then show ?thesis unfolding upt_16 by (simp only: list.set)
qed

lemma build_htab_entry:
  assumes "n < 16"
  shows "join (entry (build_htab v) n) = gf_sum (nibble_bits n) (join v)"
proof -
  let ?a = "times_x v" and ?b = "times_x (times_x v)" and ?c = "times_x (times_x (times_x v))"
  have j: "mulx (join v) = join ?a" "mulx (join ?a) = join ?b" "mulx (join ?b) = join ?c" by (simp_all add: join_times_x)
  have p: "join w = join (fst w, snd w)" for w by simp
  show ?thesis
    using less_16 [OF assms] unfolding build_htab_lists nibble_bits_def gf_sum_nibble j entry_def fst_conv snd_conv
    by (elim insertE emptyE; simp add: join_xor bit_0; simp flip: p)
qed


section \<open>The multiplication\<close>

lemma gf_sum_append4: "length ns = 4 \<Longrightarrow> gf_sum (ns @ bs) v = gf_sum ns v XOR (mulx ^^ 4) (gf_sum bs v)"
  by (auto simp: numeral_eq_Suc length_Suc_conv mulx_xor xor.assoc)

text \<open>A table that holds the multiples of \<open>H\<close>.\<close>

definition gcm_ok :: "aes_gcm \<Rightarrow> u128 \<Rightarrow> bool" where
  "gcm_ok g H \<longleftrightarrow> (\<forall>n < 16. join (htab_hi g ! n, htab_lo g ! n) = gf_sum (nibble_bits n) H)"

lemma low4: "x AND 0xf = take_bit 4 (x :: 'a :: len word)"
  by (simp add: take_bit_eq_mask mask_eq_exp_minus_1)

lemma take_bit_join: "unat (take_bit 4 (join (h, l))) = unat (take_bit 4 l)"
  by (rule bit_eqI) (auto simp: bit_unsigned_iff bit_take_bit_iff bit_join)

lemma join_top: "join (push_bit 48 (ucast (x :: u16)), 0) = push_bit 112 (ucast x)"
  by (rule bit_word_eqI) (auto simp: bit_join bit_simps dest: bit_imp_le_length)

lemma shift4_join:
  assumes "gcm_ok g H" "n < 16"
  shows "join (shift4 g n z) = (mulx ^^ 4) (join z) XOR gf_sum (nibble_bits n) H"
proof -
  obtain h l where z: "z = (h, l)" by force
  let ?t = "push_bit 48 (ucast (LAST4 ! unat (take_bit 4 l))) :: u64"
  have "join (shift4 g n z) = join ((drop_bit 4 h XOR ?t) XOR htab_hi g ! n, ((push_bit (64 - 4) h OR drop_bit 4 l) XOR 0) XOR htab_lo g ! n)"
    by (simp add: shift4_def z Let_def low4)
  also have "\<dots> = drop_bit 4 (join (h, l)) XOR join (?t, 0) XOR join (htab_hi g ! n, htab_lo g ! n)"
    unfolding join_xor by (subst join_shift) (simp_all add: xor.assoc)
  also have "\<dots> = (mulx ^^ 4) (join (h, l)) XOR gf_sum (nibble_bits n) H"
    using assms unfolding mulx4 take_bit_join join_top gcm_ok_def by (simp add: xor.assoc)
  finally show ?thesis by (simp only: z)
qed

lemma byte_nibbles: "byte_bits b = nibble_bits (unat (drop_bit 4 b)) @ nibble_bits (unat (b AND 0xf))"
  unfolding low4 by (simp add: byte_bits_def nibble_bits_def bit_unsigned_iff bit_drop_bit_eq bit_take_bit_iff)

lemma nibble_less: "unat (drop_bit 4 (b :: byte)) < 16" "unat (b AND 0xf) < 16"
proof -
  have "unat b < 2 ^ LENGTH(8)" by (rule unsigned_less)
  then show "unat (drop_bit 4 b) < 16" by (simp add: drop_bit_eq_div unat_div div_less_iff_less_mult)
  show "unat (b AND 0xf) < 16" unfolding low4 unsigned_take_bit_eq by (simp add: take_bit_eq_mod)
qed

lemma nibble_bits_length [simp]: "length (nibble_bits n) = 4"
  by (simp add: nibble_bits_def)

lemma shift4_sum:
  assumes "gcm_ok g H" "n < 16" "join z = gf_sum bs H"
  shows "join (shift4 g n z) = gf_sum (nibble_bits n @ bs) H"
  using shift4_join [OF assms(1,2), of z] assms(3) by (simp add: gf_sum_append4 xor.commute)

lemma mult_step_sum:
  assumes "gcm_ok g H" "i < 15" "i < length x" "join z = gf_sum (bits_of (drop (Suc i) x)) H"
  shows "join (mult_step g x i z) = gf_sum (bits_of (drop i x)) H"
proof -
  have "bits_of (drop i x) = byte_bits (x ! i) @ bits_of (drop (Suc i) x)"
    using assms(3) by (simp add: bits_of_def Cons_nth_drop_Suc [symmetric])
  then show ?thesis
    using assms shift4_sum [OF assms(1) nibble_less(1), OF shift4_sum [OF assms(1) nibble_less(2)]]
    by (simp add: mult_step_def Let_def byte_nibbles)
qed

lemma mult_steps_sum:
  assumes "gcm_ok g H" "length x = 16"
  shows "k \<le> 15 \<Longrightarrow> join z = gf_sum (bits_of (drop k x)) H \<Longrightarrow> join (fold (mult_step g x) (rev [0..<k]) z) = gf_sum (bits_of x) H"
proof (induction k arbitrary: z)
  case (Suc k)
  then show ?case using mult_step_sum [OF assms(1), of k x z] assms(2) by simp
qed simp

definition bytes128 :: "u128 \<Rightarrow> byte list" where
  "bytes128 w = put_be32 (ucast (drop_bit 96 w)) @ put_be32 (ucast (drop_bit 64 w)) @ put_be32 (ucast (drop_bit 32 w)) @ put_be32 (ucast w)"

definition word128 :: "byte list \<Rightarrow> u128" where
  "word128 h = push_bit 96 (ucast (be32 h)) OR push_bit 64 (ucast (be32 (drop 4 h))) OR push_bit 32 (ucast (be32 (drop 8 h))) OR ucast (be32 (drop 12 h))"

lemma bytes128_join:
  "put_be32 (ucast (drop_bit 32 zh)) @ put_be32 (ucast zh) @ put_be32 (ucast (drop_bit 32 zl)) @ put_be32 (ucast zl) = bytes128 (join (zh, zl))"
proof -
  have "ucast (drop_bit 96 (join (zh, zl))) = (ucast (drop_bit 32 zh) :: u32)" "ucast (drop_bit 64 (join (zh, zl))) = (ucast zh :: u32)"
    "ucast (drop_bit 32 (join (zh, zl))) = (ucast (drop_bit 32 zl) :: u32)" "ucast (join (zh, zl)) = (ucast zl :: u32)"
    by (rule bit_word_eqI, simp add: bit_simps bit_join)+
  then show ?thesis by (simp add: bytes128_def)
qed

lemma gf_mult_h_field:
  assumes "gcm_ok g H" "length x = 16"
  shows "gf_mult_h g x = bytes128 (gf_mult (bits_of x) H 0)"
proof -
  let ?lo = "unat (x ! 15 AND 0xf)" and ?hi = "unat (drop_bit 4 (x ! 15))"
  let ?z = "(htab_hi g ! ?lo, htab_lo g ! ?lo)"
  have z: "join ?z = gf_sum (nibble_bits ?lo) H" using assms(1) nibble_less(2) by (simp only: gcm_ok_def)
  have "drop 15 x = [x ! 15]" using assms(2) by (simp add: Cons_nth_drop_Suc [symmetric])
  then have b: "bits_of (drop 15 x) = nibble_bits ?hi @ nibble_bits ?lo" by (simp add: bits_of_def byte_nibbles)
  have m: "mult_step g x 15 ?z = shift4 g ?hi ?z" by (simp add: mult_step_def Let_def)
  have j: "join (mult_step g x 15 ?z) = gf_sum (bits_of (drop 15 x)) H"
    unfolding m b using shift4_sum [OF assms(1) nibble_less(1) z] .
  have r: "rev [0..<16] = 15 # rev [0..<15 :: nat]" by (simp add: upt_rec)
  obtain zh zl where f: "fold (mult_step g x) (rev [0..<16]) ?z = (zh, zl)" by force
  have "join (zh, zl) = gf_sum (bits_of x) H"
    using mult_steps_sum [OF assms, of 15, OF _ j] unfolding f [symmetric] r by simp
  then show ?thesis unfolding gf_mult_h_def Let_def f prod.case bytes128_join by (simp add: gf_mult_sum)
qed

lemma join_word128:
  "join (push_bit 32 (ucast (be32 h)) OR ucast (be32 (drop 4 h)), push_bit 32 (ucast (be32 (drop 8 h))) OR ucast (be32 (drop 12 h))) = word128 h"
  by (rule bit_word_eqI) (auto simp: bit_join word128_def bit_simps dest: bit_imp_le_length)

lemma aes_gcm_init_ok: "gcm_ok (aes_gcm_init key) (word128 (aes128_encrypt (aes128_init key) (replicate 16 0)))"
  unfolding gcm_ok_def aes_gcm_init_def Let_def using build_htab_entry
  by (simp add: entry_def flip: join_word128)


section \<open>The hash and the cipher\<close>

text \<open>GHASH of SP 800-38D: every block, the last one filled up with zeros, is added and the sum multiplied by \<open>H\<close>.\<close>

definition ghash :: "u128 \<Rightarrow> byte list \<Rightarrow> byte list list \<Rightarrow> byte list" where
  "ghash H y bs = foldl (\<lambda>y b. bytes128 (gf_mult (bits_of (xor_bytes y (b @ replicate (16 - length b) 0))) H 0)) y bs"

lemma bytes128_length [simp]: "length (bytes128 w) = 16"
  by (simp add: bytes128_def)

lemma xor_zeros: "xor_bytes ys (replicate (length ys) 0) = ys"
  by (rule nth_equalityI) (simp_all add: xor_bytes_def)

lemma xor_partial:
  assumes "length y = 16" "length b \<le> 16"
  shows "xor_bytes (take (length b) y) b @ drop (length b) y = xor_bytes y (b @ replicate (16 - length b) 0)"
proof -
  have "xor_bytes y (b @ replicate (16 - length b) 0) = xor_bytes (take (length b) y) b @ xor_bytes (drop (length b) y) (replicate (16 - length b) 0)"
    by (simp add: xor_bytes_def zip_append2)
  then show ?thesis using xor_zeros [of "drop (length b) y"] assms by simp
qed

lemma ghash_update_ghash:
  assumes "gcm_ok g H"
  shows "length y = 16 \<Longrightarrow> ghash_update g data y = ghash H y (pieces 16 data)"
proof (induction "length data" arbitrary: data y rule: less_induct)
  case less
  show ?case
  proof (cases "data = []")
    case True
    then show ?thesis by (simp add: ghash_update.simps pieces.simps ghash_def)
  next
    case False
    let ?b = "take 16 data"
    have n: "min 16 (length data) = length ?b" by simp
    have t: "take (length ?b) data = ?b" "drop (length ?b) data = drop 16 data" by (cases "length data \<le> 16"; simp)+
    let ?y = "bytes128 (gf_mult (bits_of (xor_bytes y (?b @ replicate (16 - length ?b) 0))) H 0)"
    have "ghash_update g data y = ghash_update g (drop 16 data) (gf_mult_h g (xor_bytes (take (length ?b) y) ?b @ drop (length ?b) y))"
      using False unfolding ghash_update.simps [of g data y] Let_def n t by simp
    also have "\<dots> = ghash_update g (drop 16 data) ?y"
    proof -
      have "length ?b \<le> 16" by simp
      note x = xor_partial [OF less.prems this]
      have "length (xor_bytes y (?b @ replicate (16 - length ?b) 0)) = 16" using less.prems by simp
      then show ?thesis unfolding x by (simp only: gf_mult_h_field [OF assms])
    qed
    also have "\<dots> = ghash H ?y (pieces 16 (drop 16 data))" using False by (intro less.hyps) simp_all
    finally show ?thesis using False by (simp add: ghash_def pieces.simps [of 16 data])
  qed
qed

lemma ghash_length: "length y = 16 \<Longrightarrow> length (ghash H y bs) = 16"
  by (induction bs arbitrary: y) (simp_all add: ghash_def)

lemma aes128_encrypt_length [simp]: "length (aes128_encrypt a b) = 16"
  by (simp add: aes128_encrypt_def Let_def split: prod.split)

definition gcm_lens :: "byte list \<Rightarrow> byte list \<Rightarrow> byte list" where
  "gcm_lens aad ct = replicate 4 0 @ put_be32 (of_nat (8 * length aad)) @ replicate 4 0 @ put_be32 (of_nat (8 * length ct))"

lemma gcm_tag_ghash:
  assumes "gcm_ok g H"
  shows "gcm_tag g nonce aad ct =
    xor_bytes (ghash H (replicate 16 0) (pieces 16 aad @ pieces 16 ct @ [gcm_lens aad ct])) (aes128_encrypt (gaes g) (take 12 nonce @ put_be32 1))"
proof -
  have l: "length (gcm_lens aad ct) = 16" by (simp add: gcm_lens_def)
  then have p: "pieces 16 (gcm_lens aad ct) = [gcm_lens aad ct]" by (subst pieces.simps) (auto simp: pieces.simps)
  have a: "ghash H (ghash H y bs) cs = ghash H y (bs @ cs)" for y bs cs by (simp add: ghash_def)
  have e: "replicate 4 0 @ put_be32 (of_nat (length aad) * 8) @ replicate 4 0 @ put_be32 (of_nat (length ct) * 8) = gcm_lens aad ct"
    by (simp add: gcm_lens_def mult.commute)
  show ?thesis unfolding gcm_tag_def Let_def e
    by (simp add: ghash_update_ghash [OF assms] ghash_length a p)
qed

lemma gcm_tag_length:
  assumes "gcm_ok g H"
  shows "length (gcm_tag g nonce aad ct) = 16"
  unfolding gcm_tag_ghash [OF assms] by (simp add: ghash_length)

interpretation gcm_aead: aead "gcm_ctr (aes_gcm_init key) nonce" "gcm_tag (aes_gcm_init key) nonce" "aes_gcm_seal (aes_gcm_init key) nonce"
  "aes_gcm_open (aes_gcm_init key) nonce" for key nonce
proof unfold_locales
  show "gcm_ctr (aes_gcm_init key) nonce (gcm_ctr (aes_gcm_init key) nonce x) = x" for x
    unfolding gcm_ctr_def by (rule ctr_xor_twice) simp
  show "length (gcm_tag (aes_gcm_init key) nonce aad c) = 16" for aad c by (rule gcm_tag_length [OF aes_gcm_init_ok])
qed (simp_all add: aes_gcm_seal_def aes_gcm_open_def Let_def)


section \<open>Properties\<close>

text \<open>
  C26. The multiplication by \<open>H\<close> with a table of 16 entries and shifts by four bits is the multiplication of NIST SP 800-38D, bit by bit in
  the field of \<open>2^128\<close> elements, for the \<open>H\<close> of the key.
\<close>

theorem gf_mult_h_equiv:
  assumes "length x = 16"
  shows "gf_mult_h (aes_gcm_init key) x =
    bytes128 (gf_mult (bits_of x) (word128 (aes128_encrypt (aes128_init key) (replicate 16 0))) 0)"
  by (rule gf_mult_h_field [OF aes_gcm_init_ok assms])

theorem gf_mult_h_equiv_witness:
  "gf_mult_h (aes_gcm_init (replicate 16 3)) (replicate 16 5) =
    bytes128 (gf_mult (bits_of (replicate 16 5)) (word128 (aes128_encrypt (aes128_init (replicate 16 3)) (replicate 16 0))) 0)"
  by (rule gf_mult_h_equiv) (rule length_replicate)



end
