(* ===== verification/Wifi_Crypto.thy ===== *)
theory Wifi_Crypto
  imports Aes Ciphers
begin

text \<open>
  What WPA2 needs (\<open>crypto/wifi_crypto.c\<close>): SHA-1 and HMAC-SHA1, the pairwise master key from a passphrase, the keys of a session,
  unwrapping the group key, and CCMP. The \<open>wipe\<close>s of local buffers have no result; those of an output are in the result.
\<close>

section \<open>SHA-1 and HMAC\<close>

definition rol :: "u32 \<Rightarrow> nat \<Rightarrow> u32" where
  "rol v n = push_bit n v OR drop_bit (32 - n) v"

type_synonym wsha1 = "u32 hash_ctx"

definition wsha1_schedule :: "byte list \<Rightarrow> u32 list" where
  "wsha1_schedule b =
     fold (\<lambda>i w. w @ [rol (w ! (i - 3) XOR w ! (i - 8) XOR w ! (i - 14) XOR w ! (i - 16)) 1]) [16..<80]
       (map (\<lambda>i. be32 (drop (4 * i) b)) [0..<16])"

definition wsha1_round :: "u32 list \<Rightarrow> nat \<Rightarrow> u32 \<times> u32 \<times> u32 \<times> u32 \<times> u32 \<Rightarrow> u32 \<times> u32 \<times> u32 \<times> u32 \<times> u32" where
  "wsha1_round w i = (\<lambda>(a, bb, c, d, e).
     let (f, k) = (if i < 20 then ((bb AND c) OR (NOT bb AND d), 0x5a827999)
                   else if i < 40 then (bb XOR c XOR d, 0x6ed9eba1)
                   else if i < 60 then ((bb AND c) OR (bb AND d) OR (c AND d), 0x8f1bbcdc)
                   else (bb XOR c XOR d, 0xca62c1d6));
         t = rol a 5 + f + e + k + w ! i
     in (t, a, rol bb 30, c, d))"

definition wsha1_block :: "u32 list \<Rightarrow> byte list \<Rightarrow> u32 list" where
  "wsha1_block h b =
     (case fold (wsha1_round (wsha1_schedule b)) [0..<80] (h ! 0, h ! 1, h ! 2, h ! 3, h ! 4) of
        (a, bb, c, d, e) \<Rightarrow> [h ! 0 + a, h ! 1 + bb, h ! 2 + c, h ! 3 + d, h ! 4 + e])"

definition wsha1_init :: wsha1 where
  "wsha1_init = \<lparr>ch = [0x67452301, 0xefcdab89, 0x98badcfe, 0x10325476, 0xc3d2e1f0], ctotal = 0, cbuf = []\<rparr>"

definition wsha1_update :: "byte list \<Rightarrow> wsha1 \<Rightarrow> wsha1" where
  "wsha1_update data s = fill wsha1_block 64 data (s\<lparr>ctotal := ctotal s + of_nat (length data)\<rparr>)"

definition wsha1_out :: "u32 list \<Rightarrow> byte list" where
  "wsha1_out h = map (\<lambda>i. ucast (drop_bit (24 - 8 * (i mod 4)) (h ! (i div 4)))) [0..<20]"

definition wsha1_final :: "wsha1 \<Rightarrow> byte list" where
  "wsha1_final s =
     (let bits = ctotal s * 8;
          pad = (if buf_len s < 56 then 56 - buf_len s else 120 - buf_len s);
          end = take pad (0x80 # replicate 71 0) @ be64_bytes bits
      in wsha1_out (ch (wsha1_update end s)))"

definition wifi_hmac_sha1 :: "byte list \<Rightarrow> byte list \<Rightarrow> byte list" where
  "wifi_hmac_sha1 key data =
     (let pad = key_block 64 (if 64 < length key then wsha1_final (wsha1_update key wsha1_init) else key);
          pad = map (\<lambda>b. b XOR 0x36) pad;
          inner = wsha1_final (wsha1_update data (wsha1_update pad wsha1_init));
          pad = map (\<lambda>b. b XOR (0x36 XOR 0x5c)) pad
      in wsha1_final (wsha1_update inner (wsha1_update pad wsha1_init)))"


section \<open>Keys\<close>

definition hex :: "byte \<Rightarrow> int" where
  "hex c = (if 0x30 \<le> c \<and> c \<le> 0x39 then int (unat c) - 0x30
            else if 0x61 \<le> c \<and> c \<le> 0x66 then int (unat c) - 0x61 + 10
            else if 0x41 \<le> c \<and> c \<le> 0x46 then int (unat c) - 0x41 + 10 else -1)"

text \<open>The 32 bytes of a key written as 64 digits; \<open>None\<close> at a character that is not one.\<close>

fun hex_key :: "nat \<Rightarrow> byte list \<Rightarrow> byte list option" where
  "hex_key 0 pass = Some []"
| "hex_key (Suc n) pass =
     (let a = hex (pass ! 0); b = hex (pass ! 1)
      in if a < 0 \<or> b < 0 then None else do { rest \<leftarrow> hex_key n (drop 2 pass); Some (of_int (a * 16 + b) # rest) })"

fun pmk_loop :: "nat \<Rightarrow> byte list \<Rightarrow> byte list \<Rightarrow> byte list \<Rightarrow> byte list" where
  "pmk_loop 0 pass u t = t"
| "pmk_loop (Suc n) pass u t = (let u = wifi_hmac_sha1 pass u in pmk_loop n pass u (xor_bytes t u))"

definition pmk_block :: "byte list \<Rightarrow> byte list \<Rightarrow> nat \<Rightarrow> byte list" where
  "pmk_block pass ssid block =
     (let u = wifi_hmac_sha1 pass (ssid @ [0, 0, 0, of_nat block]) in pmk_loop 4095 pass u u)"

definition wifi_pmk :: "byte list \<Rightarrow> byte list \<Rightarrow> int \<times> byte list" where
  "wifi_pmk pass ssid =
     (let n = length pass; zero = replicate 32 0
      in if ssid = [] \<or> 32 < length ssid then (-1, zero)
         else if n = 64 then (case hex_key 32 pass of None \<Rightarrow> (-1, zero) | Some pmk \<Rightarrow> (0, pmk))
         else if n < 8 \<or> 63 < n then (-1, zero)
         else if \<exists>i < n. pass ! i < 32 \<or> 126 < pass ! i then (-1, zero)
         else (0, pmk_block pass ssid 1 @ take 12 (pmk_block pass ssid 2)))"

text \<open>\<open>memcmp(x, y, n) < 0\<close>\<close>

fun bytes_less :: "byte list \<Rightarrow> byte list \<Rightarrow> bool" where
  "bytes_less (x # xs) (y # ys) \<longleftrightarrow> x < y \<or> x = y \<and> bytes_less xs ys"
| "bytes_less xs ys \<longleftrightarrow> False"

definition ptk_label :: "byte list" where
  "ptk_label = map (\<lambda>c. of_nat (of_char c)) (''Pairwise key expansion'' @ [CHR 0x00])"

definition wifi_ptk :: "byte list \<Rightarrow> byte list \<Rightarrow> byte list \<Rightarrow> byte list \<Rightarrow> byte list \<Rightarrow> byte list" where
  "wifi_ptk pmk aa spa an sn =
     (let mac_order = bytes_less aa spa; nonce_order = bytes_less an sn;
          inp = ptk_label @ (if mac_order then aa else spa) @ (if mac_order then spa else aa) @
            (if nonce_order then an else sn) @ (if nonce_order then sn else an)
      in concat (map (\<lambda>i. take (if i = 2 then 8 else 20) (wifi_hmac_sha1 pmk (inp @ [of_nat i]))) [0..<3]))"


section \<open>Unwrapping a key\<close>

definition splice :: "nat \<Rightarrow> byte list \<Rightarrow> byte list \<Rightarrow> byte list" where
  "splice at x l = take at l @ x @ drop (at + length x) l"

definition slot :: "nat \<Rightarrow> byte list \<Rightarrow> byte list" where
  "slot i out = take 8 (drop (8 * (i - 1)) out)"

definition unwrap_step :: "aes128 \<Rightarrow> nat \<Rightarrow> nat \<times> nat \<Rightarrow> byte list \<times> byte list \<Rightarrow> byte list \<times> byte list" where
  "unwrap_step aes n = (\<lambda>(j, i) (a, out).
     let t = of_nat (n * j + i) :: u64;
         b = xor_bytes a (be64_bytes t) @ slot i out;
         b = decrypt aes b
     in (take 8 b, splice (8 * (i - 1)) (drop 8 b) out))"

text \<open>The order of the loops: \<open>j\<close> from 5 down, in each \<open>i\<close> from \<open>n\<close> down to 1.\<close>

definition unwrap_order :: "nat \<Rightarrow> (nat \<times> nat) list" where
  "unwrap_order n = concat (map (\<lambda>j. map (\<lambda>i. (j, i)) (rev [1..<n + 1])) (rev [0..<6]))"

definition wifi_key_unwrap :: "byte list \<Rightarrow> byte list \<Rightarrow> int \<times> byte list" where
  "wifi_key_unwrap kek inp =
     (let len = length inp
      in if len < 24 \<or> 512 < len \<or> len mod 8 \<noteq> 0 then (-1, [])
         else let aes = aes128_init kek; n = len div 8 - 1;
                  (a, out) = fold (unwrap_step aes n) (unwrap_order n) (take 8 inp, drop 8 inp);
                  bad = fold (\<lambda>x d. d OR (x XOR 0xa6)) a 0
              in if bad \<noteq> 0 then (-1, replicate (len - 8) 0) else (int len - 8, out))"


section \<open>CCMP\<close>

definition ccmp_nonce :: "byte list \<Rightarrow> u64 \<Rightarrow> (byte list \<times> byte list) option" where
  "ccmp_nonce h pn =
     (let hlen = length h
      in if (hlen \<noteq> 24 \<and> hlen \<noteq> 26) \<or> pn = 0 \<or> push_bit 48 1 \<le> pn \<or> h ! 0 AND 0x0c \<noteq> 8 \<or> h ! 1 AND 3 = 3 \<or> h ! 1 AND 0x40 = 0 \<or>
            (hlen = 26) \<noteq> (h ! 0 AND 0x80 \<noteq> 0) then None
         else let tid = (if hlen = 26 then h ! 24 AND 15 else 0);
                  nonce = tid # take 6 (drop 10 h) @ map (\<lambda>i. ucast (drop_bit (40 - 8 * i) pn)) [0..<6];
                  aad = [0, if hlen = 26 then 24 else 22, h ! 0 AND 0x8f, h ! 1 AND (if hlen = 26 then 0x47 else 0xc7)] @ take 18 (drop 4 h) @
                    [h ! 22 AND 15, 0, if hlen = 26 then tid else 0] @ replicate 7 0
              in Some (nonce, aad))"

definition cbc :: "aes128 \<Rightarrow> byte list \<Rightarrow> byte list \<Rightarrow> byte list" where
  "cbc aes b mac = aes128_encrypt aes (xor_bytes mac b)"

function mac_loop :: "aes128 \<Rightarrow> byte list \<Rightarrow> byte list \<Rightarrow> byte list" where
  "mac_loop aes p mac =
     (if p = [] then mac
      else let n = min 16 (length p) in mac_loop aes (drop n p) (cbc aes (take n p @ replicate (16 - n) 0) mac))"
  by pat_completeness auto
termination by (relation "measure (\<lambda>(aes, p, mac). length p)") auto

declare mac_loop.simps [simp del]

definition ccmp_mac :: "aes128 \<Rightarrow> byte list \<Rightarrow> byte list \<Rightarrow> byte list \<Rightarrow> byte list" where
  "ccmp_mac aes nonce aad p =
     (let n = length p;
          b = 0x59 # take 13 nonce @ [of_nat (n div 256), of_nat n];
          mac = cbc aes b (replicate 16 0);
          mac = cbc aes (take 16 aad) mac;
          mac = cbc aes (take 16 (drop 16 aad)) mac
      in mac_loop aes p mac)"

text \<open>The key stream for the text, and the block \<open>s0\<close> for the tag.\<close>

definition ccmp_ctr :: "aes128 \<Rightarrow> byte list \<Rightarrow> byte list \<Rightarrow> byte list \<times> byte list" where
  "ccmp_ctr aes nonce p =
     (ctr_xor (\<lambda>c :: u32. aes128_encrypt aes (1 # take 13 nonce @ [ucast (drop_bit 8 c), ucast c])) (\<lambda>c. c + 1) 16 1 p,
      aes128_encrypt aes (1 # take 13 nonce @ [0, 0]))"

definition wifi_ccmp_seal :: "byte list \<Rightarrow> byte list \<Rightarrow> u64 \<Rightarrow> byte list \<Rightarrow> int \<times> byte list \<times> byte list" where
  "wifi_ccmp_seal tk h pn data =
     (if 2304 < length data then (-1, data, [])
      else case ccmp_nonce h pn of None \<Rightarrow> (-1, data, [])
        | Some (nonce, aad) \<Rightarrow>
            let aes = aes128_init tk;
                mac = ccmp_mac aes nonce aad data;
                (out, s0) = ccmp_ctr aes nonce data
            in (0, out, xor_bytes (take 8 mac) (take 8 s0)))"

definition wifi_ccmp_open :: "byte list \<Rightarrow> byte list \<Rightarrow> u64 \<Rightarrow> byte list \<Rightarrow> byte list \<Rightarrow> int \<times> byte list" where
  "wifi_ccmp_open tk h pn data mic =
     (if 2304 < length data then (-1, data)
      else case ccmp_nonce h pn of None \<Rightarrow> (-1, data)
        | Some (nonce, aad) \<Rightarrow>
            let aes = aes128_init tk;
                (out, s0) = ccmp_ctr aes nonce data;
                mac = ccmp_mac aes nonce aad out;
                tag = xor_bytes (take 8 mac) (take 8 s0);
                bad = ct_memcmp tag mic 8
            in if bad \<noteq> 0 then (-1, replicate (length data) 0) else (0, out))"


section \<open>The hash\<close>

definition sha1_iv :: "u32 list" where
  "sha1_iv = [0x67452301, 0xefcdab89, 0x98badcfe, 0x10325476, 0xc3d2e1f0]"

definition sha1_spec :: "byte list \<Rightarrow> byte list" where
  "sha1_spec m = wsha1_out (foldl wsha1_block sha1_iv (chunks 64 (md_pad 64 56 (be64_bytes (of_nat (8 * length m))) m)))"

interpretation sha1_ctx: block_stream wsha1_block 64 wsha1_update ctx_view "\<lambda>c. buf_len c < 64"
  using fill_view [where B = 64 and blk = wsha1_block] by unfold_locales (simp_all add: wsha1_update_def)

text \<open>The end of the message, computed from the bytes that wait, is the padding of the standard; it always fits its 72 bytes.\<close>

lemma wsha1_pad:
  fixes m :: "byte list"
  defines "used \<equiv> length m mod 64"
  defines "pad \<equiv> if used < 56 then 56 - used else 120 - used"
  shows "pad \<le> 64" "m @ take pad ((0x80 :: byte) # replicate 71 0) @ l = md_pad 64 56 l m"
proof -
  have u: "used < 64" by (simp add: used_def)
  show p: "pad \<le> 64" using u by (auto simp: pad_def)
  have "Suc (length m) mod 64 = Suc used mod 64" by (simp add: used_def mod_Suc_eq)
  then have "Suc (zeros_to 64 56 (Suc (length m) mod 64)) = pad"
    using u by (cases "used = 63") (auto simp: zeros_to_def pad_def)
  then have z: "zeros_to 64 56 (Suc (length m) mod 64) = pad - 1" by simp
  have "0 < pad" using u by (auto simp: pad_def)
  then have "take pad ((0x80 :: byte) # replicate 71 0) = 0x80 # replicate (pad - 1) 0"
    using p by (cases pad) auto
  then show "m @ take pad ((0x80 :: byte) # replicate 71 0) @ l = md_pad 64 56 l m"
    by (simp add: md_pad_def z)
qed

lemma wsha1_updates: "wsha1_final (fold wsha1_update ds wsha1_init) = sha1_spec (concat ds)"
proof -
  define s where "s = fold wsha1_update ds wsha1_init"
  let ?m = "concat ds"
  have i: "buf_len wsha1_init < 64" by (simp add: wsha1_init_def)
  have ok: "buf_len s < 64" unfolding s_def by (rule sha1_ctx.updates_ok [OF i])
  have v: "ctx_view s = absorb wsha1_block 64 sha1_iv ?m"
    using sha1_ctx.updates_view [OF i] by (simp add: s_def wsha1_init_def sha1_iv_def)
  have b: "buf_len s = length ?m mod 64" using arg_cong [OF v, of snd] by simp
  have "ctotal s = of_nat (length ?m)"
    using sha1_ctx.updates_total [OF i, of ctotal] unfolding s_def by (simp add: wsha1_update_def fill_view) (simp add: wsha1_init_def)
  then have t: "of_nat (8 * length ?m) = ctotal s * 8" by (simp add: mult.commute)
  define e where "e = take (if buf_len s < 56 then 56 - buf_len s else 120 - buf_len s) (0x80 # replicate 71 0) @ be64_bytes (ctotal s * 8)"
  have "ctx_view (wsha1_update e s) = absorb wsha1_block 64 sha1_iv (?m @ e)"
    using sha1_ctx.upd_view [OF ok, of e] absorb_append [of wsha1_block 64 sha1_iv ?m e] v [symmetric] by simp
  moreover have "?m @ e = md_pad 64 56 (be64_bytes (ctotal s * 8)) ?m" unfolding e_def b by (rule wsha1_pad(2))
  ultimately have "ch (wsha1_update e s) = foldl wsha1_block sha1_iv (chunks 64 (md_pad 64 56 (be64_bytes (ctotal s * 8)) ?m))"
    by (metis absorb_chunks ctx_view_simps(1))
  then show ?thesis unfolding s_def [symmetric] sha1_spec_def t by (simp add: wsha1_final_def e_def Let_def)
qed

interpretation sha1_hash: stream_hash wsha1_init wsha1_update "\<lambda>s. Some (wsha1_final s)" sha1_spec
  by unfold_locales (simp add: wsha1_updates)

lemma hmac_sha1_spec: "wifi_hmac_sha1 key data = hmac_spec sha1_spec 64 key data"
proof -
  have w: "wsha1_final (wsha1_update key wsha1_init) = sha1_spec key" using sha1_hash.whole by simp
  have x: "map (\<lambda>b. b XOR (0x36 XOR 0x5c)) (map (\<lambda>b. b XOR 0x36) k) = map (\<lambda>b :: byte. b XOR 0x5c) k" for k
    by (simp add: xor.assoc)
  show ?thesis using sha1_hash.keyed [of "[data]" 64 key]
    unfolding wifi_hmac_sha1_def Let_def w key_block_key x by simp
qed

lemma sha1_spec_length [simp]: "length (sha1_spec m) = 20"
  by (simp add: sha1_spec_def wsha1_out_def)

abbreviation hmac1 :: "byte list \<Rightarrow> byte list \<Rightarrow> byte list" where
  "hmac1 \<equiv> hmac_spec sha1_spec 64"

text \<open>A block of PBKDF2 with HMAC-SHA1.\<close>

fun pmk_U :: "byte list \<Rightarrow> byte list \<Rightarrow> nat \<Rightarrow> byte list" where
  "pmk_U pass salt 0 = hmac1 pass salt"
| "pmk_U pass salt (Suc i) = hmac1 pass (pmk_U pass salt i)"

definition pbkdf2_F :: "byte list \<Rightarrow> byte list \<Rightarrow> nat \<Rightarrow> nat \<Rightarrow> byte list" where
  "pbkdf2_F pass ssid c i = foldl xor_bytes (pmk_U pass (ssid @ [0, 0, 0, of_nat i]) 0) (map (pmk_U pass (ssid @ [0, 0, 0, of_nat i])) [1..<c])"

lemma pmk_loop_sum: "pmk_loop n pass (pmk_U pass salt i) t = foldl xor_bytes t (map (pmk_U pass salt) [Suc i..<Suc i + n])"
proof (induction n arbitrary: i t)
  case (Suc n)
  have "wifi_hmac_sha1 pass (pmk_U pass salt i) = pmk_U pass salt (Suc i)" by (simp add: hmac_sha1_spec)
  then show ?case using Suc.IH [of "Suc i" "xor_bytes t (pmk_U pass salt (Suc i))"]
    by (simp add: upt_conv_Cons [of "Suc i"] del: upt_Suc pmk_U.simps)
qed simp

lemma pmk_block_F: "pmk_block pass ssid i = pbkdf2_F pass ssid 4096 i"
  using pmk_loop_sum [of 4095 pass "ssid @ [0, 0, 0, of_nat i]" 0]
  by (simp add: pmk_block_def pbkdf2_F_def Let_def hmac_sha1_spec del: upt_Suc upt_rec_numeral)

lemma pmk_U_length [simp]: "length (pmk_U pass salt i) = 20"
  by (cases i) (simp_all add: hmac_spec_def)

lemma pbkdf2_F_length [simp]: "length (pbkdf2_F pass ssid c i) = 20"
proof -
  have "length t = 20 \<Longrightarrow> length (foldl xor_bytes t (map (pmk_U pass s) is)) = 20" for t s "is"
    by (induction "is" arbitrary: t) simp_all
  then show ?thesis by (simp add: pbkdf2_F_def del: pmk_U.simps)
qed

lemma bytes_less_asym: "length x = length y \<Longrightarrow> x \<noteq> y \<Longrightarrow> bytes_less y x \<longleftrightarrow> \<not> bytes_less x y"
  by (induction x y rule: bytes_less.induct) auto

lemma hex_key_length: "hex_key n pass = Some k \<Longrightarrow> length k = n"
  by (induction n pass arbitrary: k rule: hex_key.induct) (auto simp: Let_def bind_eq_Some_conv split: if_splits)


section \<open>Wrapping and unwrapping\<close>

text \<open>RFC 3394: the wrapping the access point does.\<close>

definition wrap_step :: "aes128 \<Rightarrow> nat \<Rightarrow> nat \<times> nat \<Rightarrow> byte list \<times> byte list \<Rightarrow> byte list \<times> byte list" where
  "wrap_step aes n = (\<lambda>(j, i) (a, r).
     let b = aes128_encrypt aes (a @ slot i r)
     in (xor_bytes (take 8 b) (be64_bytes (of_nat (n * j + i))), splice (8 * (i - 1)) (drop 8 b) r))"

definition wrap_order :: "nat \<Rightarrow> (nat \<times> nat) list" where
  "wrap_order n = concat (map (\<lambda>j. map (\<lambda>i. (j, i)) [1..<n + 1]) [0..<6])"

definition key_wrap :: "byte list \<Rightarrow> byte list \<Rightarrow> byte list" where
  "key_wrap kek p =
     (let n = length p div 8; (a, r) = fold (wrap_step (aes128_init kek) n) (wrap_order n) (replicate 8 0xa6, p) in a @ r)"

lemma unwrap_order_rev: "unwrap_order n = rev (wrap_order n)"
  by (simp only: unwrap_order_def wrap_order_def rev_concat rev_map map_map o_def)

lemma splice_length: "at + length x \<le> length l \<Longrightarrow> length (splice at x l) = length l"
  by (simp add: splice_def)

lemma splice_splice: "length x = length y \<Longrightarrow> at + length x \<le> length l \<Longrightarrow> splice at y (splice at x l) = splice at y l"
  by (simp add: splice_def)

lemma splice_same: "at + k \<le> length l \<Longrightarrow> splice at (take k (drop at l)) l = l"
  by (simp add: splice_def min_def) (metis append_take_drop_id drop_drop add.commute)

lemma slot_splice: "at + length x \<le> length l \<Longrightarrow> take (length x) (drop at (splice at x l)) = x"
  by (simp add: splice_def)

definition step_ok :: "nat \<Rightarrow> byte list \<times> byte list \<Rightarrow> bool" where
  "step_ok n s \<longleftrightarrow> length (fst s) = 8 \<and> length (snd s) = 8 * n"

lemma wrap_step_ok:
  assumes "step_ok n s" "1 \<le> i" "i \<le> n" "length (aes128_encrypt aes (fst s @ slot i (snd s))) = 16"
  shows "step_ok n (wrap_step aes n (j, i) s)"
proof -
  have "8 * (i - 1) + 8 \<le> 8 * n" using assms(2,3) by simp
  then show ?thesis using assms by (cases s) (auto simp: wrap_step_def Let_def step_ok_def splice_length)
qed

lemma encrypt_length: "length b = 16 \<Longrightarrow> length (aes128_encrypt a b) = 16"
  by (simp add: aes128_encrypt_def Let_def split: prod.split)

lemma step_block:
  assumes "step_ok n s" "1 \<le> i" "i \<le> n"
  shows "length (fst s @ slot i (snd s)) = 16"
proof -
  have "8 * (i - 1) + 8 \<le> length (snd s)" using assms by (simp add: step_ok_def)
  then show ?thesis using assms(1) by (simp add: step_ok_def slot_def)
qed

lemma unwrap_wrap_step:
  assumes "step_ok n s" "1 \<le> i" "i \<le> n"
  shows "unwrap_step aes n (j, i) (wrap_step aes n (j, i) s) = s"
proof -
  obtain a r where s: "s = (a, r)" by force
  define b where "b = aes128_encrypt aes (a @ slot i r)"
  have l: "length (a @ slot i r) = 16" using step_block [OF assms] by (simp add: s)
  have bl: "length b = 16" unfolding b_def by (rule encrypt_length [OF l])
  have d: "decrypt aes b = a @ slot i r" unfolding b_def encrypt_fips [OF l] by (rule decrypt_fips [OF l])
  have fit: "8 * (i - 1) + length (drop 8 b) \<le> length r" using assms bl by (simp add: s step_ok_def)
  have x: "xor_bytes (xor_bytes (take 8 b) (be64_bytes t)) (be64_bytes t) = take 8 b" for t
    by (rule xor_bytes_twice) (simp add: bl)
  have sl: "slot i (splice (8 * (i - 1)) (drop 8 b) r) = drop 8 b" using slot_splice [OF fit] bl by (simp add: slot_def)
  have a: "length a = 8" using assms(1) by (simp add: s step_ok_def)
  have sp: "splice (8 * (i - 1)) (slot i r) (splice (8 * (i - 1)) (drop 8 b) r) = r"
  proof -
    have "length (drop 8 b) = length (slot i r)" using l a bl by simp
    then have "splice (8 * (i - 1)) (slot i r) (splice (8 * (i - 1)) (drop 8 b) r) = splice (8 * (i - 1)) (slot i r) r"
      using fit by (rule splice_splice)
    also have "\<dots> = r" unfolding slot_def using fit bl by (intro splice_same) simp
    finally show ?thesis .
  qed
  show ?thesis
    unfolding s wrap_step_def unwrap_step_def prod.case Let_def b_def [symmetric] x sl append_take_drop_id d using a sp by simp
qed

lemma wrap_steps_ok: "step_ok n s \<Longrightarrow> \<forall>x \<in> set xs. 1 \<le> snd x \<and> snd x \<le> n \<Longrightarrow> step_ok n (fold (wrap_step aes n) xs s)"
proof (induction xs arbitrary: s)
  case (Cons x xs)
  obtain j i where x: "x = (j, i)" by force
  have i: "1 \<le> i" "i \<le> n" using Cons.prems(2) x by auto
  have "step_ok n (wrap_step aes n x s)"
    unfolding x using wrap_step_ok [OF Cons.prems(1) i encrypt_length [OF step_block [OF Cons.prems(1) i]]] .
  then show ?case using Cons.IH Cons.prems(2) by simp
qed simp

lemma unwrap_wrap_steps:
  "step_ok n s \<Longrightarrow> \<forall>x \<in> set xs. 1 \<le> snd x \<and> snd x \<le> n \<Longrightarrow>
    fold (unwrap_step aes n) (rev xs) (fold (wrap_step aes n) xs s) = s"
proof (induction xs rule: rev_induct)
  case (snoc x xs)
  obtain j i where x: "x = (j, i)" by force
  have i: "1 \<le> i" "i \<le> n" using snoc.prems(2) x by auto
  have "step_ok n (fold (wrap_step aes n) xs s)" using snoc.prems by (intro wrap_steps_ok) auto
  then show ?case using snoc x unwrap_wrap_step [OF _ i, of _ aes j] by simp
qed simp

lemma unwrap_wrap:
  assumes "length p = 8 * n" "2 \<le> n" "n \<le> 63"
  shows "wifi_key_unwrap kek (key_wrap kek p) = (int (8 * n), p)"
proof -
  let ?aes = "aes128_init kek" and ?s = "(replicate 8 0xa6, p) :: byte list \<times> byte list"
  obtain a r where w: "fold (wrap_step ?aes n) (wrap_order n) ?s = (a, r)" by force
  have s: "step_ok n ?s" using assms(1) by (simp add: step_ok_def)
  have o: "\<forall>x \<in> set (wrap_order n). 1 \<le> snd x \<and> snd x \<le> n" by (auto simp: wrap_order_def)
  have l: "length a = 8" "length r = 8 * n" using wrap_steps_ok [OF s o, of ?aes] w by (simp_all add: step_ok_def)
  have k: "key_wrap kek p = a @ r" using assms(1) w by (simp add: key_wrap_def)
  have "fold (unwrap_step ?aes n) (unwrap_order n) (a, r) = ?s"
    unfolding unwrap_order_rev w [symmetric] by (rule unwrap_wrap_steps [OF s o])
  moreover have "fold (\<lambda>x d. d OR (x XOR 0xa6)) (replicate k 0xa6) d = (d :: byte)" for k d by (induction k) simp_all
  ultimately show ?thesis unfolding k wifi_key_unwrap_def Let_def using l assms by simp
qed


section \<open>Properties\<close>

text \<open>
  The keys of WPA2: HMAC-SHA1 is that of RFC 2104 over SHA-1; a passphrase of 8 to 63 printable characters gives the 32 bytes of PBKDF2
  with 4096 rounds, and what is refused gives -1 and zeros; and the station and the access point derive the same session keys,
  whichever address and nonce is their own.
\<close>

lemma wifi_keys:
  assumes "length aa = length spa" "length an = length sn"
  shows "wifi_hmac_sha1 key m = hmac_spec sha1_spec 64 key m \<and>
    (ssid \<noteq> [] \<and> length ssid \<le> 32 \<and> 8 \<le> length pass \<and> length pass \<le> 63 \<and> (\<forall>c \<in> set pass. 32 \<le> c \<and> c \<le> 126) \<longrightarrow>
      wifi_pmk pass ssid = (0, take 32 (pbkdf2_F pass ssid 4096 1 @ pbkdf2_F pass ssid 4096 2))) \<and>
    (fst (wifi_pmk pass ssid) = 0 \<or> wifi_pmk pass ssid = (-1, replicate 32 0)) \<and> length (snd (wifi_pmk pass ssid)) = 32 \<and>
    wifi_ptk pmk aa spa an sn = wifi_ptk pmk spa aa sn an"
proof (intro conjI impI)
  show "wifi_hmac_sha1 key m = hmac_spec sha1_spec 64 key m" by (rule hmac_sha1_spec)
  have b: "pmk_block pass ssid i = pbkdf2_F pass ssid 4096 i" for i by (rule pmk_block_F)
  show "wifi_pmk pass ssid = (0, take 32 (pbkdf2_F pass ssid 4096 1 @ pbkdf2_F pass ssid 4096 2))"
    if "ssid \<noteq> [] \<and> length ssid \<le> 32 \<and> 8 \<le> length pass \<and> length pass \<le> 63 \<and> (\<forall>c \<in> set pass. 32 \<le> c \<and> c \<le> 126)"
  proof -
    have "\<not> (\<exists>i < length pass. pass ! i < 32 \<or> 126 < pass ! i)" using that by (auto simp: all_set_conv_all_nth not_less)
    then show ?thesis using that unfolding wifi_pmk_def Let_def b by simp
  qed
  show "fst (wifi_pmk pass ssid) = 0 \<or> wifi_pmk pass ssid = (-1, replicate 32 0)"
    by (simp add: wifi_pmk_def Let_def split: option.split)
  show "length (snd (wifi_pmk pass ssid)) = 32"
    unfolding wifi_pmk_def Let_def b by (simp add: hex_key_length split: option.split)
  have m: "(if bytes_less x y then x else y) = (if bytes_less y x then y else x)"
    "(if bytes_less x y then y else x) = (if bytes_less y x then x else y)" if "length x = length y" for x y
    using bytes_less_asym [OF that] by auto
  show "wifi_ptk pmk aa spa an sn = wifi_ptk pmk spa aa sn an"
    unfolding wifi_ptk_def Let_def m [OF assms(1)] m [OF assms(2)] ..
qed

lemma wifi_keys_example:
  "wifi_ptk [1] [2, 3] [4, 5] [6] [7] = wifi_ptk [1] [4, 5] [2, 3] [7] [6]"
  using wifi_keys [of "[2, 3]" "[4, 5]" "[6]" "[7]" "[]" "[]" "[]" "[]" "[1]"] by simp





end
