(* ===== verification/Deflate_Model.thy ===== *)
theory Deflate_Model
  imports Prelude
begin

text \<open>
  The DEFLATE compressor (\<open>kernel/deflate.c\<close>): CRC-32, the bit writer, Huffman code lengths and codes, blocks, the search for matches and the
  main loop. The parameter \<open>al\<close> of the writer says of each size whether \<open>krealloc\<close> gets it; a writer asks for each size once. The scratch
  arrays of \<open>scratch_t\<close> are the results of the functions that fill them, since no entry is read before it is written. The loops that
  follow parent links and that flatten the frequencies are partial functions, so every result that depends on them is an option.
\<close>

section \<open>Tables\<close>

definition WSIZE :: nat where "WSIZE = 32768"
definition HASH_SIZE :: nat where "HASH_SIZE = 32768"
definition MIN_MATCH :: nat where "MIN_MATCH = 3"
definition MAX_MATCH :: nat where "MAX_MATCH = 258"
definition CHAIN_MAX :: nat where "CHAIN_MAX = 64"
definition GOOD_LAZY :: nat where "GOOD_LAZY = 32"
definition BLOCK_TOKENS :: nat where "BLOCK_TOKENS = 32768"

definition LBASE :: "nat list" where
  "LBASE = [3, 4, 5, 6, 7, 8, 9, 10, 11, 13, 15, 17, 19, 23, 27, 31, 35, 43, 51, 59,
            67, 83, 99, 115, 131, 163, 195, 227, 258]"

definition LEXT :: "nat list" where
  "LEXT = [0, 0, 0, 0, 0, 0, 0, 0, 1, 1, 1, 1, 2, 2, 2, 2, 3, 3, 3, 3, 4, 4, 4, 4, 5, 5, 5, 5, 0]"

definition DBASE :: "nat list" where
  "DBASE = [1, 2, 3, 4, 5, 7, 9, 13, 17, 25, 33, 49, 65, 97, 129, 193, 257, 385, 513, 769,
            1025, 1537, 2049, 3073, 4097, 6145, 8193, 12289, 16385, 24577]"

definition DEXT :: "nat list" where
  "DEXT = [0, 0, 0, 0, 1, 1, 2, 2, 3, 3, 4, 4, 5, 5, 6, 6, 7, 7, 8, 8, 9, 9, 10, 10, 11, 11, 12, 12, 13, 13]"

definition CLORDER :: "nat list" where
  "CLORDER = [16, 17, 18, 0, 8, 7, 9, 6, 10, 5, 11, 4, 12, 3, 13, 2, 14, 1, 15]"


section \<open>CRC-32\<close>

text \<open>The table is filled in by the first call and not written later.\<close>

definition crc_shift :: "u32 \<Rightarrow> u32" where
  "crc_shift c = (if c AND 1 \<noteq> 0 then 0xEDB88320 XOR drop_bit 1 c else drop_bit 1 c)"

definition g_crc_table :: "u32 list" where
  "g_crc_table = map (\<lambda>i. (crc_shift ^^ 8) (of_nat i)) [0..<256]"

definition crc32_update :: "u32 \<Rightarrow> byte list \<Rightarrow> u32" where
  "crc32_update crc data =
     NOT (foldl (\<lambda>c b. g_crc_table ! unat ((c XOR ucast b) AND 0xFF) XOR drop_bit 8 c) (NOT crc) data)"


section \<open>Bit output\<close>

record bw =
  buf :: "byte list"
  cap :: nat
  bits :: u32
  nbits :: nat
  oom :: bool

definition bw_byte :: "(nat \<Rightarrow> bool) \<Rightarrow> byte \<Rightarrow> bw \<Rightarrow> bw" where
  "bw_byte al b w =
     (if oom w then w
      else if cap w \<le> length (buf w) then
        let c = if cap w \<noteq> 0 then wrap32 (cap w * 2) else 4096
        in if c = 0 \<or> \<not> al c then w\<lparr>oom := True\<rparr> else w\<lparr>buf := buf w @ [b], cap := c\<rparr>
      else w\<lparr>buf := buf w @ [b]\<rparr>)"

lemma bw_byte_same [simp]: "bits (bw_byte al b w) = bits w" "nbits (bw_byte al b w) = nbits w"
  by (simp_all add: bw_byte_def Let_def)

function put_loop :: "(nat \<Rightarrow> bool) \<Rightarrow> bw \<Rightarrow> bw" where
  "put_loop al w =
     (if nbits w < 8 then w
      else put_loop al ((bw_byte al (ucast (bits w)) w)\<lparr>bits := drop_bit 8 (bits w), nbits := nbits w - 8\<rparr>))"
  by pat_completeness auto
termination by (relation "measure (\<lambda>(al, w). nbits w)") auto

declare put_loop.simps [simp del]

definition bw_put :: "(nat \<Rightarrow> bool) \<Rightarrow> u32 \<Rightarrow> nat \<Rightarrow> bw \<Rightarrow> bw" where
  "bw_put al v n w = put_loop al (w\<lparr>bits := bits w OR push_bit (nbits w) v, nbits := nbits w + n\<rparr>)"

definition bw_align :: "(nat \<Rightarrow> bool) \<Rightarrow> bw \<Rightarrow> bw" where
  "bw_align al w = (if 0 < nbits w then bw_byte al (ucast (bits w)) w else w)\<lparr>bits := 0, nbits := 0\<rparr>"


section \<open>Huffman codes\<close>

text \<open>The nodes of the tree under construction: weights, which are still roots, and the links to the parents (\<open>-1\<close> for none).\<close>

type_synonym nodes = "nat list \<times> bool list \<times> int list"

definition pick2 :: "nat list \<Rightarrow> bool list \<Rightarrow> nat \<Rightarrow> nat option \<times> nat option \<Rightarrow> nat option \<times> nat option" where
  "pick2 w alive i ab =
     (if \<not> alive ! i then ab
      else case ab of
        (None, b) \<Rightarrow> (Some i, None)
      | (Some x, b) \<Rightarrow>
          if w ! i < w ! x then (Some i, Some x)
          else (case b of None \<Rightarrow> (Some x, Some i) | Some y \<Rightarrow> if w ! i < w ! y then (Some x, Some i) else (Some x, Some y)))"

definition merge_two :: "nodes \<Rightarrow> nodes" where
  "merge_two s =
     (case s of (w, alive, parent) \<Rightarrow>
        case fold (pick2 w alive) [0..<length w] (None, None) of
          (Some a, Some b) \<Rightarrow>
            (w @ [wrap32 (w ! a + w ! b)], (alive @ [True])[a := False, b := False],
             (parent @ [-1])[a := int (length w), b := int (length w)])
        | _ \<Rightarrow> s)"

definition leaves :: "nat list \<Rightarrow> nodes" where
  "leaves freq = (freq, map (\<lambda>f. f \<noteq> 0) freq, map (\<lambda>f. -1) freq)"

partial_function (option) depth_from :: "int list \<Rightarrow> nat \<Rightarrow> nat \<Rightarrow> nat option" where
  "depth_from parent p d = (if parent ! p < 0 then Some d else depth_from parent (nat (parent ! p)) (d + 1))"

text \<open>The depth of every symbol in use, 0 for the others.\<close>

definition depths :: "nat list \<Rightarrow> int list \<Rightarrow> nat list option" where
  "depths freq parent = those (map (\<lambda>i. if freq ! i = 0 then Some 0 else depth_from parent i 0) [0..<length freq])"

definition flatter :: "nat \<Rightarrow> nat" where
  "flatter f = (if f \<noteq> 0 then f div 2 OR 1 else f)"

partial_function (option) huff_lengths :: "nat list \<Rightarrow> nat \<Rightarrow> nat list option" where
  "huff_lengths freq maxbits =
     (let n = length freq; used = filter (\<lambda>i. freq ! i \<noteq> 0) [0..<n]
      in if used = [] then Some (replicate n 0)
         else if length used = 1 then
           let l = last used in Some ((replicate n 0)[l := 1, (if l = 0 then 1 else 0) := 1])
         else do {
           ds \<leftarrow> depths freq (snd (snd ((merge_two ^^ (length used - 1)) (leaves freq))));
           if \<exists>d\<in>set ds. maxbits < d then huff_lengths (map flatter freq) maxbits
           else Some (map (\<lambda>d. d mod 256) ds)
         })"

text \<open>Canonical codes, with their bits reversed.\<close>

fun rev_bits :: "nat \<Rightarrow> nat \<Rightarrow> nat \<Rightarrow> nat" where
  "rev_bits 0 v r = r"
| "rev_bits (Suc k) v r = rev_bits k (v div 2) ((r * 2 OR v AND 1) mod 65536)"

definition len_counts :: "nat list \<Rightarrow> nat list" where
  "len_counts len = (fold (\<lambda>l c. c[l := (c ! l + 1) mod 65536]) len (replicate 16 0))[0 := 0]"

definition first_codes :: "nat list \<Rightarrow> nat list" where
  "first_codes count =
     snd (fold (\<lambda>b (c, nx). let c = ((c + count ! (b - 1)) * 2) mod 65536 in (c, nx[b := c])) [1..<16] (0, replicate 16 0))"

definition assign_code :: "nat \<Rightarrow> nat list \<times> nat list \<Rightarrow> nat list \<times> nat list" where
  "assign_code l s =
     (case s of (nx, code) \<Rightarrow>
        if l = 0 then (nx, code @ [0])
        else (nx[l := (nx ! l + 1) mod 65536], code @ [rev_bits l (nx ! l) 0]))"

definition huff_codes :: "nat list \<Rightarrow> nat list" where
  "huff_codes len = snd (fold assign_code len (first_codes (len_counts len), []))"


section \<open>Tokens and blocks\<close>

record tok =
  tlen :: nat
  tdist :: nat

text \<open>The search stops at index 0 at the latest: every length is at least \<open>LBASE[0]\<close>, every distance at least \<open>DBASE[0]\<close>.\<close>

primrec sym_from :: "nat list \<Rightarrow> nat \<Rightarrow> nat \<Rightarrow> nat" where
  "sym_from t v 0 = 0"
| "sym_from t v (Suc s) = (if t ! Suc s > v then sym_from t v s else Suc s)"

definition len_sym :: "nat \<Rightarrow> nat" where
  "len_sym n = sym_from LBASE n 28"

definition dist_sym :: "nat \<Rightarrow> nat" where
  "dist_sym d = sym_from DBASE d 29"

definition stored_block :: "(nat \<Rightarrow> bool) \<Rightarrow> byte list \<Rightarrow> bool \<Rightarrow> bw \<Rightarrow> bw" where
  "stored_block al data lst w =
     (let k = of_nat (length data) :: u32;
          w = bw_align al (bw_put al 0 2 (bw_put al (of_bool lst) 1 w));
          w = bw_byte al (ucast (drop_bit 8 k)) (bw_byte al (ucast k) w);
          w = bw_byte al (ucast (drop_bit 8 (NOT k))) (bw_byte al (ucast (NOT k)) w)
      in fold (bw_byte al) data w)"

function stored_blocks :: "(nat \<Rightarrow> bool) \<Rightarrow> byte list \<Rightarrow> bool \<Rightarrow> bw \<Rightarrow> bw" where
  "stored_blocks al data final w =
     (let k = if 65535 < length data then 65535 else length data;
          w = stored_block al (take k data) (final \<and> k = length data) w
      in if drop k data = [] then w else stored_blocks al (drop k data) final w)"
  by pat_completeness auto
termination by (relation "measure (\<lambda>(al, data, final, w). length data)") (auto split: if_splits)

declare stored_blocks.simps [simp del]

text \<open>The run-length coding of the code lengths: symbols and what their extra bits hold.\<close>

function rle_lens :: "nat list \<Rightarrow> (nat \<times> nat) list" where
  "rle_lens [] = []"
| "rle_lens (v # vs) =
     (let run = Suc (length (takeWhile ((=) v) vs))
      in if v = 0 \<and> 3 \<le> run then
           let k = if 138 < run then 138 else run
           in (if 11 \<le> k then (18, k - 11) else (17, k - 3)) # rle_lens (drop k (v # vs))
         else if v \<noteq> 0 \<and> 4 \<le> run then
           let k = if 6 < run - 1 then 6 else run - 1
           in (v, 0) # (16, k - 3) # rle_lens (drop (1 + k) (v # vs))
         else (v, 0) # rle_lens vs)"
  by pat_completeness auto
termination by (relation "measure length") (auto split: if_splits)

declare rle_lens.simps(2) [simp del]

definition rle_bits :: "nat \<Rightarrow> nat" where
  "rle_bits s = (if s = 16 then 2 else if s = 17 then 3 else if s = 18 then 7 else 0)"

definition count_up :: "nat list \<Rightarrow> nat \<Rightarrow> nat list" where
  "count_up f i = f[i := wrap32 (f ! i + 1)]"

definition count_tok :: "tok \<Rightarrow> nat list \<times> nat list \<Rightarrow> nat list \<times> nat list" where
  "count_tok t s =
     (case s of (lf, df) \<Rightarrow>
        if tdist t = 0 then (count_up lf (tlen t), df)
        else (count_up lf (257 + len_sym (tlen t)), count_up df (dist_sym (tdist t))))"

primrec trim :: "(nat \<Rightarrow> nat) \<Rightarrow> nat \<Rightarrow> nat \<Rightarrow> nat" where
  "trim f lo 0 = 0"
| "trim f lo (Suc n) = (if lo < Suc n \<and> f n = 0 then trim f lo n else Suc n)"

definition put_tok :: "(nat \<Rightarrow> bool) \<Rightarrow> nat list \<Rightarrow> nat list \<Rightarrow> nat list \<Rightarrow> nat list \<Rightarrow> tok \<Rightarrow> bw \<Rightarrow> bw" where
  "put_tok al ll lc dl dc t w =
     (if tdist t = 0 then bw_put al (of_nat (lc ! tlen t)) (ll ! tlen t) w
      else
        let ls = len_sym (tlen t); ds = dist_sym (tdist t);
            w = bw_put al (of_nat (lc ! (257 + ls))) (ll ! (257 + ls)) w;
            w = if LEXT ! ls \<noteq> 0 then bw_put al (of_nat (tlen t - LBASE ! ls)) (LEXT ! ls) w else w;
            w = bw_put al (of_nat (dc ! ds)) (dl ! ds) w
        in if DEXT ! ds \<noteq> 0 then bw_put al (of_nat (tdist t - DBASE ! ds)) (DEXT ! ds) w else w)"

definition put_rle :: "(nat \<Rightarrow> bool) \<Rightarrow> nat list \<Rightarrow> nat list \<Rightarrow> nat \<times> nat \<Rightarrow> bw \<Rightarrow> bw" where
  "put_rle al cl cc r w =
     (let w = bw_put al (of_nat (cc ! fst r)) (cl ! fst r) w
      in if rle_bits (fst r) \<noteq> 0 then bw_put al (of_nat (snd r)) (rle_bits (fst r)) w else w)"

text \<open>The two sizes in bits that are compared.\<close>

definition dynamic_bits :: "nat \<Rightarrow> (nat \<times> nat) list \<Rightarrow> nat list \<Rightarrow> nat list \<Rightarrow> nat list \<Rightarrow> nat list \<Rightarrow> nat list \<Rightarrow> nat" where
  "dynamic_bits hclen rle cl lf ll df dl =
     3 + 5 + 5 + 4 + 3 * hclen + sum_list (map (\<lambda>r. cl ! fst r + rle_bits (fst r)) rle) +
     sum_list (map (\<lambda>i. lf ! i * ll ! i) [0..<286]) + sum_list (map (\<lambda>i. lf ! (257 + i) * LEXT ! i) [0..<29]) +
     sum_list (map (\<lambda>i. df ! i * (dl ! i + DEXT ! i)) [0..<30])"

definition stored_bits :: "nat \<Rightarrow> nat" where
  "stored_bits raw = raw * 8 + (wrap32 (raw + 65534) div 65535 + of_bool (raw = 0)) * 40 + 8"

text \<open>The block with its own codes: what \<open>write_block\<close> sends when the codes are made.\<close>

definition put_dynamic :: "(nat \<Rightarrow> bool) \<Rightarrow> bool \<Rightarrow> nat \<Rightarrow> nat \<Rightarrow> nat \<Rightarrow> (nat \<times> nat) list \<Rightarrow> nat list \<Rightarrow> nat list \<Rightarrow> nat list \<Rightarrow>
    tok list \<Rightarrow> bw \<Rightarrow> bw" where
  "put_dynamic al final hlit hdist hclen rle ll dl cl t w =
     (let lc = huff_codes ll; dc = huff_codes dl; cc = huff_codes cl;
          w = bw_put al 2 2 (bw_put al (of_bool final) 1 w);
          w = bw_put al (of_nat (hlit - 257)) 5 w;
          w = bw_put al (of_nat (hdist - 1)) 5 w;
          w = bw_put al (of_nat (hclen - 4)) 4 w;
          w = fold (\<lambda>i. bw_put al (of_nat (cl ! (CLORDER ! i))) 3) [0..<hclen] w;
          w = fold (put_rle al cl cc) rle w;
          w = fold (put_tok al ll lc dl dc) t w
      in bw_put al (of_nat (lc ! 256)) (ll ! 256) w)"

definition write_block :: "(nat \<Rightarrow> bool) \<Rightarrow> tok list \<Rightarrow> byte list \<Rightarrow> bool \<Rightarrow> bw \<Rightarrow> bw option" where
  "write_block al t data final w =
     (let (lf, df) = fold count_tok t (replicate 286 0, replicate 30 0); lf = lf[256 := 1]
      in do {
        ll \<leftarrow> huff_lengths lf 15;
        dl \<leftarrow> huff_lengths df 15;
        let hlit = trim (\<lambda>i. ll ! i) 257 286;
        let hdist = trim (\<lambda>i. dl ! i) 1 30;
        let rle = rle_lens (take hlit ll @ take hdist dl);
        let cf = fold (\<lambda>r f. count_up f (fst r)) rle (replicate 19 0);
        cl \<leftarrow> huff_lengths cf 7;
        let hclen = trim (\<lambda>i. cl ! (CLORDER ! i)) 4 19;
        Some (if stored_bits (length data) \<le> dynamic_bits hclen rle cl lf ll df dl then stored_blocks al data final w
              else put_dynamic al final hlit hdist hclen rle ll dl cl t w)
      })"


section \<open>Matches\<close>

definition hash3 :: "byte list \<Rightarrow> nat \<Rightarrow> nat" where
  "hash3 s p = unat ((push_bit 10 (ucast (s ! p)) XOR push_bit 5 (ucast (s ! (p + 1))) XOR ucast (s ! (p + 2)) :: u32)
     AND of_nat (HASH_SIZE - 1))"

definition match_len :: "byte list \<Rightarrow> nat \<Rightarrow> nat \<Rightarrow> nat \<Rightarrow> nat" where
  "match_len s c pos mx = length (takeWhile (\<lambda>k. s ! (c + k) = s ! (pos + k)) [0..<mx])"

text \<open>At most \<open>n\<close> candidates more: \<open>best\<close> and \<open>dist\<close> are the match found so far.\<close>

fun chase :: "byte list \<Rightarrow> nat \<Rightarrow> nat \<Rightarrow> int list \<Rightarrow> nat \<Rightarrow> int \<Rightarrow> nat \<Rightarrow> nat \<Rightarrow> nat \<times> nat" where
  "chase s pos mx prev 0 cand best dist = (best, dist)"
| "chase s pos mx prev (Suc n) cand best dist =
     (let c = nat cand
      in if cand < 0 \<or> pos \<le> c \<or> WSIZE < pos - c then (best, dist)
         else
           let k = match_len s c pos mx; next = prev ! (c mod WSIZE)
           in if s ! (c + best) = s ! (pos + best) \<and> s ! c = s ! pos \<and> best < k then
                if k = mx then (k, pos - c) else chase s pos mx prev n next k (pos - c)
              else chase s pos mx prev n next best dist)"

definition longest :: "byte list \<Rightarrow> nat \<Rightarrow> int list \<Rightarrow> int list \<Rightarrow> nat \<times> nat" where
  "longest s pos head prev =
     (let mx = if length s - pos < MAX_MATCH then length s - pos else MAX_MATCH
      in if mx < MIN_MATCH then (0, 0)
         else
           let (best, dist) = chase s pos mx prev CHAIN_MAX (head ! hash3 s pos) 0 0
           in (if MIN_MATCH \<le> best then best else 0, dist))"

text \<open>The cast of a position to \<open>int32_t\<close>, and the macro \<open>INSERT\<close>.\<close>

definition int32 :: "nat \<Rightarrow> int" where
  "int32 p = (if p < 2 ^ 31 then int p else int p - 2 ^ 32)"

definition insert_pos :: "byte list \<Rightarrow> nat \<Rightarrow> int list \<times> int list \<Rightarrow> int list \<times> int list" where
  "insert_pos s p hp =
     (if wrap32 (p + MIN_MATCH) \<le> length s then
        let h = hash3 s p in ((fst hp)[h := int32 p], (snd hp)[p mod WSIZE := fst hp ! h])
      else hp)"


section \<open>Compression\<close>

record comp =
  chains :: "int list \<times> int list"
  toks :: "tok list"
  pos :: nat
  block_start :: nat
  cw :: bw

text \<open>A match taken at the current position, when \<open>from\<close> of its first positions are in the chains already; a literal.\<close>

definition take_match :: "byte list \<Rightarrow> nat \<Rightarrow> nat \<Rightarrow> nat \<Rightarrow> comp \<Rightarrow> comp" where
  "take_match s k0 mlen dist c =
     c\<lparr>chains := fold (\<lambda>k. insert_pos s (pos c + k)) [k0..<mlen] (chains c),
       toks := toks c @ [\<lparr>tlen = mlen mod 65536, tdist = dist mod 65536\<rparr>], pos := pos c + mlen\<rparr>"

definition take_literal :: "byte list \<Rightarrow> comp \<Rightarrow> comp" where
  "take_literal s c = c\<lparr>toks := toks c @ [\<lparr>tlen = unat (s ! pos c), tdist = 0\<rparr>], pos := pos c + 1\<rparr>"

definition next_token :: "byte list \<Rightarrow> comp \<Rightarrow> comp" where
  "next_token s c =
     (let (mlen, dist) = longest s (pos c) (fst (chains c)) (snd (chains c));
          c1 = c\<lparr>chains := insert_pos s (pos c) (chains c)\<rparr>
      in if mlen \<noteq> 0 \<and> mlen < GOOD_LAZY \<and> pos c + 1 < length s then
           let (m2, d2) = longest s (pos c + 1) (fst (chains c1)) (snd (chains c1))
           in if mlen < m2 then take_match s 0 m2 d2 (take_literal s c1) else take_match s 1 mlen dist c1
         else if mlen \<noteq> 0 then take_match s 0 mlen dist c
         else take_literal s c1)"

definition flush_block :: "(nat \<Rightarrow> bool) \<Rightarrow> byte list \<Rightarrow> bool \<Rightarrow> comp \<Rightarrow> comp option" where
  "flush_block al s final c = do {
     w \<leftarrow> write_block al (toks c) (take (pos c - block_start c) (drop (block_start c) s)) final (cw c);
     Some (c\<lparr>cw := w, block_start := pos c, toks := []\<rparr>)
   }"

partial_function (option) compress_loop :: "(nat \<Rightarrow> bool) \<Rightarrow> byte list \<Rightarrow> comp \<Rightarrow> comp option" where
  "compress_loop al s c =
     (if pos c < length s then
        let c = next_token s c
        in if BLOCK_TOKENS - 2 \<le> length (toks c) then do { c \<leftarrow> flush_block al s (length s \<le> pos c) c; compress_loop al s c }
           else compress_loop al s c
      else Some c)"

text \<open>
  \<open>work\<close> says whether the four working areas could be allocated; \<open>prev0\<close> is what \<open>prev\<close> holds when it is allocated. The result is
  \<open>Some None\<close> for \<open>NULL\<close>.
\<close>

definition deflate_compress :: "bool \<Rightarrow> (nat \<Rightarrow> bool) \<Rightarrow> int list \<Rightarrow> byte list \<Rightarrow> byte list option option" where
  "deflate_compress work al prev0 s =
     (if \<not> work then Some None
      else do {
        c \<leftarrow> compress_loop al s
               \<lparr>chains = (replicate HASH_SIZE (-1), prev0), toks = [], pos = 0, block_start = 0,
                cw = \<lparr>buf = [], cap = 0, bits = 0, nbits = 0, oom = False\<rparr>\<rparr>;
        c \<leftarrow> (if toks c \<noteq> [] \<or> length s = 0 \<or> block_start c < length s then flush_block al s True c else Some c);
        let w = bw_align al (cw c);
        Some (if oom w then None else if cap w = 0 \<and> \<not> al 1 then None else Some (buf w))
      })"

declare depth_from.simps [code] huff_lengths.simps [code] compress_loop.simps [code]

end
