(* ===== verification/Huffman_Lengths.thy ===== *)
theory Huffman_Lengths
  imports Deflate_Model Complex_Main
begin

text \<open>
  The code lengths \<open>huff_lengths\<close> makes: the loops end, no length is over the limit, every symbol in use gets a code, and the lengths satisfy
  Kraft's inequality. The tree is followed through the links to the parents; the two least roots are at most a factor of two apart when
  all frequencies are one, which bounds the depth and so ends the loop that flattens the frequencies.
\<close>

section \<open>The two least roots\<close>

definition two_least :: "nat list \<Rightarrow> bool list \<Rightarrow> nat \<Rightarrow> nat option \<times> nat option \<Rightarrow> bool" where
  "two_least w alive n ab =
     (case ab of
        (None, None) \<Rightarrow> \<forall>i<n. \<not> alive ! i
      | (Some a, None) \<Rightarrow> a < n \<and> alive ! a \<and> (\<forall>i<n. alive ! i \<longrightarrow> i = a)
      | (Some a, Some b) \<Rightarrow> a < n \<and> b < n \<and> a \<noteq> b \<and> alive ! a \<and> alive ! b \<and> w ! a \<le> w ! b \<and> (\<forall>i<n. alive ! i \<longrightarrow> i \<noteq> a \<longrightarrow> w ! b \<le> w ! i)
      | (None, Some b) \<Rightarrow> False)"

lemma pick2_least: "two_least w alive n (fold (pick2 w alive) [0..<n] (None, None))"
proof (induction n)
  case 0
  show ?case by (simp add: two_least_def)
next
  case (Suc n)
  obtain a b where f: "fold (pick2 w alive) [0..<n] (None, None) = (a, b)" by force
  have "two_least w alive (Suc n) (pick2 w alive n (a, b))" if "two_least w alive n (a, b)"
    using that by (cases a; cases b) (auto simp: two_least_def pick2_def less_Suc_eq split: if_splits)
  then show ?case using Suc by (simp add: f)
qed

definition roots :: "bool list \<Rightarrow> nat set" where
  "roots alive = {i. i < length alive \<and> alive ! i}"

lemma finite_roots [simp]: "finite (roots alive)"
  by (simp add: roots_def)

definition nodes_ok :: "nodes \<Rightarrow> bool" where
  "nodes_ok s = (case s of (w, alive, parent) \<Rightarrow>
     length alive = length w \<and> length parent = length w \<and> (\<forall>i\<in>roots alive. parent ! i = -1))"

lemma pick2_two:
  assumes "1 < card (roots alive)"
  obtains a b where "fold (pick2 w alive) [0..<length alive] (None, None) = (Some a, Some b)"
    "a \<in> roots alive" "b \<in> roots alive" "a \<noteq> b" "w ! a \<le> w ! b" "\<And>i. i \<in> roots alive \<Longrightarrow> i \<noteq> a \<Longrightarrow> w ! b \<le> w ! i"
proof -
  obtain x y where f: "fold (pick2 w alive) [0..<length alive] (None, None) = (x, y)" by force
  then have t: "two_least w alive (length alive) (x, y)" by (metis pick2_least)
  have "\<not> roots alive \<subseteq> {i}" for i using assms card_mono [of "{i}" "roots alive"] by auto
  then obtain a b where "x = Some a" "y = Some b"
    using t by (cases x; cases y) (auto simp: two_least_def roots_def)
  then show thesis using t f that by (auto simp: two_least_def roots_def)
qed

lemma merge_two_step:
  assumes "nodes_ok (w, alive, parent)" "1 < card (roots alive)"
  obtains a b where "a \<in> roots alive" "b \<in> roots alive" "a \<noteq> b" "w ! a \<le> w ! b"
    "\<And>i. i \<in> roots alive \<Longrightarrow> i \<noteq> a \<Longrightarrow> w ! b \<le> w ! i"
    "merge_two (w, alive, parent) = (w @ [wrap32 (w ! a + w ! b)], (alive @ [True])[a := False, b := False],
       (parent @ [-1])[a := int (length w), b := int (length w)])"
    "roots ((alive @ [True])[a := False, b := False]) = insert (length w) (roots alive - {a, b})"
    "nodes_ok (merge_two (w, alive, parent))"
proof -
  have len: "length alive = length w" "length parent = length w" and p: "\<And>i. i \<in> roots alive \<Longrightarrow> parent ! i = -1"
    using assms(1) by (auto simp: nodes_ok_def)
  obtain a b where ab: "fold (pick2 w alive) [0..<length alive] (None, None) = (Some a, Some b)"
    "a \<in> roots alive" "b \<in> roots alive" "a \<noteq> b" "w ! a \<le> w ! b" "\<And>i. i \<in> roots alive \<Longrightarrow> i \<noteq> a \<Longrightarrow> w ! b \<le> w ! i"
    using pick2_two [OF assms(2)] by blast
  then have m: "merge_two (w, alive, parent) = (w @ [wrap32 (w ! a + w ! b)], (alive @ [True])[a := False, b := False],
       (parent @ [-1])[a := int (length w), b := int (length w)])" by (simp add: merge_two_def len)
  have r: "roots ((alive @ [True])[a := False, b := False]) = insert (length w) (roots alive - {a, b})"
    using ab(2,3) by (auto simp: roots_def nth_list_update nth_append len)
  have "nodes_ok (merge_two (w, alive, parent))"
    unfolding m nodes_ok_def prod.case r using len p ab(2,3) by (auto simp: nth_append roots_def nth_list_update)
  then show thesis using that [OF ab(2-6) m r] by simp
qed


section \<open>Depths\<close>

text \<open>Numbers of steps to the root along the links, and the weights along the way.\<close>

definition depth_ok :: "int list \<Rightarrow> nat set \<Rightarrow> (nat \<Rightarrow> nat) \<Rightarrow> bool" where
  "depth_ok parent A D = ((\<forall>v\<in>A. \<forall>d. depth_from parent v d = Some (d + D v)) \<and> (\<Sum>v\<in>A. (1 / 2) ^ D v) = (1 :: real))"

definition even_weights :: "nat list \<Rightarrow> nat set \<Rightarrow> bool" where
  "even_weights w A = ((\<forall>i\<in>A. \<forall>j\<in>A. w ! i \<le> 2 * w ! j) \<and> (\<Sum>v\<in>A. w ! v) < 2 ^ 32)"

lemma sum_two: "finite A \<Longrightarrow> a \<in> A \<Longrightarrow> b \<in> A \<Longrightarrow> a \<noteq> b \<Longrightarrow> sum f A = f a + f b + sum f (A - {a, b})"
  for f :: "nat \<Rightarrow> 'a :: comm_monoid_add"
proof -
  assume A: "finite A" "a \<in> A" "b \<in> A" "a \<noteq> b"
  then have "sum f A = f a + sum f (A - {a})" by (simp add: sum.remove)
  also have "sum f (A - {a}) = f b + sum f (A - {a} - {b})" using A by (intro sum.remove) auto
  also have "A - {a} - {b} = A - {a, b}" by auto
  finally show ?thesis by (simp add: add.assoc)
qed

lemma even_merge:
  assumes "even_weights w A" "finite A" "A \<subseteq> {..<length w}" "a \<in> A" "b \<in> A" "a \<noteq> b" "w ! a \<le> w ! b"
    "\<And>i. i \<in> A \<Longrightarrow> i \<noteq> a \<Longrightarrow> w ! b \<le> w ! i"
  shows "wrap32 (w ! a + w ! b) = w ! a + w ! b"
    "even_weights (w @ [wrap32 (w ! a + w ! b)]) (insert (length w) (A - {a, b}))"
    "(\<Sum>v\<in>insert (length w) (A - {a, b}). (w @ [wrap32 (w ! a + w ! b)]) ! v) = (\<Sum>v\<in>A. w ! v)"
proof -
  have s: "(\<Sum>v\<in>A. w ! v) = w ! a + w ! b + (\<Sum>v\<in>A - {a, b}. w ! v)" using assms(2,4-6) by (rule sum_two)
  then show wr: "wrap32 (w ! a + w ! b) = w ! a + w ! b" using assms(1) by (intro wrap32_id) (simp add: even_weights_def)
  have same: "(\<Sum>v\<in>A - {a, b}. (w @ [x]) ! v) = (\<Sum>v\<in>A - {a, b}. w ! v)" for x
    using assms(3) by (intro sum.cong) (auto simp: nth_append)
  have "length w \<notin> A - {a, b}" using assms(3) by auto
  then show sum: "(\<Sum>v\<in>insert (length w) (A - {a, b}). (w @ [wrap32 (w ! a + w ! b)]) ! v) = (\<Sum>v\<in>A. w ! v)"
    using assms(2) by (simp add: same wr s)
  have ew: "w ! i \<le> 2 * w ! j" if "i \<in> A" "j \<in> A" for i j using assms(1) that by (simp add: even_weights_def)
  have nth: "(w @ [x]) ! i = w ! i" if "i \<in> A" for i x using assms(3) that by (auto simp: nth_append)
  have "(w @ [w ! a + w ! b]) ! i \<le> 2 * (w @ [w ! a + w ! b]) ! j"
    if "i \<in> insert (length w) (A - {a, b})" "j \<in> insert (length w) (A - {a, b})" for i j
  proof -
    have 1: "w ! a + w ! b \<le> 2 * w ! j" if "j \<in> A - {a, b}" using assms(7) assms(8) [of j] that by auto
    have 2: "w ! i \<le> 2 * (w ! a + w ! b)" if "i \<in> A - {a, b}" using ew [of i a] assms(4) that by auto
    show ?thesis using that 1 2 ew nth by auto
  qed
  then show "even_weights (w @ [wrap32 (w ! a + w ! b)]) (insert (length w) (A - {a, b}))"
    using assms(1) unfolding even_weights_def sum by (auto simp: wr)
qed

text \<open>Merging until one root is left: links of nodes that are no roots stay, and every root gets its depth.\<close>

lemma merges_depths:
  assumes "nodes_ok (w, alive, parent)" "card (roots alive) = Suc k"
  shows "\<exists>w' alive' parent' D. (merge_two ^^ k) (w, alive, parent) = (w', alive', parent') \<and>
    (\<forall>i<length parent. i \<notin> roots alive \<longrightarrow> parent' ! i = parent ! i) \<and> depth_ok parent' (roots alive) D \<and>
    (even_weights w (roots alive) \<longrightarrow> (\<forall>v\<in>roots alive. w ! v * 3 ^ D v \<le> 2 ^ D v * (\<Sum>v\<in>roots alive. w ! v)))"
  using assms
proof (induction k arbitrary: w alive parent)
  case 0
  then obtain v where v: "roots alive = {v}" using card_1_singletonE by (metis One_nat_def)
  have "parent ! v = -1" using 0(1) v by (simp add: nodes_ok_def)
  then have "depth_ok parent (roots alive) (\<lambda>_. 0)" by (simp add: depth_ok_def v depth_from.simps)
  then show ?case using v by (auto intro: exI [of _ "\<lambda>_. 0"])
next
  case (Suc k)
  let ?A = "roots alive" and ?n = "length w"
  have len: "length alive = ?n" "length parent = ?n" using Suc(2) by (auto simp: nodes_ok_def)
  have A: "?A \<subseteq> {..<?n}" by (auto simp: roots_def len)
  have "1 < card ?A" using Suc(3) by simp
  from merge_two_step [OF Suc(2) this] obtain a b where ab: "a \<in> ?A" "b \<in> ?A" "a \<noteq> b" "w ! a \<le> w ! b"
    and least: "\<And>i. i \<in> ?A \<Longrightarrow> i \<noteq> a \<Longrightarrow> w ! b \<le> w ! i"
    and m: "merge_two (w, alive, parent) = (w @ [wrap32 (w ! a + w ! b)], (alive @ [True])[a := False, b := False],
       (parent @ [-1])[a := int (length w), b := int (length w)])"
    and r: "roots ((alive @ [True])[a := False, b := False]) = insert ?n (?A - {a, b})"
    and ok: "nodes_ok (merge_two (w, alive, parent))" by metis
  let ?w1 = "w @ [wrap32 (w ! a + w ! b)]" and ?al1 = "(alive @ [True])[a := False, b := False]"
    and ?p1 = "(parent @ [-1])[a := int ?n, b := int ?n]"
  let ?A1 = "insert ?n (?A - {a, b})"
  have n: "?n \<notin> ?A" "a < ?n" "b < ?n" using A ab by auto
  have "card ?A1 = Suc k" using Suc(3) ab n by (simp add: card_Diff_subset)
  from Suc.IH [OF ok [unfolded m], unfolded r, OF this] obtain w' alive' parent' D where
    f: "(merge_two ^^ k) (?w1, ?al1, ?p1) = (w', alive', parent')"
    and keep: "\<And>i. i < length ?p1 \<Longrightarrow> i \<notin> ?A1 \<Longrightarrow> parent' ! i = ?p1 ! i"
    and D: "depth_ok parent' ?A1 D"
    and W: "even_weights ?w1 ?A1 \<Longrightarrow> v \<in> ?A1 \<Longrightarrow> ?w1 ! v * 3 ^ D v \<le> 2 ^ D v * (\<Sum>v\<in>?A1. ?w1 ! v)" for v by metis
  define E where "E = D(a := D ?n + 1, b := D ?n + 1)"
  have E: "E a = D ?n + 1" "E b = D ?n + 1" "\<And>v. v \<in> ?A - {a, b} \<Longrightarrow> E v = D v" by (auto simp: E_def)
  have up: "parent' ! a = int ?n" "parent' ! b = int ?n"
    using keep [of a] keep [of b] n ab by (auto simp: len nth_list_update nth_append)
  have steps: "depth_from parent' v d = Some (d + D v)" if "v \<in> ?A1" for v d using D that unfolding depth_ok_def by blast
  have "depth_from parent' v d = Some (d + E v)" if "v \<in> ?A" for v d
  proof (cases "v \<in> {a, b}")
    case True
    then have "depth_from parent' v d = depth_from parent' ?n (d + 1)" using up by (subst depth_from.simps) auto
    then show ?thesis using True steps [of ?n] E by auto
  qed (use that steps [of v] E in auto)
  moreover have "(\<Sum>v\<in>?A. (1 / 2) ^ E v) = (1 :: real)"
  proof -
    have "(\<Sum>v\<in>?A. (1 / 2 :: real) ^ E v) = (1 / 2) ^ E a + (1 / 2) ^ E b + (\<Sum>v\<in>?A - {a, b}. (1 / 2) ^ E v)"
      using ab by (intro sum_two) auto
    also have "\<dots> = (1 / 2) ^ D ?n + (\<Sum>v\<in>?A - {a, b}. (1 / 2) ^ D v)" using E by simp
    also have "\<dots> = (\<Sum>v\<in>?A1. (1 / 2) ^ D v)" using n by simp
    finally show ?thesis using D unfolding depth_ok_def by argo
  qed
  ultimately have "depth_ok parent' ?A E" by (simp add: depth_ok_def)
  moreover have "w ! v * 3 ^ E v \<le> 2 ^ E v * (\<Sum>v\<in>?A. w ! v)" if ew: "even_weights w ?A" and v: "v \<in> ?A" for v
  proof -
    note em = even_merge [OF ew finite_roots A ab(1-4) least]
    have W1: "?w1 ! v * 3 ^ D v \<le> 2 ^ D v * (\<Sum>v\<in>?A. w ! v)" if "v \<in> ?A1" for v using W [OF em(2) that] em(3) by simp
    show ?thesis
    proof (cases "v \<in> {a, b}")
      case True
      have "w ! b \<le> 2 * w ! a" using ew ab by (simp add: even_weights_def)
      then have "w ! v * 3 \<le> 2 * (w ! a + w ! b)" using True ab(4) by auto
      then have "w ! v * 3 * 3 ^ D ?n \<le> 2 * (w ! a + w ! b) * 3 ^ D ?n" by (rule mult_right_mono) simp
      also have "\<dots> = 2 * ((w ! a + w ! b) * 3 ^ D ?n)" by (rule mult.assoc)
      also have "\<dots> \<le> 2 * (2 ^ D ?n * (\<Sum>v\<in>?A. w ! v))" using W1 [of ?n] em(1) by (intro mult_left_mono) simp_all
      finally show ?thesis using True E by (auto simp: mult.assoc)
    next
      case False
      then show ?thesis using W1 [of v] E(3) [of v] v A by (auto simp: nth_append)
    qed
  qed
  moreover have "parent' ! i = parent ! i" if "i < length parent" "i \<notin> ?A" for i
  proof -
    have "i \<noteq> a" "i \<noteq> b" using that ab by auto
    then show ?thesis using keep [of i] that len by (simp add: nth_append)
  qed
  moreover have "(merge_two ^^ Suc k) (w, alive, parent) = (w', alive', parent')" by (simp only: funpow_Suc_right o_apply m f)
  ultimately show ?case by blast
qed


section \<open>Code lengths\<close>

definition kraft :: "nat list \<Rightarrow> real" where
  "kraft ls = (\<Sum>i | i < length ls \<and> ls ! i \<noteq> 0. (1 / 2) ^ (ls ! i))"

definition used :: "nat list \<Rightarrow> nat set" where
  "used freq = {i. i < length freq \<and> freq ! i \<noteq> 0}"

lemma used_filter: "set (filter (\<lambda>i. freq ! i \<noteq> 0) [0..<length freq]) = used freq"
  "length (filter (\<lambda>i. freq ! i \<noteq> 0) [0..<length freq]) = card (used freq)"
proof -
  show s: "set (filter (\<lambda>i. freq ! i \<noteq> 0) [0..<length freq]) = used freq" by (auto simp: used_def)
  show "length (filter (\<lambda>i. freq ! i \<noteq> 0) [0..<length freq]) = card (used freq)"
    unfolding s [symmetric] by (rule distinct_card [symmetric]) simp
qed

lemma finite_used [simp]: "finite (used freq)"
  by (simp add: used_def)

lemma those_Some: "(\<And>x. x \<in> set xs \<Longrightarrow> f x = Some (g x)) \<Longrightarrow> those (map f xs) = Some (map g xs)"
  by (induction xs) auto

lemma tree_depths:
  assumes "1 < card (used freq)"
  obtains D where "depths freq (snd (snd ((merge_two ^^ (card (used freq) - 1)) (leaves freq)))) =
      Some (map (\<lambda>i. if freq ! i = 0 then 0 else D i) [0..<length freq])"
    "\<forall>i\<in>used freq. D i \<noteq> 0" "(\<Sum>i\<in>used freq. (1 / 2) ^ D i) = (1 :: real)"
    "set freq \<subseteq> {0, 1} \<and> length freq < 2 ^ 32 \<longrightarrow> (\<forall>i\<in>used freq. 3 ^ D i \<le> 2 ^ D i * length freq)"
proof -
  let ?al = "map (\<lambda>f. f \<noteq> 0) freq"
  have r: "roots ?al = used freq" by (auto simp: roots_def used_def)
  have ok: "nodes_ok (freq, ?al, map (\<lambda>f. -1) freq)" by (auto simp: nodes_ok_def roots_def)
  have "card (roots ?al) = Suc (card (used freq) - 1)" using assms r by simp
  from merges_depths [OF ok this, unfolded r] obtain w' alive' parent' D where
    m: "(merge_two ^^ (card (used freq) - 1)) (leaves freq) = (w', alive', parent')" and D: "depth_ok parent' (used freq) D"
    and W: "even_weights freq (used freq) \<longrightarrow> (\<forall>v\<in>used freq. freq ! v * 3 ^ D v \<le> 2 ^ D v * (\<Sum>v\<in>used freq. freq ! v))"
    by (auto simp: leaves_def)
  have sum: "(\<Sum>i\<in>used freq. (1 / 2) ^ D i) = (1 :: real)" using D unfolding depth_ok_def by argo
  have "depths freq parent' = Some (map (\<lambda>i. if freq ! i = 0 then 0 else D i) [0..<length freq])"
    unfolding depths_def using D by (intro those_Some) (auto simp: depth_ok_def used_def)
  moreover have "D i \<noteq> 0" if i: "i \<in> used freq" for i
  proof
    assume "D i = 0"
    have "\<not> used freq \<subseteq> {i}" using assms card_mono [of "{i}" "used freq"] by auto
    then obtain j where j: "j \<in> used freq" "j \<noteq> i" by auto
    have "(\<Sum>v\<in>used freq. (1 / 2 :: real) ^ D v) = (1 / 2) ^ D i + (1 / 2) ^ D j + (\<Sum>v\<in>used freq - {i, j}. (1 / 2) ^ D v)"
      using i j by (intro sum_two) auto
    moreover have "0 \<le> (\<Sum>v\<in>used freq - {i, j}. (1 / 2 :: real) ^ D v)" by (intro sum_nonneg) simp
    moreover have "0 < (1 / 2 :: real) ^ D j" by simp
    ultimately show False using sum \<open>D i = 0\<close> by simp
  qed
  moreover have "3 ^ D i \<le> 2 ^ D i * length freq"
    if one: "set freq \<subseteq> {0, 1}" and n: "length freq < 2 ^ 32" and i: "i \<in> used freq" for i
  proof -
    have w: "freq ! v = 1" if "v \<in> used freq" for v using subsetD [OF one nth_mem [of v]] that by (auto simp: used_def)
    then have s: "(\<Sum>v\<in>used freq. freq ! v) = card (used freq)" by simp
    have c: "card (used freq) \<le> length freq" using card_mono [of "{..<length freq}" "used freq"] by (auto simp: used_def)
    have "even_weights freq (used freq)" unfolding even_weights_def s using w c n by auto
    then have "3 ^ D i \<le> 2 ^ D i * card (used freq)" using W s w i by fastforce
    also have "\<dots> \<le> 2 ^ D i * length freq" using c by simp
    finally show ?thesis .
  qed
  ultimately show thesis using that [of D] sum m by simp
qed

lemma flatter_le: "flatter f \<le> f" "1 < f \<Longrightarrow> flatter f < f" "flatter f = 0 \<longleftrightarrow> f = 0"
proof -
  have "f div 2 + of_bool (even (f div 2)) \<le> f" if "0 < f" using that by (auto simp: of_bool_def)
  then show "flatter f \<le> f" by (simp add: flatter_def or_Suc_0_eq)
  have "f div 2 + of_bool (even (f div 2)) < f" if "1 < f" using that by (auto simp: of_bool_def) presburger
  then show "1 < f \<Longrightarrow> flatter f < f" by (simp add: flatter_def or_Suc_0_eq)
  show "flatter f = 0 \<longleftrightarrow> f = 0" by (auto simp: flatter_def or_Suc_0_eq of_bool_def dest: odd_pos)
qed

lemma sum_flatter: "\<not> set freq \<subseteq> {0, 1} \<Longrightarrow> sum_list (map flatter freq) < sum_list freq"
proof (induction freq)
  case (Cons f fs)
  have s: "sum_list (map flatter fs) \<le> sum_list fs" by (induction fs) (auto intro: add_mono flatter_le)
  show ?case
  proof (cases "f \<in> {0, 1}")
    case True
    then show ?thesis using Cons flatter_le(1) [of f] by auto
  next
    case False
    then show ?thesis using flatter_le(2) [of f] s by auto
  qed
qed simp

lemma kraft_used: "kraft ls = (\<Sum>i\<in>used ls. (1 / 2) ^ (ls ! i))"
  by (simp add: kraft_def used_def)

text \<open>What a table of code lengths has to be, for symbols that occur where \<open>freq\<close> is not zero.\<close>

definition lengths_ok :: "nat list \<Rightarrow> nat \<Rightarrow> nat list \<Rightarrow> bool" where
  "lengths_ok freq m ls = (length ls = length freq \<and> (\<forall>l\<in>set ls. l \<le> m) \<and> used freq \<subseteq> used ls \<and> kraft ls \<le> 1)"

lemma nth_two_ones: "i < n \<Longrightarrow> j < n \<Longrightarrow> v < n \<Longrightarrow> (replicate n 0)[i := 1, j := 1] ! v = (if v \<in> {i, j} then 1 else 0 :: nat)"
  by (simp add: nth_list_update)

lemma two_ones:
  assumes "i < n" "j < n" "0 < m"
  defines "ls \<equiv> (replicate n 0)[i := 1, j := 1 :: nat]"
  shows "used ls = {i, j}" "kraft ls \<le> 1" "\<forall>l\<in>set ls. l \<le> m"
proof -
  note nth = nth_two_ones [OF assms(1,2), folded ls_def]
  have len: "length ls = n" by (simp add: ls_def)
  show u: "used ls = {i, j}" unfolding used_def len using nth assms(1,2) by (auto split: if_splits)
  have "kraft ls = (\<Sum>v\<in>{i, j}. (1 / 2) ^ 1)" unfolding kraft_used u using nth assms(1,2) by (intro sum.cong) auto
  then show "kraft ls \<le> 1" by (cases "i = j") auto
  show "\<forall>l\<in>set ls. l \<le> m" using nth assms(3) by (auto simp: in_set_conv_nth len)
qed

lemma one_symbol:
  assumes "used freq = {i}" "1 < length freq" "0 < m"
  shows "lengths_ok freq m ((replicate (length freq) 0)[i := 1, (if i = 0 then 1 else 0) := 1])"
proof -
  have "i \<in> used freq" using assms(1) by simp
  then have i: "i < length freq" by (simp add: used_def)
  have j: "(if i = 0 then 1 else 0) < length freq" using assms(2) i by auto
  note t = two_ones [OF i j assms(3)]
  show ?thesis unfolding lengths_ok_def t(1) using t(2,3) assms(1) by simp
qed

lemma huff_lengths_ok:
  assumes "1 < length freq" "0 < m" "m < 256" "length freq < 2 ^ 32" "length freq * 2 ^ Suc m < 3 ^ Suc m"
  shows "\<exists>ls. huff_lengths freq m = Some ls \<and> lengths_ok freq m ls"
  using assms
proof (induction "sum_list freq" arbitrary: freq rule: less_induct)
  case less
  let ?u = "filter (\<lambda>i. freq ! i \<noteq> 0) [0..<length freq]"
  note u = used_filter [of freq]
  consider "used freq = {}" | i where "used freq = {i}" | "1 < card (used freq)"
    by (metis One_nat_def card_0_eq card_1_singletonE finite_used less_one linorder_neqE_nat)
  then show ?case
  proof cases
    case 1
    then have "huff_lengths freq m = Some (replicate (length freq) 0)"
      using u(1) by (subst huff_lengths.simps) (simp add: set_empty)
    moreover have "used (replicate (length freq) 0) = {}" by (auto simp: used_def)
    ultimately show ?thesis using 1 by (auto simp: lengths_ok_def kraft_used)
  next
    case 2
    have "?u = [i]"
    proof -
      have "length ?u = Suc 0" using u(2) 2 by simp
      then obtain x where x: "?u = [x]" unfolding length_Suc_conv by blast
      have "x = i" using u(1) unfolding x 2 by simp
      then show ?thesis using x by simp
    qed
    then have "huff_lengths freq m = Some ((replicate (length freq) 0)[i := 1, (if i = 0 then 1 else 0) := 1])"
      by (subst huff_lengths.simps) simp
    then show ?thesis using one_symbol [OF 2 less.prems(1,2)] by blast
  next
    case 3
    obtain D where D: "depths freq (snd (snd ((merge_two ^^ (card (used freq) - 1)) (leaves freq)))) =
        Some (map (\<lambda>i. if freq ! i = 0 then 0 else D i) [0..<length freq])" (is "_ = Some ?ds")
      and pos: "\<forall>i\<in>used freq. D i \<noteq> 0" and sum: "(\<Sum>i\<in>used freq. (1 / 2) ^ D i) = (1 :: real)"
      and flat: "set freq \<subseteq> {0, 1} \<and> length freq < 2 ^ 32 \<longrightarrow> (\<forall>i\<in>used freq. 3 ^ D i \<le> 2 ^ D i * length freq)"
      by (rule tree_depths [OF 3])
    have ne: "(?u = []) = False" "(card (used freq) = 1) = False" using 3 u(2) by auto
    have e: "huff_lengths freq m = (if \<exists>d\<in>set ?ds. m < d then huff_lengths (map flatter freq) m else Some (map (\<lambda>d. d mod 256) ?ds))"
      by (subst huff_lengths.simps) (simp only: Let_def ne u(2) D if_False Option.bind.simps)
    show ?thesis
    proof (cases "\<exists>d\<in>set ?ds. m < d")
      case True
      then obtain i where i: "i \<in> used freq" "m < D i" by (auto simp: used_def split: if_splits)
      have "\<not> set freq \<subseteq> {0, 1}"
      proof
        assume "set freq \<subseteq> {0, 1}"
        then have le: "3 ^ D i \<le> 2 ^ D i * length freq" using flat i(1) less.prems(4) by blast
        define k where "k = D i - Suc m"
        have k: "D i = Suc m + k" using i(2) by (simp add: k_def)
        have "2 ^ D i * length freq = length freq * 2 ^ Suc m * 2 ^ k" by (simp add: k power_add mult_ac)
        also have "\<dots> < 3 ^ Suc m * 2 ^ k" using less.prems(5) by (intro mult_strict_right_mono) simp_all
        also have "\<dots> \<le> 3 ^ Suc m * 3 ^ k" by (intro mult_left_mono power_mono) simp_all
        also have "\<dots> = 3 ^ D i" by (simp add: k power_add)
        finally show False using le by simp
      qed
      then have "sum_list (map flatter freq) < sum_list freq" by (rule sum_flatter)
      from less.hyps [OF this] less.prems obtain ls where
        "huff_lengths (map flatter freq) m = Some ls" "lengths_ok (map flatter freq) m ls" by auto
      moreover have "used (map flatter freq) = used freq"
        unfolding used_def by (intro Collect_cong) (metis flatter_le(3) length_map nth_map)
      ultimately show ?thesis using True e by (simp add: lengths_ok_def)
    next
      case False
      define ls where "ls = map (\<lambda>d. d mod 256) ?ds"
      have len: "length ls = length freq" by (simp add: ls_def)
      have le: "d \<le> m" if "d \<in> set ?ds" for d using False that by (auto simp: not_less)
      have nth: "ls ! i = (if freq ! i = 0 then 0 else D i)" if "i < length freq" for i
      proof -
        have "?ds ! i \<le> m" using that by (intro le nth_mem) simp
        then show ?thesis using that less.prems(3) by (simp add: ls_def split: if_splits)
      qed
      have us: "used ls = used freq" unfolding used_def len using nth pos by (auto simp: used_def split: if_splits)
      have "kraft ls = (\<Sum>i\<in>used freq. (1 / 2) ^ D i)" unfolding kraft_used us
        by (intro sum.cong) (auto simp: used_def nth)
      moreover have "l \<le> m" if l: "l \<in> set ls" for l
      proof -
        obtain d where d: "d \<in> set ?ds" "l = d mod 256" using l unfolding ls_def list.set_map [of _ ?ds] by (elim imageE)
        have "l \<le> d" unfolding d(2) by (rule mod_less_eq_dividend)
        also have "d \<le> m" by (rule le [OF d(1)])
        finally show ?thesis .
      qed
      moreover have "huff_lengths freq m = Some ls" using False e unfolding ls_def by presburger
      ultimately show ?thesis using us sum len by (auto simp: lengths_ok_def)
    qed
  qed
qed

end
