(* ===== verification/Huffman_Codes.thy ===== *)
theory Huffman_Codes
  imports Huffman_Lengths "HOL-Library.Sublist"
begin

text \<open>
  Canonical Huffman codes as RFC 1951, section 3.2.2, defines them from the code lengths, that no code is the beginning of another when
  Kraft's inequality holds, and that the numbers \<open>huff_codes\<close> makes, sent low bit first, are these codes.
\<close>

section \<open>The codes of the standard\<close>

primrec next_code :: "nat list \<Rightarrow> nat \<Rightarrow> nat" where
  "next_code ls 0 = 0"
| "next_code ls (Suc b) = 2 * (next_code ls b + (if b = 0 then 0 else count_list ls b))"

definition code_value :: "nat list \<Rightarrow> nat \<Rightarrow> nat" where
  "code_value ls i = next_code ls (ls ! i) + count_list (take i ls) (ls ! i)"

text \<open>The code itself, its highest bit first.\<close>

definition codeword :: "nat list \<Rightarrow> nat \<Rightarrow> bool list" where
  "codeword ls i = map (\<lambda>k. bit (code_value ls i) (ls ! i - 1 - k)) [0..<ls ! i]"

definition decode_sym :: "nat list \<Rightarrow> bool list \<Rightarrow> (nat \<times> bool list) option" where
  "decode_sym ls bs =
     (case filter (\<lambda>i. ls ! i \<noteq> 0 \<and> prefix (codeword ls i) bs) [0..<length ls] of
        [] \<Rightarrow> None | i # js \<Rightarrow> Some (i, drop (ls ! i) bs))"

lemma codeword_length [simp]: "length (codeword ls i) = ls ! i"
  by (simp add: codeword_def)


section \<open>No code begins another\<close>

lemma count_list_card: "count_list xs y = card {i. i < length xs \<and> xs ! i = y}"
  unfolding count_list_eq_length_filter length_filter_conv_card by (metis (lifting))

definition start :: "nat list \<Rightarrow> nat \<Rightarrow> real" where
  "start ls i = real (code_value ls i) / 2 ^ (ls ! i)"

definition before :: "nat list \<Rightarrow> nat \<Rightarrow> nat set" where
  "before ls i = {j. j < length ls \<and> ls ! j \<noteq> 0 \<and> (ls ! j < ls ! i \<or> ls ! j = ls ! i \<and> j < i)}"

lemma next_code_sum: "real (next_code ls b) / 2 ^ b = (\<Sum>j | j < length ls \<and> ls ! j \<noteq> 0 \<and> ls ! j < b. (1 / 2) ^ (ls ! j))"
proof (induction b)
  case (Suc b)
  let ?S = "{j. j < length ls \<and> ls ! j \<noteq> 0 \<and> ls ! j < b}" and ?T = "{j. j < length ls \<and> ls ! j \<noteq> 0 \<and> ls ! j = b}"
  have "real (next_code ls (Suc b)) / 2 ^ Suc b = real (next_code ls b) / 2 ^ b + real (if b = 0 then 0 else count_list ls b) / 2 ^ b"
    by (simp add: field_simps)
  also have "real (if b = 0 then 0 else count_list ls b) / 2 ^ b = (\<Sum>j\<in>?T. (1 / 2) ^ (ls ! j))"
  proof (cases "b = 0")
    case False
    then have "?T = {j. j < length ls \<and> ls ! j = b}" by auto
    then have "(\<Sum>j\<in>?T. (1 / 2 :: real) ^ (ls ! j)) = (\<Sum>j | j < length ls \<and> ls ! j = b. (1 / 2) ^ b)" by (intro sum.cong) auto
    then show ?thesis using False by (simp add: count_list_card power_one_over)
  qed (auto intro!: sum.neutral [symmetric])
  also have "real (next_code ls b) / 2 ^ b + (\<Sum>j\<in>?T. (1 / 2) ^ (ls ! j)) = (\<Sum>j\<in>?S \<union> ?T. (1 / 2) ^ (ls ! j))"
    unfolding Suc by (intro sum.union_disjoint [symmetric]) auto
  also have "?S \<union> ?T = {j. j < length ls \<and> ls ! j \<noteq> 0 \<and> ls ! j < Suc b}" by auto
  finally show ?case .
qed simp

lemma start_sum:
  assumes "i < length ls" "ls ! i \<noteq> 0"
  shows "start ls i = (\<Sum>j\<in>before ls i. (1 / 2) ^ (ls ! j))"
proof -
  let ?S = "{j. j < length ls \<and> ls ! j \<noteq> 0 \<and> ls ! j < ls ! i}" and ?T = "{j. j < i \<and> ls ! j = ls ! i}"
  have "{j. j < length (take i ls) \<and> take i ls ! j = ls ! i} = ?T" using assms(1) by auto
  then have c: "count_list (take i ls) (ls ! i) = card ?T" by (simp add: count_list_card)
  have "start ls i = real (next_code ls (ls ! i)) / 2 ^ (ls ! i) + real (card ?T) / 2 ^ (ls ! i)"
    by (simp add: start_def code_value_def c add_divide_distrib)
  also have "real (card ?T) / 2 ^ (ls ! i) = (\<Sum>j\<in>?T. (1 / 2) ^ (ls ! i))" by (simp add: power_one_over)
  also have "\<dots> = (\<Sum>j\<in>?T. (1 / 2) ^ (ls ! j))" by (intro sum.cong) auto
  also have "real (next_code ls (ls ! i)) / 2 ^ (ls ! i) + (\<Sum>j\<in>?T. (1 / 2) ^ (ls ! j)) = (\<Sum>j\<in>?S \<union> ?T. (1 / 2) ^ (ls ! j))"
    unfolding next_code_sum by (intro sum.union_disjoint [symmetric]) auto
  also have "?S \<union> ?T = before ls i" using assms by (auto simp: before_def)
  finally show ?thesis .
qed

lemma finite_before [simp]: "finite (before ls i)"
  by (simp add: before_def)

lemma before_next:
  assumes "i < length ls" "ls ! i \<noteq> 0" "k < length ls" "ls ! k \<noteq> 0" "i \<in> before ls k"
  shows "start ls i + (1 / 2) ^ (ls ! i) \<le> start ls k"
proof -
  have "i \<notin> before ls i" by (simp add: before_def)
  then have "start ls i + (1 / 2) ^ (ls ! i) = (\<Sum>j\<in>insert i (before ls i). (1 / 2) ^ (ls ! j))"
    using start_sum [OF assms(1,2)] by simp
  also have "\<dots> \<le> (\<Sum>j\<in>before ls k. (1 / 2) ^ (ls ! j))" using assms(5) by (intro sum_mono2) (auto simp: before_def)
  finally show ?thesis using start_sum [OF assms(3,4)] by simp
qed

lemma code_value_less:
  assumes "i < length ls" "ls ! i \<noteq> 0" "kraft ls \<le> 1"
  shows "code_value ls i < 2 ^ (ls ! i)"
proof -
  have "start ls i + (1 / 2) ^ (ls ! i) = (\<Sum>j\<in>insert i (before ls i). (1 / 2) ^ (ls ! j))"
    using start_sum [OF assms(1,2)] by (simp add: before_def)
  also have "\<dots> \<le> kraft ls" unfolding kraft_used using assms by (intro sum_mono2) (auto simp: before_def used_def)
  finally have "start ls i + (1 / 2) ^ (ls ! i) \<le> 1" using assms(3) by simp
  then have "real (code_value ls i) + 1 \<le> 2 ^ (ls ! i)" by (simp add: start_def power_one_over field_simps)
  then show ?thesis by (metis Suc_le_eq of_nat_1 of_nat_add of_nat_le_iff of_nat_numeral of_nat_power plus_1_eq_Suc add.commute)
qed

text \<open>The bits of a code that begins another one are its upper bits.\<close>

lemma prefix_value:
  assumes "prefix (codeword ls i) (codeword ls k)" "i < length ls" "ls ! i \<noteq> 0" "k < length ls" "ls ! k \<noteq> 0" "kraft ls \<le> 1"
  shows "ls ! i \<le> ls ! k \<and> code_value ls k div 2 ^ (ls ! k - ls ! i) = code_value ls i"
proof
  show le: "ls ! i \<le> ls ! k" using assms(1) prefix_length_le by fastforce
  let ?d = "ls ! k - ls ! i"
  have lt: "code_value ls i < 2 ^ (ls ! i)" "code_value ls k < 2 ^ (ls ! k)" using assms code_value_less by auto
  have "bit (drop_bit ?d (code_value ls k)) n = bit (code_value ls i) n" for n
  proof (cases "n < ls ! i")
    case True
    define m where "m = ls ! i - 1 - n"
    have m: "m < ls ! i" "n = ls ! i - 1 - m" using True by (auto simp: m_def)
    have "codeword ls i ! m = codeword ls k ! m" using assms(1) m(1) by (auto simp: prefix_def nth_append)
    then show ?thesis using m le by (simp add: codeword_def bit_drop_bit_eq)
  next
    case False
    have "\<not> bit v a" if "v < 2 ^ b" "b \<le> a" for v a b :: nat
      using that by (metis bit_take_bit_iff not_less take_bit_nat_eq_self_iff)
    then show ?thesis using False lt le by (simp add: bit_drop_bit_eq)
  qed
  then show "code_value ls k div 2 ^ ?d = code_value ls i" by (simp add: bit_eq_iff drop_bit_eq_div)
qed

lemma prefix_free:
  assumes "prefix (codeword ls i) (codeword ls k)" "i < length ls" "ls ! i \<noteq> 0" "k < length ls" "ls ! k \<noteq> 0" "kraft ls \<le> 1"
  shows "i = k"
proof (rule ccontr)
  assume ne: "i \<noteq> k"
  let ?d = "ls ! k - ls ! i"
  note v = prefix_value [OF assms]
  have p: "(2 :: real) ^ (ls ! k) = 2 ^ (ls ! i) * 2 ^ ?d" using v by (simp flip: power_add)
  have "code_value ls i * 2 ^ ?d \<le> code_value ls k" using v by (metis div_times_less_eq_dividend)
  then have "real (code_value ls i) * 2 ^ ?d \<le> real (code_value ls k)"
    by (metis of_nat_le_iff of_nat_mult of_nat_numeral of_nat_power)
  moreover have "code_value ls k < 2 ^ ?d + (code_value ls k div 2 ^ ?d) * 2 ^ ?d" by (rule dividend_less_div_times) simp
  then have "code_value ls k < 2 ^ ?d + code_value ls i * 2 ^ ?d" using v by simp
  then have "real (code_value ls k) < real (2 ^ ?d + code_value ls i * 2 ^ ?d)" by (simp only: of_nat_less_iff)
  ultimately have "real (code_value ls i) * 2 ^ ?d \<le> real (code_value ls k)" "real (code_value ls k) < (real (code_value ls i) + 1) * 2 ^ ?d"
    by (simp_all add: algebra_simps)
  then have in_i: "start ls i \<le> start ls k" "start ls k < start ls i + (1 / 2) ^ (ls ! i)"
    by (simp_all add: start_def p power_one_over field_simps)
  show False
  proof (cases "i \<in> before ls k")
    case True
    then show False using before_next [of i ls k] assms in_i by simp
  next
    case False
    then have "k \<in> before ls i" using ne assms by (auto simp: before_def)
    then have "start ls k + (1 / 2) ^ (ls ! k) \<le> start ls i" using before_next [of k ls i] assms by simp
    moreover have "0 < (1 / 2 :: real) ^ (ls ! k)" by simp
    ultimately show False using in_i(1) by linarith
  qed
qed

lemma decode_sym_codeword:
  assumes "i < length ls" "ls ! i \<noteq> 0" "kraft ls \<le> 1"
  shows "decode_sym ls (codeword ls i @ rest) = Some (i, rest)"
proof -
  let ?P = "\<lambda>k. ls ! k \<noteq> 0 \<and> prefix (codeword ls k) (codeword ls i @ rest)"
  have only: "k = i" if "k < length ls" "?P k" for k
  proof -
    have "prefix (codeword ls k) (codeword ls i) \<or> prefix (codeword ls i) (codeword ls k)"
      using that(2) prefix_same_cases [of "codeword ls k" "codeword ls i @ rest" "codeword ls i"] by auto
    then show ?thesis using prefix_free [of ls k i] prefix_free [of ls i k] that assms by auto
  qed
  have s: "set (filter ?P [0..<length ls]) = {i}" using only assms by auto
  then have "filter ?P [0..<length ls] \<noteq> []" by (metis empty_set insert_not_empty)
  then obtain x js where x: "filter ?P [0..<length ls] = x # js" unfolding neq_Nil_conv by blast
  have "x \<in> {i}" unfolding s [symmetric] x by simp
  then show ?thesis unfolding decode_sym_def x by simp
qed


section \<open>The codes of the compressor\<close>

text \<open>The low \<open>n\<close> bits of a number, the lowest first: the order of the bit writer.\<close>

definition lsb :: "nat \<Rightarrow> nat \<Rightarrow> bool list" where
  "lsb n v = map (bit v) [0..<n]"

lemma lsb_length [simp]: "length (lsb n v) = n"
  by (simp add: lsb_def)

lemma two_times_or: "r * 2 OR v AND 1 = r * 2 + v mod (2 :: nat)"
proof -
  have "v AND 1 = v mod 2" by (simp add: and_one_eq)
  moreover have "r * 2 OR b = r * 2 + b" if "b < 2" for b :: nat
    using that or_Suc_0_eq [of "r * 2"] by (cases b) (auto simp: less_Suc_eq)
  ultimately show ?thesis by simp
qed

lemma bit_two_times_or: "bit (r * 2 OR v AND 1 :: nat) n = (if n = 0 then bit v 0 else bit r (n - 1))"
  unfolding two_times_or by (cases n) (simp_all add: bit_0 bit_Suc even_mod_2_iff)

lemma rev_bits_bit:
  assumes "r < 2 ^ (16 - k)" "k \<le> 16"
  shows "bit (rev_bits k v r) n = (if n < k then bit v (k - 1 - n) else bit r (n - k))"
  using assms
proof (induction k arbitrary: v r n)
  case (Suc k)
  let ?r = "r * 2 OR v AND 1"
  note e = two_times_or [of r v]
  have "16 - k = Suc (16 - Suc k)" using Suc.prems(2) by simp
  then have lt: "?r < 2 ^ (16 - k)" using Suc.prems(1) unfolding e by simp
  moreover have "(2 :: nat) ^ (16 - k) \<le> 2 ^ 16" by (intro power_increasing) auto
  ultimately have m: "?r mod 65536 = ?r" by simp
  have "bit (rev_bits (Suc k) v r) n = bit (rev_bits k (v div 2) ?r) n" by (simp only: rev_bits.simps m)
  also have "\<dots> = (if n < k then bit (v div 2) (k - 1 - n) else bit ?r (n - k))" using Suc.IH [OF lt] Suc.prems(2) by simp
  also have "\<dots> = (if n < Suc k then bit v (Suc k - 1 - n) else bit r (n - Suc k))"
  proof (cases "n < k")
    case True
    then have "Suc k - 1 - n = Suc (k - 1 - n)" by simp
    then show ?thesis using True by (simp add: bit_Suc)
  next
    case False
    then show ?thesis unfolding bit_two_times_or by auto
  qed
  finally show ?case .
qed simp

lemma lsb_rev_bits: "k \<le> 16 \<Longrightarrow> lsb k (rev_bits k v 0) = map (\<lambda>n. bit v (k - 1 - n)) [0..<k]"
  unfolding lsb_def by (intro map_cong refl) (subst rev_bits_bit, simp_all)

lemma rev_bits_less: "k \<le> 16 \<Longrightarrow> rev_bits k v 0 < 2 ^ k"
proof -
  assume k: "k \<le> 16"
  have "take_bit k (rev_bits k v 0) = rev_bits k v 0"
    using rev_bits_bit [of 0 k v] k by (intro bit_eqI) (simp add: bit_take_bit_iff)
  then show ?thesis by (metis take_bit_nat_less_exp)
qed

lemma len_counts_nth:
  assumes "\<forall>l\<in>set ls. l < 16" "length c = 16"
  shows "length (fold (\<lambda>l c. c[l := (c ! l + 1) mod 65536]) ls c) = 16 \<and>
    (\<forall>b<16. c ! b < 65536 \<longrightarrow> fold (\<lambda>l c. c[l := (c ! l + 1) mod 65536]) ls c ! b = (c ! b + count_list ls b) mod 65536)"
  using assms
proof (induction ls arbitrary: c)
  case (Cons l ls)
  let ?c = "c[l := (c ! l + 1) mod 65536]"
  have "?c ! b < 65536 \<and> (?c ! b + count_list ls b) mod 65536 = (c ! b + count_list (l # ls) b) mod 65536" if "b < 16" "c ! b < 65536" for b
    using that Cons.prems by (cases "b = l") (simp_all add: mod_simps)
  then show ?case using Cons.IH [of ?c] Cons.prems by auto
qed simp

lemma len_counts_count:
  assumes "\<forall>l\<in>set ls. l < 16" "length ls < 65536" "b < 16"
  shows "len_counts ls ! b = (if b = 0 then 0 else count_list ls b)" "length (len_counts ls) = 16"
proof -
  note n = len_counts_nth [of ls "replicate 16 0"]
  have "count_list ls b < 65536" using assms(2) count_le_length [of ls b] by simp
  then show "len_counts ls ! b = (if b = 0 then 0 else count_list ls b)" "length (len_counts ls) = 16"
    using n assms by (auto simp: len_counts_def nth_list_update)
qed

lemma first_codes_nth:
  assumes "\<forall>l\<in>set ls. l < 16" "length ls < 65536" "0 < b" "b < 16"
  shows "first_codes (len_counts ls) ! b = next_code ls b mod 65536"
proof -
  let ?f = "\<lambda>b (c, nx). let c = ((c + len_counts ls ! (b - 1)) * 2) mod 65536 in (c, nx[b := c])"
  have "n < 16 \<Longrightarrow> \<exists>nx. fold ?f [1..<Suc n] (0, replicate 16 0) = (next_code ls n mod 65536, nx) \<and> length nx = 16 \<and>
    (\<forall>b. 0 < b \<and> b \<le> n \<longrightarrow> nx ! b = next_code ls b mod 65536)" for n
  proof (induction n)
    case (Suc n)
    then obtain nx where nx: "fold ?f [1..<Suc n] (0, replicate 16 0) = (next_code ls n mod 65536, nx)" "length nx = 16"
      "\<And>b. 0 < b \<Longrightarrow> b \<le> n \<Longrightarrow> nx ! b = next_code ls b mod 65536" by auto
    have c: "((next_code ls n mod 65536 + len_counts ls ! n) * 2) mod 65536 = next_code ls (Suc n) mod 65536"
    proof -
      have "((x mod k + y) * 2) mod k = (2 * (x + y)) mod k" for x y k :: nat
        by (metis mod_add_left_eq mod_mult_left_eq mult.commute)
      then show ?thesis using len_counts_count(1) [OF assms(1,2), of n] Suc.prems by simp
    qed
    have "fold ?f [1..<Suc (Suc n)] (0, replicate 16 0) = ?f (Suc n) (next_code ls n mod 65536, nx)"
      using nx(1) by simp
    also have "\<dots> = (next_code ls (Suc n) mod 65536, nx[Suc n := next_code ls (Suc n) mod 65536])"
      using c by (simp only: prod.case Let_def diff_Suc_1)
    finally show ?case using nx(2,3) Suc.prems by (auto simp: nth_list_update le_Suc_eq)
  qed simp
  from this [of 15] show ?thesis using assms(3,4) unfolding first_codes_def by (auto simp del: upt_Suc)
qed

lemma assign_codes:
  assumes "\<forall>l\<in>set ls. l < 16" "length nx = 16"
  shows "snd (fold assign_code ls (nx, code)) =
    code @ map (\<lambda>i. if ls ! i = 0 then 0 else rev_bits (ls ! i) ((if count_list (take i ls) (ls ! i) = 0 then nx ! (ls ! i)
      else (nx ! (ls ! i) + count_list (take i ls) (ls ! i)) mod 65536)) 0) [0..<length ls]"
  using assms
proof (induction ls arbitrary: nx code)
  case (Cons l ls)
  have up: "[0..<length (l # ls)] = 0 # map Suc [0..<length ls]" by (simp add: upt_conv_Cons map_Suc_upt del: upt_Suc)
  show ?case
  proof (cases "l = 0")
    case True
    then show ?thesis using Cons unfolding up by (auto simp: assign_code_def o_def)
  next
    case False
    let ?nx = "nx[l := (nx ! l + 1) mod 65536]" and ?k = "\<lambda>i. count_list (take i ls) (ls ! i)"
    have "snd (fold assign_code (l # ls) (nx, code)) = snd (fold assign_code ls (?nx, code @ [rev_bits l (nx ! l) 0]))"
      using False by (simp add: assign_code_def)
    also have "\<dots> = (code @ [rev_bits l (nx ! l) 0]) @ map (\<lambda>i. if ls ! i = 0 then 0 else rev_bits (ls ! i)
        (if ?k i = 0 then ?nx ! (ls ! i) else (?nx ! (ls ! i) + ?k i) mod 65536) 0) [0..<length ls]"
      using Cons by (intro Cons.IH) auto
    also have "map (\<lambda>i. if ls ! i = 0 then 0 else rev_bits (ls ! i)
        (if ?k i = 0 then ?nx ! (ls ! i) else (?nx ! (ls ! i) + ?k i) mod 65536) 0) [0..<length ls] =
      map (\<lambda>i. if ls ! i = 0 then 0 else rev_bits (ls ! i)
        (if count_list (l # take i ls) (ls ! i) = 0 then nx ! (ls ! i) else (nx ! (ls ! i) + count_list (l # take i ls) (ls ! i)) mod 65536) 0)
        [0..<length ls]"
    proof -
      have "(if ?k i = 0 then ?nx ! (ls ! i) else (?nx ! (ls ! i) + ?k i) mod 65536) =
        (if count_list (l # take i ls) (ls ! i) = 0 then nx ! (ls ! i) else (nx ! (ls ! i) + count_list (l # take i ls) (ls ! i)) mod 65536)" for i
        using Cons.prems by (cases "l = ls ! i") (auto simp: mod_simps)
      then show ?thesis by (simp only: )
    qed
    finally show ?thesis unfolding up using False by (simp add: o_def)
  qed
qed simp

lemma huff_codes_codeword:
  assumes "\<forall>l\<in>set ls. l \<le> 15" "length ls < 65536" "kraft ls \<le> 1" "i < length ls" "ls ! i \<noteq> 0"
  shows "lsb (ls ! i) (huff_codes ls ! i) = codeword ls i" "huff_codes ls ! i < 2 ^ (ls ! i)"
proof -
  have l: "ls ! i \<le> 15" using assms(1,4) by simp
  have len: "length (first_codes c) = 16" for c
  proof -
    have "length (snd (fold (\<lambda>b (x, nx). let x = ((x + c ! (b - 1)) * 2) mod 65536 in (x, nx[b := x])) bs s)) = length (snd s)" for bs s
      by (induction bs arbitrary: s) (auto simp: case_prod_beta Let_def)
    then show ?thesis by (simp add: first_codes_def)
  qed
  have b: "\<forall>l\<in>set ls. l < 16" using assms(1) by auto
  let ?c = "count_list (take i ls) (ls ! i)" and ?n = "first_codes (len_counts ls) ! (ls ! i)"
  have n: "?n = next_code ls (ls ! i) mod 65536" using first_codes_nth [OF b assms(2)] l assms(5) by simp
  have "code_value ls i < 2 ^ (ls ! i)" using code_value_less assms by blast
  also have "(2 :: nat) ^ (ls ! i) \<le> 2 ^ 15" using l by (intro power_increasing) auto
  finally have v: "code_value ls i < 65536" by simp
  have "huff_codes ls ! i = rev_bits (ls ! i) (if ?c = 0 then ?n else (?n + ?c) mod 65536) 0"
    unfolding huff_codes_def assign_codes [OF b len] using assms(4,5) by simp
  also have "(if ?c = 0 then ?n else (?n + ?c) mod 65536) = code_value ls i"
    unfolding n using v by (auto simp: code_value_def mod_simps)
  finally have h: "huff_codes ls ! i = rev_bits (ls ! i) (code_value ls i) 0" .
  show "lsb (ls ! i) (huff_codes ls ! i) = codeword ls i" unfolding h codeword_def using l by (intro lsb_rev_bits) simp
  show "huff_codes ls ! i < 2 ^ (ls ! i)" unfolding h using l by (intro rev_bits_less) simp
qed

end
