(* ===== verification/Inflate.thy ===== *)
theory Inflate
  imports Huffman_Codes
begin

text \<open>
  What a DEFLATE stream means, after RFC 1951 and independently of the compressor: bits of bytes, numbers, stored blocks, blocks with the
  fixed codes and with their own codes. Loops whose end depends on the data are partial functions; the result is \<open>None\<close> for
  a stream that is not valid. The tables of the standard (section 3.2.5) are given by their formulas.
\<close>

section \<open>Bits\<close>

definition bits_of_bytes :: "byte list \<Rightarrow> bool list" where
  "bits_of_bytes bs = concat (map (\<lambda>b. lsb 8 (unat b)) bs)"

definition read_num :: "nat \<Rightarrow> bool list \<Rightarrow> (nat \<times> bool list) option" where
  "read_num n bs = (if length bs < n then None else Some (horner_sum of_bool 2 (take n bs), drop n bs))"

primrec read_nums :: "nat \<Rightarrow> nat \<Rightarrow> bool list \<Rightarrow> (nat list \<times> bool list) option" where
  "read_nums n 0 bs = Some ([], bs)"
| "read_nums n (Suc k) bs = do { (v, bs) \<leftarrow> read_num n bs; (vs, bs) \<leftarrow> read_nums n k bs; Some (v # vs, bs) }"

text \<open>To the next byte: the stream is a whole number of bytes.\<close>

definition byte_align :: "bool list \<Rightarrow> bool list" where
  "byte_align bs = drop (length bs mod 8) bs"


section \<open>Lengths and distances\<close>

definition len_base :: "nat \<Rightarrow> nat" where
  "len_base i = (if i < 8 then 3 + i else if i = 28 then 258 else 3 + (4 + i mod 4) * 2 ^ (i div 4 - 1))"

definition len_extra :: "nat \<Rightarrow> nat" where
  "len_extra i = (if i < 8 \<or> i = 28 then 0 else i div 4 - 1)"

definition dist_base :: "nat \<Rightarrow> nat" where
  "dist_base i = (if i < 4 then 1 + i else 1 + (2 + i mod 2) * 2 ^ (i div 2 - 1))"

definition dist_extra :: "nat \<Rightarrow> nat" where
  "dist_extra i = (if i < 4 then 0 else i div 2 - 1)"

definition code_length_order :: "nat list" where
  "code_length_order = [16, 17, 18, 0, 8, 7, 9, 6, 10, 5, 11, 4, 12, 3, 13, 2, 14, 1, 15]"

definition fixed_lit :: "nat list" where
  "fixed_lit = replicate 144 8 @ replicate 112 9 @ replicate 24 7 @ replicate 8 8"

definition fixed_dist :: "nat list" where
  "fixed_dist = replicate 30 5"


section \<open>Blocks\<close>

primrec copy_match :: "nat \<Rightarrow> nat \<Rightarrow> byte list \<Rightarrow> byte list" where
  "copy_match 0 d out = out"
| "copy_match (Suc n) d out = copy_match n d (out @ [out ! (length out - d)])"

partial_function (option) read_tokens :: "nat list \<Rightarrow> nat list \<Rightarrow> byte list \<Rightarrow> bool list \<Rightarrow> (byte list \<times> bool list) option" where
  "read_tokens ll dl out bs = do {
     (s, bs) \<leftarrow> decode_sym ll bs;
     if s < 256 then read_tokens ll dl (out @ [of_nat s]) bs
     else if s = 256 then Some (out, bs)
     else if 285 < s then None
     else do {
       (e, bs) \<leftarrow> read_num (len_extra (s - 257)) bs;
       (ds, bs) \<leftarrow> decode_sym dl bs;
       if 29 < ds then None
       else do {
         (f, bs) \<leftarrow> read_num (dist_extra ds) bs;
         if length out < dist_base ds + f then None
         else read_tokens ll dl (copy_match (len_base (s - 257) + e) (dist_base ds + f) out) bs
       }
     }
   }"

partial_function (option) read_lens :: "nat list \<Rightarrow> nat \<Rightarrow> nat list \<Rightarrow> bool list \<Rightarrow> (nat list \<times> bool list) option" where
  "read_lens cl n acc bs =
     (if n < length acc then None
      else if n = length acc then Some (acc, bs)
      else do {
        (s, bs) \<leftarrow> decode_sym cl bs;
        if s < 16 then read_lens cl n (acc @ [s]) bs
        else if s = 16 then
          if acc = [] then None
          else do { (k, bs) \<leftarrow> read_num 2 bs; read_lens cl n (acc @ replicate (3 + k) (last acc)) bs }
        else if s = 17 then do { (k, bs) \<leftarrow> read_num 3 bs; read_lens cl n (acc @ replicate (3 + k) 0) bs }
        else do { (k, bs) \<leftarrow> read_num 7 bs; read_lens cl n (acc @ replicate (11 + k) 0) bs }
      })"

definition read_stored :: "byte list \<Rightarrow> bool list \<Rightarrow> (byte list \<times> bool list) option" where
  "read_stored out bs = do {
     (n, bs) \<leftarrow> read_num 16 (byte_align bs);
     (m, bs) \<leftarrow> read_num 16 bs;
     if n + m \<noteq> 65535 then None
     else do { (data, bs) \<leftarrow> read_nums 8 n bs; Some (out @ map of_nat data, bs) }
   }"

definition read_dynamic :: "byte list \<Rightarrow> bool list \<Rightarrow> (byte list \<times> bool list) option" where
  "read_dynamic out bs = do {
     (hlit, bs) \<leftarrow> read_num 5 bs;
     (hdist, bs) \<leftarrow> read_num 5 bs;
     (hclen, bs) \<leftarrow> read_num 4 bs;
     (cls, bs) \<leftarrow> read_nums 3 (hclen + 4) bs;
     let cl = fold (\<lambda>i c. c[code_length_order ! i := cls ! i]) [0..<hclen + 4] (replicate 19 0);
     (lens, bs) \<leftarrow> read_lens cl (hlit + 257 + (hdist + 1)) [] bs;
     read_tokens (take (hlit + 257) lens) (drop (hlit + 257) lens) out bs
   }"

partial_function (option) inflate_blocks :: "byte list \<Rightarrow> bool list \<Rightarrow> byte list option" where
  "inflate_blocks out bs = do {
     (final, bs) \<leftarrow> read_num 1 bs;
     (type, bs) \<leftarrow> read_num 2 bs;
     (out, bs) \<leftarrow> (if type = 0 then read_stored out bs
                    else if type = 1 then read_tokens fixed_lit fixed_dist out bs
                    else if type = 2 then read_dynamic out bs
                    else None);
     if final = 1 then Some out else inflate_blocks out bs
   }"

definition inflate :: "byte list \<Rightarrow> byte list option" where
  "inflate s = inflate_blocks [] (bits_of_bytes s)"

declare read_tokens.simps [code] read_lens.simps [code] inflate_blocks.simps [code]


section \<open>Reading what was written\<close>

lemma read_num_lsb [simp]: "read_num n (lsb n v @ rest) = Some (take_bit n v, rest)"
  by (simp add: read_num_def lsb_def horner_sum_bit_eq_take_bit)

lemma read_nums_lsb: "\<forall>v\<in>set vs. v < 2 ^ n \<Longrightarrow> read_nums n (length vs) (concat (map (lsb n) vs) @ rest) = Some (vs, rest)"
  by (induction vs) (auto simp: take_bit_nat_eq_self)

lemma lsb_0 [simp]: "lsb 0 v = []"
  by (simp add: lsb_def)

lemma bits_of_bytes_append [simp]: "bits_of_bytes (xs @ ys) = bits_of_bytes xs @ bits_of_bytes ys"
  by (simp add: bits_of_bytes_def)

lemma bits_of_bytes_length [simp]: "length (bits_of_bytes bs) = 8 * length bs"
  by (induction bs) (auto simp: bits_of_bytes_def)

lemma codeword_cong:
  assumes "\<And>b. b \<noteq> 0 \<Longrightarrow> count_list ls b = count_list ms b" "ls ! i = ms ! i" "take i ls = take i ms"
  shows "codeword ls i = codeword ms i"
proof -
  have "next_code ls b = next_code ms b" for b by (induction b) (auto simp: assms(1))
  then show ?thesis by (simp add: codeword_def code_value_def assms(2,3))
qed

text \<open>Zeros at the end of a table of lengths change no code.\<close>

lemma codeword_zeros: "i < length ls \<Longrightarrow> codeword (ls @ replicate n 0) i = codeword ls i"
  by (rule codeword_cong) (auto simp: nth_append count_list_append count_list_0_iff)

lemma kraft_zeros: "kraft (ls @ replicate n 0) = kraft ls"
proof -
  have nth: "(ls @ replicate n 0) ! i = (if i < length ls then ls ! i else 0)" if "i < length ls + n" for i
    using that by (auto simp: nth_append)
  have "used (ls @ replicate n 0) = used ls"
    unfolding used_def by (rule Collect_cong) (metis length_append length_replicate nth trans_less_add1)
  then show ?thesis unfolding kraft_used by (simp add: used_def nth_append)
qed

end
