(* ===== verification/Deflate_Bits.thy ===== *)
theory Deflate_Bits
  imports Inflate
begin

text \<open>
  The bit writer as a stream: what each operation adds to the bits written so far, as long as memory does not run out. \<open>emits\<close> composes,
  so that a sequence of calls adds the bits of the calls in their order.
\<close>

section \<open>The stream of a writer\<close>

definition stream :: "bw \<Rightarrow> bool list" where
  "stream w = bits_of_bytes (buf w) @ lsb (nbits w) (unat (bits w))"

definition bw_ok :: "bw \<Rightarrow> bool" where
  "bw_ok w = (nbits w < 8 \<and> unat (bits w) < 2 ^ nbits w)"

text \<open>The buffer doubles from 4096 bytes; with memory for every size it only fails at two gigabytes.\<close>

definition room :: "bw \<Rightarrow> bool" where
  "room w = (cap w \<in> insert 0 ((\<lambda>k. 2 ^ k) ` {12..31}) \<and> length (buf w) \<le> cap w \<and> (oom w \<longrightarrow> 2 ^ 31 \<le> length (buf w)))"

definition emits :: "(nat \<Rightarrow> bool) \<Rightarrow> bw \<Rightarrow> bool list \<Rightarrow> bw \<Rightarrow> bool" where
  "emits al w e w' =
     ((bw_ok w \<longrightarrow> bw_ok w' \<and> length (stream w') \<le> length (stream w) + length e \<and>
        (\<not> oom w' \<longrightarrow> \<not> oom w \<and> stream w' = stream w @ e)) \<and>
      ((\<forall>c. al c) \<longrightarrow> room w \<longrightarrow> room w'))"

lemma emits_Nil [simp]: "emits al w [] w"
  by (simp add: emits_def)

lemma emits_trans: "emits al w e w' \<Longrightarrow> emits al w' f w'' \<Longrightarrow> emits al w (e @ f) w''"
  by (auto simp: emits_def)

lemma emits_fold: "(\<And>x w. x \<in> set xs \<Longrightarrow> emits al w (g x) (f x w)) \<Longrightarrow> emits al w (concat (map g xs)) (fold f xs w)"
proof (induction xs arbitrary: w)
  case (Cons x xs)
  have "emits al (f x w) (concat (map g xs)) (fold f xs (f x w))" using Cons.prems by (intro Cons.IH) auto
  then show ?case using emits_trans [OF Cons.prems [of x w]] by simp
qed simp

lemma room_cong: "cap v = cap w \<Longrightarrow> buf v = buf w \<Longrightarrow> oom v = oom w \<Longrightarrow> room v = room w"
  by (simp add: room_def)

lemma bw_byte_room:
  assumes "\<forall>c. al c" "room w"
  shows "room (bw_byte al b w)"
proof (cases "oom w \<or> length (buf w) < cap w")
  case True
  then show ?thesis using assms(2) by (auto simp: bw_byte_def room_def)
next
  case False
  then have full: "length (buf w) = cap w" and no: "\<not> oom w" using assms(2) by (auto simp: room_def)
  show ?thesis
  proof (cases "cap w = 0")
    case True
    have "(4096 :: nat) \<in> (\<lambda>k. 2 ^ k) ` {12..31}" by (rule image_eqI [of _ _ 12]) auto
    then show ?thesis using True full no assms(1) by (simp add: bw_byte_def room_def)
  next
    case c: False
    then obtain k where k: "cap w = 2 ^ k" "12 \<le> k" "k \<le> 31" using assms(2) by (auto simp: room_def)
    show ?thesis
    proof (cases "k = 31")
      case True
      then have "wrap32 (cap w * 2) = 0" using k(1) by (simp add: wrap32_def)
      then show ?thesis using full no c assms(2) k(1) True by (auto simp: bw_byte_def room_def)
    next
      case False
      have "(2 :: nat) ^ Suc k < 2 ^ 32" using False k(3) by (intro power_strict_increasing) auto
      then have "wrap32 (cap w * 2) = 2 ^ Suc k" using k(1) by (simp add: mult.commute)
      moreover have "(2 :: nat) ^ Suc k \<in> (\<lambda>k. 2 ^ k) ` {12..31}" using False k by (intro imageI) auto
      moreover have "Suc (2 ^ k) \<le> (2 :: nat) ^ Suc k" by (simp add: Suc_leI)
      ultimately show ?thesis using full no c assms(1) k(1) by (auto simp: bw_byte_def room_def Let_def simp del: power_Suc)
    qed
  qed
qed

lemma stream_length: "bw_ok w \<Longrightarrow> length (stream w) mod 8 = nbits w"
  by (simp add: stream_def bw_ok_def)

lemma bw_byte_buf: "\<not> oom (bw_byte al b w) \<Longrightarrow> \<not> oom w \<and> buf (bw_byte al b w) = buf w @ [b]"
  by (auto simp: bw_byte_def Let_def split: if_splits)

lemma bw_byte_length: "length (buf (bw_byte al b w)) \<le> Suc (length (buf w))"
  by (simp add: bw_byte_def Let_def)

lemma lsb_append: "lsb (m + n) v = lsb m v @ lsb n (drop_bit m v)"
proof -
  have "[0..<m + n] = [0..<m] @ map (\<lambda>k. m + k) [0..<n]" using map_add_upt [of m n] upt_add_eq_append [of 0 m n] by (simp add: add.commute)
  then show ?thesis by (simp add: lsb_def bit_drop_bit_eq)
qed

lemma lsb_cong: "(\<And>k. k < n \<Longrightarrow> bit v k = bit u k) \<Longrightarrow> lsb n v = lsb n u"
  by (simp add: lsb_def)

lemma bit_unat_word: "bit (unat (w :: 'a :: len word)) k = bit w k"
  by (simp add: bit_unsigned_iff)

lemma put_loop_ok:
  assumes "nbits w < 24 + 8" "unat (bits w) < 2 ^ nbits w"
  shows "bw_ok (put_loop al w) \<and> length (stream (put_loop al w)) \<le> length (stream w) \<and>
    (\<not> oom (put_loop al w) \<longrightarrow> \<not> oom w \<and> stream (put_loop al w) = stream w)"
  using assms
proof (induction al w rule: put_loop.induct)
  case (1 al w)
  show ?case
  proof (cases "nbits w < 8")
    case True
    then show ?thesis using 1(3) by (simp add: put_loop.simps bw_ok_def)
  next
    case False
    let ?w = "(bw_byte al (ucast (bits w)) w)\<lparr>bits := drop_bit 8 (bits w), nbits := nbits w - 8\<rparr>"
    have u: "unat (drop_bit 8 (bits w)) = unat (bits w) div 2 ^ 8" by (simp add: drop_bit_eq_div unat_div)
    have "nbits w = (nbits w - 8) + 8" using False by simp
    then have "unat (bits w) < 2 ^ (nbits w - 8) * 2 ^ 8" using 1(3) by (metis power_add)
    then have lt: "unat (drop_bit 8 (bits w)) < 2 ^ (nbits w - 8)" unfolding u by (simp add: less_mult_imp_div_less)
    have e: "put_loop al w = put_loop al ?w" using False by (subst put_loop.simps) simp
    have IH: "bw_ok (put_loop al ?w) \<and> length (stream (put_loop al ?w)) \<le> length (stream ?w) \<and> (\<not> oom (put_loop al ?w) \<longrightarrow> \<not> oom ?w \<and> stream (put_loop al ?w) = stream ?w)"
      using 1(1) [OF False] 1(2) lt by simp
    have "lsb 8 (unat (ucast (bits w) :: byte)) = lsb 8 (unat (bits w))"
      by (rule lsb_cong) (simp add: bit_unat_word bit_unsigned_iff)
    moreover have "lsb (nbits w) (unat (bits w)) = lsb 8 (unat (bits w)) @ lsb (nbits w - 8) (unat (drop_bit 8 (bits w)))"
      using lsb_append [of 8 "nbits w - 8"] False by (simp add: unat_drop_bit_eq)
    ultimately have "stream ?w = stream w" if "\<not> oom ?w"
      using bw_byte_buf [of al "ucast (bits w)" w] that by (simp add: stream_def bits_of_bytes_def)
    moreover have "length (stream ?w) \<le> length (stream w)"
      using bw_byte_length [of al "ucast (bits w)" w] False by (simp add: stream_def)
    ultimately show ?thesis using IH bw_byte_buf [of al "ucast (bits w)" w] unfolding e by auto
  qed
qed

lemma put_loop_room: "(\<forall>c. al c) \<Longrightarrow> room w \<Longrightarrow> room (put_loop al w)"
proof (induction al w rule: put_loop.induct)
  case (1 al w)
  let ?b = "bw_byte al (ucast (bits w)) w"
  have "room ?b" using 1(2,3) by (rule bw_byte_room)
  then have "room (?b\<lparr>bits := drop_bit 8 (bits w), nbits := nbits w - 8\<rparr>)" by (simp add: room_def)
  then have "room (put_loop al (?b\<lparr>bits := drop_bit 8 (bits w), nbits := nbits w - 8\<rparr>))" if "\<not> nbits w < 8"
    using 1(1) [OF that 1(2)] by blast
  then show ?case using 1(3) by (subst put_loop.simps) simp
qed

lemma bw_put_emits:
  assumes "n \<le> 16" "v < 2 ^ n"
  shows "emits al w (lsb n v) (bw_put al (of_nat v) n w)"
proof (cases "bw_ok w")
  case True
  let ?v = "of_nat v :: u32" and ?w = "w\<lparr>bits := bits w OR push_bit (nbits w) (of_nat v), nbits := nbits w + n\<rparr>"
  have nb: "nbits w < 8" "unat (bits w) < 2 ^ nbits w" using True by (auto simp: bw_ok_def)
  have "v < 2 ^ 16" using assms power_increasing [of n 16 "2 :: nat"] by simp
  then have v: "unat ?v = v" by (simp add: unat_of_nat)
  have bv: "bit ?v k \<longleftrightarrow> k < n \<and> bit v k" for k
  proof -
    have "bit v k \<longrightarrow> k < n" using assms(2) by (metis bit_take_bit_iff take_bit_nat_eq_self)
    then show ?thesis using bit_unat_word [of ?v k] unfolding v by blast
  qed
  have bb: "bit (bits w) k \<longrightarrow> k < nbits w" for k
    using nb(2) by (metis bit_take_bit_iff bit_unat_word take_bit_nat_eq_self)
  have or: "bit (unat (bits ?w)) k \<longleftrightarrow> bit (bits w) k \<or> nbits w \<le> k \<and> k < 32 \<and> bit ?v (k - nbits w)" for k
    by (simp add: bit_unat_word bit_or_iff bit_push_bit_iff)
  have bits: "bit (unat (bits ?w)) k = (if k < nbits w then bit (bits w) k else bit v (k - nbits w))" if "k < nbits w + n" for k
  proof -
    have "k < 32" using that nb(1) assms(1) by simp
    then show ?thesis using that bb [of k] unfolding or bv by auto
  qed
  have "take_bit (nbits w + n) (unat (bits ?w)) = unat (bits ?w)"
  proof (rule bit_eqI)
    fix k
    show "bit (take_bit (nbits w + n) (unat (bits ?w))) k = bit (unat (bits ?w)) k"
      using bb [of k] unfolding bit_take_bit_iff or bv by auto
  qed
  then have "unat (bits ?w) < 2 ^ (nbits w + n)" by (metis take_bit_nat_less_exp)
  then have "unat (bits ?w) < 2 ^ nbits ?w" by simp
  moreover have "nbits ?w < 24 + 8" using nb(1) assms(1) by simp
  ultimately have p: "bw_ok (put_loop al ?w) \<and> length (stream (put_loop al ?w)) \<le> length (stream ?w) \<and> (\<not> oom (put_loop al ?w) \<longrightarrow> \<not> oom ?w \<and> stream (put_loop al ?w) = stream ?w)"
    by (intro put_loop_ok)
  have "lsb (nbits w + n) (unat (bits ?w)) = lsb (nbits w) (unat (bits w)) @ lsb n v"
    unfolding lsb_append using bits by (intro arg_cong2 [where f = append] lsb_cong) (auto simp: bit_unat_word bit_drop_bit_eq)
  then have "stream ?w = stream w @ lsb n v" by (simp add: stream_def)
  moreover have "room ?w = room w" by (simp add: room_def)
  ultimately show ?thesis using p True put_loop_room [of al ?w] by (auto simp: emits_def bw_put_def)
next
  case False
  have "room (w\<lparr>bits := bits w OR push_bit (nbits w) (of_nat v), nbits := nbits w + n\<rparr>) = room w" by (simp add: room_def)
  then show ?thesis using False put_loop_room [of al] by (auto simp: emits_def bw_put_def)
qed

lemma bw_align_emits:
  "emits al w (replicate ((8 - nbits w) mod 8) False) (bw_align al w) \<and> nbits (bw_align al w) = 0"
proof -
  have "lsb 8 (unat (ucast (bits w) :: byte)) = lsb (nbits w) (unat (bits w)) @ replicate (8 - nbits w) False" if "bw_ok w"
  proof (rule nth_equalityI)
    fix k assume "k < length (lsb 8 (unat (ucast (bits w) :: byte)))"
    moreover have "bit (bits w) k \<longrightarrow> k < nbits w" using that by (metis bit_take_bit_iff bit_unat_word bw_ok_def take_bit_nat_eq_self)
    ultimately show "lsb 8 (unat (ucast (bits w) :: byte)) ! k = (lsb (nbits w) (unat (bits w)) @ replicate (8 - nbits w) False) ! k"
      by (auto simp: lsb_def nth_append bit_unat_word bit_unsigned_iff)
  qed (use that in \<open>simp add: bw_ok_def\<close>)
  moreover have "length (stream (bw_align al w)) \<le> length (stream w) + (8 - nbits w) mod 8" if "bw_ok w"
    using that bw_byte_length [of al "ucast (bits w)" w] by (auto simp: bw_align_def stream_def bw_ok_def)
  moreover have "room (bw_align al w)" if "\<forall>c. al c" "room w"
    using bw_byte_room [OF that] that(2) by (simp add: bw_align_def room_def)
  ultimately show ?thesis using bw_byte_buf [of al "ucast (bits w)" w]
    by (auto simp: emits_def bw_align_def bw_ok_def stream_def bits_of_bytes_def)
qed

text \<open>Bytes go out as they are when the writer is at a byte.\<close>

lemma bw_byte_emits: "nbits w = 0 \<Longrightarrow> emits al w (lsb 8 (unat b)) (bw_byte al b w)"
  using bw_byte_buf [of al b w] bw_byte_length [of al b w] bw_byte_room [of al w b] bits_of_bytes_def [of "[b]"]
  by (auto simp: emits_def bw_ok_def stream_def)

lemma bw_bytes_emits: "nbits w = 0 \<Longrightarrow> emits al w (bits_of_bytes bs) (fold (bw_byte al) bs w) \<and> nbits (fold (bw_byte al) bs w) = 0"
proof (induction bs arbitrary: w)
  case (Cons b bs)
  have "emits al (bw_byte al b w) (bits_of_bytes bs) (fold (bw_byte al) bs (bw_byte al b w)) \<and> nbits (fold (bw_byte al) bs (bw_byte al b w)) = 0"
    using Cons.prems by (intro Cons.IH) simp
  then show ?case using emits_trans [OF bw_byte_emits [OF Cons.prems]] unfolding bits_of_bytes_def by auto
qed (simp add: bits_of_bytes_def)

end
