(* ===== verification/Deflate_Blocks.thy ===== *)
theory Deflate_Blocks
  imports Deflate_Bits
begin

text \<open>
  Blocks that are read back: \<open>writes\<close> says that what a function adds to the stream is blocks that stand for some data, at most so many bits.
  First the stored blocks, then the parts of a block with its own codes: code lengths, tokens, the header.
\<close>

definition writes :: "(nat \<Rightarrow> bool) \<Rightarrow> bw \<Rightarrow> bw \<Rightarrow> byte list \<Rightarrow> byte list \<Rightarrow> bool \<Rightarrow> nat \<Rightarrow> bool" where
  "writes al w w' out data final n =
     ((bw_ok w \<longrightarrow> bw_ok w' \<and> length (stream w') \<le> length (stream w) + n \<and>
        (\<not> oom w' \<longrightarrow> \<not> oom w \<and> (\<exists>e. stream w' = stream w @ e \<and>
          (\<forall>rest. (length (stream w') + length rest) mod 8 = 0 \<longrightarrow>
             inflate_blocks out (e @ rest) = (if final then Some (out @ data) else inflate_blocks (out @ data) rest))))) \<and>
      ((\<forall>c. al c) \<longrightarrow> room w \<longrightarrow> room w'))"

lemma writesD:
  assumes "writes al w w' out data final n" "bw_ok w" "\<not> oom w'"
  obtains e where "\<not> oom w" "stream w' = stream w @ e"
    "\<forall>rest. (length (stream w') + length rest) mod 8 = 0 \<longrightarrow>
       inflate_blocks out (e @ rest) = (if final then Some (out @ data) else inflate_blocks (out @ data) rest)"
  using assms unfolding writes_def by blast

lemma writesI:
  assumes "emits al w e w'" "length e \<le> n"
    "\<And>rest. bw_ok w \<Longrightarrow> bw_ok w' \<Longrightarrow> (length (stream w) + length e + length rest) mod 8 = 0 \<Longrightarrow>
       inflate_blocks out (e @ rest) = (if final then Some (out @ data) else inflate_blocks (out @ data) rest)"
  shows "writes al w w' out data final n"
proof -
  have 1: "bw_ok w' \<and> length (stream w') \<le> length (stream w) + n" if "bw_ok w" using assms(1,2) that by (auto simp: emits_def)
  have 2: "\<not> oom w \<and> stream w' = stream w @ e" if "bw_ok w" "\<not> oom w'" using assms(1) that by (auto simp: emits_def)
  have 3: "(\<forall>c. al c) \<longrightarrow> room w \<longrightarrow> room w'" using assms(1) by (simp add: emits_def)
  have 4: "\<exists>e. stream w' = stream w @ e \<and> (\<forall>rest. (length (stream w') + length rest) mod 8 = 0 \<longrightarrow>
      inflate_blocks out (e @ rest) = (if final then Some (out @ data) else inflate_blocks (out @ data) rest))"
    if "bw_ok w" "\<not> oom w'" using 1 2 [OF that] assms(3) that by (intro exI [of _ e]) simp
  show ?thesis unfolding writes_def using 1 2 3 4 by blast
qed

lemma writes_trans:
  assumes "writes al w w' out d False m" "writes al w' w'' (out @ d) d' final n"
  shows "writes al w w'' out (d @ d') final (m + n)"
proof -
  have "\<exists>e. stream w'' = stream w @ e \<and> (\<forall>rest. (length (stream w'') + length rest) mod 8 = 0 \<longrightarrow>
      inflate_blocks out (e @ rest) = (if final then Some (out @ d @ d') else inflate_blocks (out @ d @ d') rest))"
    if ok: "bw_ok w" and no: "\<not> oom w''"
  proof -
    have ok': "bw_ok w'" using assms(1) ok by (simp add: writes_def)
    obtain f where f: "\<not> oom w'" "stream w'' = stream w' @ f" "\<forall>rest. (length (stream w'') + length rest) mod 8 = 0 \<longrightarrow>
        inflate_blocks (out @ d) (f @ rest) = (if final then Some ((out @ d) @ d') else inflate_blocks ((out @ d) @ d') rest)"
      by (rule writesD [OF assms(2) ok' no])
    obtain e where e: "\<not> oom w" "stream w' = stream w @ e" "\<forall>rest. (length (stream w') + length rest) mod 8 = 0 \<longrightarrow>
        inflate_blocks out (e @ rest) = (if False then Some (out @ d) else inflate_blocks (out @ d) rest)"
      by (rule writesD [OF assms(1) ok f(1)])
    have "inflate_blocks out ((e @ f) @ rest) = inflate_blocks (out @ d) (f @ rest)" if "(length (stream w'') + length rest) mod 8 = 0" for rest
      using e(3) [rule_format, of "f @ rest"] that by (simp add: f(2) add.assoc)
    then show ?thesis using e(2) f(2,3) by (intro exI [of _ "e @ f"]) auto
  qed
  then show ?thesis using assms unfolding writes_def by fastforce
qed


section \<open>Stored blocks\<close>

lemma two_bytes:
  fixes k :: u32
  shows "lsb 8 (unat (ucast k :: byte)) @ lsb 8 (unat (ucast (drop_bit 8 k) :: byte)) = lsb 16 (unat k)"
proof -
  have "lsb 16 (unat k) = lsb 8 (unat k) @ lsb 8 (drop_bit 8 (unat k))" using lsb_append [of 8 8] by simp
  also have "lsb 8 (unat k) = lsb 8 (unat (ucast k :: byte))" by (rule lsb_cong) (simp add: bit_unat_word bit_unsigned_iff)
  also have "lsb 8 (drop_bit 8 (unat k)) = lsb 8 (unat (ucast (drop_bit 8 k) :: byte))"
    by (rule lsb_cong) (simp add: bit_unat_word bit_unsigned_iff bit_drop_bit_eq)
  finally show ?thesis by simp
qed

lemma not_len:
  assumes "n < 65536"
  shows "take_bit 16 (unat (NOT (of_nat n :: u32))) = 65535 - n"
proof -
  let ?k = "of_nat n :: u32"
  have n: "unat ?k = n" using assms by (simp add: unat_of_nat)
  have "unat (take_bit 16 ?k) = n" using assms by (simp add: unsigned_take_bit_eq n take_bit_nat_eq_self)
  then have k: "take_bit 16 ?k = ?k" using n by (metis word_unat_eq_iff)
  have le: "?k \<le> 65535" using assms by (simp add: word_le_nat_alt n)
  have "take_bit 16 (unat (NOT ?k)) = unat (take_bit 16 (NOT ?k))" by (simp only: unsigned_take_bit_eq)
  also have "take_bit 16 (NOT ?k) = 65535 - ?k" by (simp add: take_bit_not_eq_mask_diff k mask_numeral)
  also have "unat (65535 - ?k) = 65535 - n" using unat_sub [OF le] by (simp add: n)
  finally show ?thesis .
qed

definition stored_stream :: "bool \<Rightarrow> nat \<Rightarrow> byte list \<Rightarrow> bool list" where
  "stored_stream lst pad data = [lst, False, False] @ replicate pad False @
     lsb 16 (length data) @ lsb 16 (unat (NOT (of_nat (length data) :: u32))) @ bits_of_bytes data"

lemma lsb_small: "lsb 1 (of_bool b) = [b]" "lsb 2 0 = [False, False]" "lsb 2 2 = [False, True]"
  by (simp_all add: lsb_def upt_rec numeral_2_eq_2 bit_Suc bit_0)

lemma stored_block_emits:
  assumes "length data < 65536"
  shows "nbits (stored_block al data lst w) = 0 \<and>
    emits al w (stored_stream lst ((8 - (nbits w + 3) mod 8) mod 8) data) (stored_block al data lst w)"
proof -
  let ?k = "of_nat (length data) :: u32"
  define w1 where "w1 = bw_put al 0 2 (bw_put al (of_bool lst) 1 w)"
  define w2 where "w2 = bw_align al w1"
  define w3 where "w3 = fold (bw_byte al) [ucast ?k, ucast (drop_bit 8 ?k), ucast (NOT ?k), ucast (drop_bit 8 (NOT ?k))] w2"
  have e1: "emits al w ([lst] @ [False, False]) w1"
  proof (rule emits_trans)
    show "emits al w [lst] (bw_put al (of_bool lst) 1 w)"
      using bw_put_emits [of 1 "of_bool lst" al w] by (cases lst) (simp_all add: lsb_def bit_0)
    show "emits al (bw_put al (of_bool lst) 1 w) [False, False] w1"
      using bw_put_emits [of 2 0 al] by (simp add: w1_def lsb_small)
  qed
  have n1: "nbits w1 = (nbits w + 3) mod 8"
  proof -
    have put: "nbits (put_loop al v) = nbits v mod 8" for v
      by (induction al v rule: put_loop.induct) (subst put_loop.simps, simp add: mod_if)
    have "nbits (bw_put al v n u) = (nbits u + n) mod 8" for v n u by (simp add: bw_put_def put)
    then show ?thesis by (simp add: w1_def mod_simps add.commute)
  qed
  have a: "emits al w1 (replicate ((8 - nbits w1) mod 8) False) w2" "nbits w2 = 0"
    using bw_align_emits [of al w1] by (auto simp: w2_def)
  have b: "emits al w2 (lsb 16 (unat ?k) @ lsb 16 (unat (NOT ?k))) w3" "nbits w3 = 0"
    using bw_bytes_emits [OF a(2), of al "[ucast ?k, ucast (drop_bit 8 ?k), ucast (NOT ?k), ucast (drop_bit 8 (NOT ?k))]"]
    unfolding w3_def [symmetric] two_bytes [symmetric] by (simp_all add: bits_of_bytes_def)
  have c: "stored_block al data lst w = fold (bw_byte al) data w3"
    by (simp add: stored_block_def w1_def w2_def w3_def Let_def)
  have d: "emits al w3 (bits_of_bytes data) (stored_block al data lst w)" "nbits (stored_block al data lst w) = 0"
    using bw_bytes_emits [OF b(2)] by (auto simp: c)
  have k: "unat ?k = length data" using assms by (simp add: unat_of_nat)
  show ?thesis using emits_trans [OF emits_trans [OF emits_trans [OF e1 a(1)] b(1)] d(1)] d(2)
    by (simp add: stored_stream_def n1 k)
qed

lemma read_stored_stream:
  assumes "length data < 65536" "pad < 8" "length rest mod 8 = 0"
  shows "inflate_blocks out (stored_stream lst pad data @ rest) = (if lst then Some (out @ data) else inflate_blocks (out @ data) rest)"
proof -
  let ?n = "length data" and ?m = "unat (NOT (of_nat (length data) :: u32))"
  let ?body = "lsb 16 ?n @ lsb 16 ?m @ bits_of_bytes data @ rest"
  have "length (replicate pad False @ ?body) mod 8 = pad" using assms(2,3) by (simp add: mod_add_eq [symmetric])
  then have al: "byte_align (replicate pad False @ ?body) = ?body" by (simp add: byte_align_def)
  have bytes: "bits_of_bytes data = concat (map (lsb 8) (map unat data))" by (simp add: bits_of_bytes_def o_def)
  have "read_nums 8 (length (map unat data)) (concat (map (lsb 8) (map unat data)) @ rest) = Some (map unat data, rest)"
  proof (rule read_nums_lsb)
    have "unat b < 2 ^ 8" for b :: byte using unsigned_less [of b] by simp
    then show "\<forall>v\<in>set (map unat data). v < 2 ^ 8" by simp
  qed
  then have nums: "read_nums 8 ?n (bits_of_bytes data @ rest) = Some (map unat data, rest)" by (simp add: bytes)
  have n: "take_bit 16 ?n = ?n" using assms(1) by (simp add: take_bit_nat_eq_self)
  have "take_bit 16 ?n + take_bit 16 ?m = 65535" using not_len [OF assms(1)] n assms(1) by simp
  then have "read_stored out (replicate pad False @ ?body) = Some (out @ data, rest)"
    unfolding read_stored_def al by (simp add: n nums map_idI)
  moreover have "read_num 1 ([lst, False, False] @ bs) = Some (of_bool lst, [False, False] @ bs)"
    "read_num 2 ([False, False] @ bs) = Some (0, bs)" for bs
    by (simp_all add: read_num_def horner_sum_simps numeral_2_eq_2)
  ultimately show ?thesis by (subst inflate_blocks.simps) (simp add: stored_stream_def)
qed

lemma pad_mod: "(a + (8 * d + 35 + (8 - (a mod 8 + 3) mod 8) mod 8)) mod 8 = (0 :: nat)"
proof -
  define q r where "q = a div 8" and "r = a mod 8"
  have a: "a = 8 * q + r" and "r < 8" by (auto simp: q_def r_def)
  then have "r = 0 \<or> r = 1 \<or> r = 2 \<or> r = 3 \<or> r = 4 \<or> r = 5 \<or> r = 6 \<or> r = 7" by auto
  then have "8 dvd r + (35 + (8 - (r + 3) mod 8) mod 8)" by (elim disjE) simp_all
  then obtain k where "r + (35 + (8 - (r + 3) mod 8) mod 8) = 8 * k" ..
  then have "a + (8 * d + 35 + (8 - (a mod 8 + 3) mod 8) mod 8) = 8 * (q + d + k)" unfolding r_def [symmetric] by (simp add: a)
  then show ?thesis by (metis mod_mult_self1_is_0)
qed

lemma stored_block_writes:
  assumes "length data < 65536"
  shows "writes al w (stored_block al data lst w) out data lst (8 * length data + 40 + (if nbits w = 0 then 0 else 2))"
    "bw_ok w \<Longrightarrow> nbits (stored_block al data lst w) = 0"
proof -
  let ?p = "(8 - (nbits w + 3) mod 8) mod 8" and ?w = "stored_block al data lst w"
  have len: "length (stored_stream lst ?p data) = 8 * length data + 35 + ?p" by (simp add: stored_stream_def)
  have p: "?p \<le> 5 + (if nbits w = 0 then 0 else 2)" by (cases "nbits w = 0") auto
  have e: "emits al w (stored_stream lst ?p data) ?w" "nbits ?w = 0" using stored_block_emits [OF assms, of al lst w] by auto
  show "writes al w ?w out data lst (8 * length data + 40 + (if nbits w = 0 then 0 else 2))"
  proof (rule writesI [OF e(1)])
    show "length (stored_stream lst ?p data) \<le> 8 * length data + 40 + (if nbits w = 0 then 0 else 2)" using len p by simp
    fix rest :: "bool list"
    assume "bw_ok w" and m: "(length (stream w) + length (stored_stream lst ?p data) + length rest) mod 8 = 0"
    then have "nbits w = length (stream w) mod 8" using stream_length by simp
    then have "(length (stream w) + length (stored_stream lst ?p data)) mod 8 = 0" unfolding len using pad_mod by simp
    then have "length rest mod 8 = 0" using m by (metis mod_0_imp_dvd dvd_add_right_iff mod_eq_0_iff_dvd)
    then show "inflate_blocks out (stored_stream lst ?p data @ rest) = (if lst then Some (out @ data) else inflate_blocks (out @ data) rest)"
      using assms by (intro read_stored_stream) auto
  qed
  show "bw_ok w \<Longrightarrow> nbits ?w = 0" using stored_block_emits [OF assms] by blast
qed

lemma writes_mono: "writes al w w' out data final m \<Longrightarrow> m \<le> n \<Longrightarrow> writes al w w' out data final n"
  unfolding writes_def by (meson add_left_mono order_trans)

lemma writes_size: "writes al w w' out data final m \<Longrightarrow> (bw_ok w \<Longrightarrow> m = n) \<Longrightarrow> writes al w w' out data final n"
  unfolding writes_def by (cases "bw_ok w") simp_all

lemma stored_blocks_writes:
  "writes al w (stored_blocks al data final w) out data final
     (8 * length data + 40 * ((length data + 65534) div 65535 + of_bool (data = [])) + (if nbits w = 0 then 0 else 2))"
proof (induction al data final w arbitrary: out rule: stored_blocks.induct)
  case (1 al data final w)
  define k where "k = (if 65535 < length data then 65535 else length data)"
  let ?w = "stored_block al (take k data) (final \<and> k = length data) w"
  have k: "length (take k data) = k" "k < 65536" by (auto simp: k_def)
  have b: "writes al w ?w out (take k data) (final \<and> k = length data) (8 * k + 40 + (if nbits w = 0 then 0 else 2))"
    "bw_ok w \<Longrightarrow> nbits ?w = 0"
    using stored_block_writes(1) [of "take k data" al w "final \<and> k = length data" out] stored_block_writes(2) [of "take k data"] k
    by auto
  have e: "stored_blocks al data final w = (if drop k data = [] then ?w else stored_blocks al (drop k data) final ?w)"
    by (subst stored_blocks.simps) (simp add: k_def [symmetric] Let_def)
  show ?case
  proof (cases "drop k data = []")
    case True
    then have "k = length data" using k(1) by (auto simp: k_def split: if_splits)
    moreover from this have "(length data + 65534) div 65535 + of_bool (data = []) = 1"
      using k(2) by (cases data) (auto simp: div_nat_eqI)
    ultimately show ?thesis using b(1) True unfolding e by simp
  next
    case False
    then have len: "k = 65535" "65535 < length data" by (auto simp: k_def split: if_splits)
    let ?r = "8 * (length data - k) + 40 * ((length data - k + 65534) div 65535 + of_bool (drop k data = [])) + (if nbits ?w = 0 then 0 else 2)"
    have "writes al ?w (stored_blocks al (drop k data) final ?w) (out @ take k data) (drop k data) final ?r"
      using 1 [OF k_def refl False] by simp
    from writes_trans [OF _ this] b(1) len
    have both: "writes al w (stored_blocks al (drop k data) final ?w) out data final (8 * k + 40 + (if nbits w = 0 then 0 else 2) + ?r)" by simp
    have "8 * k + 40 + (if nbits w = 0 then 0 else 2) + ?r =
        8 * length data + 40 * ((length data + 65534) div 65535 + of_bool (data = [])) + (if nbits w = 0 then 0 else 2)" if "bw_ok w"
    proof -
      have "length data + 65534 = (length data - k + 65534) + 65535" using len by simp
      then have "(length data + 65534) div 65535 = Suc ((length data - k + 65534) div 65535)" by simp
      then show ?thesis using b(2) [OF that] len False by auto
    qed
    then show ?thesis unfolding e if_not_P [OF False] by (rule writes_size [OF both])
  qed
qed

end
