(* ===== verification/Deflate_Dynamic.thy ===== *)
theory Deflate_Dynamic
  imports Deflate_Blocks
begin

text \<open>
  Blocks with their own Huffman codes: the symbols of lengths and distances, tokens, the run-length coded code lengths and the header, each
  with the bits it takes and with what reading it back gives.
\<close>

section \<open>Codes in use\<close>

definition codes_ok :: "nat list \<Rightarrow> bool" where
  "codes_ok ls = ((\<forall>l\<in>set ls. l \<le> 15) \<and> length ls < 65536 \<and> kraft ls \<le> 1)"

lemma lengths_codes: "lengths_ok freq m ls \<Longrightarrow> m \<le> 15 \<Longrightarrow> length freq < 65536 \<Longrightarrow> codes_ok ls"
  by (auto simp: lengths_ok_def codes_ok_def)

lemma put_code_emits:
  assumes "codes_ok ls" "i < length ls" "ls ! i \<noteq> 0"
  shows "emits al w (codeword ls i) (bw_put al (of_nat (huff_codes ls ! i)) (ls ! i) w)"
proof -
  have "ls ! i \<le> 15" using assms(1,2) by (simp add: codes_ok_def)
  then show ?thesis using bw_put_emits [of "ls ! i" "huff_codes ls ! i" al w] huff_codes_codeword [of ls i] assms
    by (simp add: codes_ok_def)
qed

lemma decode_trim:
  assumes "codes_ok ls" "i < length ls" "ls ! i \<noteq> 0" "\<forall>j. h \<le> j \<and> j < length ls \<longrightarrow> ls ! j = 0"
  shows "decode_sym (take h ls) (codeword ls i @ rest) = Some (i, rest)"
proof -
  have "i < h" using assms(2,3) assms(4) [rule_format, of i] by (cases "i < h") auto
  define ms where "ms = take h ls"
  have "drop h ls = replicate (length ls - h) 0" using assms(4) by (intro nth_equalityI) auto
  then have ls: "ls = ms @ replicate (length ls - h) 0" unfolding ms_def by (metis append_take_drop_id)
  have i: "i < length ms" "ms ! i \<noteq> 0" using \<open>i < h\<close> assms(2,3) by (auto simp: ms_def)
  have "codeword ls i = codeword ms i" using codeword_zeros [OF i(1), of "length ls - h"] ls by simp
  moreover have "kraft ms \<le> 1" using assms(1) kraft_zeros [of ms "length ls - h"] ls by (simp add: codes_ok_def)
  ultimately show ?thesis using decode_sym_codeword [OF i] by (simp add: ms_def)
qed

lemma trim_zeros:
  assumes "lo \<le> n" "0 < lo"
  shows "lo \<le> trim f lo n \<and> trim f lo n \<le> n \<and> (\<forall>i. trim f lo n \<le> i \<and> i < n \<longrightarrow> f i = 0)"
  using assms(1)
proof (induction n)
  case 0
  then show ?case using assms(2) by simp
next
  case (Suc n)
  show ?case
  proof (cases "lo < Suc n \<and> f n = 0")
    case True
    then show ?thesis using Suc.IH by (auto simp: less_Suc_eq)
  next
    case False
    then show ?thesis using Suc.prems by auto
  qed
qed


section \<open>Lengths and distances\<close>

lemma length_tables:
  assumes "i < 29"
  shows "LBASE ! i = len_base i" "LEXT ! i = len_extra i"
proof -
  have t: "LBASE = map len_base [0..<29]" "LEXT = map len_extra [0..<29]"
    by (simp_all add: LBASE_def len_base_def LEXT_def len_extra_def upt_rec)
  show "LBASE ! i = len_base i" using assms unfolding t(1) by simp
  show "LEXT ! i = len_extra i" using assms unfolding t(2) by simp
qed

lemma distance_tables:
  assumes "i < 30"
  shows "DBASE ! i = dist_base i" "DEXT ! i = dist_extra i"
proof -
  have t: "DBASE = map dist_base [0..<30]" "DEXT = map dist_extra [0..<30]"
    by (simp_all add: DBASE_def dist_base_def DEXT_def dist_extra_def upt_rec)
  show "DBASE ! i = dist_base i" using assms unfolding t(1) by simp
  show "DEXT ! i = dist_extra i" using assms unfolding t(2) by simp
qed

lemma sym_from_range: "t ! 0 \<le> v \<Longrightarrow> t ! sym_from t v n \<le> v \<and> sym_from t v n \<le> n \<and> (sym_from t v n < n \<longrightarrow> v < t ! Suc (sym_from t v n))"
  by (induction n) (auto simp: less_Suc_eq)

lemma len_sym_ok:
  assumes "3 \<le> v" "v \<le> 258"
  shows "len_sym v < 29" "LBASE ! len_sym v \<le> v" "v - LBASE ! len_sym v < 2 ^ (LEXT ! len_sym v)" "LEXT ! len_sym v \<le> 5"
proof -
  have all: "\<forall>s\<in>set [0..<28]. LBASE ! Suc s \<le> LBASE ! s + 2 ^ (LEXT ! s)" "\<forall>s\<in>set [0..<29]. LEXT ! s \<le> 5"
    by (simp_all add: LBASE_def LEXT_def upt_rec)
  have "LBASE ! 0 \<le> v" using assms(1) by (simp add: LBASE_def)
  note r = sym_from_range [OF this, of 28, folded len_sym_def]
  show s: "len_sym v < 29" "LBASE ! len_sym v \<le> v" using r by auto
  show "LEXT ! len_sym v \<le> 5" using all(2) s(1) by auto
  show "v - LBASE ! len_sym v < 2 ^ (LEXT ! len_sym v)"
  proof (cases "len_sym v < 28")
    case True
    then have "LBASE ! Suc (len_sym v) \<le> LBASE ! len_sym v + 2 ^ (LEXT ! len_sym v)" using all(1) by auto
    then show ?thesis using r True by auto
  next
    case False
    then have "len_sym v = 28" using s(1) by simp
    then show ?thesis using assms(2) by (simp add: LBASE_def LEXT_def)
  qed
qed

lemma dist_sym_ok:
  assumes "1 \<le> v" "v \<le> 32768"
  shows "dist_sym v < 30" "DBASE ! dist_sym v \<le> v" "v - DBASE ! dist_sym v < 2 ^ (DEXT ! dist_sym v)" "DEXT ! dist_sym v \<le> 13"
proof -
  have all: "\<forall>s\<in>set [0..<29]. DBASE ! Suc s \<le> DBASE ! s + 2 ^ (DEXT ! s)" "\<forall>s\<in>set [0..<30]. DEXT ! s \<le> 13"
    by (simp_all add: DBASE_def DEXT_def upt_rec)
  have "DBASE ! 0 \<le> v" using assms(1) by (simp add: DBASE_def)
  note r = sym_from_range [OF this, of 29, folded dist_sym_def]
  show s: "dist_sym v < 30" "DBASE ! dist_sym v \<le> v" using r by auto
  show "DEXT ! dist_sym v \<le> 13" using all(2) s(1) by auto
  show "v - DBASE ! dist_sym v < 2 ^ (DEXT ! dist_sym v)"
  proof (cases "dist_sym v < 29")
    case True
    then have "DBASE ! Suc (dist_sym v) \<le> DBASE ! dist_sym v + 2 ^ (DEXT ! dist_sym v)" using all(1) by auto
    then show ?thesis using r True by auto
  next
    case False
    then have "dist_sym v = 29" using s(1) by simp
    then show ?thesis using assms(2) by (simp add: DBASE_def DEXT_def)
  qed
qed


section \<open>Tokens\<close>

definition tok_ok :: "byte list \<Rightarrow> tok \<Rightarrow> bool" where
  "tok_ok out t = (if tdist t = 0 then tlen t < 256 else 3 \<le> tlen t \<and> tlen t \<le> 258 \<and> tdist t \<le> 32768 \<and> tdist t \<le> length out)"

text \<open>What a list of tokens stands for, after the bytes \<open>out\<close>.\<close>

primrec expands :: "tok list \<Rightarrow> byte list \<Rightarrow> byte list option" where
  "expands [] out = Some out"
| "expands (t # ts) out =
     (if tok_ok out t then expands ts (if tdist t = 0 then out @ [of_nat (tlen t)] else copy_match (tlen t) (tdist t) out) else None)"

definition lit_sym :: "tok \<Rightarrow> nat" where
  "lit_sym t = (if tdist t = 0 then tlen t else 257 + len_sym (tlen t))"

definition tok_bits :: "nat list \<Rightarrow> nat list \<Rightarrow> tok \<Rightarrow> bool list" where
  "tok_bits ll dl t = codeword ll (lit_sym t) @
     (if tdist t = 0 then []
      else lsb (LEXT ! len_sym (tlen t)) (tlen t - LBASE ! len_sym (tlen t)) @ codeword dl (dist_sym (tdist t)) @
           lsb (DEXT ! dist_sym (tdist t)) (tdist t - DBASE ! dist_sym (tdist t)))"

text \<open>The tables have codes for the symbols of a token.\<close>

definition has_codes :: "nat list \<Rightarrow> nat list \<Rightarrow> tok \<Rightarrow> bool" where
  "has_codes ll dl t = (ll ! lit_sym t \<noteq> 0 \<and> (tdist t \<noteq> 0 \<longrightarrow> dl ! dist_sym (tdist t) \<noteq> 0))"

lemma put_extra_emits:
  assumes "n \<le> 16" "v < 2 ^ n"
  shows "emits al w (lsb n v) (if n \<noteq> 0 then bw_put al (of_nat v) n w else w)"
  using bw_put_emits [OF assms, of al w] by simp

lemma put_tok_emits:
  assumes "codes_ok ll" "length ll = 286" "codes_ok dl" "length dl = 30" "tok_ok out t" "has_codes ll dl t"
  shows "emits al w (tok_bits ll dl t) (put_tok al ll (huff_codes ll) dl (huff_codes dl) t w)"
proof (cases "tdist t = 0")
  case True
  then show ?thesis using put_code_emits [OF assms(1)] assms
    by (simp add: put_tok_def tok_bits_def tok_ok_def has_codes_def lit_sym_def)
next
  case False
  then have l: "3 \<le> tlen t" "tlen t \<le> 258" "1 \<le> tdist t" "tdist t \<le> 32768" using assms(5) by (auto simp: tok_ok_def split: if_splits)
  note ls = len_sym_ok [OF l(1,2)] and ds = dist_sym_ok [OF l(3,4)]
  have c: "257 + len_sym (tlen t) < length ll" "ll ! (257 + len_sym (tlen t)) \<noteq> 0"
    "dist_sym (tdist t) < length dl" "dl ! dist_sym (tdist t) \<noteq> 0"
    using assms(2,4,6) ls(1) ds(1) False by (auto simp: has_codes_def lit_sym_def)
  define w1 where "w1 = bw_put al (of_nat (huff_codes ll ! (257 + len_sym (tlen t)))) (ll ! (257 + len_sym (tlen t))) w"
  define w2 where "w2 = (if LEXT ! len_sym (tlen t) \<noteq> 0
    then bw_put al (of_nat (tlen t - LBASE ! len_sym (tlen t))) (LEXT ! len_sym (tlen t)) w1 else w1)"
  define w3 where "w3 = bw_put al (of_nat (huff_codes dl ! dist_sym (tdist t))) (dl ! dist_sym (tdist t)) w2"
  have 1: "emits al w (codeword ll (257 + len_sym (tlen t))) w1" unfolding w1_def by (rule put_code_emits [OF assms(1) c(1,2)])
  have 2: "emits al w1 (lsb (LEXT ! len_sym (tlen t)) (tlen t - LBASE ! len_sym (tlen t))) w2"
    unfolding w2_def using ls(3,4) by (intro put_extra_emits) auto
  have 3: "emits al w2 (codeword dl (dist_sym (tdist t))) w3" unfolding w3_def by (rule put_code_emits [OF assms(3) c(3,4)])
  have 4: "emits al w3 (lsb (DEXT ! dist_sym (tdist t)) (tdist t - DBASE ! dist_sym (tdist t)))
      (put_tok al ll (huff_codes ll) dl (huff_codes dl) t w)"
    unfolding put_tok_def Let_def if_not_P [OF False] w1_def [symmetric] w2_def [symmetric] w3_def [symmetric]
    using ds(3,4) by (intro put_extra_emits) auto
  show ?thesis using emits_trans [OF 1 emits_trans [OF 2 emits_trans [OF 3 4]]] False by (simp add: tok_bits_def lit_sym_def)
qed

lemma read_tokens_bits:
  assumes "codes_ok ll" "length ll = 286" "codes_ok dl" "length dl = 30"
    and h: "\<forall>j. h \<le> j \<and> j < 286 \<longrightarrow> ll ! j = 0" "\<forall>j. k \<le> j \<and> j < 30 \<longrightarrow> dl ! j = 0" and eob: "ll ! 256 \<noteq> 0"
  shows "expands ts out = Some out' \<Longrightarrow> \<forall>t\<in>set ts. has_codes ll dl t \<Longrightarrow>
    read_tokens (take h ll) (take k dl) out (concat (map (tok_bits ll dl) ts) @ codeword ll 256 @ rest) = Some (out', rest)"
proof (induction ts arbitrary: out)
  case Nil
  have "decode_sym (take h ll) (codeword ll 256 @ rest) = Some (256, rest)" using assms by (intro decode_trim) auto
  then show ?case using Nil by (subst read_tokens.simps) simp
next
  case (Cons t ts)
  let ?r = "concat (map (tok_bits ll dl) ts) @ codeword ll 256 @ rest"
  have ok: "tok_ok out t" using Cons.prems(1) by (simp split: if_splits)
  have hc: "has_codes ll dl t" using Cons.prems(2) by simp
  have lit: "lit_sym t < 286 \<Longrightarrow> decode_sym (take h ll) (codeword ll (lit_sym t) @ bs) = Some (lit_sym t, bs)" for bs
    using assms hc by (intro decode_trim) (auto simp: has_codes_def)
  show ?case
  proof (cases "tdist t = 0")
    case True
    then have "lit_sym t = tlen t" "tlen t < 256" using ok by (auto simp: lit_sym_def tok_ok_def)
    moreover have "tok_bits ll dl t = codeword ll (lit_sym t)" using True by (simp add: tok_bits_def)
    ultimately show ?thesis using Cons True ok lit [of ?r] by (subst read_tokens.simps) simp
  next
    case False
    then have l: "3 \<le> tlen t" "tlen t \<le> 258" "1 \<le> tdist t" "tdist t \<le> 32768" "tdist t \<le> length out"
      using ok by (auto simp: tok_ok_def split: if_splits)
    note ls = len_sym_ok [OF l(1,2)] and ds = dist_sym_ok [OF l(3,4)]
    have sym: "lit_sym t = 257 + len_sym (tlen t)" using False by (simp add: lit_sym_def)
    have dist: "decode_sym (take k dl) (codeword dl (dist_sym (tdist t)) @ bs) = Some (dist_sym (tdist t), bs)" for bs
      using assms hc ds(1) False by (intro decode_trim) (auto simp: has_codes_def)
    have ex: "len_extra (len_sym (tlen t)) = LEXT ! len_sym (tlen t)" "len_base (len_sym (tlen t)) = LBASE ! len_sym (tlen t)"
      "dist_extra (dist_sym (tdist t)) = DEXT ! dist_sym (tdist t)" "dist_base (dist_sym (tdist t)) = DBASE ! dist_sym (tdist t)"
      using length_tables [OF ls(1)] distance_tables [OF ds(1)] by simp_all
    have v: "take_bit (LEXT ! len_sym (tlen t)) (tlen t - LBASE ! len_sym (tlen t)) = tlen t - LBASE ! len_sym (tlen t)"
      "take_bit (DEXT ! dist_sym (tdist t)) (tdist t - DBASE ! dist_sym (tdist t)) = tdist t - DBASE ! dist_sym (tdist t)"
      using ls(3) ds(3) by (simp_all add: take_bit_nat_eq_self)
    have "read_tokens (take h ll) (take k dl) out (tok_bits ll dl t @ ?r) =
        read_tokens (take h ll) (take k dl) (copy_match (tlen t) (tdist t) out) ?r"
      using False lit ls(1,2) ds(1,2) l(5) dist
      by (subst read_tokens.simps) (simp add: tok_bits_def sym ex v)
    then show ?thesis using Cons False ok by simp
  qed
qed


section \<open>Frequencies\<close>

lemma count_fold:
  assumes "i < length f" "f ! i < 2 ^ 32"
  shows "fold (\<lambda>x f. count_up f (g x)) xs f ! i = wrap32 (f ! i + count_list (map g xs) i)"
  using assms
proof (induction xs arbitrary: f)
  case (Cons x xs)
  have "count_up f (g x) ! i = wrap32 (f ! i + of_bool (g x = i))" using Cons.prems by (auto simp: count_up_def nth_list_update)
  then show ?case using Cons by (simp add: count_up_def)
qed simp

lemma count_fold_length: "length (fold (\<lambda>x f. count_up f (g x)) xs f) = length f"
  by (induction xs arbitrary: f) (auto simp: count_up_def)

lemma count_toks:
  "fold count_tok ts (lf, df) = (fold (\<lambda>t f. count_up f (lit_sym t)) ts lf,
     fold (\<lambda>t f. count_up f (dist_sym (tdist t))) (filter (\<lambda>t. tdist t \<noteq> 0) ts) df)"
  by (induction ts arbitrary: lf df) (auto simp: count_tok_def lit_sym_def)

lemma count_pos:
  assumes "x \<in> set xs" "length xs < 2 ^ 32" "g x < n"
  shows "g x \<in> used (fold (\<lambda>x f. count_up f (g x)) xs (replicate n 0))"
proof -
  have "count_list (map g xs) (g x) \<noteq> 0" using assms(1) by (simp add: count_list_0_iff)
  moreover have "count_list (map g xs) (g x) < 2 ^ 32" using count_le_length [of "map g xs" "g x"] assms(2) by simp
  ultimately show ?thesis using count_fold [of "g x" "replicate n 0" g xs] assms(3) by (simp add: used_def count_fold_length)
qed


section \<open>Code lengths\<close>

definition rle_stream :: "nat list \<Rightarrow> nat \<times> nat \<Rightarrow> bool list" where
  "rle_stream cl r = codeword cl (fst r) @ lsb (rle_bits (fst r)) (snd r)"

lemma rle_step:
  obtains (zeros) k where "v = 0" "3 \<le> k" "k \<le> 138" "k \<le> Suc (length (takeWhile ((=) v) vs))"
    "rle_lens (v # vs) = (if 11 \<le> k then (18, k - 11) else (17, k - 3)) # rle_lens (drop k (v # vs))"
  | (repeat) k where "3 \<le> k" "k \<le> 6" "1 + k \<le> Suc (length (takeWhile ((=) v) vs))"
    "rle_lens (v # vs) = (v, 0) # (16, k - 3) # rle_lens (drop (1 + k) (v # vs))"
  | (single) "rle_lens (v # vs) = (v, 0) # rle_lens vs"
proof -
  let ?run = "Suc (length (takeWhile ((=) v) vs))"
  consider (1) "v = 0 \<and> 3 \<le> ?run" | (2) "\<not> (v = 0 \<and> 3 \<le> ?run)" "v \<noteq> 0 \<and> 4 \<le> ?run"
    | (3) "\<not> (v = 0 \<and> 3 \<le> ?run)" "\<not> (v \<noteq> 0 \<and> 4 \<le> ?run)" by blast
  then show thesis
  proof cases
    case 1
    define k where "k = (if 138 < ?run then 138 else ?run)"
    have "rle_lens (v # vs) = (if 11 \<le> k then (18, k - 11) else (17, k - 3)) # rle_lens (drop k (v # vs))"
      unfolding rle_lens.simps(2) Let_def if_P [OF 1] k_def ..
    then show thesis using zeros [of k] 1 by (auto simp: k_def)
  next
    case 2
    define k where "k = (if 6 < ?run - 1 then 6 else ?run - 1)"
    have "rle_lens (v # vs) = (v, 0) # (16, k - 3) # rle_lens (drop (1 + k) (v # vs))"
      unfolding rle_lens.simps(2) Let_def if_not_P [OF 2(1)] if_P [OF 2(2)] k_def ..
    then show thesis using repeat [of k] 2 by (auto simp: k_def)
  next
    case 3
    have "rle_lens (v # vs) = (v, 0) # rle_lens vs"
      unfolding rle_lens.simps(2) Let_def if_not_P [OF 3(1)] if_not_P [OF 3(2)] ..
    then show thesis by (rule single)
  qed
qed

lemma rle_lens_ok: "\<forall>v\<in>set xs. v < 16 \<Longrightarrow> \<forall>r\<in>set (rle_lens xs). fst r < 19 \<and> snd r < 2 ^ rle_bits (fst r)"
proof (induction "length xs" arbitrary: xs rule: less_induct)
  case less
  show ?case
  proof (cases xs)
    case (Cons v vs)
    have sub: "\<forall>x\<in>set (drop k xs). x < 16" for k using less.prems by (meson in_set_dropD)
    have IH: "\<forall>r\<in>set (rle_lens (drop k xs)). fst r < 19 \<and> snd r < 2 ^ rle_bits (fst r)" if "0 < k" for k
      using sub that Cons by (intro less.hyps) auto
    have v: "v < 16" using less.prems Cons by simp
    show ?thesis unfolding Cons
    proof (cases rule: rle_step [of v vs])
      case (zeros k)
      then show "\<forall>r\<in>set (rle_lens (v # vs)). fst r < 19 \<and> snd r < 2 ^ rle_bits (fst r)"
        using IH [of k] unfolding zeros(5) Cons by (auto simp: rle_bits_def)
    next
      case (repeat k)
      then show "\<forall>r\<in>set (rle_lens (v # vs)). fst r < 19 \<and> snd r < 2 ^ rle_bits (fst r)"
        using IH [of "1 + k"] v unfolding repeat(4) Cons by (auto simp: rle_bits_def)
    next
      case single
      then show "\<forall>r\<in>set (rle_lens (v # vs)). fst r < 19 \<and> snd r < 2 ^ rle_bits (fst r)"
        using IH [of 1] v unfolding single Cons by (auto simp: rle_bits_def)
    qed
  qed simp
qed

lemma put_rle_emits:
  assumes "codes_ok cl" "length cl = 19" "fst r < 19" "cl ! fst r \<noteq> 0" "snd r < 2 ^ rle_bits (fst r)"
  shows "emits al w (rle_stream cl r) (put_rle al cl (huff_codes cl) r w)"
  unfolding put_rle_def Let_def rle_stream_def
  by (rule emits_trans [OF put_code_emits put_extra_emits]) (use assms in \<open>auto simp: rle_bits_def\<close>)

lemma run_replicate: "k \<le> Suc (length (takeWhile ((=) v) vs)) \<Longrightarrow> replicate k v @ drop k (v # vs) = v # vs"
proof (cases k)
  case (Suc j)
  assume "k \<le> Suc (length (takeWhile ((=) v) vs))"
  then have j: "j \<le> length (takeWhile ((=) v) vs)" using Suc by simp
  have "take j vs = take j (takeWhile ((=) v) vs)" using j by (metis takeWhile_eq_take take_take min_def)
  also have "\<dots> = replicate j v"
  proof (rule nth_equalityI)
    fix i assume "i < length (take j (takeWhile ((=) v) vs))"
    then have "i < length (takeWhile ((=) v) vs)" "i < j" by auto
    then show "take j (takeWhile ((=) v) vs) ! i = replicate j v ! i" using set_takeWhileD [OF nth_mem] by fastforce
  qed (use j in simp)
  finally show ?thesis using Suc by (metis append_Cons append_take_drop_id drop_Suc_Cons replicate_Suc)
qed simp

lemma read_lens_rle:
  assumes "codes_ok cl" "length cl = 19"
  shows "\<forall>v\<in>set xs. v < 16 \<Longrightarrow> \<forall>r\<in>set (rle_lens xs). cl ! fst r \<noteq> 0 \<Longrightarrow> n = length acc + length xs \<Longrightarrow>
    read_lens cl n acc (concat (map (rle_stream cl) (rle_lens xs)) @ rest) = Some (acc @ xs, rest)"
proof (induction "length xs" arbitrary: xs acc rule: less_induct)
  case less
  have dec: "decode_sym cl (codeword cl s @ bs) = Some (s, bs)" if "s < 19" "cl ! s \<noteq> 0" for s bs
    using decode_trim [OF assms(1), of s 19] that assms(2) by simp
  have more: "read_lens cl n acc bs = do { (s, bs) \<leftarrow> decode_sym cl bs;
        if s < 16 then read_lens cl n (acc @ [s]) bs
        else if s = 16 then
          if acc = [] then None
          else do { (k, bs) \<leftarrow> read_num 2 bs; read_lens cl n (acc @ replicate (3 + k) (last acc)) bs }
        else if s = 17 then do { (k, bs) \<leftarrow> read_num 3 bs; read_lens cl n (acc @ replicate (3 + k) 0) bs }
        else do { (k, bs) \<leftarrow> read_num 7 bs; read_lens cl n (acc @ replicate (11 + k) 0) bs } }" if "length acc < n" for acc bs
    using that by (subst read_lens.simps) simp
  show ?case
  proof (cases xs)
    case Nil
    then show ?thesis using less.prems by (subst read_lens.simps) simp
  next
    case (Cons v vs)
    have n: "length acc < n" "n = length acc + Suc (length vs)" using less.prems(3) Cons by auto
    have run: "Suc (length (takeWhile ((=) v) vs)) \<le> Suc (length vs)" using length_takeWhile_le by auto
    have sub: "\<forall>x\<in>set (drop k (v # vs)). x < 16" for k using less.prems(1) Cons by (meson in_set_dropD)
    have IH: "read_lens cl n (acc @ replicate k v) (concat (map (rle_stream cl) (rle_lens (drop k (v # vs)))) @ rest) = Some (acc @ v # vs, rest)"
      if "0 < k" "k \<le> Suc (length (takeWhile ((=) v) vs))" "\<forall>r\<in>set (rle_lens (drop k (v # vs))). cl ! fst r \<noteq> 0" for k
    proof -
      have "read_lens cl n (acc @ replicate k v) (concat (map (rle_stream cl) (rle_lens (drop k (v # vs)))) @ rest) =
          Some ((acc @ replicate k v) @ drop k (v # vs), rest)"
        using that n run Cons sub by (intro less.hyps) auto
      then show ?thesis using run_replicate [OF that(2)] by simp
    qed
    have v: "v < 16" "rle_stream cl (v, 0) = codeword cl v" using less.prems(1) Cons by (auto simp: rle_stream_def rle_bits_def)
    note p = less.prems(2) [unfolded Cons]
    have "read_lens cl n acc (concat (map (rle_stream cl) (rle_lens (v # vs))) @ rest) = Some (acc @ v # vs, rest)"
    proof (cases rule: rle_step [of v vs])
      case (zeros k)
      have IHk: "read_lens cl n (acc @ replicate k 0) (concat (map (rle_stream cl) (rle_lens (drop k (v # vs)))) @ rest) = Some (acc @ v # vs, rest)"
        using IH [of k] zeros(1-4) p [unfolded zeros(5)] by simp
      have "(if 11 \<le> k then cl ! 18 else cl ! 17) \<noteq> 0" using p [unfolded zeros(5)] by (simp split: if_splits)
      moreover have "11 \<le> k \<Longrightarrow> take_bit 7 (k - 11) = k - 11" "\<not> 11 \<le> k \<Longrightarrow> take_bit 3 (k - 3) = k - 3"
        using zeros(3) by (simp_all add: take_bit_nat_eq_self)
      ultimately show ?thesis using IHk zeros(2) unfolding zeros(5) more [OF n(1)]
        by (cases "11 \<le> k") (simp_all add: dec rle_stream_def rle_bits_def)
    next
      case (repeat k)
      have IHk: "read_lens cl n ((acc @ [v]) @ replicate k v) (concat (map (rle_stream cl) (rle_lens (drop (1 + k) (v # vs)))) @ rest) = Some (acc @ v # vs, rest)"
        using IH [of "1 + k"] repeat(1-3) p [unfolded repeat(4)] by simp
      have c: "cl ! v \<noteq> 0" "cl ! 16 \<noteq> 0" using p [unfolded repeat(4)] by auto
      have t: "take_bit 2 (k - 3) = k - 3" using repeat(1,2) by (simp add: take_bit_nat_eq_self)
      have l: "length (acc @ [v]) < n" using n repeat(1,3) run by (cases vs) simp_all
      have "read_lens cl n (acc @ [v]) (rle_stream cl (16, k - 3) @ concat (map (rle_stream cl) (rle_lens (drop (1 + k) (v # vs)))) @ rest) =
          Some (acc @ v # vs, rest)"
        using IHk c(2) repeat(1) unfolding more [OF l] by (simp add: dec rle_stream_def rle_bits_def t)
      then show ?thesis using c(1) v unfolding repeat(4) more [OF n(1)] by (simp add: dec)
    next
      case single
      then show ?thesis using IH [of 1] p [unfolded single] v unfolding single more [OF n(1)] by (simp add: dec)
    qed
    then show ?thesis using Cons by simp
  qed
qed



section \<open>The block\<close>

lemma cl_order: "code_length_order = CLORDER" "set CLORDER = {0..<19}" "length CLORDER = 19"
proof -
  show "code_length_order = CLORDER" "length CLORDER = 19" by (simp_all add: code_length_order_def CLORDER_def)
  have "sort CLORDER = [0..<19]" by (simp add: CLORDER_def upt_rec)
  then show "set CLORDER = {0..<19}" by (metis set_sort set_upt)
qed

text \<open>Lengths put back in their places.\<close>

lemma scatter:
  assumes "length cl = 19" "h \<le> 19" "\<forall>i. h \<le> i \<and> i < 19 \<longrightarrow> cl ! (CLORDER ! i) = 0"
  shows "fold (\<lambda>i c. c[code_length_order ! i := map (\<lambda>i. cl ! (CLORDER ! i)) [0..<h] ! i]) [0..<h] (replicate 19 0) = cl"
proof -
  have "n \<le> h \<Longrightarrow> length (fold (\<lambda>i c. c[CLORDER ! i := map (\<lambda>i. cl ! (CLORDER ! i)) [0..<h] ! i]) [0..<n] (replicate 19 0)) = 19 \<and>
    (\<forall>j<19. fold (\<lambda>i c. c[CLORDER ! i := map (\<lambda>i. cl ! (CLORDER ! i)) [0..<h] ! i]) [0..<n] (replicate 19 0) ! j =
       (if \<exists>i<n. CLORDER ! i = j then cl ! j else 0))" for n
  proof (induction n)
    case (Suc n)
    let ?F = "\<lambda>n. fold (\<lambda>i c. c[CLORDER ! i := map (\<lambda>i. cl ! (CLORDER ! i)) [0..<h] ! i]) [0..<n] (replicate 19 0)"
    have F: "?F (Suc n) = (?F n)[CLORDER ! n := cl ! (CLORDER ! n)]" using Suc.prems by simp
    have IH: "length (?F n) = 19" "\<And>j. j < 19 \<Longrightarrow> ?F n ! j = (if \<exists>i<n. CLORDER ! i = j then cl ! j else 0)" using Suc by auto
    have "?F (Suc n) ! j = (if \<exists>i<Suc n. CLORDER ! i = j then cl ! j else 0)" if "j < 19" for j
    proof (cases "CLORDER ! n = j")
      case True
      then show ?thesis unfolding F using IH(1) that by auto
    next
      case False
      then have "(\<exists>i<Suc n. CLORDER ! i = j) = (\<exists>i<n. CLORDER ! i = j)" by (auto simp: less_Suc_eq)
      then show ?thesis unfolding F using IH(2) [OF that] False by simp
    qed
    then show ?case using F IH(1) by simp
  qed simp
  note f = this [of h, simplified]
  show ?thesis unfolding cl_order(1)
  proof (rule nth_equalityI)
    fix j assume "j < length (fold (\<lambda>i c. c[CLORDER ! i := map (\<lambda>i. cl ! (CLORDER ! i)) [0..<h] ! i]) [0..<h] (replicate 19 0))"
    then have j: "j < 19" using f by simp
    then obtain i where i: "i < 19" "CLORDER ! i = j" using cl_order(2,3) by (metis atLeastLessThan_iff in_set_conv_nth le0)
    have "cl ! j = 0" if "\<not> (\<exists>i<h. CLORDER ! i = j)" using that i assms(3) by (metis not_le)
    then show "fold (\<lambda>i c. c[CLORDER ! i := map (\<lambda>i. cl ! (CLORDER ! i)) [0..<h] ! i]) [0..<h] (replicate 19 0) ! j = cl ! j"
      using f j by auto
  qed (use f assms(1) in simp)
qed

definition dynamic_stream :: "bool \<Rightarrow> nat \<Rightarrow> nat \<Rightarrow> nat \<Rightarrow> (nat \<times> nat) list \<Rightarrow> nat list \<Rightarrow> nat list \<Rightarrow> nat list \<Rightarrow> tok list \<Rightarrow> bool list" where
  "dynamic_stream final hlit hdist hclen rle ll dl cl t =
     lsb 1 (of_bool final) @ lsb 2 2 @ lsb 5 (hlit - 257) @ lsb 5 (hdist - 1) @ lsb 4 (hclen - 4) @
     concat (map (\<lambda>i. lsb 3 (cl ! (CLORDER ! i))) [0..<hclen]) @ concat (map (rle_stream cl) rle) @
     concat (map (tok_bits ll dl) t) @ codeword ll 256"

text \<open>What a block needs: three tables of codes, cut off where only zeros follow, with codes for all symbols that occur.\<close>

definition block_ok :: "nat \<Rightarrow> nat \<Rightarrow> nat \<Rightarrow> nat list \<Rightarrow> nat list \<Rightarrow> nat list \<Rightarrow> tok list \<Rightarrow> bool" where
  "block_ok hlit hdist hclen ll dl cl t =
     (codes_ok ll \<and> length ll = 286 \<and> codes_ok dl \<and> length dl = 30 \<and> codes_ok cl \<and> length cl = 19 \<and> (\<forall>l\<in>set cl. l \<le> 7) \<and>
      257 \<le> hlit \<and> hlit \<le> 286 \<and> (\<forall>j. hlit \<le> j \<and> j < 286 \<longrightarrow> ll ! j = 0) \<and>
      1 \<le> hdist \<and> hdist \<le> 30 \<and> (\<forall>j. hdist \<le> j \<and> j < 30 \<longrightarrow> dl ! j = 0) \<and>
      4 \<le> hclen \<and> hclen \<le> 19 \<and> (\<forall>i. hclen \<le> i \<and> i < 19 \<longrightarrow> cl ! (CLORDER ! i) = 0) \<and>
      (\<forall>r\<in>set (rle_lens (take hlit ll @ take hdist dl)). cl ! fst r \<noteq> 0) \<and>
      ll ! 256 \<noteq> 0 \<and> (\<forall>x\<in>set t. has_codes ll dl x))"

lemma small_lens: "codes_ok ll \<Longrightarrow> codes_ok dl \<Longrightarrow> \<forall>v\<in>set (take a ll @ take b dl). v < 16"
proof
  fix v assume c: "codes_ok ll" "codes_ok dl" and "v \<in> set (take a ll @ take b dl)"
  then have "v \<in> set ll \<or> v \<in> set dl" by (auto dest: in_set_takeD)
  then have "v \<le> 15" using c by (auto simp: codes_ok_def)
  then show "v < 16" by simp
qed

lemma expands_ok: "expands ts out = Some out' \<Longrightarrow> t \<in> set ts \<Longrightarrow> \<exists>o'. tok_ok o' t"
  by (induction ts arbitrary: out) (auto split: if_splits)

lemma put_dynamic_emits:
  assumes "block_ok hlit hdist hclen ll dl cl t" "expands t out = Some out'"
  shows "emits al w (dynamic_stream final hlit hdist hclen (rle_lens (take hlit ll @ take hdist dl)) ll dl cl t)
    (put_dynamic al final hlit hdist hclen (rle_lens (take hlit ll @ take hdist dl)) ll dl cl t w)"
proof -
  let ?rle = "rle_lens (take hlit ll @ take hdist dl)"
  have b: "codes_ok ll" "length ll = 286" "codes_ok dl" "length dl = 30" "codes_ok cl" "length cl = 19" "\<And>l. l \<in> set cl \<Longrightarrow> l \<le> 7"
    "hlit \<le> 286" "hdist \<le> 30" "hclen \<le> 19" "\<And>r. r \<in> set ?rle \<Longrightarrow> cl ! fst r \<noteq> 0" "ll ! 256 \<noteq> 0" "\<And>x. x \<in> set t \<Longrightarrow> has_codes ll dl x"
    using assms(1) by (auto simp: block_ok_def)
  define w1 where "w1 = bw_put al (of_bool final) 1 w"
  define w2 where "w2 = bw_put al 2 2 w1"
  define w3 where "w3 = bw_put al (of_nat (hlit - 257)) 5 w2"
  define w4 where "w4 = bw_put al (of_nat (hdist - 1)) 5 w3"
  define w5 where "w5 = bw_put al (of_nat (hclen - 4)) 4 w4"
  define w6 where "w6 = fold (\<lambda>i. bw_put al (of_nat (cl ! (CLORDER ! i))) 3) [0..<hclen] w5"
  define w7 where "w7 = fold (put_rle al cl (huff_codes cl)) ?rle w6"
  define w8 where "w8 = fold (put_tok al ll (huff_codes ll) dl (huff_codes dl)) t w7"
  have 1: "emits al w (lsb 1 (of_bool final)) w1" using bw_put_emits [of 1 "of_bool final" al w] by (cases final) (simp_all add: w1_def)
  have 2: "emits al w1 (lsb 2 2) w2" using bw_put_emits [of 2 2 al w1] by (simp add: w2_def)
  have 3: "emits al w2 (lsb 5 (hlit - 257)) w3" unfolding w3_def using b(8) by (intro bw_put_emits) auto
  have 4: "emits al w3 (lsb 5 (hdist - 1)) w4" unfolding w4_def using b(9) by (intro bw_put_emits) auto
  have 5: "emits al w4 (lsb 4 (hclen - 4)) w5" unfolding w5_def using b(10) by (intro bw_put_emits) auto
  have 6: "emits al w5 (concat (map (\<lambda>i. lsb 3 (cl ! (CLORDER ! i))) [0..<hclen])) w6" unfolding w6_def
  proof (rule emits_fold)
    fix i w assume i: "i \<in> set [0..<hclen]"
    have "CLORDER ! i \<in> set CLORDER" using i b(10) cl_order(3) by (intro nth_mem) auto
    then have "cl ! (CLORDER ! i) \<in> set cl" using cl_order(2) b(6) by (intro nth_mem) auto
    then have "cl ! (CLORDER ! i) \<le> 7" by (rule b(7))
    then show "emits al w (lsb 3 (cl ! (CLORDER ! i))) (bw_put al (of_nat (cl ! (CLORDER ! i))) 3 w)" by (intro bw_put_emits) auto
  qed
  note small = small_lens [OF b(1,3), of hlit hdist]
  have 7: "emits al w6 (concat (map (rle_stream cl) ?rle)) w7" unfolding w7_def
    using rle_lens_ok [OF small] b(5,6,11) by (intro emits_fold put_rle_emits) auto
  have 8: "emits al w7 (concat (map (tok_bits ll dl) t)) w8" unfolding w8_def
  proof (rule emits_fold)
    fix x w assume x: "x \<in> set t"
    then obtain o' where "tok_ok o' x" using expands_ok [OF assms(2)] by blast
    then show "emits al w (tok_bits ll dl x) (put_tok al ll (huff_codes ll) dl (huff_codes dl) x w)"
      using b(13) [OF x] by (intro put_tok_emits b(1-4))
  qed
  have 9: "emits al w8 (codeword ll 256) (put_dynamic al final hlit hdist hclen ?rle ll dl cl t w)"
    unfolding put_dynamic_def Let_def w1_def [symmetric] w2_def [symmetric] w3_def [symmetric] w4_def [symmetric] w5_def [symmetric]
      w6_def [symmetric] w7_def [symmetric] w8_def [symmetric]
    using b by (intro put_code_emits) auto
  show ?thesis unfolding dynamic_stream_def
    by (rule emits_trans [OF 1 emits_trans [OF 2 emits_trans [OF 3 emits_trans [OF 4 emits_trans [OF 5
      emits_trans [OF 6 emits_trans [OF 7 emits_trans [OF 8 9]]]]]]]])
qed

lemma read_dynamic_stream:
  assumes "block_ok hlit hdist hclen ll dl cl t" "expands t out = Some out'"
  shows "inflate_blocks out (dynamic_stream final hlit hdist hclen (rle_lens (take hlit ll @ take hdist dl)) ll dl cl t @ rest) =
    (if final then Some out' else inflate_blocks out' rest)"
proof -
  let ?lens = "take hlit ll @ take hdist dl" and ?order = "map (\<lambda>i. cl ! (CLORDER ! i)) [0..<hclen]"
  let ?toks = "concat (map (tok_bits ll dl) t) @ codeword ll 256 @ rest"
  have b: "codes_ok ll" "length ll = 286" "codes_ok dl" "length dl = 30" "codes_ok cl" "length cl = 19" "\<And>l. l \<in> set cl \<Longrightarrow> l \<le> 7"
    "257 \<le> hlit" "hlit \<le> 286" "1 \<le> hdist" "hdist \<le> 30" "4 \<le> hclen" "hclen \<le> 19"
    "\<forall>i. hclen \<le> i \<and> i < 19 \<longrightarrow> cl ! (CLORDER ! i) = 0" "\<forall>r\<in>set (rle_lens ?lens). cl ! fst r \<noteq> 0"
    using assms(1) by (auto simp: block_ok_def)
  note small = small_lens [OF b(1,3), of hlit hdist]
  have "cl ! (CLORDER ! i) < 2 ^ 3" if "i < hclen" for i
  proof -
    have "CLORDER ! i \<in> set CLORDER" using that b(13) cl_order(3) by (intro nth_mem) auto
    then have "cl ! (CLORDER ! i) \<in> set cl" using cl_order(2) b(6) by (intro nth_mem) auto
    then show ?thesis using b(7) by fastforce
  qed
  then have nums: "read_nums 3 hclen (concat (map (\<lambda>i. lsb 3 (cl ! (CLORDER ! i))) [0..<hclen]) @ bs) = Some (?order, bs)" for bs
    using read_nums_lsb [of ?order 3 bs] by (simp add: o_def)
  have lens: "read_lens cl (hlit + hdist) [] (concat (map (rle_stream cl) (rle_lens ?lens)) @ bs) = Some (?lens, bs)" for bs
    using read_lens_rle [OF b(5,6) small b(15), of "hlit + hdist" "[]" bs] b by simp
  have toks: "read_tokens (take hlit ll) (take hdist dl) out ?toks = Some (out', rest)"
    using assms b by (intro read_tokens_bits) (auto simp: block_ok_def)
  have tb: "take_bit 5 (hlit - 257) = hlit - 257" "take_bit 5 (hdist - Suc 0) = hdist - Suc 0" "take_bit 4 (hclen - 4) = hclen - 4"
    using b by (simp_all add: take_bit_nat_eq_self)
  have sc: "fold (\<lambda>i c. c[code_length_order ! i := ?order ! i]) [0..<hclen] (replicate 19 0) = cl" by (rule scatter [OF b(6,13,14)])
  have "read_dynamic out (lsb 5 (hlit - 257) @ lsb 5 (hdist - 1) @ lsb 4 (hclen - 4) @
      concat (map (\<lambda>i. lsb 3 (cl ! (CLORDER ! i))) [0..<hclen]) @ concat (map (rle_stream cl) (rle_lens ?lens)) @ ?toks) = Some (out', rest)"
    using b(8,10,12) sc nums lens toks b(2) b(9) unfolding read_dynamic_def by (simp add: tb Let_def)
  moreover have "take_bit 1 (of_bool final) = (of_bool final :: nat)" "take_bit 2 2 = (2 :: nat)" by (simp_all add: take_bit_eq_mod)
  ultimately show ?thesis by (subst inflate_blocks.simps) (simp add: dynamic_stream_def)
qed

end
