(* ===== verification/Deflate.thy ===== *)
theory Deflate
  imports Deflate_Dynamic
begin

text \<open>
  The whole compressor: \<open>write_block\<close> sends the data of its tokens in at most the bits a stored block takes, the tokens of the main loop stand
  for the input, and so what \<open>deflate_compress\<close> gives is read back as the input, never more than a few bytes longer. At the end the
  checksum.
\<close>

section \<open>The size of a block\<close>

lemma weigh:
  fixes f :: "nat \<Rightarrow> nat"
  assumes "set xs \<subseteq> {..<n}"
  shows "sum_list (map (\<lambda>i. count_list xs i * f i) [0..<n]) = sum_list (map f xs)"
proof -
  have "sum_list (map (\<lambda>i. count_list xs i * f i) [0..<n]) = (\<Sum>i<n. count_list xs i * f i)"
    by (simp add: sum_list_sum_nth atLeast0LessThan)
  also have "\<dots> = (\<Sum>i\<in>set xs. count_list xs i * f i)"
    using assms by (intro sum.mono_neutral_right) (auto simp: count_list_0_iff)
  finally show ?thesis by (simp add: sum_list_map_eq_sum_count)
qed

lemma count_filter: "(\<And>x. x \<in> set xs \<Longrightarrow> P x \<Longrightarrow> g x = h x + k) \<Longrightarrow> (\<And>x. x \<in> set xs \<Longrightarrow> \<not> P x \<Longrightarrow> g x < k) \<Longrightarrow>
    count_list (map g xs) (i + k) = count_list (map h (filter P xs)) i" for i k :: nat
  by (induction xs) fastforce+

lemma rle_lens_length: "length (rle_lens xs) \<le> length xs"
proof (induction "length xs" arbitrary: xs rule: less_induct)
  case less
  show ?case
  proof (cases xs)
    case (Cons v vs)
    have IH: "length (rle_lens (drop k (v # vs))) \<le> length (v # vs) - k" if "0 < k" for k
      using less [of "drop k (v # vs)"] that Cons by simp
    have "length (takeWhile ((=) v) vs) \<le> length vs" by (rule length_takeWhile_le)
    moreover have "length (rle_lens (v # vs)) \<le> length (v # vs)" if "length (takeWhile ((=) v) vs) \<le> length vs"
    proof (cases rule: rle_step [of v vs])
      case (zeros k)
      then show ?thesis using IH [of k] that by simp
    next
      case (repeat k)
      then show ?thesis using IH [of "1 + k"] that by simp
    next
      case single
      then show ?thesis using IH [of 1] by simp
    qed
    ultimately show ?thesis by (simp add: Cons)
  qed simp
qed

abbreviation matches :: "tok list \<Rightarrow> tok list" where
  "matches t \<equiv> filter (\<lambda>t. tdist t \<noteq> 0) t"

lemma tok_bits_length:
  "sum_list (map (\<lambda>x. length (tok_bits ll dl x)) t) = sum_list (map (\<lambda>x. ll ! lit_sym x) t) +
     sum_list (map (\<lambda>x. LEXT ! len_sym (tlen x)) (matches t)) + sum_list (map (\<lambda>x. dl ! dist_sym (tdist x) + DEXT ! dist_sym (tdist x)) (matches t))"
  by (induction t) (auto simp: tok_bits_def lit_sym_def)

lemma tok_syms:
  assumes "tok_ok out t"
  shows "lit_sym t < 286" "lit_sym t \<noteq> 256" "tdist t \<noteq> 0 \<Longrightarrow> dist_sym (tdist t) < 30 \<and> len_sym (tlen t) < 29"
  using assms len_sym_ok(1) [of "tlen t"] dist_sym_ok(1) [of "tdist t"] by (auto simp: lit_sym_def tok_ok_def split: if_splits)

text \<open>The frequencies of a block, as counts of symbols.\<close>

lemma block_freqs:
  assumes "fold count_tok t (replicate 286 0, replicate 30 0) = (lf, df)" "expands t out = Some out'" "length t < 2 ^ 32"
  shows "length lf = 286" "length df = 30" "i < 286 \<Longrightarrow> lf[256 := 1] ! i = count_list (map lit_sym t @ [256]) i"
    "i < 30 \<Longrightarrow> df ! i = count_list (map (\<lambda>x. dist_sym (tdist x)) (matches t)) i"
proof -
  have e: "lf = fold (\<lambda>t f. count_up f (lit_sym t)) t (replicate 286 0)"
    "df = fold (\<lambda>t f. count_up f (dist_sym (tdist t))) (matches t) (replicate 30 0)"
    using assms(1) by (simp_all add: count_toks)
  show len: "length lf = 286" "length df = 30" by (simp_all add: e count_fold_length)
  have small: "count_list (map g xs) i < 2 ^ 32" if "length xs \<le> length t" for xs and g :: "tok \<Rightarrow> nat" and i
    using count_le_length [of "map g xs" i] that assms(3) by simp
  have no: "count_list (map lit_sym t) 256 = 0"
    using expands_ok [OF assms(2)] tok_syms(2) by (fastforce simp: count_list_0_iff)
  show "i < 286 \<Longrightarrow> lf[256 := 1] ! i = count_list (map lit_sym t @ [256]) i"
    using count_fold [of i "replicate 286 0" lit_sym t] small [of t lit_sym i] no len(1) by (cases "i = 256") (auto simp: e)
  show "i < 30 \<Longrightarrow> df ! i = count_list (map (\<lambda>x. dist_sym (tdist x)) (matches t)) i"
    using count_fold [of i "replicate 30 0" "\<lambda>x. dist_sym (tdist x)" "matches t"]
      small [of "matches t" "\<lambda>x. dist_sym (tdist x)" i] by (simp add: e)
qed

lemma dynamic_size:
  assumes "fold count_tok t (replicate 286 0, replicate 30 0) = (lf, df)" "expands t out = Some out'" "length t < 2 ^ 32"
    "length cl = 19" "4 \<le> hclen"
  shows "length (dynamic_stream final hlit hdist hclen rle ll dl cl t) = dynamic_bits hclen rle cl (lf[256 := 1]) ll df dl"
proof -
  note f = block_freqs [OF assms(1-3)]
  have ok: "lit_sym x < 286 \<and> (tdist x \<noteq> 0 \<longrightarrow> dist_sym (tdist x) < 30 \<and> len_sym (tlen x) < 29)" if "x \<in> set t" for x
    using expands_ok [OF assms(2) that] tok_syms by blast
  have 1: "sum_list (map (\<lambda>i. lf[256 := 1] ! i * ll ! i) [0..<286]) = sum_list (map (\<lambda>x. ll ! lit_sym x) t) + ll ! 256"
  proof -
    have m: "map (\<lambda>i. lf[256 := 1] ! i * ll ! i) [0..<286] = map (\<lambda>i. count_list (map lit_sym t @ [256]) i * ll ! i) [0..<286]"
      using f(3) by (intro map_cong) auto
    have u: "set (map lit_sym t @ [256]) \<subseteq> {..<286}" using ok by auto
    show ?thesis unfolding m weigh [OF u] by (simp add: o_def)
  qed
  have 2: "sum_list (map (\<lambda>i. lf[256 := 1] ! (257 + i) * LEXT ! i) [0..<29]) = sum_list (map (\<lambda>x. LEXT ! len_sym (tlen x)) (matches t))"
  proof -
    have lit: "lit_sym x < 257" if "x \<in> set t" "tdist x = 0" for x
      using expands_ok [OF assms(2) that(1)] that(2) by (auto simp: lit_sym_def tok_ok_def)
    have c: "count_list (map lit_sym t) (i + 257) = count_list (map (\<lambda>x. len_sym (tlen x)) (matches t)) i" for i
      using lit by (intro count_filter) (auto simp: lit_sym_def)
    have n: "lf[256 := 1] ! (257 + i) = count_list (map (\<lambda>x. len_sym (tlen x)) (matches t)) i" if "i < 29" for i
    proof -
      have "lf[256 := 1] ! (257 + i) = count_list (map lit_sym t @ [256]) (257 + i)" by (rule f(3)) (use that in simp)
      then show ?thesis using c [of i] by (simp add: add.commute)
    qed
    have m: "map (\<lambda>i. lf[256 := 1] ! (257 + i) * LEXT ! i) [0..<29] =
        map (\<lambda>i. count_list (map (\<lambda>x. len_sym (tlen x)) (matches t)) i * LEXT ! i) [0..<29]"
    proof (rule map_cong [OF refl])
      fix i assume "i \<in> set [0..<29]"
      then have "i < 29" by simp
      then show "lf[256 := 1] ! (257 + i) * LEXT ! i = count_list (map (\<lambda>x. len_sym (tlen x)) (matches t)) i * LEXT ! i" by (simp only: n)
    qed
    have u: "set (map (\<lambda>x. len_sym (tlen x)) (matches t)) \<subseteq> {..<29}" using ok by auto
    show ?thesis unfolding m weigh [OF u] by (simp add: o_def)
  qed
  have 3: "sum_list (map (\<lambda>i. df ! i * (dl ! i + DEXT ! i)) [0..<30]) =
      sum_list (map (\<lambda>x. dl ! dist_sym (tdist x) + DEXT ! dist_sym (tdist x)) (matches t))"
  proof -
    have m: "map (\<lambda>i. df ! i * (dl ! i + DEXT ! i)) [0..<30] =
        map (\<lambda>i. count_list (map (\<lambda>x. dist_sym (tdist x)) (matches t)) i * (dl ! i + DEXT ! i)) [0..<30]"
      using f(4) by (intro map_cong) auto
    have u: "set (map (\<lambda>x. dist_sym (tdist x)) (matches t)) \<subseteq> {..<30}" using ok by auto
    show ?thesis unfolding m weigh [OF u] by (simp add: o_def)
  qed
  have "length (dynamic_stream final hlit hdist hclen rle ll dl cl t) =
      17 + 3 * hclen + sum_list (map (\<lambda>r. cl ! fst r + rle_bits (fst r)) rle) + sum_list (map (\<lambda>x. length (tok_bits ll dl x)) t) + ll ! 256"
    by (simp add: dynamic_stream_def length_concat o_def rle_stream_def sum_list_triv)
  then show ?thesis unfolding dynamic_bits_def 1 2 3 tok_bits_length by simp
qed



section \<open>Blocks\<close>

lemma stored_bits_size:
  assumes "length data + 65534 < 2 ^ 32"
  shows "8 * length data + 40 * ((length data + 65534) div 65535 + of_bool (data = [])) + (if nbits w = 0 then 0 else 2) \<le> stored_bits (length data)"
  using assms by (simp add: stored_bits_def)

lemma huff_lengths_15: "length freq \<in> {2..286} \<Longrightarrow> \<exists>ls. huff_lengths freq 15 = Some ls \<and> lengths_ok freq 15 ls"
  by (rule huff_lengths_ok) auto

lemma huff_lengths_7: "length freq = 19 \<Longrightarrow> \<exists>ls. huff_lengths freq 7 = Some ls \<and> lengths_ok freq 7 ls"
  by (rule huff_lengths_ok) auto

text \<open>The tables \<open>write_block\<close> makes are fit for its tokens.\<close>

lemma block_tables:
  assumes f: "fold count_tok t (replicate 286 0, replicate 30 0) = (lf, df)" "expands t out = Some out'" "length t < 2 ^ 31"
    and ll: "lengths_ok (lf[256 := 1]) 15 ll" and dl: "lengths_ok df 15 dl"
    and hlit: "hlit = trim (\<lambda>i. ll ! i) 257 286" and hdist: "hdist = trim (\<lambda>i. dl ! i) 1 30"
    and cl: "lengths_ok (fold (\<lambda>r f. count_up f (fst r)) (rle_lens (take hlit ll @ take hdist dl)) (replicate 19 0)) 7 cl"
    and hclen: "hclen = trim (\<lambda>i. cl ! (CLORDER ! i)) 4 19"
  shows "block_ok hlit hdist hclen ll dl cl t"
proof -
  let ?rle = "rle_lens (take hlit ll @ take hdist dl)"
  note fr = block_freqs [OF f(1,2)]
  have t32: "length t < 2 ^ 32" using f(3) by simp
  have len: "length ll = 286" "length dl = 30" "length cl = 19"
    using ll dl cl fr(1,2) [OF t32] by (simp_all add: lengths_ok_def count_fold_length)
  have c: "codes_ok ll" "codes_ok dl" "codes_ok cl"
    using lengths_codes [OF ll] lengths_codes [OF dl] lengths_codes [OF cl] fr(1,2) [OF t32] by (simp_all add: count_fold_length)
  have sym: "lit_sym x \<in> used ll \<and> (tdist x \<noteq> 0 \<longrightarrow> dist_sym (tdist x) \<in> used dl)" if x: "x \<in> set t" for x
  proof -
    obtain o' where "tok_ok o' x" using expands_ok [OF f(2) x] by blast
    note s = tok_syms [OF this]
    have "lf[256 := 1] ! lit_sym x \<noteq> 0" using fr(3) [OF t32 s(1)] x by (simp add: count_list_0_iff)
    then have "lit_sym x \<in> used (lf[256 := 1])" using s(1) fr(1) [OF t32] by (simp add: used_def)
    moreover have "dist_sym (tdist x) \<in> used df" if "tdist x \<noteq> 0"
    proof -
      have "dist_sym (tdist x) \<in> set (map (\<lambda>x. dist_sym (tdist x)) (matches t))" using x that by auto
      then have "df ! dist_sym (tdist x) \<noteq> 0" using fr(4) [OF t32] s(3) [OF that] by (metis count_list_0_iff)
      then show ?thesis using fr(2) [OF t32] s(3) [OF that] by (simp add: used_def)
    qed
    ultimately show ?thesis using ll dl by (auto simp: lengths_ok_def)
  qed
  have "lf[256 := 1] ! 256 \<noteq> 0" using fr(1) [OF t32] by simp
  then have "256 \<in> used (lf[256 := 1])" using fr(1) [OF t32] by (simp add: used_def)
  then have eob: "ll ! 256 \<noteq> 0" using ll by (auto simp: lengths_ok_def used_def)
  have rle: "cl ! fst r \<noteq> 0" if r: "r \<in> set ?rle" for r
  proof -
    have "length ?rle \<le> 316" using rle_lens_length [of "take hlit ll @ take hdist dl"] len by simp
    then have "fst r \<in> used (fold (\<lambda>r f. count_up f (fst r)) ?rle (replicate 19 0))"
      using rle_lens_ok [OF small_lens [OF c(1,2)]] r by (intro count_pos) auto
    then show ?thesis using cl by (auto simp: lengths_ok_def used_def)
  qed
  have h: "257 \<le> hlit" "hlit \<le> 286" "\<forall>j. hlit \<le> j \<and> j < 286 \<longrightarrow> ll ! j = 0"
    using trim_zeros [of 257 286 "\<lambda>i. ll ! i"] unfolding hlit [symmetric] by auto
  have hd: "1 \<le> hdist" "hdist \<le> 30" "\<forall>j. hdist \<le> j \<and> j < 30 \<longrightarrow> dl ! j = 0"
    using trim_zeros [of 1 30 "\<lambda>i. dl ! i"] unfolding hdist [symmetric] by auto
  have hc: "4 \<le> hclen" "hclen \<le> 19" "\<forall>i. hclen \<le> i \<and> i < 19 \<longrightarrow> cl ! (CLORDER ! i) = 0"
    using trim_zeros [of 4 19 "\<lambda>i. cl ! (CLORDER ! i)"] unfolding hclen [symmetric] by auto
  have has: "has_codes ll dl x" if "x \<in> set t" for x using sym [OF that] by (auto simp: has_codes_def used_def)
  have seven: "\<forall>l\<in>set cl. l \<le> 7" using cl by (simp add: lengths_ok_def)
  show ?thesis unfolding block_ok_def using len c h hd hc rle eob has seven by blast
qed

lemma write_block_writes:
  assumes "expands t out = Some (out @ data)" "length t < 2 ^ 31" "length data + 65534 < 2 ^ 32"
  obtains w' where "write_block al t data final w = Some w'" "writes al w w' out data final (stored_bits (length data))"
proof -
  obtain lf df where f: "fold count_tok t (replicate 286 0, replicate 30 0) = (lf, df)" by force
  have t32: "length t < 2 ^ 32" using assms(2) by simp
  note fr = block_freqs [OF f assms(1) t32]
  obtain ll where ll: "huff_lengths (lf[256 := 1]) 15 = Some ll" "lengths_ok (lf[256 := 1]) 15 ll"
    using huff_lengths_15 [of "lf[256 := 1]"] fr(1) by auto
  obtain dl where dl: "huff_lengths df 15 = Some dl" "lengths_ok df 15 dl" using huff_lengths_15 [of df] fr(2) by auto
  define hlit hdist where "hlit = trim (\<lambda>i. ll ! i) 257 286" and "hdist = trim (\<lambda>i. dl ! i) 1 30"
  define rle where "rle = rle_lens (take hlit ll @ take hdist dl)"
  define cf where "cf = fold (\<lambda>r f. count_up f (fst r)) rle (replicate 19 0)"
  obtain cl where cl: "huff_lengths cf 7 = Some cl" "lengths_ok cf 7 cl"
    using huff_lengths_7 [of cf] by (auto simp: cf_def count_fold_length)
  define hclen where "hclen = trim (\<lambda>i. cl ! (CLORDER ! i)) 4 19"
  define big where "big = (stored_bits (length data) \<le> dynamic_bits hclen rle cl (lf[256 := 1]) ll df dl)"
  let ?s = "stored_blocks al data final w" and ?d = "put_dynamic al final hlit hdist hclen rle ll dl cl t w"
  have w: "write_block al t data final w = Some (if big then ?s else ?d)"
    unfolding write_block_def f prod.case Let_def ll(1) dl(1) Option.bind.simps hlit_def [symmetric] hdist_def [symmetric] rle_def [symmetric]
      cf_def [symmetric] cl(1) hclen_def [symmetric] big_def ..
  have ok: "block_ok hlit hdist hclen ll dl cl t"
    by (rule block_tables [OF f assms(1,2) ll(2) dl(2) hlit_def hdist_def cl(2) [unfolded cf_def rle_def] hclen_def])
  have "writes al w (if big then ?s else ?d) out data final (stored_bits (length data))"
  proof (cases big)
    case True
    then show ?thesis using writes_mono [OF stored_blocks_writes stored_bits_size [OF assms(3)]] by simp
  next
    case False
    have "writes al w ?d out data final (stored_bits (length data))"
    proof (rule writesI [OF put_dynamic_emits [OF ok assms(1), folded rle_def]])
      have "length (dynamic_stream final hlit hdist hclen rle ll dl cl t) = dynamic_bits hclen rle cl (lf[256 := 1]) ll df dl"
        using ok by (intro dynamic_size [OF f assms(1) t32]) (auto simp: block_ok_def)
      then show "length (dynamic_stream final hlit hdist hclen rle ll dl cl t) \<le> stored_bits (length data)" using False by (simp add: big_def)
    qed (rule read_dynamic_stream [OF ok assms(1), folded rle_def])
    then show ?thesis using False by simp
  qed
  then show thesis using that w by blast
qed



section \<open>Tokens for the input\<close>

definition is_match :: "byte list \<Rightarrow> nat \<Rightarrow> nat \<Rightarrow> nat \<Rightarrow> bool" where
  "is_match s p m d = (p + m \<le> length s \<and> 1 \<le> d \<and> d \<le> 32768 \<and> d \<le> p \<and> (\<forall>k<m. s ! (p - d + k) = s ! (p + k)))"

lemma copy_match_take:
  "p + m \<le> length s \<Longrightarrow> 1 \<le> d \<Longrightarrow> d \<le> p \<Longrightarrow> \<forall>k<m. s ! (p - d + k) = s ! (p + k) \<Longrightarrow> copy_match m d (take p s) = take (p + m) s"
proof (induction m arbitrary: p)
  case (Suc m)
  have "s ! (p - d) = s ! p" using Suc.prems(4) [rule_format, of 0] by simp
  then have "copy_match (Suc m) d (take p s) = copy_match m d (take (Suc p) s)"
    using Suc.prems(1-3) by (simp add: take_Suc_conv_app_nth)
  also have "\<dots> = take (Suc p + m) s"
  proof (rule Suc.IH)
    show "\<forall>k<m. s ! (Suc p - d + k) = s ! (Suc p + k)" using Suc.prems(3,4) by (auto simp: Suc_diff_le)
  qed (use Suc.prems in auto)
  finally show ?case by simp
qed simp

lemma match_len_is_match:
  assumes "c < p" "p - c \<le> 32768" "p + mx \<le> length s"
  shows "is_match s p (match_len s c p mx) (p - c)" "match_len s c p mx \<le> mx"
proof -
  let ?w = "takeWhile (\<lambda>k. s ! (c + k) = s ! (p + k)) [0..<mx]"
  show le: "match_len s c p mx \<le> mx" using length_takeWhile_le [of _ "[0..<mx]"] by (simp add: match_len_def)
  have "s ! (c + k) = s ! (p + k)" if "k < length ?w" for k
  proof -
    have "k < mx" using that length_takeWhile_le [of _ "[0..<mx]"] by (metis diff_zero length_upt less_le_trans)
    then have "?w ! k = k" using takeWhile_nth [OF that] by simp
    then show ?thesis using set_takeWhileD [OF nth_mem [OF that]] by simp
  qed
  then show "is_match s p (match_len s c p mx) (p - c)" using assms le by (auto simp: is_match_def match_len_def)
qed

lemma chase_is_match:
  "p + mx \<le> length s \<Longrightarrow> best = 0 \<or> best \<le> mx \<and> is_match s p best dst \<Longrightarrow> chase s p mx prev n cand best dst = (b, d) \<Longrightarrow>
    b = 0 \<or> b \<le> mx \<and> is_match s p b d"
proof (induction s p mx prev n cand best dst rule: chase.induct)
  case (2 s p mx prev n cand best dst)
  let ?c = "nat cand"
  show ?case
  proof (cases "cand < 0 \<or> p \<le> ?c \<or> WSIZE < p - ?c")
    case True
    then show ?thesis using "2.prems"(2,3) by simp
  next
    case False
    then have m: "is_match s p (match_len s ?c p mx) (p - ?c)" "match_len s ?c p mx \<le> mx"
      using "2.prems"(1) by (auto intro!: match_len_is_match simp: WSIZE_def)
    show ?thesis
    proof (cases "s ! (?c + best) = s ! (p + best) \<and> s ! ?c = s ! p \<and> best < match_len s ?c p mx")
      case True
      show ?thesis
      proof (cases "match_len s ?c p mx = mx")
        case eq: True
        then show ?thesis using "2.prems"(3) False True m by (auto simp: Let_def)
      next
        case ne: False
        show ?thesis by (rule "2.IH"(1) [OF refl False refl refl True ne]) (use "2.prems" False True ne m in \<open>auto simp: Let_def\<close>)
      qed
    next
      case no: False
      show ?thesis by (rule "2.IH"(2) [OF refl False refl refl no]) (use "2.prems" False no in \<open>auto simp: Let_def\<close>)
    qed
  qed
qed simp

lemma longest_is_match:
  assumes "longest s p head prev = (m, d)" "m \<noteq> 0" "p \<le> length s"
  shows "3 \<le> m" "m \<le> 258" "is_match s p m d"
proof -
  define mx where "mx = (if length s - p < MAX_MATCH then length s - p else MAX_MATCH)"
  obtain b e where c: "chase s p mx prev CHAIN_MAX (head ! hash3 s p) 0 0 = (b, e)" by force
  have l: "longest s p head prev = (if mx < MIN_MATCH then (0, 0) else (if MIN_MATCH \<le> b then b else 0, e))"
    unfolding longest_def mx_def [symmetric] Let_def c by simp
  then have m: "m = b" "d = e" "3 \<le> b" using assms(1,2) by (auto simp: MIN_MATCH_def split: if_splits)
  have "p + mx \<le> length s" using assms(3) by (auto simp: mx_def)
  then have "b = 0 \<or> b \<le> mx \<and> is_match s p b e" using c by (rule chase_is_match [OF _ disjI1 [OF refl]])
  then show "3 \<le> m" "m \<le> 258" "is_match s p m d" using m by (auto simp: mx_def MAX_MATCH_def split: if_splits)
qed

lemma expands_append: "expands (xs @ ys) out = (case expands xs out of None \<Rightarrow> None | Some out' \<Rightarrow> expands ys out')"
  by (induction xs arbitrary: out) auto

lemma copy_match_length: "length (copy_match n d out) = length out + n"
  by (induction n arbitrary: out) auto

lemma expands_length: "expands ts out = Some out' \<Longrightarrow> length out + length ts \<le> length out' \<and> length out' \<le> length out + 258 * length ts"
proof (induction ts arbitrary: out)
  case (Cons t ts)
  then show ?case by (cases "tdist t = 0") (fastforce simp: tok_ok_def copy_match_length split: if_splits)+
qed simp

text \<open>The tokens since the last block stand for the input since then.\<close>

definition lz_ok :: "byte list \<Rightarrow> comp \<Rightarrow> bool" where
  "lz_ok s c = (block_start c \<le> pos c \<and> pos c \<le> length s \<and> expands (toks c) (take (block_start c) s) = Some (take (pos c) s))"

lemma take_literal_ok: "lz_ok s c \<Longrightarrow> pos c < length s \<Longrightarrow> lz_ok s (take_literal s c)"
  using unsigned_less [of "s ! pos c"] by (auto simp: lz_ok_def take_literal_def expands_append tok_ok_def take_Suc_conv_app_nth)

lemma take_match_ok:
  assumes "lz_ok s c" "3 \<le> m" "m \<le> 258" "is_match s (pos c) m d"
  shows "lz_ok s (take_match s k m d c)"
proof -
  have "copy_match m d (take (pos c) s) = take (pos c + m) s" using assms(4) by (intro copy_match_take) (auto simp: is_match_def)
  then show ?thesis using assms by (auto simp: lz_ok_def take_match_def expands_append tok_ok_def is_match_def)
qed

lemma next_token_ok:
  assumes "lz_ok s c" "pos c < length s"
  shows "lz_ok s (next_token s c)" "pos c < pos (next_token s c)" "block_start (next_token s c) = block_start c"
    "cw (next_token s c) = cw c" "length (toks (next_token s c)) \<le> length (toks c) + 2"
proof -
  obtain m d where l: "longest s (pos c) (fst (chains c)) (snd (chains c)) = (m, d)" by force
  define c1 where "c1 = c\<lparr>chains := insert_pos s (pos c) (chains c)\<rparr>"
  obtain m2 d2 where l2: "longest s (pos c + 1) (fst (chains c1)) (snd (chains c1)) = (m2, d2)" by force
  have c1: "lz_ok s c1" "pos c1 = pos c" "block_start c1 = block_start c" "cw c1 = cw c" "toks c1 = toks c"
    using assms(1) by (auto simp: c1_def lz_ok_def)
  have lit: "lz_ok s (take_literal s c1)" using take_literal_ok c1 assms(2) by simp
  have step: "pos (take_match s k a b x) = pos x + a" "block_start (take_match s k a b x) = block_start x" "cw (take_match s k a b x) = cw x"
    "length (toks (take_match s k a b x)) = Suc (length (toks x))" "pos (take_literal s x) = pos x + 1"
    "block_start (take_literal s x) = block_start x" "cw (take_literal s x) = cw x" "length (toks (take_literal s x)) = Suc (length (toks x))" for k a b x
    by (simp_all add: take_match_def take_literal_def)
  have n: "next_token s c = (if m \<noteq> 0 \<and> m < GOOD_LAZY \<and> pos c + 1 < length s then
      if m < m2 then take_match s 0 m2 d2 (take_literal s c1) else take_match s 1 m d c1
      else if m \<noteq> 0 then take_match s 0 m d c else take_literal s c1)"
    unfolding next_token_def l prod.case c1_def [symmetric] Let_def l2 ..
  have mt: "m \<noteq> 0 \<Longrightarrow> 3 \<le> m \<and> m \<le> 258 \<and> is_match s (pos c) m d" using longest_is_match [OF l] assms(2) by auto
  have mt2: "m2 \<noteq> 0 \<Longrightarrow> 3 \<le> m2 \<and> m2 \<le> 258 \<and> is_match s (pos c + 1) m2 d2" using longest_is_match [OF l2] assms(2) by auto
  show "lz_ok s (next_token s c)" unfolding n
    using mt mt2 lit c1 assms(1) by (auto intro!: take_match_ok simp: step)
  show "pos c < pos (next_token s c)" "block_start (next_token s c) = block_start c"
    "cw (next_token s c) = cw c" "length (toks (next_token s c)) \<le> length (toks c) + 2"
    unfolding n using c1 by (auto simp: step)
qed



section \<open>The main loop\<close>

lemma writes_refl: "writes al w w out [] False 0"
  by (simp add: writes_def)

lemma stored_bits_le:
  assumes "raw + 65534 < 2 ^ 32"
  shows "stored_bits raw \<le> 8 * raw + 40 * (raw div 32766) + 48"
proof -
  have "raw div 65535 \<le> raw div 32766" by (rule div_le_mono2) auto
  moreover have "(raw + 65534) div 65535 + of_bool (raw = 0) \<le> raw div 65535 + 1"
    by (cases raw) (auto intro: order.trans [OF div_le_mono [of _ "Suc _ + 65535 - 1"]])
  moreover have "wrap32 (raw + 65534) = raw + 65534" using assms by simp
  ultimately show ?thesis by (simp add: stored_bits_def)
qed

lemma flush_writes:
  assumes "lz_ok s c" "length (toks c) \<le> BLOCK_TOKENS"
  obtains c' where "flush_block al s final c = Some c'" "pos c' = pos c" "block_start c' = pos c" "toks c' = []"
    "writes al (cw c) (cw c') (take (block_start c) s) (take (pos c - block_start c) (drop (block_start c) s)) final
      (8 * (pos c - block_start c) + 40 * ((pos c - block_start c) div 32766) + 48)"
    "take (block_start c) s @ take (pos c - block_start c) (drop (block_start c) s) = take (pos c) s"
    "length (toks c) \<le> pos c - block_start c"
proof -
  let ?data = "take (pos c - block_start c) (drop (block_start c) s)"
  have ok: "block_start c \<le> pos c" "pos c \<le> length s" "expands (toks c) (take (block_start c) s) = Some (take (pos c) s)"
    using assms(1) by (auto simp: lz_ok_def)
  have split: "take (block_start c) s @ ?data = take (pos c) s" using ok(1) by (metis le_add_diff_inverse take_add)
  have len: "length ?data = pos c - block_start c" using ok by simp
  have raw: "length (toks c) \<le> pos c - block_start c" "pos c - block_start c \<le> 258 * length (toks c)" using expands_length [OF ok(3)] ok by auto
  then have small: "length ?data + 65534 < 2 ^ 32" using assms(2) len by (simp add: BLOCK_TOKENS_def)
  have "length (toks c) < 2 ^ 31" using assms(2) by (simp add: BLOCK_TOKENS_def)
  from write_block_writes [OF ok(3) [folded split] this small] obtain w' where
    w: "write_block al (toks c) ?data final (cw c) = Some w'" "writes al (cw c) w' (take (block_start c) s) ?data final (stored_bits (length ?data))" .
  show thesis
  proof (rule that)
    show "flush_block al s final c = Some (c\<lparr>cw := w', block_start := pos c, toks := []\<rparr>)" by (simp add: flush_block_def w(1))
    show "writes al (cw c) (cw (c\<lparr>cw := w', block_start := pos c, toks := []\<rparr>)) (take (block_start c) s) ?data final
        (8 * (pos c - block_start c) + 40 * ((pos c - block_start c) div 32766) + 48)"
      using writes_mono [OF w(2) stored_bits_le [OF small]] unfolding len by simp
  qed (use split raw in auto)
qed

text \<open>What the writer holds: the blocks before \<open>block_start\<close>, or everything once the last block is out.\<close>

definition out_ok :: "(nat \<Rightarrow> bool) \<Rightarrow> byte list \<Rightarrow> bw \<Rightarrow> comp \<Rightarrow> bool" where
  "out_ok al s w0 c =
     (if block_start c = length s \<and> s \<noteq> [] then writes al w0 (cw c) [] s True (8 * length s + 88 * (length s div 32766) + 48)
      else writes al w0 (cw c) [] (take (block_start c) s) False (8 * block_start c + 88 * (block_start c div 32766)))"

lemma div_add_le: "a div k + b div k \<le> (a + b) div (k :: nat)"
  by (metis add_mult_distrib div_le_mono div_mult_self_is_m div_times_less_eq_dividend add_mono mult_is_0 div_by_0 add_is_0 le0 gr0I)

lemma size_step:
  fixes b p r x y z :: nat
  assumes "x + y \<le> z" "\<not> f \<Longrightarrow> 1 \<le> y" "p = b + r"
  shows "8 * b + 88 * x + (8 * r + 40 * y + 48) \<le> 8 * p + 88 * z + (if f then 48 else 0)"
  using assms by (cases f) auto

lemma flush_out_ok:
  assumes "lz_ok s c" "length (toks c) \<le> BLOCK_TOKENS" "out_ok al s w0 c" "block_start c < length s \<or> s = []"
    "final = (length s \<le> pos c)" "\<not> final \<Longrightarrow> BLOCK_TOKENS - 2 \<le> length (toks c)"
  obtains c' where "flush_block al s final c = Some c'" "pos c' = pos c" "block_start c' = pos c" "toks c' = []" "lz_ok s c'"
    "writes al w0 (cw c') [] (take (pos c) s) final (8 * pos c + 88 * (pos c div 32766) + (if final then 48 else 0))"
proof -
  obtain c' where c': "flush_block al s final c = Some c'" "pos c' = pos c" "block_start c' = pos c" "toks c' = []"
    "writes al (cw c) (cw c') (take (block_start c) s) (take (pos c - block_start c) (drop (block_start c) s)) final
      (8 * (pos c - block_start c) + 40 * ((pos c - block_start c) div 32766) + 48)"
    "take (block_start c) s @ take (pos c - block_start c) (drop (block_start c) s) = take (pos c) s"
    "length (toks c) \<le> pos c - block_start c"
    by (rule flush_writes [OF assms(1,2)])
  let ?raw = "pos c - block_start c" and ?b = "block_start c"
  have "writes al w0 (cw c) [] (take ?b s) False (8 * ?b + 88 * (?b div 32766))"
    using assms(3,4) by (auto simp: out_ok_def)
  moreover have "writes al (cw c) (cw c') ([] @ take ?b s) (take ?raw (drop ?b s)) final (8 * ?raw + 40 * (?raw div 32766) + 48)"
    using c'(5) by simp
  ultimately have "writes al w0 (cw c') [] (take ?b s @ take ?raw (drop ?b s)) final
      (8 * ?b + 88 * (?b div 32766) + (8 * ?raw + 40 * (?raw div 32766) + 48))" by (rule writes_trans)
  then have w: "writes al w0 (cw c') [] (take (pos c) s) final (8 * ?b + 88 * (?b div 32766) + (8 * ?raw + 40 * (?raw div 32766) + 48))"
    by (simp add: c'(6))
  have p: "pos c = ?b + ?raw" using assms(1) by (simp add: lz_ok_def)
  have "?b div 32766 + ?raw div 32766 \<le> pos c div 32766" using div_add_le [of ?b 32766 ?raw] p by simp
  moreover have "1 \<le> ?raw div 32766" if "\<not> final"
    using assms(6) [OF that] c'(7) div_le_mono [of 32766 ?raw 32766] by (simp add: BLOCK_TOKENS_def)
  ultimately have "8 * ?b + 88 * (?b div 32766) + (8 * ?raw + 40 * (?raw div 32766) + 48) \<le> 8 * pos c + 88 * (pos c div 32766) + (if final then 48 else 0)"
    using p by (intro size_step)
  from writes_mono [OF w this] show thesis using that [OF c'(1-4)] assms(1) c' by (simp add: lz_ok_def)
qed

lemma compress_loop_ok:
  assumes "lz_ok s c" "length (toks c) < BLOCK_TOKENS - 2" "out_ok al s w0 c" "block_start c = length s \<longrightarrow> pos c = length s"
  shows "\<exists>c'. compress_loop al s c = Some c' \<and> lz_ok s c' \<and> pos c' = length s \<and> length (toks c') < BLOCK_TOKENS - 2 \<and> out_ok al s w0 c'"
  using assms
proof (induction "length s - pos c" arbitrary: c rule: less_induct)
  case less
  show ?case
  proof (cases "pos c < length s")
    case False
    then have "compress_loop al s c = Some c" by (subst compress_loop.simps) simp
    then show ?thesis using less.prems False by (auto simp: lz_ok_def)
  next
    case True
    define n where "n = next_token s c"
    note nt = next_token_ok [OF less.prems(1) True, folded n_def]
    have bs: "block_start c < length s" using less.prems(1) True by (simp add: lz_ok_def)
    have out: "out_ok al s w0 n" using less.prems(3) nt(3,4) by (simp add: out_ok_def)
    have m: "length s - pos n < length s - pos c" using nt(2) True by simp
    show ?thesis
    proof (cases "BLOCK_TOKENS - 2 \<le> length (toks n)")
      case flush: True
      have tk: "length (toks n) \<le> BLOCK_TOKENS" using nt(5) less.prems(2) by simp
      obtain c' where c': "flush_block al s (length s \<le> pos n) n = Some c'" "pos c' = pos n" "block_start c' = pos n" "toks c' = []" "lz_ok s c'"
        "writes al w0 (cw c') [] (take (pos n) s) (length s \<le> pos n) (8 * pos n + 88 * (pos n div 32766) + (if length s \<le> pos n then 48 else 0))"
        using flush_out_ok [OF nt(1) tk out _ refl] bs nt(3) flush by metis
      have "pos n \<le> length s" using nt(1) by (simp add: lz_ok_def)
      then have "out_ok al s w0 c'" using c'(3,6) bs by (cases "pos n = length s") (auto simp: out_ok_def)
      moreover have "compress_loop al s c = compress_loop al s c'"
        using True flush c'(1) by (subst compress_loop.simps) (simp add: n_def [symmetric])
      ultimately show ?thesis using less.hyps [of c'] m c' by (simp add: BLOCK_TOKENS_def)
    next
      case False
      then have "compress_loop al s c = compress_loop al s n" using True by (subst compress_loop.simps) (simp add: n_def [symmetric])
      then show ?thesis using less.hyps [OF m nt(1) _ out] False nt(3) bs by simp
    qed
  qed
qed



section \<open>The checksum\<close>

lemma crc_shift_xor: "crc_shift (a XOR b) = crc_shift a XOR crc_shift b"
proof -
  have odd: "x AND 1 \<noteq> 0 \<longleftrightarrow> bit x 0" for x :: u32 by (simp add: and_one_eq bit_0 odd_iff_mod_2_eq_one)
  have x: "drop_bit 1 (a XOR b) = drop_bit 1 a XOR drop_bit 1 b" by (rule bit_eqI) (simp add: bit_drop_bit_eq bit_xor_iff)
  show ?thesis unfolding crc_shift_def odd bit_xor_iff x by (auto simp: xor.assoc xor.left_commute)
qed

lemma crc_shifts_xor: "(crc_shift ^^ n) (a XOR b) = (crc_shift ^^ n) a XOR (crc_shift ^^ n) b"
  by (induction n) (simp_all add: crc_shift_xor)

lemma crc_shifts_high: "(\<forall>k<n. \<not> bit x k) \<Longrightarrow> (crc_shift ^^ n) x = drop_bit n (x :: u32)"
proof (induction n)
  case (Suc n)
  have "\<not> bit (drop_bit n x) 0" using Suc.prems by (simp add: bit_drop_bit_eq)
  then have "drop_bit n x AND 1 = 0" by (simp add: and_one_eq bit_0 even_iff_mod_2_eq_zero)
  then show ?case using Suc by (simp add: crc_shift_def drop_bit_drop_bit)
qed simp

lemma crc_table_step: "g_crc_table ! unat (x AND 0xFF) XOR drop_bit 8 x = (crc_shift ^^ 8) x"
proof -
  let ?l = "x AND 0xFF" and ?h = "x AND NOT 0xFF"
  have m: "(0xFF :: u32) = mask 8" by (simp add: mask_numeral)
  have "unat ?l < 256" 
  proof -
    have "unat ?l = take_bit 8 (unat x)" unfolding m take_bit_eq_mask [symmetric] by (simp only: unsigned_take_bit_eq)
    then show ?thesis by (simp add: take_bit_eq_mod)
  qed
  then have l: "g_crc_table ! unat ?l = (crc_shift ^^ 8) ?l" by (simp add: g_crc_table_def)
  have h: "(crc_shift ^^ 8) ?h = drop_bit 8 ?h" by (rule crc_shifts_high) (auto simp: m bit_and_iff bit_not_iff bit_mask_iff)
  have d: "drop_bit 8 ?h = drop_bit 8 x" by (rule bit_eqI) (auto simp: m bit_drop_bit_eq bit_and_iff bit_not_iff bit_mask_iff dest: bit_imp_le_length)
  have x: "x = ?l XOR ?h" unfolding m by (rule bit_eqI) (auto simp: bit_mask_iff bit_and_iff bit_xor_iff bit_not_iff dest: bit_imp_le_length)
  have "(crc_shift ^^ 8) x = (crc_shift ^^ 8) ?l XOR (crc_shift ^^ 8) ?h" by (subst x) (rule crc_shifts_xor)
  then show ?thesis by (simp only: l h d)
qed

section \<open>Properties\<close>

lemma finish_ok:
  assumes "writes al w0 w [] s True n" "w0 = \<lparr>buf = [], cap = 0, bits = 0, nbits = 0, oom = False\<rparr>"
  shows "8 * length (buf (bw_align al w)) \<le> n + 7" "\<not> oom (bw_align al w) \<Longrightarrow> inflate (buf (bw_align al w)) = Some s"
    "\<forall>c. al c \<Longrightarrow> room (bw_align al w)"
proof -
  let ?w = "bw_align al w"
  have w0: "bw_ok w0" "stream w0 = []" "room w0" by (simp_all add: assms(2) bw_ok_def stream_def bits_of_bytes_def room_def)
  have ok: "bw_ok w" "length (stream w) \<le> n" using assms(1) w0 unfolding writes_def by auto
  have a: "emits al w (replicate ((8 - nbits w) mod 8) False) ?w" "nbits ?w = 0" using bw_align_emits by blast+
  have st: "stream ?w = bits_of_bytes (buf ?w)" using a(2) by (simp add: stream_def)
  have "length (stream ?w) \<le> length (stream w) + (8 - nbits w) mod 8" using a(1) ok(1) by (simp add: emits_def)
  moreover have "(8 - nbits w) mod 8 \<le> 7" by simp
  ultimately show "8 * length (buf ?w) \<le> n + 7" using ok(2) unfolding st by simp
  show "room ?w" if "\<forall>c. al c" using a(1) assms(1) w0(3) that unfolding emits_def writes_def by blast
  show "inflate (buf ?w) = Some s" if no: "\<not> oom ?w"
  proof -
    have e: "\<not> oom w" "stream ?w = stream w @ replicate ((8 - nbits w) mod 8) False" using a(1) ok(1) no by (auto simp: emits_def)
    obtain f where f: "\<not> oom w0" "stream w = stream w0 @ f" "\<forall>rest. (length (stream w) + length rest) mod 8 = 0 \<longrightarrow>
        inflate_blocks [] (f @ rest) = (if True then Some ([] @ s) else inflate_blocks ([] @ s) rest)"
      by (rule writesD [OF assms(1) w0(1) e(1)])
    have "(length (stream w) + length (replicate ((8 - nbits w) mod 8) False)) mod 8 = 0"
      using arg_cong [OF e(2) [unfolded st], of length] by (metis bits_of_bytes_length length_append mod_mult_self1_is_0)
    then show ?thesis using f(2,3) w0(2) e(2) unfolding inflate_def st by simp
  qed
qed

text \<open>
  C31. Compression ends, and what it gives, when it does not run out of memory, is a DEFLATE stream of RFC 1951 that stands for exactly
  the input, at most 11 bytes longer for every 32766 bytes and 6 more. It can only fail when an allocation fails or the input is
  longer than two billion bytes.
\<close>

theorem deflate_inflate:
  "\<exists>r. deflate_compress work al prev0 s = Some r \<and>
     (case r of
        None \<Rightarrow> \<not> (work \<and> (\<forall>n. al n) \<and> length s \<le> 2000000000)
      | Some out \<Rightarrow> inflate out = Some s \<and> length out \<le> length s + 11 * (length s div 32766) + 6)"
proof (cases work)
  case True
  define w0 where "w0 = \<lparr>buf = [], cap = 0, bits = 0, nbits = 0, oom = False\<rparr>"
  define c0 where "c0 = \<lparr>chains = (replicate HASH_SIZE (-1), prev0), toks = [], pos = 0, block_start = 0, cw = w0\<rparr>"
  have "lz_ok s c0" "length (toks c0) < BLOCK_TOKENS - 2" "out_ok al s w0 c0" "block_start c0 = length s \<longrightarrow> pos c0 = length s"
    using writes_refl by (auto simp: c0_def lz_ok_def BLOCK_TOKENS_def out_ok_def)
  from compress_loop_ok [OF this] obtain c where c: "compress_loop al s c0 = Some c" "lz_ok s c" "pos c = length s"
    "length (toks c) < BLOCK_TOKENS - 2" "out_ok al s w0 c" by blast
  let ?n = "8 * length s + 88 * (length s div 32766) + 48" and ?more = "toks c \<noteq> [] \<or> length s = 0 \<or> block_start c < length s"
  obtain c' where c': "(if ?more then flush_block al s True c else Some c) = Some c'" "writes al w0 (cw c') [] s True ?n"
  proof (cases ?more)
    case True
    have "length (toks c) \<le> pos c - block_start c"
      using expands_length [of "toks c" "take (block_start c) s"] c(2) by (auto simp: lz_ok_def)
    then have "block_start c < length s \<or> s = []" using True c(2,3) by (cases "toks c") (auto simp: lz_ok_def)
    moreover have "length (toks c) \<le> BLOCK_TOKENS" using c(4) by simp
    ultimately obtain d where d: "flush_block al s True c = Some d"
      "writes al w0 (cw d) [] (take (pos c) s) True (8 * pos c + 88 * (pos c div 32766) + (if True then 48 else 0))"
      using flush_out_ok [OF c(2) _ c(5), of True] c(3) by auto
    show thesis using that [of d] d True c(3) by simp
  next
    case False
    then have "block_start c = length s" "s \<noteq> []" using c(2,3) by (auto simp: lz_ok_def)
    then show thesis using that [of c] c(5) False by (simp add: out_ok_def)
  qed
  let ?w = "bw_align al (cw c')"
  note f = finish_ok [OF c'(2) w0_def]
  have r: "deflate_compress work al prev0 s = Some (if oom ?w then None else if cap ?w = 0 \<and> \<not> al 1 then None else Some (buf ?w))"
    using True c(1) c'(1) by (simp add: deflate_compress_def c0_def w0_def)
  have small: "length (buf ?w) \<le> length s + 11 * (length s div 32766) + 6" using f(1) by linarith
  have big: "\<not> oom ?w" if "\<forall>n. al n" "length s \<le> 2000000000"
  proof
    assume "oom ?w"
    then have "2 ^ 31 \<le> length (buf ?w)" using f(3) [OF that(1)] by (simp add: room_def)
    moreover have "length s div 32766 \<le> 2000000000 div 32766" using that(2) by (rule div_le_mono)
    ultimately show False using small that(2) by simp
  qed
  show ?thesis unfolding r using f(2) small big by auto
qed (simp add: deflate_compress_def)



end
