(* ===== verification/Ktext.thy ===== *)
theory Ktext
  imports Kprintf
begin

text \<open>
  The string functions as functions on texts: what \<open>ksnprintf\<close> and \<open>kstrlcat\<close> leave in a buffer and what \<open>k_parse_u32\<close> reads, for the
  components that use them on buffers of their own. Each is shown to be what the memory functions of \<open>kernel/kstring.c\<close> do.
\<close>

section \<open>Texts in buffers\<close>

definition ktext :: "nat \<Rightarrow> (nat \<Rightarrow> byte list) \<Rightarrow> byte list \<Rightarrow> u64 list \<Rightarrow> byte list" where
  "ktext cap str fmt ap = (case format_text str fmt ap of None \<Rightarrow> [] | Some out \<Rightarrow> take (cap - 1) out)"

definition str_cat :: "nat \<Rightarrow> byte list \<Rightarrow> byte list \<Rightarrow> byte list" where
  "str_cat cap b s = (if length b < cap then take (cap - 1) (b @ s) else b)"

definition isdigit :: "byte \<Rightarrow> bool" where
  "isdigit c \<longleftrightarrow> k_isdigit (uint c)"

definition parse_u32 :: "byte list \<Rightarrow> nat \<times> nat" where
  "parse_u32 p = (let ds = takeWhile isdigit p in (length ds, wrap32 (dec_value ds)))"

lemma ksnprintf_text:
  assumes "format_text str fmt ap = Some out" "0 \<notin> set out"
    and "\<And>a. a \<in> set (format_strs fmt ap) \<Longrightarrow> cstring m a (str a) \<and> (a + length (str a) < buf \<or> buf + n \<le> a)"
    and "0 < n"
  shows "\<exists>m'. kvsnprintf buf n fmt ap m = Some (length out, m') \<and> cstring m' buf (ktext n str fmt ap) \<and>
    (\<forall>a. a < buf \<or> buf + n \<le> a \<longrightarrow> m' a = m a)"
proof -
  obtain m' where m': "kvsnprintf buf n fmt ap m = Some (length out, m')" "\<forall>a. a < buf \<or> buf + n \<le> a \<longrightarrow> m' a = m a"
    "\<forall>i < min (length out) (n - 1). m' (buf + i) = out ! i" "m' (buf + min (length out) (n - 1)) = 0"
    using kvsnprintf_eq [OF assms(1,3,4)] by blast
  have "out ! i \<noteq> 0" if "i < length out" for i using assms(2) nth_mem [OF that] by metis
  then have "cstring m' buf (take (n - 1) out)" using m'(3,4) by (simp add: cstring_iff)
  then show ?thesis using m'(1,2) assms(1) by (auto simp: ktext_def)
qed

lemma kstrlcat_text:
  assumes "cstring m src xs" "cstring m dst ds" "length ds < n" "dst + n \<le> src \<or> src + length xs < dst"
  shows "\<exists>m'. kstrlcat dst src n m = Some (length ds + length xs, m') \<and> cstring m' dst (str_cat n ds xs) \<and>
    (\<forall>a. a < dst \<or> dst + n \<le> a \<longrightarrow> m' a = m a)"
  using kstrlcpy_bounded [OF assms] assms(3) by (simp add: str_cat_def)

lemma k_parse_u32_text:
  assumes "cstring m s xs"
  shows "k_parse_u32 s m = Some (parse_u32 xs)"
proof -
  let ?d = "takeWhile isdigit xs"
  have le: "length ?d \<le> length xs" by (rule length_takeWhile_le)
  have "m (s + length ?d) = (if length ?d < length xs then xs ! length ?d else 0)"
    using cstring_nth [OF assms, of "length ?d"] cstring_end [OF assms] le by (cases "length ?d = length xs") auto
  then have "\<not> isdigit (m (s + length ?d))"
    using nth_length_takeWhile [of isdigit xs] by (auto simp: isdigit_def k_isdigit_def)
  moreover have "m (s + i) = ?d ! i" if "i < length ?d" for i
    using cstring_nth [OF assms, of i] that le by (simp add: takeWhile_nth)
  moreover have "isdigit d" if "d \<in> set ?d" for d using set_takeWhileD [OF that] by simp
  ultimately show ?thesis using parse_u32_text [of ?d m s] by (simp add: parse_u32_def isdigit_def Let_def)
qed


section \<open>Decimal numbers\<close>

definition dec :: "nat \<Rightarrow> byte list" where
  "dec v = num_text v 10 False False 0 False False"

lemma dec_digits: "dec v = (if v = 0 then [48] else rev (num_digits v 10 False))"
  by (auto simp: dec_def num_text_def pad_text_def Let_def)

lemma dec_isdigit: "d \<in> set (dec v) \<Longrightarrow> isdigit d"
  using num_digits_dec [of v False] by (auto simp: dec_digits isdigit_def k_isdigit_def split: if_splits)

lemma dec_value_dec: "dec_value (dec v) = v"
  using num_digits_dec [of v False] by (auto simp: dec_digits dec_value_def)

lemma dec_nonempty [simp]: "dec v \<noteq> []"
  by (simp add: dec_digits) (simp add: num_digits.simps)

lemma dec_nonzero: "0 \<notin> set (dec v)"
  using dec_isdigit [of 0 v] by (auto simp: isdigit_def k_isdigit_def)

lemma num_digits_length: "v < 10 ^ n \<Longrightarrow> length (num_digits v 10 u) \<le> n"
proof (induction n arbitrary: v)
  case (Suc n)
  then have "v div 10 < 10 ^ n" by (simp add: less_mult_imp_div_less mult.commute)
  then have "length (num_digits (v div 10) 10 u) \<le> n" by (rule Suc.IH)
  then show ?case by (cases "v = 0") (simp_all add: num_digits.simps [of v])
qed (simp add: num_digits.simps)

lemma dec_length: "v < 10 ^ n \<Longrightarrow> 0 < n \<Longrightarrow> length (dec v) \<le> n"
  by (simp add: dec_digits num_digits_length)

lemma dec_length_pos: "0 < length (dec v)"
  by simp

text \<open>A number that ends, at the end of the text or at another character, is read back.\<close>

lemma parse_u32_dec:
  assumes "v < 2 ^ 32" "q = [] \<or> \<not> isdigit (hd q)"
  shows "parse_u32 (dec v @ q) = (length (dec v), v)"
proof -
  have "takeWhile isdigit (dec v @ q) = dec v @ takeWhile isdigit q" using dec_isdigit by (simp add: takeWhile_append2)
  also have "takeWhile isdigit q = []" using assms(2) by (cases q) auto
  finally show ?thesis using assms(1) by (simp add: parse_u32_def dec_value_dec)
qed

text \<open>Formats made of text, \<open>%u\<close> and \<open>%s\<close>.\<close>

lemma format_text_u: "format_text str (37 # 117 # p) (a # ap) = map_option ((@) (dec (unat (ucast a :: u32)))) (format_text str p ap)"
  by (simp add: read_spec_def k_isdigit_def convert_text_def dec_def)

lemma format_text_s:
  "a \<noteq> 0 \<Longrightarrow> format_text str (37 # 115 # p) (a # ap) = map_option ((@) (str (unat a))) (format_text str p ap)"
  by (simp add: read_spec_def k_isdigit_def convert_text_def str_text_def pad_text_def)

lemma format_text_plain: "c \<noteq> 37 \<Longrightarrow> format_text str (c # p) ap = map_option (Cons c) (format_text str p ap)"
  by simp

lemmas format_simps = format_text_u format_text_s format_text_plain

declare format_text.simps(2) [simp del]

end
