(* ===== verification/Config.thy ===== *)
theory Config
  imports Ktext
begin

text \<open>
  Settings files, \<open>kernel/config.c\<close>: text with one \<open>key=value\<close> per line, other lines kept as they are, and the settings of the system on
  top of it (\<open>settings_get\<close> and \<open>settings_set\<close> of \<open>kernel/settings.c\<close>). A C string is the list of its bytes before the NUL; a pointer
  into a text is the rest of it from there. The file system is the state of the one file; whether memory is left and whether the
  file can be written are parameters (\<open>al\<close>, \<open>wr\<close>). \<open>cfg_persist\<close>, which writes the disk out, has no part in what is read back.
\<close>

section \<open>Model\<close>

datatype cfg_file = No_File | Not_Loaded | Content "byte list"

definition blank :: "byte \<Rightarrow> bool" where
  "blank c \<longleftrightarrow> c = 32 \<or> c = 9"

definition line_has :: "byte list \<Rightarrow> byte list \<Rightarrow> bool" where
  "line_has key e =
     (let s = dropWhile blank e
      in length key < length s \<and> take (length key) s = key \<and> s ! length key = 61)"

text \<open>The line that holds the key: the text before it, the line, and the text from its end on.\<close>

function find_line :: "byte list \<Rightarrow> byte list \<Rightarrow> byte list \<Rightarrow> (byte list \<times> byte list \<times> byte list) option" where
  "find_line key pre p =
     (if p = [] then None
      else let e = takeWhile (\<lambda>c. c \<noteq> 10) p; r = drop (length e) p
           in if line_has key e then Some (pre, e, r)
              else find_line key (pre @ e @ take 1 r) (drop 1 r))"
  by pat_completeness auto
termination find_line
  by (relation "measure (\<lambda>(_, _, p). length p)") (auto simp: not_le)

declare find_line.simps [simp del]

definition cfg_get :: "cfg_file \<Rightarrow> byte list \<Rightarrow> nat \<Rightarrow> byte list option" where
  "cfg_get f key cap =
     (case f of
        Content t \<Rightarrow>
          if cap = 0 then None
          else (case find_line key [] t of
                  None \<Rightarrow> None
                | Some (_, e, _) \<Rightarrow>
                    let v = drop 1 (dropWhile (\<lambda>c. c \<noteq> 61) e);
                        out = take (cap - 1) (takeWhile (\<lambda>c. c \<noteq> 13) v)
                    in Some (rev (dropWhile blank (rev out))))
      | _ \<Rightarrow> None)"

definition opt_len :: "byte list option \<Rightarrow> nat" where
  "opt_len v = (case v of None \<Rightarrow> 0 | Some s \<Rightarrow> length s)"

definition cfg_text :: "nat \<Rightarrow> byte list \<Rightarrow> byte list \<Rightarrow> byte list option \<Rightarrow> byte list option \<Rightarrow> byte list" where
  "cfg_text cap old key value header =
     (let buf = (case header of Some h \<Rightarrow> if old = [] then str_cat cap [] h else [] | None \<Rightarrow> []);
          line = find_line key [] old;
          buf = (case line of
                   Some (pre, _, _) \<Rightarrow> buf @ pre
                 | None \<Rightarrow> let b = str_cat cap buf old in if b \<noteq> [] \<and> last b \<noteq> 10 then str_cat cap b [10] else b);
          buf = (case value of
                   Some v \<Rightarrow> str_cat cap (str_cat cap (str_cat cap (str_cat cap buf key) [61]) v) [10]
                 | None \<Rightarrow> buf)
      in case line of
           Some (_, _, r) \<Rightarrow> if r \<noteq> [] then str_cat cap buf (drop 1 r) else buf
         | None \<Rightarrow> buf)"

definition cfg_set ::
  "(nat \<Rightarrow> bool) \<Rightarrow> (byte list \<Rightarrow> bool) \<Rightarrow> byte list \<Rightarrow> byte list option \<Rightarrow> byte list option \<Rightarrow> cfg_file \<Rightarrow> int \<times> cfg_file" where
  "cfg_set al wr key value header f =
     (if f = Not_Loaded then (-1, f)
      else if f = No_File \<and> value = None then (0, f)
      else let old = (case f of Content t \<Rightarrow> t | _ \<Rightarrow> []);
               cap = wrap32 (length old + length key + opt_len value + opt_len header + 8)
           in if \<not> al cap then (-1, f)
              else let buf = cfg_text cap old key value header
                   in if length old = length buf \<and> old = buf then (0, f)
                      else if wr buf then (0, Content buf) else (-1, f))"

text \<open>\<open># Banana OS settings (the Settings app writes this)\<close> and the end of the line.\<close>

definition settings_header :: "byte list" where
  "settings_header = [35, 32, 66, 97, 110, 97, 110, 97, 32, 79, 83, 32, 115, 101, 116, 116, 105, 110, 103, 115, 32, 40, 116, 104, 101,
     32, 83, 101, 116, 116, 105, 110, 103, 115, 32, 97, 112, 112, 32, 119, 114, 105, 116, 101, 115, 32, 116, 104, 105, 115, 41, 10]"

definition settings_set :: "(nat \<Rightarrow> bool) \<Rightarrow> (byte list \<Rightarrow> bool) \<Rightarrow> byte list \<Rightarrow> byte list \<Rightarrow> cfg_file \<Rightarrow> cfg_file" where
  "settings_set al wr key value f = snd (cfg_set al wr key (Some value) (Some settings_header) f)"

definition settings_get :: "cfg_file \<Rightarrow> byte list \<Rightarrow> nat \<Rightarrow> byte list option" where
  "settings_get f key cap = cfg_get f key cap"


section \<open>A settings file as its lines\<close>

function cfg_lines :: "byte list \<Rightarrow> byte list list" where
  "cfg_lines p =
     (if p = [] then []
      else let e = takeWhile (\<lambda>c. c \<noteq> 10) p in e # cfg_lines (drop (length e + 1) p))"
  by pat_completeness auto
termination cfg_lines by (relation "measure length") auto

declare cfg_lines.simps [simp del]

definition complete :: "byte list \<Rightarrow> bool" where
  "complete p \<longleftrightarrow> p = [] \<or> last p = 10"

lemma cfg_lines_Nil [simp]: "cfg_lines [] = []"
  by (simp add: cfg_lines.simps)

lemma first_line: "10 \<notin> set e \<Longrightarrow> takeWhile (\<lambda>c. c \<noteq> 10) (e @ 10 # q) = (e :: byte list)"
  by (induction e) auto

lemma only_line: "10 \<notin> set e \<Longrightarrow> takeWhile (\<lambda>c. c \<noteq> 10) e = (e :: byte list)"
  by (induction e) auto

lemma cfg_lines_line: "10 \<notin> set e \<Longrightarrow> cfg_lines (e @ 10 # p) = e # cfg_lines p"
  by (subst cfg_lines.simps) (simp add: first_line)

lemma cfg_lines_last: "10 \<notin> set e \<Longrightarrow> e \<noteq> [] \<Longrightarrow> cfg_lines e = [e]"
  by (subst cfg_lines.simps) (simp add: only_line)

lemma find_line_Nil [simp]: "find_line key pre [] = None"
  by (simp add: find_line.simps)

lemma find_line_last:
  "10 \<notin> set e \<Longrightarrow> e \<noteq> [] \<Longrightarrow> find_line key pre e = (if line_has key e then Some (pre, e, []) else None)"
  by (subst find_line.simps) (simp add: only_line)

lemma find_line_line:
  "10 \<notin> set e \<Longrightarrow>
   find_line key pre (e @ 10 # q) = (if line_has key e then Some (pre, e, 10 # q) else find_line key (pre @ e @ [10]) q)"
  by (subst find_line.simps) (simp add: first_line)

text \<open>Every text is empty, one line that does not end, or a line and a rest.\<close>

lemma text_cases:
  obtains "p = []" | "p \<noteq> []" "10 \<notin> set p" | e q where "p = e @ 10 # q" "10 \<notin> set e"
proof (cases "10 \<in> set p")
  case True
  then show ?thesis using split_list_first [of 10 p] that(3) by blast
qed (use that(1,2) in auto)

lemma cfg_lines_append: "complete p \<Longrightarrow> cfg_lines (p @ q) = cfg_lines p @ cfg_lines q"
proof (induction "length p" arbitrary: p rule: less_induct)
  case less
  show ?case
  proof (cases p rule: text_cases)
    case 2
    then show ?thesis using less.prems last_in_set [of p] by (auto simp: complete_def)
  next
    case (3 e r)
    have "complete r" using less.prems 3 by (cases r rule: rev_cases) (auto simp: complete_def)
    then show ?thesis using less.hyps [of r] 3 by (simp add: cfg_lines_line)
  qed simp
qed

text \<open>\<open>find_line\<close> finds the first line of the file that has the key.\<close>

lemma find_line_lines:
  "find_line key pre p =
     (case find_line key [] p of None \<Rightarrow> None | Some (a, e, r) \<Rightarrow> Some (pre @ a, e, r))"
proof (induction "length p" arbitrary: p pre rule: less_induct)
  case less
  show ?case
  proof (cases p rule: text_cases)
    case (3 e q)
    have IH: "find_line key pre q = (case find_line key [] q of None \<Rightarrow> None | Some (a, e, r) \<Rightarrow> Some (pre @ a, e, r))" for pre
      by (rule less.hyps) (simp add: 3)
    show ?thesis using IH [of "pre @ e @ [10]"] IH [of "e @ [10]"]
      unfolding 3(1) find_line_line [OF 3(2)] by (cases "find_line key [] q") auto
  qed (simp_all add: find_line_last)
qed

lemma find_line_first:
  "case find_line key [] p of
     None \<Rightarrow> (\<forall>e \<in> set (cfg_lines p). \<not> line_has key e)
   | Some (a, e, r) \<Rightarrow> p = a @ e @ r \<and> complete a \<and> 10 \<notin> set e \<and> line_has key e \<and> (r = [] \<or> hd r = 10) \<and>
       cfg_lines p = cfg_lines a @ e # cfg_lines (drop 1 r) \<and> (\<forall>x \<in> set (cfg_lines a). \<not> line_has key x)"
proof (induction "length p" arbitrary: p rule: less_induct)
  case less
  show ?case
  proof (cases p rule: text_cases)
    case 2
    then show ?thesis by (simp add: cfg_lines_last find_line_last complete_def)
  next
    case (3 e q)
    show ?thesis
    proof (cases "line_has key e")
      case True
      then show ?thesis using 3 by (simp add: cfg_lines_line find_line_line complete_def)
    next
      case False
      have "complete (e @ 10 # a) \<longleftrightarrow> complete a" for a by (cases a rule: rev_cases) (auto simp: complete_def)
      then show ?thesis using less.hyps [of q] False 3 find_line_lines [of key "e @ [10]" q]
        by (cases "find_line key [] q") (auto simp: cfg_lines_line find_line_line)
    qed
  qed simp
qed

lemma find_line_None: "find_line key [] p = None \<Longrightarrow> e \<in> set (cfg_lines p) \<Longrightarrow> \<not> line_has key e"
  using find_line_first [of p key] by simp

lemma find_line_Some:
  assumes "find_line key [] p = Some (a, e, r)"
  shows "p = a @ e @ r" and "complete a" and "10 \<notin> set e" and "line_has key e" and "r = [] \<or> hd r = 10"
    and "cfg_lines p = cfg_lines a @ e # cfg_lines (drop 1 r)" and "\<forall>x \<in> set (cfg_lines a). \<not> line_has key x"
  using find_line_first [of p key] assms by auto

text \<open>The line that counts for a key, and the value of a key as the file's lines give it.\<close>

lemma find_append: "(\<forall>x \<in> set xs. \<not> P x) \<Longrightarrow> find P (xs @ ys) = find P ys"
  by (induction xs) auto

lemma find_line_find: "map_option (\<lambda>(_, e, _). e) (find_line key [] p) = find (line_has key) (cfg_lines p)"
proof (cases "find_line key [] p")
  case None
  then show ?thesis using find_line_None [OF None] by (simp add: find_None_iff2 eq_commute)
next
  case (Some x)
  obtain a e r where x: "x = (a, e, r)" by (cases x)
  note F = find_line_Some [OF Some [unfolded x]]
  then show ?thesis using Some x by (simp add: find_append)
qed

definition line_value :: "nat \<Rightarrow> byte list \<Rightarrow> byte list" where
  "line_value cap e =
     rev (dropWhile blank (rev (take (cap - 1) (takeWhile (\<lambda>c. c \<noteq> 13) (drop 1 (dropWhile (\<lambda>c. c \<noteq> 61) e))))))"

lemma cfg_get_lines:
  "0 < cap \<Longrightarrow> cfg_get (Content t) key cap = map_option (line_value cap) (find (line_has key) (cfg_lines t))"
  unfolding find_line_find [symmetric] by (simp add: cfg_get_def line_value_def Let_def split: option.splits)


section \<open>Reading back what was set\<close>

definition good_key :: "byte list \<Rightarrow> bool" where
  "good_key k \<longleftrightarrow> k \<noteq> [] \<and> \<not> blank (hd k) \<and> 61 \<notin> set k \<and> 10 \<notin> set k"

definition good_value :: "byte list \<Rightarrow> bool" where
  "good_value v \<longleftrightarrow> 10 \<notin> set v \<and> 13 \<notin> set v \<and> (v \<noteq> [] \<longrightarrow> \<not> blank (last v))"

lemma str_cat_room: "length b + length s < cap \<Longrightarrow> str_cat cap b s = b @ s"
  by (simp add: str_cat_def)

lemma line_has_entry:
  assumes "good_key k" "good_key k'"
  shows "line_has k' (k @ 61 # v) \<longleftrightarrow> k' = k"
proof -
  have dw: "dropWhile blank (k @ 61 # v) = k @ 61 # v" using assms(1) by (cases k) (auto simp: good_key_def)
  have "k' = k" if t: "take (length k') (k @ 61 # v) = k'" "(k @ 61 # v) ! length k' = 61"
  proof (cases "length k'" "length k" rule: linorder_cases)
    case less
    then show ?thesis using t(2) assms(1) nth_mem [of "length k'" k] by (simp add: nth_append good_key_def)
  next
    case equal
    then show ?thesis using t(1) by simp
  next
    case greater
    then have "61 \<in> set (take (length k') (k @ 61 # v))" by (cases "length k' - length k") auto
    then show ?thesis using assms(2) unfolding t(1) by (simp add: good_key_def)
  qed
  moreover have "line_has k (k @ 61 # v)" using dw by (simp add: line_has_def)
  ultimately show ?thesis using dw by (auto simp: line_has_def Let_def)
qed

lemma line_one_key:
  assumes "good_key k" "good_key k'" "line_has k e" "line_has k' e"
  shows "k' = k"
proof -
  let ?s = "dropWhile blank e"
  have "?s = k @ 61 # drop (Suc (length k)) ?s"
    using assms(3) id_take_nth_drop [of "length k" ?s] by (simp add: line_has_def Let_def)
  moreover have "line_has k' ?s" using assms(4) by (simp add: line_has_def Let_def)
  ultimately show ?thesis using line_has_entry [OF assms(1,2)] by metis
qed

lemma line_value_entry:
  assumes "good_key k" "good_value v" "length v < cap"
  shows "line_value cap (k @ 61 # v) = v"
proof -
  have "dropWhile (\<lambda>c. c \<noteq> 61) (k @ 61 # v) = 61 # v" using assms(1) by (simp add: good_key_def dropWhile_append2 dropWhile_append)
  moreover have "takeWhile (\<lambda>c. c \<noteq> 13) v = v" using assms(2) by (induction v) (auto simp: good_value_def split: if_splits)
  moreover have "dropWhile blank (rev v) = rev v" using assms(2) by (cases v rule: rev_cases) (auto simp: good_value_def)
  ultimately show ?thesis using assms(3) by (simp add: line_value_def del: takeWhile_eq_all_conv)
qed

text \<open>The text that is written: the old lines, with the entry in place of the first line of its key or at the end.\<close>

definition end_line :: "byte list \<Rightarrow> byte list" where
  "end_line b = (if complete b then b else b @ [10])"

lemma cfg_lines_end_line [simp]: "cfg_lines (end_line b) = cfg_lines b" "complete (end_line b)"
proof -
  have "\<not> complete b \<Longrightarrow> cfg_lines (b @ [10]) = cfg_lines b"
  proof (induction "length b" arbitrary: b rule: less_induct)
    case less
    show ?case
    proof (cases b rule: text_cases)
      case (3 e q)
      have "\<not> complete q" using less.prems 3 by (cases q rule: rev_cases) (auto simp: complete_def)
      then show ?thesis using less.hyps [of q] 3 by (simp add: cfg_lines_line)
    qed (use less.prems in \<open>simp_all add: cfg_lines_line cfg_lines_last complete_def\<close>)
  qed
  then show "cfg_lines (end_line b) = cfg_lines b" by (simp add: end_line_def)
qed (auto simp: end_line_def complete_def)

lemma cfg_text_set:
  assumes "length old + length key + length v + length h + 8 \<le> cap"
  shows "cfg_text cap old key (Some v) (Some h) =
    (case find_line key [] old of
       Some (a, _, r) \<Rightarrow> a @ key @ 61 # v @ 10 # drop 1 r
     | None \<Rightarrow> end_line (if old = [] then h else old) @ key @ 61 # v @ [10])"
proof (cases "find_line key [] old")
  case None
  then show ?thesis using assms by (simp add: cfg_text_def Let_def str_cat_room end_line_def complete_def)
next
  case (Some x)
  obtain a e r where x: "x = (a, e, r)" by (cases x)
  note F = find_line_Some(1) [OF Some [unfolded x]]
  have "old \<noteq> []" using Some by auto
  then show ?thesis using assms Some x F by (auto simp: cfg_text_def Let_def str_cat_room)
qed

lemma cfg_lines_set:
  assumes "10 \<notin> set key" "10 \<notin> set v"
    and "length old + length key + length v + length h + 8 \<le> cap"
  shows "cfg_lines (cfg_text cap old key (Some v) (Some h)) =
    (case find_line key [] old of
       Some (a, _, r) \<Rightarrow> cfg_lines a @ (key @ 61 # v) # cfg_lines (drop 1 r)
     | None \<Rightarrow> cfg_lines (if old = [] then h else old) @ [key @ 61 # v])"
proof -
  have entry: "cfg_lines (key @ 61 # v @ 10 # q) = (key @ 61 # v) # cfg_lines q" for q
    using cfg_lines_line [of "key @ 61 # v" q] assms(1,2) by simp
  show ?thesis
    using cfg_text_set [OF assms(3)] find_line_Some(2) [of key old]
    by (auto simp: cfg_lines_append entry split: option.splits)
qed


section \<open>The store of settings as an interface\<close>

text \<open>
  What the users of the settings rely on: a value that was set is read back, and the other keys keep theirs. A file must stay below
  the 4 GiB that the code's 32-bit sizes count; \<open>room f n\<close> says that \<open>n\<close> bytes more are left, \<open>cost\<close> how many of them setting a key may take.
\<close>

locale settings_store =
  fixes get :: "'f \<Rightarrow> byte list \<Rightarrow> nat \<Rightarrow> byte list option"
    and put :: "byte list \<Rightarrow> byte list \<Rightarrow> 'f \<Rightarrow> 'f"
    and room :: "'f \<Rightarrow> nat \<Rightarrow> bool"
    and cost :: "byte list \<Rightarrow> byte list \<Rightarrow> nat"
  assumes room_less: "room f m \<Longrightarrow> n \<le> m \<Longrightarrow> room f n"
    and put_room: "good_key k \<Longrightarrow> good_value v \<Longrightarrow> room f (cost k v + n) \<Longrightarrow> room (put k v f) n"
    and get_put: "good_key k \<Longrightarrow> good_value v \<Longrightarrow> room f (cost k v) \<Longrightarrow> length v < cap \<Longrightarrow> get (put k v f) k cap = Some v"
    and get_put_other: "good_key k \<Longrightarrow> good_value v \<Longrightarrow> room f (cost k v) \<Longrightarrow> good_key k' \<Longrightarrow> k' \<noteq> k \<Longrightarrow>
      get (put k v f) k' cap = get f k' cap"
begin

definition puts :: "(byte list \<times> byte list) list \<Rightarrow> 'f \<Rightarrow> 'f" where
  "puts kvs = fold (\<lambda>(k, v). put k v) kvs"

definition costs :: "(byte list \<times> byte list) list \<Rightarrow> nat" where
  "costs kvs = sum_list (map (\<lambda>(k, v). cost k v) kvs)"

definition good_entries :: "(byte list \<times> byte list) list \<Rightarrow> bool" where
  "good_entries kvs \<longleftrightarrow> (\<forall>(k, v) \<in> set kvs. good_key k \<and> good_value v)"

lemma puts_room: "good_entries kvs \<Longrightarrow> room f (costs kvs + n) \<Longrightarrow> room (puts kvs f) n"
proof (induction kvs arbitrary: f)
  case (Cons kv kvs)
  obtain k v where kv: "kv = (k, v)" by force
  have "room (put k v f) (costs kvs + n)"
    by (rule put_room) (use Cons.prems kv in \<open>auto simp: good_entries_def costs_def add.assoc\<close>)
  then show ?case using Cons.IH Cons.prems kv by (simp add: puts_def good_entries_def)
qed (simp add: puts_def costs_def)

text \<open>After any number of settings the last value of each key counts.\<close>

lemma get_puts:
  assumes "good_entries kvs" "room f (costs kvs)" "good_key k" "\<forall>v. map_of (rev kvs) k = Some v \<longrightarrow> length v < cap"
  shows "get (puts kvs f) k cap = (case map_of (rev kvs) k of Some v \<Rightarrow> Some v | None \<Rightarrow> get f k cap)"
  using assms
proof (induction kvs rule: rev_induct)
  case (snoc kv kvs)
  obtain k1 v1 where kv: "kv = (k1, v1)" by force
  let ?g = "puts kvs f"
  have good: "good_entries kvs" "good_key k1" "good_value v1" using snoc.prems(1) kv by (auto simp: good_entries_def)
  have "room f (costs kvs + cost k1 v1)" using snoc.prems(2) kv by (simp add: costs_def)
  then have g: "room ?g (cost k1 v1)" "room f (costs kvs)" using puts_room [OF good(1)] room_less by auto
  have puts: "puts (kvs @ [kv]) f = put k1 v1 ?g" using kv by (simp add: puts_def)
  show ?case
  proof (cases "k = k1")
    case True
    then have "length v1 < cap" using snoc.prems(4) kv by simp
    then show ?thesis using get_put [OF good(2,3) g(1)] puts True kv by simp
  next
    case False
    then show ?thesis using get_put_other [OF good(2,3) g(1) snoc.prems(3), of cap] puts kv snoc.IH [OF good(1) g(2) snoc.prems(3)]
        snoc.prems(4) by simp
  qed
qed (simp add: puts_def)

end

definition file_text :: "cfg_file \<Rightarrow> byte list" where
  "file_text f = (case f of Content t \<Rightarrow> t | _ \<Rightarrow> [])"

definition cfg_room :: "cfg_file \<Rightarrow> nat \<Rightarrow> bool" where
  "cfg_room f n \<longleftrightarrow> f \<noteq> Not_Loaded \<and> length (file_text f) + n < 2 ^ 32"

definition cfg_cost :: "byte list \<Rightarrow> byte list \<Rightarrow> nat" where
  "cfg_cost k v = length k + length v + length settings_header + 8"

abbreviation working_set :: "byte list \<Rightarrow> byte list \<Rightarrow> cfg_file \<Rightarrow> cfg_file" where
  "working_set \<equiv> settings_set (\<lambda>_. True) (\<lambda>_. True)"

lemma working_set_text:
  assumes "cfg_room f (cfg_cost k v)"
  shows "working_set k v f = Content (cfg_text (length (file_text f) + cfg_cost k v) (file_text f) k (Some v) (Some settings_header))"
proof -
  let ?t = "cfg_text (length (file_text f) + cfg_cost k v) (file_text f) k (Some v) (Some settings_header)"
  have "?t \<noteq> []"
    by (subst cfg_text_set) (auto simp: cfg_cost_def split: option.splits)
  then show ?thesis using assms
    by (cases f) (auto simp: settings_set_def cfg_set_def cfg_room_def cfg_cost_def file_text_def opt_len_def Let_def add.assoc)
qed

lemma working_set_loaded: "cfg_room f (cfg_cost k v) \<Longrightarrow> working_set k v f \<noteq> Not_Loaded"
  by (simp add: working_set_text)

lemma header_no_key: "e \<in> set (cfg_lines settings_header) \<Longrightarrow> \<not> line_has k e"
proof -
  assume e: "e \<in> set (cfg_lines settings_header)"
  have "cfg_lines settings_header = [butlast settings_header]"
    using cfg_lines_line [of "butlast settings_header" "[]"] by (simp add: settings_header_def)
  then have "61 \<notin> set (dropWhile blank e)" using e by (auto simp: settings_header_def dest!: set_dropWhileD)
  then show ?thesis by (auto simp: line_has_def Let_def) (metis nth_mem)
qed

lemma working_set_lines:
  assumes "good_key k" "good_value v" "cfg_room f (cfg_cost k v)"
  shows "cfg_lines (file_text (working_set k v f)) =
    (case find_line k [] (file_text f) of
       Some (a, _, r) \<Rightarrow> cfg_lines a @ (k @ 61 # v) # cfg_lines (drop 1 r)
     | None \<Rightarrow> cfg_lines (if file_text f = [] then settings_header else file_text f) @ [k @ 61 # v])"
proof -
  have no: "10 \<notin> set k" "10 \<notin> set v" using assms(1,2) by (auto simp: good_key_def good_value_def)
  show ?thesis unfolding working_set_text [OF assms(3)]
    using cfg_lines_set [OF no, of "file_text f" settings_header "length (file_text f) + cfg_cost k v"]
    by (simp add: file_text_def cfg_cost_def)
qed

lemma settings_get_find:
  "f \<noteq> Not_Loaded \<Longrightarrow> settings_get f k cap =
     (if cap = 0 then None else map_option (line_value cap) (find (line_has k) (cfg_lines (file_text f))))"
  by (cases f) (auto simp: settings_get_def file_text_def cfg_get_lines, auto simp: cfg_get_def)

lemma find_set:
  assumes "good_key k" "good_value v" "good_key k'" "cfg_room f (cfg_cost k v)"
  shows "find (line_has k') (cfg_lines (file_text (working_set k v f))) =
    (if k' = k then Some (k @ 61 # v) else find (line_has k') (cfg_lines (file_text f)))"
proof -
  let ?t = "file_text f"
  note L = working_set_lines [OF assms(1,2,4)]
  have app: "find P (xs @ ys) = (case find P xs of Some x \<Rightarrow> Some x | None \<Rightarrow> find P ys)" for P and xs ys :: "byte list list"
    by (induction xs) auto
  have hd: "find (line_has k') (cfg_lines settings_header) = None" for k' using header_no_key by (auto simp: find_None_iff)
  note H = line_has_entry [OF assms(1,3)]
  show ?thesis
  proof (cases "find_line k [] ?t")
    case None
    then have "find (line_has k) (cfg_lines ?t) = None" using find_line_None by (auto simp: find_None_iff)
    then show ?thesis using L None hd H by (auto simp: app split: option.splits)
  next
    case (Some x)
    obtain a e r where x: "x = (a, e, r)" by (cases x)
    note F = find_line_Some [OF Some [unfolded x]]
    have "find (line_has k) (cfg_lines a) = None" using F(7) by (simp add: find_None_iff)
    moreover have "k' = k" if "line_has k' e" by (rule line_one_key [OF assms(1,3) F(4) that])
    ultimately show ?thesis using L Some x F(6) H by (auto simp: app split: option.splits)
  qed
qed


interpretation settings: settings_store settings_get working_set cfg_room cfg_cost
proof
  show "cfg_room f n" if "cfg_room f m" "n \<le> m" for f n m using that by (auto simp: cfg_room_def)
next
  fix k v f n
  assume g: "good_key k" "good_value v" and r: "cfg_room f (cfg_cost k v + n)"
  then have r1: "cfg_room f (cfg_cost k v)" by (auto simp: cfg_room_def)
  show "cfg_room (working_set k v f) n"
  proof -
    have "length (cfg_text (length (file_text f) + cfg_cost k v) (file_text f) k (Some v) (Some settings_header)) \<le> length (file_text f) + cfg_cost k v"
      by (subst cfg_text_set) (auto simp: cfg_cost_def end_line_def split: option.splits dest!: find_line_Some(1))
    then show ?thesis using r by (simp add: working_set_text [OF r1] cfg_room_def file_text_def)
  qed
next
  fix k v f cap
  assume g: "good_key k" "good_value v" "cfg_room f (cfg_cost k v)" "length v < cap"
  then show "settings_get (working_set k v f) k cap = Some v"
    using find_set [OF g(1,2,1,3)] line_value_entry [OF g(1,2,4)] by (simp add: settings_get_find working_set_loaded)
next
  fix k v f k' cap
  assume g: "good_key k" "good_value v" "cfg_room f (cfg_cost k v)" "good_key k'" "k' \<noteq> k"
  then show "settings_get (working_set k v f) k' cap = settings_get f k' cap"
    using find_set [OF g(1,2,4,3)] by (simp add: settings_get_find working_set_loaded cfg_room_def)
qed


section \<open>Properties\<close>



end
