(* ===== verification/Net_Base.thy ===== *)
theory Net_Base
  imports Ktext
begin

text \<open>
  What the network stack shares (\<open>net/net.h\<close>, \<open>net/net.c\<close>): numbers in network byte order, the checksum of the Internet protocols, addresses as
  text. A packet is the list of its bytes, its length the code's \<open>len\<close>.
\<close>

section \<open>Network byte order\<close>

type_synonym ip4 = u32

definition htons :: "u16 \<Rightarrow> u16" where
  "htons v = push_bit 8 v OR drop_bit 8 v"

definition htonl :: "u32 \<Rightarrow> u32" where
  "htonl v = push_bit 24 (v AND 0xFF) OR push_bit 8 (v AND 0xFF00) OR (drop_bit 8 v AND 0xFF00) OR drop_bit 24 v"

definition rd16 :: "byte list \<Rightarrow> nat \<Rightarrow> u16" where
  "rd16 p k = push_bit 8 (ucast (p ! k)) OR ucast (p ! (k + 1))"

definition rd32 :: "byte list \<Rightarrow> nat \<Rightarrow> u32" where
  "rd32 p k = push_bit 24 (ucast (p ! k)) OR push_bit 16 (ucast (p ! (k + 1))) OR push_bit 8 (ucast (p ! (k + 2))) OR ucast (p ! (k + 3))"

text \<open>The bytes that \<open>wr16\<close> and \<open>wr32\<close> put at their place.\<close>

definition wr16 :: "u16 \<Rightarrow> byte list" where
  "wr16 v = [ucast (drop_bit 8 v), ucast v]"

definition wr32 :: "u32 \<Rightarrow> byte list" where
  "wr32 v = [ucast (drop_bit 24 v), ucast (drop_bit 16 v), ucast (drop_bit 8 v), ucast v]"


section \<open>Checksums\<close>

fun net_csum_add :: "u32 \<Rightarrow> byte list \<Rightarrow> u32" where
  "net_csum_add acc (a # b # p) = net_csum_add (acc + (push_bit 8 (ucast a) OR ucast b)) p"
| "net_csum_add acc [a] = acc + push_bit 8 (ucast a)"
| "net_csum_add acc [] = acc"

lemma unat_drop16: "unat (drop_bit 16 (s :: u32)) = unat s div 2 ^ 16"
proof -
  have "take_bit 32 (unat s) = unat s" using unsigned_less [of s, where 'a = nat] by (simp add: take_bit_nat_eq_self)
  then have "unat (drop_bit 16 s) = drop_bit 16 (unat s)" by (simp add: unsigned_drop_bit_eq)
  then show ?thesis by (simp only: drop_bit_eq_div)
qed

lemma fold_less:
  assumes "drop_bit 16 (s :: u32) \<noteq> 0"
  shows "(s AND 0xFFFF) + drop_bit 16 s < s"
    and "unat ((s AND 0xFFFF) + drop_bit 16 s) = unat s mod 2 ^ 16 + unat s div 2 ^ 16"
proof -
  have m: "unat (s AND 0xFFFF) = unat s mod 2 ^ 16"
  proof -
    have "s AND 0xFFFF = take_bit 16 s" by (simp add: take_bit_eq_mask mask_eq_exp_minus_1)
    moreover have "unat (take_bit 16 s) = take_bit 16 (unat s)" by (rule unsigned_take_bit_eq)
    ultimately show ?thesis by (simp only: take_bit_eq_mod [of 16 "unat s"])
  qed
  note d = unat_drop16 [of s]
  have lt: "unat s < 2 ^ 32" using unsigned_less [of s] by simp
  have q: "unat s div 2 ^ 16 < 2 ^ 16" using lt by simp
  show eq: "unat ((s AND 0xFFFF) + drop_bit 16 s) = unat s mod 2 ^ 16 + unat s div 2 ^ 16"
    using q by (subst unat_add_lem [THEN iffD1]) (auto simp: m d intro: less_le_trans [OF add_strict_mono])
  have "0 < unat s div 2 ^ 16" using assms d by (metis neq0_conv unat_eq_zero)
  moreover have "r + q < n" if "q * 2 ^ 16 + r = n" "0 < q" for q r n :: nat using that by simp
  ultimately have "unat s mod 2 ^ 16 + unat s div 2 ^ 16 < unat s" using div_mult_mod_eq [of "unat s" "2 ^ 16"] by blast
  then show "(s AND 0xFFFF) + drop_bit 16 s < s" using eq by (simp add: word_less_nat_alt)
qed

function csum_loop :: "u32 \<Rightarrow> u32" where
  "csum_loop acc = (if drop_bit 16 acc \<noteq> 0 then csum_loop ((acc AND 0xFFFF) + drop_bit 16 acc) else acc)"
  by pat_completeness auto
termination csum_loop
  by (relation "measure unat") (use fold_less(1) in \<open>auto simp: word_less_nat_alt\<close>)

declare csum_loop.simps [simp del]

definition net_csum_fold :: "u32 \<Rightarrow> u16" where
  "net_csum_fold acc = ucast (NOT (csum_loop acc))"

definition net_checksum :: "byte list \<Rightarrow> u16" where
  "net_checksum p = net_csum_fold (net_csum_add 0 p)"



section \<open>Addresses as text\<close>

definition ip4_to_str :: "ip4 \<Rightarrow> byte list" where
  "ip4_to_str ip = ktext 16 (\<lambda>_. []) [37, 117, 46, 37, 117, 46, 37, 117, 46, 37, 117]
     [ucast (drop_bit 24 ip), ucast (drop_bit 16 ip AND 0xFF), ucast (drop_bit 8 ip AND 0xFF), ucast (ip AND 0xFF)]"

fun ip4_parts :: "nat \<Rightarrow> u32 \<Rightarrow> byte list \<Rightarrow> u32 option" where
  "ip4_parts 0 v s = (if s = [] then Some v else None)"
| "ip4_parts (Suc k) v s =
     (let (used, n) = parse_u32 s
      in if used = 0 \<or> 3 < used \<or> 255 < n then None
         else let v = push_bit 8 v OR of_nat n; s = drop used s
              in if 0 < k then (case s of c # s' \<Rightarrow> if c \<noteq> 46 then None else ip4_parts k v s' | [] \<Rightarrow> None)
                 else ip4_parts k v s)"

definition str_to_ip4 :: "byte list \<Rightarrow> u32 option" where
  "str_to_ip4 s = ip4_parts 4 0 s"


section \<open>What the checksum is\<close>


fun words_sum :: "byte list \<Rightarrow> nat" where
  "words_sum (a # b # p) = unat a * 256 + unat b + words_sum p"
| "words_sum [a] = unat a * 256"
| "words_sum [] = 0"

text \<open>The sum of ones' complement arithmetic: 0 only for nothing but zeros, otherwise the residue from 1 to 65535.\<close>

definition ones_sum :: "nat \<Rightarrow> nat" where
  "ones_sum n = (if n = 0 then 0 else (n - 1) mod 65535 + 1)"

lemma ones_sum_le: "ones_sum n \<le> 65535"
proof -
  have "(if n = 0 then 0 else x + 1) \<le> 65535" if "x < 65535" for x :: nat using that by simp
  from this [OF mod_less_divisor] show ?thesis by (simp only: ones_sum_def)
qed

lemma ones_sum_small: "n \<le> 65535 \<Longrightarrow> ones_sum n = n"
  by (auto simp: ones_sum_def)

lemma ones_sum_mod: "ones_sum n mod 65535 = n mod 65535"
  by (auto simp: ones_sum_def) (metis Suc_pred mod_Suc_eq)

lemma ones_sum_0: "ones_sum n = 0 \<longleftrightarrow> n = 0"
  by (simp add: ones_sum_def)

lemma ones_sum_eqI: "m mod 65535 = n mod 65535 \<Longrightarrow> 0 < m \<Longrightarrow> 0 < n \<Longrightarrow> ones_sum m = ones_sum n"
proof -
  assume a: "m mod 65535 = n mod 65535" "0 < m" "0 < n"
  have "ones_sum m mod 65535 = ones_sum n mod 65535" using a(1) by (simp add: ones_sum_mod)
  moreover have "0 < ones_sum m" "0 < ones_sum n" using a by (simp_all add: ones_sum_def)
  ultimately show ?thesis using ones_sum_le [of m] ones_sum_le [of n] by (cases "ones_sum m = 65535"; cases "ones_sum n = 65535") auto
qed

lemma ones_sum_full: "ones_sum n = 65535 \<longleftrightarrow> 0 < n \<and> 65535 dvd n"
proof -
  have "x = 65535 \<longleftrightarrow> 0 < x \<and> x mod 65535 = 0" if "x \<le> 65535" for x :: nat using that by (cases "x = 65535") auto
  from this [OF ones_sum_le] have "ones_sum n = 65535 \<longleftrightarrow> 0 < n \<and> ones_sum n mod 65535 = 0"
    using ones_sum_0 [of n] by (metis gr0I not_gr0)
  then show ?thesis by (simp add: ones_sum_mod dvd_eq_mod_eq_0)
qed

lemma pair_unat: "unat (push_bit 8 (ucast a) OR ucast (b :: byte) :: u32) = unat (a :: byte) * 256 + unat b"
proof -
  have up: "unat (ucast x :: u32) = unat x" for x :: byte
    using unsigned_less [of x, where 'a = nat] by (simp add: unsigned_ucast_eq take_bit_nat_eq_self)
  have a: "unat (push_bit 8 (ucast a) :: u32) = unat a * 256"
  proof -
    have "unat (push_bit 8 (ucast a) :: u32) = take_bit 32 (push_bit 8 (unat a))" by (simp add: unsigned_push_bit_eq up)
    also have "push_bit 8 (unat a) = unat a * 256" by (simp add: push_bit_eq_mult)
    also have "take_bit 32 (unat a * 256) = unat a * 256" using unsigned_less [of a, where 'a = nat] by (simp add: take_bit_nat_eq_self)
    finally show ?thesis .
  qed
  have "push_bit 8 (ucast a :: u32) AND ucast b = 0"
    by (rule bit_word_eqI) (auto simp: bit_simps dest: bit_imp_le_length)
  then have "push_bit 8 (ucast a) OR ucast b = push_bit 8 (ucast a) + (ucast b :: u32)"
    by (rule disjunctive_add_eq_or [symmetric])
  moreover have "unat (push_bit 8 (ucast a) + (ucast b :: u32)) = unat a * 256 + unat b"
    using unsigned_less [of a, where 'a = nat] unsigned_less [of b, where 'a = nat] by (subst unat_add_lem [THEN iffD1]) (auto simp: a up)
  ultimately show ?thesis by simp
qed

lemma high_unat: "unat (push_bit 8 (ucast (a :: byte)) :: u32) = unat a * 256"
  using pair_unat [of a 0] by simp

lemma unat_add_nowrap: "unat (a :: u32) + n < 2 ^ 32 \<Longrightarrow> unat b = n \<Longrightarrow> unat (a + b) = unat a + n"
  using unat_add_lem [of a b] by simp

lemma net_csum_add_sum: "unat s + words_sum p < 2 ^ 32 \<Longrightarrow> unat (net_csum_add s p) = unat s + words_sum p"
proof (induction s p rule: net_csum_add.induct)
  case (1 acc a b p)
  have "unat (acc + (push_bit 8 (ucast a) OR ucast b)) = unat acc + (unat a * 256 + unat b)"
    by (rule unat_add_nowrap [OF _ pair_unat]) (use 1 in auto)
  then show ?case using 1 by simp
next
  case (2 acc a)
  then show ?case using unat_add_nowrap [OF _ high_unat, of acc a] by simp
qed simp

lemma csum_loop_sum: "unat (csum_loop s) = ones_sum (unat s)"
proof (induction s rule: csum_loop.induct)
  case (1 s)
  show ?case
  proof (cases "drop_bit 16 s = 0")
    case True
    then have "unat (drop_bit 16 s) = 0" by simp
    then have "unat s div 2 ^ 16 = 0" by (simp only: unat_drop16)
    then have "unat s \<le> 65535" by simp
    then show ?thesis using True by (simp add: csum_loop.simps ones_sum_small)
  next
    case False
    let ?n = "unat s mod 2 ^ 16 + unat s div 2 ^ 16"
    have "unat s = unat s mod 2 ^ 16 + unat s div 2 ^ 16 * (65535 + 1)" using div_mult_mod_eq [of "unat s" "2 ^ 16"] by simp
    then have m: "unat s = ?n + unat s div 2 ^ 16 * 65535" by simp
    have "?n mod 65535 = (?n + unat s div 2 ^ 16 * 65535) mod 65535" by (rule mod_mult_self1 [symmetric])
    also have "\<dots> = unat s mod 65535" by (rule arg_cong [of _ _ "\<lambda>x. x mod 65535", OF m [symmetric]])
    finally have e: "?n mod 65535 = unat s mod 65535" .
    have pos: "0 < unat s" using False by (cases "s = 0") (auto simp: unat_gt_0)
    then have "0 < ?n" using m by (metis gr0I add_eq_0_iff_both_eq_0 mult_is_0)
    then have "ones_sum ?n = ones_sum (unat s)" by (rule ones_sum_eqI [OF e _ pos])
    then show ?thesis using 1 False fold_less(2) [OF False] by (subst csum_loop.simps) simp
  qed
qed

lemma net_csum_fold_sum: "unat (net_csum_fold s) = 65535 - ones_sum (unat s)"
proof -
  have "unat (csum_loop s) = ones_sum (unat s)" by (rule csum_loop_sum)
  then have u: "unat (ucast (csum_loop s) :: u16) = ones_sum (unat s)"
    using ones_sum_le [of "unat s"] by (simp add: unsigned_ucast_eq take_bit_nat_eq_self)
  have "net_csum_fold s = NOT (ucast (csum_loop s) :: u16)"
    unfolding net_csum_fold_def by (rule bit_word_eqI) (simp add: bit_simps)
  moreover have "unat (NOT x) = 65535 - unat x" for x :: u16
  proof -
    have "x \<le> 0xFFFF" using unsigned_less [of x, where 'a = nat] by (simp add: word_le_nat_alt)
    then have "unat (0xFFFF - x) = 65535 - unat x" by (simp add: unat_sub)
    moreover have "NOT x = 0xFFFF - x" by (simp add: not_eq_complement)
    ultimately show ?thesis by simp
  qed
  ultimately show ?thesis using u by simp
qed

lemma words_sum_bound: "words_sum p \<le> 65535 * ((length p + 1) div 2)"
proof (induction p rule: words_sum.induct)
  case (1 a b p)
  have "unat a < 256" "unat b < 256" using unsigned_less [of a, where 'a = nat] unsigned_less [of b, where 'a = nat] by simp_all
  then show ?case using 1 by simp
next
  case (2 a)
  then show ?case using unsigned_less [of a, where 'a = nat] by simp
qed simp

lemma words_sum_room: "length p \<le> 2 ^ 17 \<Longrightarrow> words_sum p < 2 ^ 32"
proof -
  assume "length p \<le> 2 ^ 17"
  then have "(length p + 1) div 2 \<le> 2 ^ 16" by simp
  then have "65535 * ((length p + 1) div 2) \<le> 65535 * 2 ^ 16" by (rule mult_le_mono2)
  then show ?thesis using words_sum_bound [of p] by simp
qed

lemma words_sum_append: "even (length p) \<Longrightarrow> words_sum (p @ q) = words_sum p + words_sum q"
  by (induction p rule: words_sum.induct) auto

lemma net_csum_add_append: "even (length p) \<Longrightarrow> net_csum_add s (p @ q) = net_csum_add (net_csum_add s p) q"
  by (induction s p rule: net_csum_add.induct) auto

lemma net_checksum_sum:
  "length p \<le> 2 ^ 17 \<Longrightarrow> unat (net_checksum p) = 65535 - ones_sum (words_sum p)"
  using net_csum_add_sum [of 0 p] words_sum_room [of p] by (simp add: net_checksum_def net_csum_fold_sum)

lemma net_checksum_valid:
  "length p \<le> 2 ^ 17 \<Longrightarrow> net_checksum p = 0 \<longleftrightarrow> 0 < words_sum p \<and> 65535 dvd words_sum p"
  using net_checksum_sum [of p] ones_sum_le [of "words_sum p"] ones_sum_full [of "words_sum p"]
  by (auto simp: unat_eq_zero [symmetric] simp del: unat_eq_zero)

lemma words_sum_wr16 [simp]: "words_sum (wr16 v) = unat v"
proof -
  have "unat (ucast (drop_bit 8 v) :: byte) = unat v div 256"
  proof -
    have v: "unat v < 65536" using unsigned_less [of v, where 'a = nat] by simp
    have "unat (drop_bit 8 v) = drop_bit 8 (unat v)" using v by (simp add: unsigned_drop_bit_eq take_bit_nat_eq_self)
    then have "unat (ucast (drop_bit 8 v) :: byte) = take_bit 8 (unat v div 256)" by (simp add: unsigned_ucast_eq drop_bit_eq_div)
    then show ?thesis using v by (simp add: take_bit_nat_eq_self)
  qed
  moreover have "unat (ucast v :: byte) = unat v mod 256" by (simp add: unsigned_ucast_eq take_bit_eq_mod)
  ultimately show ?thesis by (simp add: wr16_def)
qed

lemma wr_length [simp]: "length (wr16 v) = 2" "length (wr32 w) = 4"
  by (simp_all add: wr16_def wr32_def)

text \<open>A message whose checksum field, at an even place, holds what the code computes over it with a zero there, is valid.\<close>

lemma checksum_completes:
  assumes len: "length a + length b + 2 \<le> 2 ^ 17" and ev: "even (length a)"
    and c: "c = net_checksum (a @ wr16 0 @ b) \<or> (c = 0xFFFF \<and> net_checksum (a @ wr16 0 @ b) = 0)"
  shows "net_checksum (a @ wr16 c @ b) = 0"
proof -
  let ?s = "words_sum a + words_sum b"
  have w: "words_sum (a @ wr16 v @ b) = words_sum a + (unat v + words_sum b)" for v
    using ev by (subst words_sum_append, simp, subst words_sum_append) simp_all
  have u: "unat (net_checksum (a @ wr16 0 @ b)) = 65535 - ones_sum ?s"
    using len net_checksum_sum [of "a @ wr16 0 @ b"] w [of 0] by simp
  have "0 < ?s + unat c \<and> 65535 dvd ?s + unat c"
  proof (cases "net_checksum (a @ wr16 0 @ b) = 0")
    case True
    then have "65535 dvd ?s" "0 < ?s" using u ones_sum_le [of ?s] ones_sum_full [of ?s] by auto
    then show ?thesis using True c by auto
  next
    case False
    then have c: "unat c = 65535 - ones_sum ?s" using u c by auto
    have "(?s + unat c) mod 65535 = (ones_sum ?s + unat c) mod 65535" using ones_sum_mod [of ?s] by (metis mod_add_left_eq)
    also have "ones_sum ?s + unat c = 65535" using c ones_sum_le [of ?s] by simp
    finally have "65535 dvd ?s + unat c" by (simp add: dvd_eq_mod_eq_0)
    moreover have "0 < ?s + unat c" using c ones_sum_0 [of ?s] by (cases "?s = 0") auto
    ultimately show ?thesis by blast
  qed
  then show ?thesis using len net_checksum_valid [of "a @ wr16 c @ b"] w [of c] by (simp add: ac_simps)
qed

text \<open>One changed 16-bit word is noticed, unless it is one of the two zeros of ones' complement in place of the other.\<close>

lemma checksum_detects:
  assumes len: "length a + length b + 2 \<le> 2 ^ 17" and ev: "even (length a)"
    and ok: "net_checksum (a @ wr16 v @ b) = 0" "net_checksum (a @ wr16 w @ b) = 0"
  shows "v = w \<or> {v, w} = {0, 0xFFFF}"
proof -
  let ?s = "words_sum a + words_sum b"
  have sm: "words_sum (a @ wr16 v @ b) = ?s + unat v" for v
    using ev by (subst words_sum_append, simp, subst words_sum_append) simp_all
  have "65535 dvd ?s + unat v" "65535 dvd ?s + unat w"
    using ok len net_checksum_valid [of "a @ wr16 v @ b"] net_checksum_valid [of "a @ wr16 w @ b"] sm by simp_all
  moreover have "x = y \<or> {x, y} = {0, 65535}" if "65535 dvd s + x" "65535 dvd s + y" "x \<le> 65535" "y \<le> 65535" for s x y :: nat
  proof -
    have "{x, y} = {0, 65535}" if "x < y" "65535 dvd s + x" "65535 dvd s + y" "y \<le> 65535" for x y
    proof -
      have "65535 dvd (s + y) - (s + x)" using that by (intro dvd_diff_nat)
      then have "65535 \<le> y - x" using that(1) by (intro dvd_imp_le) auto
      then show ?thesis using that by auto
    qed
    from this [of x y] this [of y x] show ?thesis using that by (cases x y rule: linorder_cases) (auto simp: insert_commute)
  qed
  ultimately have "unat v = unat w \<or> {unat v, unat w} = {0, 65535}"
    using unsigned_less [of v, where 'a = nat] unsigned_less [of w, where 'a = nat] by simp
  then show ?thesis using word_unat_eq_iff [of v w] word_unat_eq_iff [of v "0xFFFF"] word_unat_eq_iff [of w "0xFFFF"]
      word_unat_eq_iff [of v 0] word_unat_eq_iff [of w 0]
    by (auto simp: doubleton_eq_iff)
qed



section \<open>Reading back\<close>

lemma rd16_wr16: "rd16 (wr16 v @ q) 0 = v"
  by (rule bit_word_eqI) (auto simp: rd16_def wr16_def bit_simps)

lemma rd32_wr32: "rd32 (wr32 v @ q) 0 = v"
proof (rule bit_word_eqI)
  fix n :: nat
  assume "n < LENGTH(32)"
  then show "bit (rd32 (wr32 v @ q) 0) n \<longleftrightarrow> bit v n"
    by (cases "n < 8"; cases "n < 16"; cases "n < 24") (auto simp: rd32_def wr32_def bit_simps)
qed

lemma rd_append: "rd16 (a @ b) (length a + k) = rd16 b k" "rd32 (a @ b) (length a + k) = rd32 b k"
  by (simp_all add: rd16_def rd32_def nth_append)

lemma htons_twice: "htons (htons v) = v"
  by (rule bit_word_eqI) (auto simp: htons_def bit_simps)

lemma octet_less: "unat (x AND 0xFF :: u32) < 256" "unat (drop_bit 24 (x :: u32)) < 256"
proof -
  have "x AND 0xFF \<le> 0xFF" by (rule word_and_le1)
  then show "unat (x AND 0xFF) < 256" by (simp add: word_le_nat_alt)
  have "unat (drop_bit 24 x) = drop_bit 24 (unat x)"
    using unsigned_less [of x, where 'a = nat] by (simp add: unsigned_drop_bit_eq take_bit_nat_eq_self)
  then show "unat (drop_bit 24 x) < 256"
    using unsigned_less [of x, where 'a = nat] by (simp add: drop_bit_eq_div less_mult_imp_div_less)
qed

lemma dec_octet: "n < 256 \<Longrightarrow> length (dec n) \<le> 3"
  using dec_length [of n 3] by simp

lemma ip4_to_str_text:
  "ip4_to_str ip = dec (unat (drop_bit 24 ip)) @ 46 # dec (unat (drop_bit 16 ip AND 0xFF)) @ 46 #
     dec (unat (drop_bit 8 ip AND 0xFF)) @ 46 # dec (unat (ip AND 0xFF))"
  (is "_ = ?t")
proof -
  note d = octet_less [THEN dec_octet]
  have "length ?t \<le> 15" using d(2) [of ip] d(1) [of "drop_bit 16 ip"] d(1) [of "drop_bit 8 ip"] d(1) [of ip] by simp
  moreover have "ucast (ucast x :: u64) = (x :: u32)" for x by (rule bit_word_eqI) (simp add: bit_simps)
  ultimately show ?thesis by (simp add: ip4_to_str_def ktext_def format_simps)
qed

lemma ip4_parts_step:
  assumes "n < 256" "0 < k"
  shows "ip4_parts (Suc k) v (dec n @ 46 # s) = ip4_parts k (push_bit 8 v OR of_nat n) s"
proof -
  have "parse_u32 (dec n @ 46 # s) = (length (dec n), n)" by (rule parse_u32_dec) (use assms in \<open>auto simp: isdigit_def k_isdigit_def\<close>)
  then show ?thesis using assms dec_octet [of n] by simp
qed

lemma ip4_parts_last: "n < 256 \<Longrightarrow> ip4_parts (Suc 0) v (dec n) = Some (push_bit 8 v OR of_nat n)"
  using parse_u32_dec [of n "[]"] dec_octet [of n] by simp

lemma str_ip4_roundtrip: "str_to_ip4 (ip4_to_str ip) = Some ip"
proof -
  let ?a = "drop_bit 24 ip" and ?b = "drop_bit 16 ip AND 0xFF" and ?c = "drop_bit 8 ip AND 0xFF" and ?d = "ip AND 0xFF"
  have "str_to_ip4 (ip4_to_str ip) = Some (push_bit 8 (push_bit 8 (push_bit 8 (push_bit 8 0 OR ?a) OR ?b) OR ?c) OR ?d)"
    using octet_less unfolding str_to_ip4_def ip4_to_str_text
    by (simp add: numeral_eq_Suc ip4_parts_step ip4_parts_last del: ip4_parts.simps)
  also have "push_bit 8 (push_bit 8 (push_bit 8 (push_bit 8 0 OR ?a) OR ?b) OR ?c) OR ?d = ip"
  proof (rule bit_word_eqI)
    fix n :: nat
    assume "n < LENGTH(32)"
    moreover have "x AND 0xFF = take_bit 8 x" for x :: u32 by (simp add: take_bit_eq_mask mask_eq_exp_minus_1)
    ultimately show "bit (push_bit 8 (push_bit 8 (push_bit 8 (push_bit 8 0 OR ?a) OR ?b) OR ?c) OR ?d) n \<longleftrightarrow> bit ip n"
      by (cases "n < 8"; cases "n < 16"; cases "n < 24") (auto simp: bit_simps)
  qed
  finally show ?thesis .
qed



section \<open>Properties\<close>

text \<open>
  C39: The checksum is that of the Internet protocols, for every message of up to 128 KiB: no sum of the 32-bit loop overflows, and the
  result is the complement of the ones' complement sum of the 16-bit words. A message with the checksum in its field verifies to zero, also with
  0xFFFF in place of a zero, as UDP sends it; and of two messages that verify and differ in one word only, that word is 0 in one and
  0xFFFF in the other, so every other change of a word is noticed.
\<close>

theorem net_checksum_correct:
  assumes "length a + length b + 2 \<le> 2 ^ 17" "even (length a)"
  shows "unat (net_csum_add 0 (a @ wr16 v @ b)) = words_sum (a @ wr16 v @ b) \<and>
    unat (net_checksum (a @ wr16 v @ b)) = 65535 - ones_sum (words_sum (a @ wr16 v @ b)) \<and>
    (let cs = net_checksum (a @ wr16 0 @ b) in net_checksum (a @ wr16 (if cs \<noteq> 0 then cs else 0xFFFF) @ b) = 0 \<and>
      net_checksum (a @ wr16 cs @ b) = 0) \<and>
    (net_checksum (a @ wr16 v @ b) = 0 \<and> net_checksum (a @ wr16 w @ b) = 0 \<longrightarrow> v = w \<or> {v, w} = {0, 0xFFFF})"
proof -
  have len: "length (a @ wr16 v @ b) \<le> 2 ^ 17" using assms(1) by simp
  note room = words_sum_room [OF len]
  show ?thesis unfolding Let_def
  proof (intro conjI impI)
    show "unat (net_csum_add 0 (a @ wr16 v @ b)) = words_sum (a @ wr16 v @ b)" using net_csum_add_sum [of 0 "a @ wr16 v @ b"] room by simp
    show "unat (net_checksum (a @ wr16 v @ b)) = 65535 - ones_sum (words_sum (a @ wr16 v @ b))" by (rule net_checksum_sum [OF len])
    show "net_checksum (a @ wr16 (if net_checksum (a @ wr16 0 @ b) \<noteq> 0 then net_checksum (a @ wr16 0 @ b) else 0xFFFF) @ b) = 0"
      by (rule checksum_completes [OF assms]) simp
    show "net_checksum (a @ wr16 (net_checksum (a @ wr16 0 @ b)) @ b) = 0"
      by (rule checksum_completes [OF assms]) simp
    show "v = w \<or> {v, w} = {0, 0xFFFF}" if "net_checksum (a @ wr16 v @ b) = 0 \<and> net_checksum (a @ wr16 w @ b) = 0"
      by (rule checksum_detects [OF assms conjunct1 [OF that] conjunct2 [OF that]])
  qed
qed

theorem net_checksum_correct_witness:
  "net_checksum ([0x45, 0] @ wr16 (net_checksum ([0x45, 0] @ wr16 0 @ [10, 0, 2])) @ [10, 0, 2]) = 0"
  using net_checksum_correct [of "[0x45, 0]" "[10, 0, 2]"] by (simp add: Let_def)

end
