(* ===== verification/Firewall.thy ===== *)
theory Firewall
  imports Config Net_Base "HOL-Library.Multiset"
begin

text \<open>
  The host firewall, \<open>net/firewall.c\<close>. The state has the code's variables; the arrays of allowed ports are lists of the ports in use, the
  log is an array of lines used as a ring, \<open>store\<close> is the settings file. The time, \<open>timer_ms\<close>, is an argument of what reads it.
\<close>

section \<open>Model\<close>

definition MAX_PORTS :: nat where "MAX_PORTS = 32"
definition UDP_OUT :: nat where "UDP_OUT = 32"
definition UDP_OUT_MS :: u32 where "UDP_OUT_MS = 5 * 60 * 1000"
definition LOG_N :: nat where "LOG_N = 16"
definition FW_TCP :: int where "FW_TCP = 6"
definition FW_UDP :: int where "FW_UDP = 17"

record fw =
  g_on :: bool
  g_ping :: bool
  g_tcp :: "u16 list"
  g_udp :: "u16 list"
  g_out :: "(u16 \<times> u32) list"
  g_blocked :: u32
  g_log :: "nat \<Rightarrow> byte list"
  g_log_at :: nat
  g_log_n :: nat
  store :: cfg_file

text \<open>The keys \<open>firewall\<close>, \<open>fw.ping\<close>, \<open>fw.tcp\<close> and \<open>fw.udp\<close>, and the values \<open>on\<close> and \<open>off\<close>.\<close>

definition KEY_FIREWALL :: "byte list" where "KEY_FIREWALL = [102, 105, 114, 101, 119, 97, 108, 108]"
definition KEY_PING :: "byte list" where "KEY_PING = [102, 119, 46, 112, 105, 110, 103]"
definition KEY_TCP :: "byte list" where "KEY_TCP = [102, 119, 46, 116, 99, 112]"
definition KEY_UDP :: "byte list" where "KEY_UDP = [102, 119, 46, 117, 100, 112]"
definition ON :: "byte list" where "ON = [111, 110]"
definition OFF :: "byte list" where "OFF = [111, 102, 102]"

definition PORTS_CAP :: nat where "PORTS_CAP = MAX_PORTS * 6 + 2"

text \<open>The formats \<open>%u\<close> and \<open>,%u\<close>; the loop's \<open>o\<close> counts what the texts need, \<open>v\<close> is the buffer.\<close>

fun ports_loop :: "bool \<Rightarrow> nat \<Rightarrow> byte list \<Rightarrow> u16 list \<Rightarrow> byte list" where
  "ports_loop first oo v [] = v"
| "ports_loop first oo v (a # as) =
     (let fmt = (if first then [37, 117] else [44, 37, 117]);
          need = (case format_text (\<lambda>_. []) fmt [ucast a] of None \<Rightarrow> 0 | Some t \<Rightarrow> length t)
      in ports_loop False (oo + need) (v @ ktext (PORTS_CAP - oo) (\<lambda>_. []) fmt [ucast a]) as)"

definition save_ports :: "(nat \<Rightarrow> bool) \<Rightarrow> (byte list \<Rightarrow> bool) \<Rightarrow> fw \<Rightarrow> fw" where
  "save_ports al wr s =
     (let f = settings_set al wr KEY_TCP (ports_loop True 0 [] (g_tcp s)) (store s);
          f = settings_set al wr KEY_UDP (ports_loop True 0 [] (g_udp s)) f
      in s\<lparr>store := f\<rparr>)"

function ports_load_loop :: "byte list \<Rightarrow> u16 list \<Rightarrow> u16 list" where
  "ports_load_loop s a =
     (if s = [] \<or> MAX_PORTS \<le> length a then a
      else let (d, x) = parse_u32 s
           in if d = 0 then a
              else let a = (if x \<noteq> 0 \<and> x < 65536 then a @ [of_nat x] else a);
                       s = drop d s;
                       s = (if s \<noteq> [] \<and> hd s = 44 then tl s else s)
                   in ports_load_loop s a)"
  by pat_completeness auto
termination ports_load_loop
  by (relation "measure (\<lambda>(s, _). length s)") (auto simp: not_le diff_less)

declare ports_load_loop.simps [simp del]

definition load_ports :: "byte list \<Rightarrow> cfg_file \<Rightarrow> u16 list" where
  "load_ports key f = (case settings_get f key PORTS_CAP of None \<Rightarrow> [] | Some v \<Rightarrow> ports_load_loop v [])"

definition fw_boot :: "fw \<Rightarrow> fw" where
  "fw_boot s = s\<lparr>g_on := settings_get (store s) KEY_FIREWALL 8 = Some ON,
                 g_ping := settings_get (store s) KEY_PING 8 = Some ON,
                 g_tcp := load_ports KEY_TCP (store s), g_udp := load_ports KEY_UDP (store s)\<rparr>"

definition fw_enabled :: "fw \<Rightarrow> bool" where
  "fw_enabled s = g_on s"

definition fw_enable :: "(nat \<Rightarrow> bool) \<Rightarrow> (byte list \<Rightarrow> bool) \<Rightarrow> bool \<Rightarrow> fw \<Rightarrow> fw" where
  "fw_enable al wr on s = s\<lparr>g_on := on, store := settings_set al wr KEY_FIREWALL (if on then ON else OFF) (store s)\<rparr>"

definition fw_ping_allowed :: "fw \<Rightarrow> bool" where
  "fw_ping_allowed s = g_ping s"

definition fw_set_ping :: "(nat \<Rightarrow> bool) \<Rightarrow> (byte list \<Rightarrow> bool) \<Rightarrow> bool \<Rightarrow> fw \<Rightarrow> fw" where
  "fw_set_ping al wr allow s = s\<lparr>g_ping := allow, store := settings_set al wr KEY_PING (if allow then ON else OFF) (store s)\<rparr>"

definition port_table :: "int \<Rightarrow> fw \<Rightarrow> u16 list" where
  "port_table proto s = (if proto = FW_UDP then g_udp s else g_tcp s)"

definition set_port_table :: "int \<Rightarrow> u16 list \<Rightarrow> fw \<Rightarrow> fw" where
  "set_port_table proto a s = (if proto = FW_UDP then s\<lparr>g_udp := a\<rparr> else s\<lparr>g_tcp := a\<rparr>)"

definition fw_allowed :: "int \<Rightarrow> u16 \<Rightarrow> fw \<Rightarrow> bool" where
  "fw_allowed proto port s = list_ex (\<lambda>x. x = port) (port_table proto s)"

fun last_at :: "u16 \<Rightarrow> u16 list \<Rightarrow> nat \<Rightarrow> int \<Rightarrow> int" where
  "last_at port [] i at = at"
| "last_at port (x # xs) i at = last_at port xs (i + 1) (if x = port then int i else at)"

definition fw_allow :: "(nat \<Rightarrow> bool) \<Rightarrow> (byte list \<Rightarrow> bool) \<Rightarrow> int \<Rightarrow> u16 \<Rightarrow> bool \<Rightarrow> fw \<Rightarrow> int \<times> fw" where
  "fw_allow al wr proto port allow s =
     (let a = port_table proto s; n = length a; at = last_at port a 0 (-1)
      in if allow \<and> at < 0
         then if MAX_PORTS \<le> n then (-1, s)
              else (0, save_ports al wr (set_port_table proto (a @ [port]) s))
         else if \<not> allow \<and> 0 \<le> at
         then (0, save_ports al wr (set_port_table proto (butlast (a[nat at := a ! (n - 1)])) s))
         else (0, save_ports al wr s))"

definition fw_ports :: "int \<Rightarrow> nat \<Rightarrow> fw \<Rightarrow> u16 list" where
  "fw_ports proto mx s = take mx (port_table proto s)"

definition fw_blocked_count :: "fw \<Rightarrow> u32" where
  "fw_blocked_count s = g_blocked s"

text \<open>The formats \<open>%s from %s to port %u\<close> and \<open>%s from %s\<close>; the two strings are the arguments 1 and 2.\<close>

definition FMT_PORT :: "byte list" where
  "FMT_PORT = [37, 115, 32, 102, 114, 111, 109, 32, 37, 115, 32, 116, 111, 32, 112, 111, 114, 116, 32, 37, 117]"

definition FMT_NO_PORT :: "byte list" where
  "FMT_NO_PORT = [37, 115, 32, 102, 114, 111, 109, 32, 37, 115]"

definition blocked :: "byte list \<Rightarrow> byte list \<Rightarrow> u16 \<Rightarrow> fw \<Rightarrow> fw" where
  "blocked what src port s =
     (let line = ktext 64 (\<lambda>a. if a = 1 then what else src) (if port \<noteq> 0 then FMT_PORT else FMT_NO_PORT) [1, 2, ucast port]
      in s\<lparr>g_blocked := g_blocked s + 1, g_log := (g_log s)(g_log_at s := line), g_log_at := (g_log_at s + 1) mod LOG_N,
           g_log_n := (if g_log_n s < LOG_N then g_log_n s + 1 else g_log_n s)\<rparr>)"

definition fw_log :: "nat \<Rightarrow> fw \<Rightarrow> byte list list" where
  "fw_log mx s =
     map (\<lambda>i. take 63 (g_log s (nat ((int (g_log_at s) - 1 - int i + 2 * int LOG_N) mod int LOG_N)))) [0..<min (g_log_n s) mx]"

text \<open>The words \<open>tcp\<close>, \<open>udp\<close> and \<open>ping\<close>. The filters give the answer and the state.\<close>

definition fw_in_tcp :: "byte list \<Rightarrow> u16 \<Rightarrow> bool \<Rightarrow> fw \<Rightarrow> bool \<times> fw" where
  "fw_in_tcp src dport syn_only s =
     (if \<not> g_on s \<or> \<not> syn_only \<or> fw_allowed FW_TCP dport s then (True, s)
      else (False, blocked [116, 99, 112] src dport s))"

fun out_slot :: "u16 \<Rightarrow> (u16 \<times> u32) list \<Rightarrow> nat list \<Rightarrow> nat \<Rightarrow> nat" where
  "out_slot sport out [] k = k"
| "out_slot sport out (i # is) k =
     (if fst (out ! i) = sport then i
      else out_slot sport out is (if snd (out ! i) < snd (out ! k) then i else k))"

definition fw_out_udp :: "u32 \<Rightarrow> u16 \<Rightarrow> fw \<Rightarrow> fw" where
  "fw_out_udp now sport s =
     (let k = out_slot sport (g_out s) [0..<UDP_OUT] 0
      in s\<lparr>g_out := (g_out s)[k := (sport, if now \<noteq> 0 then now else 1)]\<rparr>)"

definition fw_in_udp :: "u32 \<Rightarrow> byte list \<Rightarrow> u16 \<Rightarrow> u16 \<Rightarrow> fw \<Rightarrow> bool \<times> fw" where
  "fw_in_udp now src sport dport s =
     (if \<not> g_on s \<or> fw_allowed FW_UDP dport s then (True, s)
      else if list_ex (\<lambda>(p, ms). p = dport \<and> ms \<noteq> 0 \<and> now - ms < UDP_OUT_MS) (g_out s) then (True, s)
      else if dport = 68 then (True, s)
      else (False, blocked [117, 100, 112] src dport s))"

definition fw_in_ping :: "byte list \<Rightarrow> fw \<Rightarrow> bool \<times> fw" where
  "fw_in_ping src s = (if \<not> g_on s \<or> g_ping s then (True, s) else (False, blocked [112, 105, 110, 103] src 0 s))"


section \<open>Lists of ports as text\<close>

fun port_list :: "u16 list \<Rightarrow> byte list" where
  "port_list [] = []"
| "port_list [p] = dec (unat p)"
| "port_list (p # q # ps) = dec (unat p) @ 44 # port_list (q # ps)"

definition more_ports :: "u16 list \<Rightarrow> byte list" where
  "more_ports ps = concat (map (\<lambda>p. 44 # dec (unat p)) ps)"

lemma port_list_more: "port_list (p # ps) = dec (unat p) @ more_ports ps"
  by (induction ps arbitrary: p) (auto simp: more_ports_def)

lemma unat_port: "unat (p :: u16) < 65536" "unat (ucast (ucast p :: u64) :: u32) = unat p"
proof -
  show l: "unat p < 65536" using unsigned_less [of p, where 'a = nat] by simp
  have "(ucast (ucast p :: u64) :: u32) = ucast p" by (rule bit_word_eqI) (simp add: bit_simps)
  then show "unat (ucast (ucast p :: u64) :: u32) = unat p" using l by (simp add: unsigned_ucast_eq take_bit_nat_eq_self)
qed

lemma port_dec: "length (dec (unat (p :: u16))) \<le> 5"
  using dec_length [of "unat p" 5] unat_port(1) [of p] by simp

lemma port_list_length: "length (port_list ps) \<le> 6 * length ps"
  by (induction ps rule: port_list.induct) (auto intro: le_trans [OF port_dec] simp: add_mono [OF port_dec, THEN le_trans] port_dec le_diff_conv)

lemma ports_loop_more:
  "length v + 6 * length ps < PORTS_CAP \<Longrightarrow> ports_loop False (length v) v ps = v @ more_ports ps"
proof (induction ps arbitrary: v)
  case (Cons p ps)
  let ?t = "44 # dec (unat p)"
  have t: "format_text (\<lambda>_. []) [44, 37, 117] [ucast p] = Some ?t" by (simp add: format_simps unat_port)
  have "length ?t \<le> 6" using port_dec [of p] by simp
  then have k: "ktext (PORTS_CAP - length v) (\<lambda>_. []) [44, 37, 117] [ucast p] = ?t"
    using Cons.prems t by (simp add: ktext_def)
  have "ports_loop False (length (v @ ?t)) (v @ ?t) ps = (v @ ?t) @ more_ports ps"
    by (rule Cons.IH) (use Cons.prems port_dec [of p] in simp)
  then show ?case using t k by (simp add: more_ports_def)
qed (simp add: more_ports_def)

lemma ports_loop_text: "length ps \<le> MAX_PORTS \<Longrightarrow> ports_loop True 0 [] ps = port_list ps"
proof (cases ps)
  case (Cons p qs)
  assume len: "length ps \<le> MAX_PORTS"
  have t: "format_text (\<lambda>_. []) [37, 117] [ucast p] = Some (dec (unat p))" by (simp add: format_simps unat_port)
  have k: "ktext PORTS_CAP (\<lambda>_. []) [37, 117] [ucast p] = dec (unat p)"
    using t port_dec [of p] by (simp add: ktext_def PORTS_CAP_def MAX_PORTS_def)
  have "ports_loop False (length (dec (unat p))) (dec (unat p)) qs = dec (unat p) @ more_ports qs"
    by (rule ports_loop_more) (use len Cons port_dec [of p] in \<open>simp add: PORTS_CAP_def\<close>)
  then show ?thesis using Cons t k by (simp add: port_list_more)
qed simp

text \<open>A list that was written is read back, up to the length of the table.\<close>

lemma ports_load_text:
  "length a + length ps \<le> MAX_PORTS \<Longrightarrow> 0 \<notin> set ps \<Longrightarrow> ports_load_loop (port_list ps) a = a @ ps"
proof (induction ps arbitrary: a rule: port_list.induct)
  case 1
  then show ?case by (simp add: ports_load_loop.simps)
next
  case (2 p)
  have "parse_u32 (dec (unat p)) = (length (dec (unat p)), unat p)"
    using parse_u32_dec [of "unat p" "[]"] unat_port(1) [of p] by simp
  then show ?case using 2 unat_port(1) [of p]
    by (subst ports_load_loop.simps) (simp add: unat_eq_0, simp add: ports_load_loop.simps)
next
  case (3 p q ps)
  have "parse_u32 (dec (unat p) @ 44 # port_list (q # ps)) = (length (dec (unat p)), unat p)"
    by (rule parse_u32_dec) (use unat_port(1) [of p] in \<open>auto simp: isdigit_def k_isdigit_def\<close>)
  then show ?case using 3 unat_port(1) [of p]
    by (subst ports_load_loop.simps) (simp add: unat_eq_0)
qed

lemma port_list_chars: "c \<in> set (port_list ps) \<Longrightarrow> isdigit c \<or> c = 44"
  by (induction ps rule: port_list.induct) (auto dest: dec_isdigit)

lemma port_list_good: "good_value (port_list ps)"
proof -
  have "\<not> blank (last (port_list ps))" if "port_list ps \<noteq> []"
    using port_list_chars [OF last_in_set [OF that]] by (auto simp: blank_def isdigit_def k_isdigit_def)
  then show ?thesis using port_list_chars [of 10 ps] port_list_chars [of 13 ps]
    by (auto simp: good_value_def isdigit_def k_isdigit_def)
qed


section \<open>The tables of ports\<close>

definition fw_ok :: "fw \<Rightarrow> bool" where
  "fw_ok s \<longleftrightarrow> length (g_tcp s) \<le> MAX_PORTS \<and> length (g_udp s) \<le> MAX_PORTS \<and> 0 \<notin> set (g_tcp s) \<and> 0 \<notin> set (g_udp s) \<and>
     length (g_out s) = UDP_OUT \<and> g_log_at s < LOG_N \<and> g_log_n s \<le> LOG_N"

lemma last_at_found:
  "(\<exists>j < length xs. last_at port xs i at = int (i + j) \<and> xs ! j = port) \<or> (last_at port xs i at = at \<and> port \<notin> set xs)"
proof (induction xs arbitrary: i at)
  case (Cons x xs)
  note C = Cons.IH [of "i + 1" "if x = port then int i else at"]
  then show ?case
  proof (elim disjE exE conjE)
    fix j assume "j < length xs" "last_at port xs (i + 1) (if x = port then int i else at) = int (i + 1 + j)" "xs ! j = port"
    then show ?thesis by (intro disjI1 exI [of _ "Suc j"]) simp
  next
    assume a: "last_at port xs (i + 1) (if x = port then int i else at) = (if x = port then int i else at)" "port \<notin> set xs"
    then show ?thesis by (cases "x = port") (auto intro: exI [of _ 0])
  qed
qed simp

lemma last_at_cases:
  obtains "last_at port xs 0 (-1) = -1" "port \<notin> set xs"
  | j where "last_at port xs 0 (-1) = int j" "j < length xs" "xs ! j = port" "port \<in> set xs"
  using last_at_found [of xs port 0 "-1"] nth_mem [of _ xs] by fastforce

lemma mset_remove_at: "j < length xs \<Longrightarrow> mset (butlast (xs[j := xs ! (length xs - 1)])) = mset xs - {#xs ! j#}"
proof -
  assume j: "j < length xs"
  obtain ys z where xs: "xs = ys @ [z]" using j by (cases xs rule: rev_cases) auto
  show ?thesis
  proof (cases "j < length ys")
    case True
    then have "xs[j := z] = ys[j := z] @ [z]" using xs by (simp add: list_update_append)
    then show ?thesis using True xs by (simp add: nth_append mset_update)
  next
    case False
    then show ?thesis using j xs by (simp add: nth_append list_update_append)
  qed
qed

text \<open>What a table is after a change, as a multiset; the other table does not change.\<close>

lemma fw_allow_table:
  assumes "fw_allow al wr proto port allow s = (r, t)"
  shows "mset (port_table proto t) =
      (if allow \<and> port \<notin> set (port_table proto s) \<and> r = 0 then add_mset port (mset (port_table proto s))
       else if \<not> allow then mset (port_table proto s) - {#port#} else mset (port_table proto s))"
    and "r = 0 \<or> (r = -1 \<and> t = s \<and> allow \<and> length (port_table proto s) \<ge> MAX_PORTS)"
    and "port_table (if proto = FW_UDP then FW_TCP else FW_UDP) t = port_table (if proto = FW_UDP then FW_TCP else FW_UDP) s"
    and "length (port_table proto t) \<le> max MAX_PORTS (length (port_table proto s))"
proof -
  let ?a = "port_table proto s"
  have set: "port_table proto (save_ports al wr (set_port_table proto xs s)) = xs"
    "port_table (if proto = FW_UDP then FW_TCP else FW_UDP) (save_ports al wr (set_port_table proto xs s)) =
       port_table (if proto = FW_UDP then FW_TCP else FW_UDP) s"
    "port_table proto (save_ports al wr s) = port_table proto s" for xs proto
    by (auto simp: port_table_def save_ports_def set_port_table_def Let_def FW_TCP_def FW_UDP_def)
  have D: "(allow \<and> port \<notin> set ?a \<and> MAX_PORTS \<le> length ?a \<and> r = -1 \<and> t = s) \<or>
    (allow \<and> port \<notin> set ?a \<and> length ?a < MAX_PORTS \<and> r = 0 \<and> t = save_ports al wr (set_port_table proto (?a @ [port]) s)) \<or>
    (\<not> allow \<and> (\<exists>j < length ?a. ?a ! j = port \<and> r = 0 \<and> t = save_ports al wr (set_port_table proto (butlast (?a[j := ?a ! (length ?a - 1)])) s))) \<or>
    ((allow \<longleftrightarrow> port \<in> set ?a) \<and> r = 0 \<and> t = save_ports al wr s)"
    using assms by (cases rule: last_at_cases [of port ?a]) (auto simp: fw_allow_def Let_def split: if_splits)
  then show "mset (port_table proto t) =
      (if allow \<and> port \<notin> set ?a \<and> r = 0 then add_mset port (mset ?a) else if \<not> allow then mset ?a - {#port#} else mset ?a)"
    by (elim disjE exE conjE) (auto simp: set mset_remove_at [unfolded One_nat_def] diff_single_trivial)
  show "r = 0 \<or> (r = -1 \<and> t = s \<and> allow \<and> length ?a \<ge> MAX_PORTS)" using D by blast
  show "port_table (if proto = FW_UDP then FW_TCP else FW_UDP) t = port_table (if proto = FW_UDP then FW_TCP else FW_UDP) s"
    using D by (elim disjE exE conjE) (simp_all only: set)
  show "length (port_table proto t) \<le> max MAX_PORTS (length ?a)"
    using D by (elim disjE exE conjE) (simp_all add: set)
qed


section \<open>The settings of the firewall are those of its file\<close>

definition config :: "fw \<Rightarrow> bool \<times> bool \<times> u16 list \<times> u16 list" where
  "config s = (g_on s, g_ping s, g_tcp s, g_udp s)"

definition saved :: "cfg_file \<Rightarrow> bool \<times> bool \<times> u16 list \<times> u16 list" where
  "saved f = (settings_get f KEY_FIREWALL 8 = Some ON, settings_get f KEY_PING 8 = Some ON, load_ports KEY_TCP f, load_ports KEY_UDP f)"

lemma config_boot: "config (fw_boot s) = saved (store s)"
  by (simp add: config_def fw_boot_def saved_def)

lemmas key_defs = KEY_FIREWALL_def KEY_PING_def KEY_TCP_def KEY_UDP_def

lemma keys_good: "good_key KEY_FIREWALL" "good_key KEY_PING" "good_key KEY_TCP" "good_key KEY_UDP"
  by (simp_all add: good_key_def blank_def key_defs)

lemma keys_differ: "KEY_FIREWALL \<noteq> KEY_PING" "KEY_FIREWALL \<noteq> KEY_TCP" "KEY_FIREWALL \<noteq> KEY_UDP" "KEY_PING \<noteq> KEY_TCP"
  "KEY_PING \<noteq> KEY_UDP" "KEY_TCP \<noteq> KEY_UDP"
  by (simp_all add: key_defs)

lemma on_off_good: "good_value ON" "good_value OFF" "ON \<noteq> OFF"
  by (simp_all add: good_value_def blank_def ON_def OFF_def)

text \<open>Room for one change of the settings, whichever it is.\<close>

definition STEP :: nat where "STEP = 600"

lemma step_cost:
  "cfg_cost KEY_FIREWALL (if b then ON else OFF) \<le> STEP" "cfg_cost KEY_PING (if b then ON else OFF) \<le> STEP"
  "length ps \<le> MAX_PORTS \<Longrightarrow> length qs \<le> MAX_PORTS \<Longrightarrow> cfg_cost KEY_TCP (port_list ps) + cfg_cost KEY_UDP (port_list qs) \<le> STEP"
  using port_list_length [of ps] port_list_length [of qs]
  by (auto simp: cfg_cost_def key_defs ON_def OFF_def settings_header_def STEP_def MAX_PORTS_def)

lemma put_switch:
  assumes "k \<in> {KEY_FIREWALL, KEY_PING}" "cfg_room f (STEP + n)"
  shows "cfg_room (working_set k (if b then ON else OFF) f) n"
    and "settings_get (working_set k (if b then ON else OFF) f) k 8 = Some ON \<longleftrightarrow> b"
    and "good_key k' \<Longrightarrow> k' \<noteq> k \<Longrightarrow> settings_get (working_set k (if b then ON else OFF) f) k' cap = settings_get f k' cap"
proof -
  let ?v = "if b then ON else OFF"
  have g: "good_key k" "good_value ?v" using assms(1) keys_good on_off_good by auto
  have c: "cfg_cost k ?v \<le> STEP" using assms(1) step_cost(1) [of b] step_cost(2) [of b] by auto
  have r: "cfg_room f (cfg_cost k ?v + n)" "cfg_room f (cfg_cost k ?v)" using assms(2) c by (auto simp: cfg_room_def)
  show "cfg_room (working_set k ?v f) n" by (rule settings.put_room [OF g r(1)])
  have "length ?v < 8" by (simp add: ON_def OFF_def)
  then show "settings_get (working_set k ?v f) k 8 = Some ON \<longleftrightarrow> b" using settings.get_put [OF g r(2)] on_off_good(3) by auto
  show "good_key k' \<Longrightarrow> k' \<noteq> k \<Longrightarrow> settings_get (working_set k ?v f) k' cap = settings_get f k' cap"
    by (rule settings.get_put_other [OF g r(2)])
qed

lemma put_ports:
  assumes len: "length ps \<le> MAX_PORTS" "length qs \<le> MAX_PORTS" and nz: "0 \<notin> set ps" "0 \<notin> set qs" and room: "cfg_room f (STEP + n)"
  defines "f1 \<equiv> working_set KEY_TCP (port_list ps) f"
  defines "f2 \<equiv> working_set KEY_UDP (port_list qs) f1"
  shows "cfg_room f2 n" and "saved f2 = (fst (saved f), fst (snd (saved f)), ps, qs)"
proof -
  let ?v = "port_list ps" and ?w = "port_list qs"
  have r: "cfg_room f (cfg_cost KEY_TCP ?v + (cfg_cost KEY_UDP ?w + n))" "cfg_room f (cfg_cost KEY_TCP ?v)"
    using room step_cost(3) [OF len] by (auto simp: cfg_room_def)
  note P1 = settings.put_room [OF keys_good(3) port_list_good r(1), folded f1_def]
  have r2: "cfg_room f1 (cfg_cost KEY_UDP ?w)" using P1 by (auto simp: cfg_room_def)
  show "cfg_room f2 n" unfolding f2_def by (rule settings.put_room [OF keys_good(4) port_list_good P1])
  have o1: "settings_get f1 k cap = settings_get f k cap" if "good_key k" "k \<noteq> KEY_TCP" for k cap
    unfolding f1_def by (rule settings.get_put_other [OF keys_good(3) port_list_good r(2) that])
  have o2: "settings_get f2 k cap = settings_get f1 k cap" if "good_key k" "k \<noteq> KEY_UDP" for k cap
    unfolding f2_def by (rule settings.get_put_other [OF keys_good(4) port_list_good r2 that])
  have short: "length ?v < PORTS_CAP" "length ?w < PORTS_CAP"
    using port_list_length [of ps] port_list_length [of qs] len by (auto simp: PORTS_CAP_def)
  have "settings_get f1 KEY_TCP PORTS_CAP = Some ?v" unfolding f1_def
    by (rule settings.get_put [OF keys_good(3) port_list_good r(2) short(1)])
  then have t: "settings_get f2 KEY_TCP PORTS_CAP = Some ?v" using o2 [OF keys_good(3) keys_differ(6)] by simp
  have u: "settings_get f2 KEY_UDP PORTS_CAP = Some ?w" unfolding f2_def
    by (rule settings.get_put [OF keys_good(4) port_list_good r2 short(2)])
  have "load_ports KEY_TCP f2 = ps" "load_ports KEY_UDP f2 = qs"
    using ports_load_text [of "[]" ps] ports_load_text [of "[]" qs] len nz by (simp_all add: load_ports_def t u)
  then show "saved f2 = (fst (saved f), fst (snd (saved f)), ps, qs)"
    using keys_good keys_differ by (simp add: saved_def o1 o2)
qed

text \<open>What the user does with the firewall.\<close>

datatype fw_op = Enable bool | Ping bool | Allow int u16 bool

definition fw_do :: "fw_op \<Rightarrow> fw \<Rightarrow> fw" where
  "fw_do c s = (case c of
       Enable b \<Rightarrow> fw_enable (\<lambda>_. True) (\<lambda>_. True) b s
     | Ping b \<Rightarrow> fw_set_ping (\<lambda>_. True) (\<lambda>_. True) b s
     | Allow proto port b \<Rightarrow> snd (fw_allow (\<lambda>_. True) (\<lambda>_. True) proto port b s))"

definition fw_ports_ok :: "fw \<Rightarrow> bool" where
  "fw_ports_ok s \<longleftrightarrow> (\<forall>ps \<in> {g_tcp s, g_udp s}. length ps \<le> MAX_PORTS \<and> 0 \<notin> set ps)"

definition fw_synced :: "nat \<Rightarrow> fw \<Rightarrow> bool" where
  "fw_synced n s \<longleftrightarrow> cfg_room (store s) n \<and> fw_ports_ok s \<and> saved (store s) = config s"

lemma ports_load_ok: "length a \<le> MAX_PORTS \<Longrightarrow> 0 \<notin> set a \<Longrightarrow> length (ports_load_loop v a) \<le> MAX_PORTS \<and> 0 \<notin> set (ports_load_loop v a)"
proof (induction "length v" arbitrary: v a rule: less_induct)
  case less
  obtain d x where dx: "parse_u32 v = (d, x)" by force
  show ?case
  proof (cases "v = [] \<or> MAX_PORTS \<le> length a \<or> d = 0")
    case True
    then show ?thesis using less.prems dx by (subst (1 2) ports_load_loop.simps) auto
  next
    case False
    define a' where "a' = (if x \<noteq> 0 \<and> x < 65536 then a @ [of_nat x] else a)"
    define w where "w = (if drop d v \<noteq> [] \<and> hd (drop d v) = 44 then tl (drop d v) else drop d v)"
    have step: "ports_load_loop v a = ports_load_loop w a'" using False dx by (subst ports_load_loop.simps) (simp add: a'_def w_def Let_def)
    have "of_nat x \<noteq> (0 :: u16)" if "0 < x" "x < 65536"
      using that by (simp add: word_of_nat_eq_0_iff nat_dvd_not_less)
    then have "length a' \<le> MAX_PORTS" "0 \<notin> set a'" using less.prems False by (auto simp: a'_def)
    moreover have "length w < length v" using False by (auto simp: w_def)
    ultimately show ?thesis unfolding step by (intro less.hyps)
  qed
qed

lemma fw_boot_synced: "cfg_room (store s) n \<Longrightarrow> fw_synced n (fw_boot s)"
proof -
  have "length (load_ports k f) \<le> MAX_PORTS \<and> 0 \<notin> set (load_ports k f)" for k f
    using ports_load_ok [of "[]"] by (auto simp: load_ports_def MAX_PORTS_def split: option.splits)
  then show "cfg_room (store s) n \<Longrightarrow> fw_synced n (fw_boot s)"
    using config_boot [of s] by (auto simp: fw_synced_def fw_ports_ok_def fw_boot_def)
qed

lemma save_ports_synced:
  assumes "fw_ports_ok s" "cfg_room (store s) (STEP + n)" "fst (saved (store s)) = g_on s" "fst (snd (saved (store s))) = g_ping s"
  shows "fw_synced n (save_ports (\<lambda>_. True) (\<lambda>_. True) s)"
proof -
  have ok: "length (g_tcp s) \<le> MAX_PORTS" "length (g_udp s) \<le> MAX_PORTS" "0 \<notin> set (g_tcp s)" "0 \<notin> set (g_udp s)"
    using assms(1) by (auto simp: fw_ports_ok_def)
  show ?thesis using put_ports [OF ok assms(2)] assms
    by (simp add: fw_synced_def save_ports_def ports_loop_text ok config_def fw_ports_ok_def)
qed

lemma fw_do_synced:
  assumes "fw_synced (STEP + n) s" "\<forall>proto b. c \<noteq> Allow proto 0 b"
  shows "fw_synced n (fw_do c s)"
proof (cases c)
  case (Enable b)
  note P = put_switch [where k = KEY_FIREWALL and f = "store s" and n = n and b = b]
  show ?thesis using assms P keys_good keys_differ Enable
    by (simp add: fw_do_def fw_enable_def fw_synced_def saved_def config_def load_ports_def fw_ports_ok_def)
next
  case (Ping b)
  note P = put_switch [where k = KEY_PING and f = "store s" and n = n and b = b]
  show ?thesis using assms P keys_good keys_differ keys_differ [symmetric] Ping
    by (simp add: fw_do_def fw_set_ping_def fw_synced_def saved_def config_def load_ports_def fw_ports_ok_def)
next
  case (Allow proto port b)
  let ?a = "port_table proto s"
  have ok: "fw_ports_ok s" "cfg_room (store s) (STEP + n)" "saved (store s) = config s" using assms(1) by (auto simp: fw_synced_def)
  have a: "length ?a \<le> MAX_PORTS" "0 \<notin> set ?a" using ok(1) by (auto simp: fw_ports_ok_def port_table_def)
  have table: "fw_synced n (save_ports (\<lambda>_. True) (\<lambda>_. True) (set_port_table proto xs s))"
    if "length xs \<le> MAX_PORTS" "0 \<notin> set xs" for xs
    by (rule save_ports_synced) (use ok that in \<open>auto simp: set_port_table_def fw_ports_ok_def config_def\<close>)
  have same: "fw_synced n (save_ports (\<lambda>_. True) (\<lambda>_. True) s)"
    by (rule save_ports_synced) (use ok in \<open>auto simp: config_def\<close>)
  have "set (butlast (?a[j := ?a ! (length ?a - 1)])) \<subseteq> set ?a" if "j < length ?a" for j
    using that set_update_subset_insert [of ?a j "?a ! (length ?a - 1)"] in_set_butlastD nth_mem [of "length ?a - 1" ?a] by fastforce
  then have rem: "0 \<notin> set (butlast (?a[j := ?a ! (length ?a - 1)]))" if "j < length ?a" for j using a(2) that by blast
  have keep: "fw_synced n s" using assms(1) by (auto simp: fw_synced_def cfg_room_def)
  have p: "port \<noteq> 0" using assms(2) Allow by auto
  show ?thesis using Allow a p same keep table [of "?a @ [port]"] table [of "butlast (?a[_ := ?a ! (length ?a - 1)])"] rem
    by (cases rule: last_at_cases [of port ?a]) (auto simp: fw_do_def fw_allow_def Let_def)
qed

lemma fw_dos_synced:
  "fw_synced (STEP * length cs + n) s \<Longrightarrow> \<forall>c \<in> set cs. \<forall>proto b. c \<noteq> Allow proto 0 b \<Longrightarrow> fw_synced n (fold fw_do cs s)"
proof (induction cs arbitrary: s)
  case (Cons c cs)
  have "fw_synced (STEP * length cs + n) (fw_do c s)"
    by (rule fw_do_synced) (use Cons.prems in \<open>auto simp: add.assoc\<close>)
  then show ?case using Cons by simp
qed simp


section \<open>The log and the answers that are waited for\<close>

lemma log_slot: "at < 16 \<Longrightarrow> i < 16 \<Longrightarrow> nat ((int at - 1 - int i + 32) mod 16) = (at + 15 - i) mod 16"
proof -
  assume a: "at < 16" "i < 16"
  have "int at - 1 - int i + 32 = int (at + 15 - i) + 16" using a by simp
  then have "(int at - 1 - int i + 32) mod 16 = int ((at + 15 - i) mod 16)" by (simp only: mod_add_self2 zmod_int of_nat_numeral)
  then show ?thesis by simp
qed

lemma ring_back_slot:
  assumes "at < (16::nat)"
  shows "i < 15 \<Longrightarrow> ((at + 1) mod 16 + 15 - Suc i) mod 16 = (at + 15 - i) mod 16" and "((at + 1) mod 16 + 15 - 0) mod 16 = at"
    and "i < 15 \<Longrightarrow> (at + 15 - i) mod 16 \<noteq> at"
proof -
  have e: "at + 15 - i = (at - Suc i) + 16" if "Suc i \<le> at" for i using that by simp
  have s: "at + 15 - i < 16" if "\<not> Suc i \<le> at" for i using that by simp
  show "((at + 1) mod 16 + 15 - Suc i) mod 16 = (at + 15 - i) mod 16" if "i < 15"
  proof (cases "at = 15")
    case True
    have "at + 15 - i = (14 - i) + 16" using True that by simp
    then have "(at + 15 - i) mod 16 = (14 - i) mod 16" by (simp only: mod_add_self2)
    then show ?thesis using True that by simp
  qed (use assms in \<open>simp add: add.commute\<close>)
  show "((at + 1) mod 16 + 15 - 0) mod 16 = at" using assms by (cases "at = 15") simp_all
  show "(at + 15 - i) mod 16 \<noteq> at" if "i < 15"
  proof (cases "Suc i \<le> at")
    case True
    have "(at + 15 - i) mod 16 = (at - Suc i) mod 16" by (simp only: e [OF True] mod_add_self2)
    then show ?thesis using True assms by simp
  next
    case False
    then show ?thesis using s [OF False] that by simp
  qed
qed

lemma blocked_line: "length (ktext 64 str fmt ap) \<le> 63"
  by (simp add: ktext_def split: option.splits)

lemma fw_log_nth:
  "i < g_log_n s \<Longrightarrow> i < 16 \<Longrightarrow> g_log_at s < 16 \<Longrightarrow> fw_log LOG_N s ! i = take 63 (g_log s ((g_log_at s + 15 - i) mod 16))"
  using log_slot [of "g_log_at s" i] by (simp add: fw_log_def LOG_N_def)

text \<open>The newest line comes first, the sixteen newest are kept.\<close>

lemma fw_log_blocked:
  assumes "fw_ok s"
  shows "fw_log LOG_N (blocked what src port s) =
    ktext 64 (\<lambda>a. if a = 1 then what else src) (if port \<noteq> 0 then FMT_PORT else FMT_NO_PORT) [1, 2, ucast port] # take 15 (fw_log LOG_N s)"
    (is "_ = ?l # _")
proof -
  let ?at = "g_log_at s" and ?n = "g_log_n s"
  have ok: "?at < 16" "?n \<le> 16" using assms by (auto simp: fw_ok_def LOG_N_def)
  have len: "take 63 ?l = ?l" using blocked_line by (simp only: take_all_iff)
  let ?b = "blocked what src port s"
  have b: "g_log ?b = (g_log s)(?at := ?l)" "g_log_at ?b = (?at + 1) mod 16" "g_log_n ?b = min 16 (?n + 1)"
    using ok by (simp_all add: blocked_def LOG_N_def Let_def)
  note S = ring_back_slot [OF ok(1)]
  show ?thesis
  proof (rule nth_equalityI)
    show "length (fw_log LOG_N (blocked what src port s)) = length (?l # take 15 (fw_log LOG_N s))"
      using ok by (auto simp: fw_log_def blocked_def LOG_N_def Let_def)
  next
    fix i assume "i < length (fw_log LOG_N (blocked what src port s))"
    then have i: "i < 16" "i \<le> ?n" using ok by (auto simp: fw_log_def blocked_def LOG_N_def Let_def split: if_splits)
    show "fw_log LOG_N (blocked what src port s) ! i = (?l # take 15 (fw_log LOG_N s)) ! i"
    proof (cases i)
      case 0
      then show ?thesis using len S(2) fw_log_nth [of 0 ?b] unfolding b by simp
    next
      case (Suc j)
      then have j: "j < 15" "j < ?n" using i by auto
      then show ?thesis using Suc ok S(1,3) [of j] fw_log_nth [of "Suc j" ?b] fw_log_nth [of j s] unfolding b by simp
    qed
  qed
qed

lemma out_slot_range: "set is \<subseteq> {..<n} \<Longrightarrow> k < n \<Longrightarrow> out_slot p out is k < n"
  by (induction "is" arbitrary: k) auto

text \<open>Answers come in for five minutes to a port that was sent from, until the table needs the slot.\<close>

lemma fw_out_in:
  assumes "fw_ok s" "t' - (if t \<noteq> 0 then t else 1) < UDP_OUT_MS"
  shows "fw_in_udp t' src sport p (fw_out_udp t p s) = (True, fw_out_udp t p s)"
proof -
  let ?k = "out_slot p (g_out s) [0..<UDP_OUT] 0" and ?t = "if t \<noteq> 0 then t else 1"
  have k: "?k < length (g_out s)" using out_slot_range [of "[0..<UDP_OUT]" UDP_OUT 0 p "g_out s"] assms(1) by (simp add: fw_ok_def UDP_OUT_def lessThan_atLeast0)
  have "(p, ?t) \<in> set (g_out (fw_out_udp t p s))"
    using set_update_memI [OF k] by (simp add: fw_out_udp_def Let_def)
  moreover have "?t \<noteq> 0" by simp
  ultimately have "list_ex (\<lambda>(q, ms). q = p \<and> ms \<noteq> 0 \<and> t' - ms < UDP_OUT_MS) (g_out (fw_out_udp t p s))"
    using assms(2) unfolding list_ex_iff by blast
  then show ?thesis by (simp add: fw_in_udp_def)
qed

lemma fw_ops_ok:
  assumes "fw_ok s"
  shows "fw_ok (blocked what src port s)" and "fw_ok (fw_out_udp t p s)"
    and "fw_ok (snd (fw_in_tcp src d b s))" and "fw_ok (snd (fw_in_udp t src sp d s))" and "fw_ok (snd (fw_in_ping src s))"
proof -
  have b: "fw_ok (blocked what src port s)" for what src port
    using assms by (simp add: fw_ok_def blocked_def LOG_N_def)
  then show "fw_ok (blocked what src port s)" .
  show "fw_ok (fw_out_udp t p s)" using assms by (simp add: fw_ok_def fw_out_udp_def Let_def)
  show "fw_ok (snd (fw_in_tcp src d b s))" "fw_ok (snd (fw_in_udp t src sp d s))" "fw_ok (snd (fw_in_ping src s))"
    using b assms by (simp_all add: fw_in_tcp_def fw_in_udp_def fw_in_ping_def)
qed


section \<open>Properties\<close>


definition fw_zero :: fw where
  "fw_zero = \<lparr>g_on = False, g_ping = False, g_tcp = [], g_udp = [], g_out = replicate UDP_OUT (0, 0), g_blocked = 0,
     g_log = (\<lambda>_. []), g_log_at = 0, g_log_n = 0, store = No_File\<rparr>"


end
