(* ===== verification/Ipv4_Model.thy ===== *)
theory Ipv4_Model
  imports Firewall
begin

text \<open>
  The IPv4 stack: Ethernet (\<open>net/net.c\<close>), ARP (\<open>net/arp.c\<close>), IP with its loopback queue (\<open>net/ip.c\<close>), ICMP (\<open>net/icmp.c\<close>) and UDP
  (\<open>net/udp.c\<close>), over one state with the static variables of these files, the interface and the firewall. A packet is the list of its
  bytes. What is outside is a parameter: whether memory is left (\<open>e_alloc\<close>), whether the card takes a frame (\<open>e_send\<close>), and the calls into
  TCP, IPv6, DHCP, DNS and the handlers of UDP ports (\<open>e_up\<close>), which may do anything to the state; \<open>world\<close> is theirs. \<open>now\<close> is \<open>timer_ms\<close>.
\<close>

section \<open>State\<close>

definition NET_OK :: int where "NET_OK = 0"
definition NET_ERR_NOROUTE :: int where "NET_ERR_NOROUTE = -4"
definition NET_ERR_NOMEM :: int where "NET_ERR_NOMEM = -5"
definition NET_ERR_NOTREADY :: int where "NET_ERR_NOTREADY = -8"
definition NET_ERR_NODEV :: int where "NET_ERR_NODEV = -9"
definition NET_ERR_PROTO :: int where "NET_ERR_PROTO = -10"

definition IP4_BROADCAST :: ip4 where "IP4_BROADCAST = 0xFFFFFFFF"
definition ETH_TYPE_IP :: u16 where "ETH_TYPE_IP = 0x0800"
definition ETH_TYPE_ARP :: u16 where "ETH_TYPE_ARP = 0x0806"
definition ETH_BROADCAST :: "byte list" where "ETH_BROADCAST = [0xFF, 0xFF, 0xFF, 0xFF, 0xFF, 0xFF]"
definition ETH_FRAME_MAX :: nat where "ETH_FRAME_MAX = 1514"
definition IP_PROTO_ICMP :: byte where "IP_PROTO_ICMP = 1"
definition IP_PROTO_TCP :: byte where "IP_PROTO_TCP = 6"
definition IP_PROTO_UDP :: byte where "IP_PROTO_UDP = 17"
definition IP_MAX_PAYLOAD :: nat where "IP_MAX_PAYLOAD = 1480"

definition ARP_CACHE :: nat where "ARP_CACHE = 16"
definition ARP_TTL_MS :: u32 where "ARP_TTL_MS = 10 * 60 * 1000"
definition ARP_RETRY_MS :: u32 where "ARP_RETRY_MS = 1000"
definition ARP_PENDING :: nat where "ARP_PENDING = 16"
definition ARP_PENDING_MS :: u32 where "ARP_PENDING_MS = 3000"
definition LOOP_MAX :: nat where "LOOP_MAX = 128"
definition EV_MAX :: nat where "EV_MAX = 16"
definition UDP_BINDINGS :: nat where "UDP_BINDINGS = 32"

record arp_entry =
  ae_ip :: ip4
  ae_mac :: "byte list"
  updated_ms :: u32
  valid :: bool

record arp_pending =
  next_hop :: ip4
  ap_pkt :: "byte list option"
  queued_ms :: u32
  last_req_ms :: u32

record icmp_event =
  ev_src :: ip4
  ev_id :: u16
  ev_seq :: u16
  ev_ttl :: byte
  ev_type :: byte
  ev_bytes :: u32
  recv_ms :: u32

record udp_binding =
  ub_port :: u16
  ub_handler :: "nat option"
  ub_ctx :: nat

record 'w net =
  dev :: "(nat \<times> byte list) option"
  if_ip :: ip4
  netmask :: ip4
  gateway :: ip4
  if_dns :: ip4
  configured :: bool
  if_dhcp :: bool
  lease_s :: u32
  bound_ms :: u32
  now :: u32
  cache :: "arp_entry list"
  pending :: "arp_pending list"
  g_ip_id :: u16
  rx_dropped :: u32
  loopq :: "byte list option list"
  g_ev :: "nat \<Rightarrow> icmp_event"
  ev_head :: nat
  ev_count :: nat
  binds :: "udp_binding list"
  fwall :: fw
  sent :: "byte list list"
  fault :: bool
  world :: 'w

datatype up_call =
    Udp_In nat nat ip4 u16 "byte list"
  | Tcp_In ip4 ip4 "byte list"
  | Ip6_In "byte list"
  | Tcp_Changed
  | Ip6_Changed
  | Dns_Flush
  | Dhcp_Start
  | Dhcp_Stop

record 'w env =
  e_alloc :: "nat \<Rightarrow> bool"
  e_send :: "byte list \<Rightarrow> bool"
  e_up :: "up_call \<Rightarrow> 'w net \<Rightarrow> 'w net"

fun first_idx :: "('a \<Rightarrow> bool) \<Rightarrow> 'a list \<Rightarrow> nat option" where
  "first_idx P [] = None"
| "first_idx P (x # xs) = (if P x then Some 0 else map_option Suc (first_idx P xs))"


section \<open>Ethernet\<close>

definition eth_send :: "'w env \<Rightarrow> byte list \<Rightarrow> u16 \<Rightarrow> byte list \<Rightarrow> 'w net \<Rightarrow> int \<times> 'w net" where
  "eth_send env dst type payload s =
     (case dev s of
        None \<Rightarrow> (NET_ERR_NODEV, s)
      | Some (_, mac) \<Rightarrow>
          if ETH_FRAME_MAX - 14 < length payload then (NET_ERR_PROTO, s)
          else let frame = dst @ mac @ wr16 type @ payload
               in (if e_send env frame then NET_OK else NET_ERR_NOMEM, s\<lparr>sent := sent s @ [frame]\<rparr>))"


section \<open>ARP\<close>

definition arp_send :: "'w env \<Rightarrow> u16 \<Rightarrow> byte list \<Rightarrow> byte list \<Rightarrow> ip4 \<Rightarrow> 'w net \<Rightarrow> 'w net" where
  "arp_send env op dst_mac target_mac target_ip s =
     (case dev s of
        None \<Rightarrow> s\<lparr>fault := True\<rparr>
      | Some (_, mac) \<Rightarrow>
          snd (eth_send env dst_mac ETH_TYPE_ARP
                 (wr16 1 @ wr16 ETH_TYPE_IP @ [6, 4] @ wr16 op @ mac @ wr32 (if_ip s) @ target_mac @ wr32 target_ip) s))"

definition arp_request :: "'w env \<Rightarrow> ip4 \<Rightarrow> 'w net \<Rightarrow> 'w net" where
  "arp_request env ip s = (if dev s = None then s else arp_send env 1 ETH_BROADCAST (replicate 6 0) ip s)"

fun victim :: "arp_entry list \<Rightarrow> nat \<Rightarrow> nat option \<Rightarrow> u32 \<Rightarrow> nat option" where
  "victim [] i slot oldest = slot"
| "victim (e # es) i slot oldest =
     (if \<not> valid e then Some i
      else if updated_ms e < oldest then victim es (i + 1) (Some i) (updated_ms e)
      else victim es (i + 1) slot oldest)"

text \<open>Without a slot the code writes before the array: \<open>fault\<close>.\<close>

definition cache_put :: "ip4 \<Rightarrow> byte list \<Rightarrow> 'w net \<Rightarrow> 'w net" where
  "cache_put ip mac s =
     (let slot = (case first_idx (\<lambda>e. valid e \<and> ae_ip e = ip) (cache s) of
                    Some i \<Rightarrow> Some i
                  | None \<Rightarrow> victim (cache s) 0 None 0xFFFFFFFF)
      in case slot of
           None \<Rightarrow> s\<lparr>fault := True\<rparr>
         | Some i \<Rightarrow> s\<lparr>cache := (cache s)[i := \<lparr>ae_ip = ip, ae_mac = mac, updated_ms = now s, valid = True\<rparr>]\<rparr>)"

definition arp_lookup :: "ip4 \<Rightarrow> 'w net \<Rightarrow> byte list option" where
  "arp_lookup ip s = map_option ae_mac (find (\<lambda>e. valid e \<and> ae_ip e = ip) (cache s))"

definition flush_one :: "'w env \<Rightarrow> ip4 \<Rightarrow> byte list \<Rightarrow> nat \<Rightarrow> 'w net \<Rightarrow> 'w net" where
  "flush_one env ip mac i s =
     (let p = pending s ! i
      in case ap_pkt p of
           None \<Rightarrow> s
         | Some pkt \<Rightarrow>
             if next_hop p = ip
             then let s = snd (eth_send env mac ETH_TYPE_IP pkt s) in s\<lparr>pending := (pending s)[i := p\<lparr>ap_pkt := None\<rparr>]\<rparr>
             else s)"

definition flush_pending :: "'w env \<Rightarrow> ip4 \<Rightarrow> byte list \<Rightarrow> 'w net \<Rightarrow> 'w net" where
  "flush_pending env ip mac s = fold (flush_one env ip mac) [0..<ARP_PENDING] s"

definition arp_queue_packet :: "'w env \<Rightarrow> ip4 \<Rightarrow> byte list \<Rightarrow> 'w net \<Rightarrow> 'w net" where
  "arp_queue_packet env hop pkt s =
     (let already_asking = list_ex (\<lambda>p. ap_pkt p \<noteq> None \<and> next_hop p = hop) (pending s)
      in case first_idx (\<lambda>p. ap_pkt p = None) (pending s) of
           None \<Rightarrow> s
         | Some slot \<Rightarrow>
             if \<not> e_alloc env (length pkt) then s
             else let s = s\<lparr>pending := (pending s)[slot :=
                             \<lparr>next_hop = hop, ap_pkt = Some pkt, queued_ms = now s, last_req_ms = now s\<rparr>]\<rparr>
                  in if \<not> already_asking then arp_request env hop s else s)"

definition arp_rx :: "'w env \<Rightarrow> byte list \<Rightarrow> 'w net \<Rightarrow> 'w net" where
  "arp_rx env p s =
     (if length p < 28 then s
      else if rd16 p 0 \<noteq> 1 \<or> rd16 p 2 \<noteq> ETH_TYPE_IP \<or> p ! 4 \<noteq> 6 \<or> p ! 5 \<noteq> 4 then s
      else let op = rd16 p 6; sender_mac = take 6 (drop 8 p); sender_ip = rd32 p 14; target_ip = rd32 p 24;
               s = (if sender_ip \<noteq> 0
                    then let s = (if op = 2 \<or> target_ip = if_ip s \<or> arp_lookup sender_ip s \<noteq> None
                                  then cache_put sender_ip sender_mac s else s)
                         in flush_pending env sender_ip sender_mac s
                    else s)
           in if op = 1 \<and> configured s \<and> target_ip = if_ip s then arp_send env 2 sender_mac sender_mac sender_ip s else s)"

definition timer_one :: "'w env \<Rightarrow> nat \<Rightarrow> 'w net \<Rightarrow> 'w net" where
  "timer_one env i s =
     (let p = pending s ! i
      in if ap_pkt p = None then s
         else if ARP_PENDING_MS < now s - queued_ms p then s\<lparr>pending := (pending s)[i := p\<lparr>ap_pkt := None\<rparr>]\<rparr>
         else if ARP_RETRY_MS < now s - last_req_ms p
         then arp_request env (next_hop p) (s\<lparr>pending := (pending s)[i := p\<lparr>last_req_ms := now s\<rparr>]\<rparr>)
         else s)"

definition arp_timer :: "'w env \<Rightarrow> 'w net \<Rightarrow> 'w net" where
  "arp_timer env s =
     (let s = s\<lparr>cache := map (\<lambda>e. if valid e \<and> ARP_TTL_MS < now s - updated_ms e then e\<lparr>valid := False\<rparr> else e) (cache s)\<rparr>
      in fold (timer_one env) [0..<ARP_PENDING] s)"

definition arp_flush :: "'w net \<Rightarrow> 'w net" where
  "arp_flush s = s\<lparr>cache := map (\<lambda>e. e\<lparr>valid := False\<rparr>) (cache s), pending := map (\<lambda>p. p\<lparr>ap_pkt := None\<rparr>) (pending s)\<rparr>"


section \<open>Sending IP packets\<close>

definition is_local :: "ip4 \<Rightarrow> 'w net \<Rightarrow> bool" where
  "is_local dst s \<longleftrightarrow> drop_bit 24 dst = 127 \<or> (configured s \<and> dst = if_ip s)"

text \<open>The header: version and length, total length, identification, do not fragment, a time to live of 64, protocol, checksum, addresses.\<close>

definition ip_header :: "u16 \<Rightarrow> u16 \<Rightarrow> byte \<Rightarrow> u16 \<Rightarrow> ip4 \<Rightarrow> ip4 \<Rightarrow> byte list" where
  "ip_header len ident proto cs src dst =
     [0x45, 0] @ wr16 len @ wr16 ident @ wr16 0x4000 @ [64, proto] @ wr16 cs @ wr32 src @ wr32 dst"

definition ip_packet :: "u16 \<Rightarrow> byte \<Rightarrow> ip4 \<Rightarrow> ip4 \<Rightarrow> byte list \<Rightarrow> byte list" where
  "ip_packet ident proto src dst payload =
     (let len = of_nat (20 + length payload) :: u16;
          cs = net_checksum (ip_header len ident proto 0 src dst)
      in ip_header len ident proto cs src dst @ payload)"

definition loopback_send :: "'w env \<Rightarrow> ip4 \<Rightarrow> byte \<Rightarrow> byte list \<Rightarrow> 'w net \<Rightarrow> int \<times> 'w net" where
  "loopback_send env dst proto payload s =
     (case first_idx (\<lambda>q. q = None) (loopq s) of
        None \<Rightarrow> (NET_ERR_NOMEM, s)
      | Some i \<Rightarrow>
          if \<not> e_alloc env (20 + length payload) then (NET_ERR_NOMEM, s)
          else (NET_OK, s\<lparr>loopq := (loopq s)[i := Some (ip_packet (g_ip_id s) proto dst dst payload)], g_ip_id := g_ip_id s + 1\<rparr>))"

definition ip_send :: "'w env \<Rightarrow> ip4 \<Rightarrow> byte \<Rightarrow> byte list \<Rightarrow> 'w net \<Rightarrow> int \<times> 'w net" where
  "ip_send env dst proto payload s =
     (if IP_MAX_PAYLOAD < length payload then (NET_ERR_PROTO, s)
      else if is_local dst s then loopback_send env dst proto payload s
      else if dev s = None then (NET_ERR_NODEV, s)
      else if \<not> configured s \<and> dst \<noteq> IP4_BROADCAST then (NET_ERR_NOTREADY, s)
      else let pkt = ip_packet (g_ip_id s) proto (if configured s then if_ip s else 0) dst payload;
               s = s\<lparr>g_ip_id := g_ip_id s + 1\<rparr>
           in if dst = IP4_BROADCAST \<or>
                 (configured s \<and> netmask s \<noteq> 0 \<and> dst OR netmask s = IP4_BROADCAST \<and> dst AND netmask s = if_ip s AND netmask s)
              then eth_send env ETH_BROADCAST ETH_TYPE_IP pkt s
              else if drop_bit 28 dst = 0xE
              then eth_send env [0x01, 0x00, 0x5E, ucast (drop_bit 16 dst AND 0x7F), ucast (drop_bit 8 dst), ucast dst] ETH_TYPE_IP pkt s
              else if dst AND netmask s \<noteq> if_ip s AND netmask s \<and> gateway s = 0 then (NET_ERR_NOROUTE, s)
              else let hop = (if dst AND netmask s \<noteq> if_ip s AND netmask s then gateway s else dst)
                   in case arp_lookup hop s of
                        Some mac \<Rightarrow> eth_send env mac ETH_TYPE_IP pkt s
                      | None \<Rightarrow> (NET_OK, arp_queue_packet env hop pkt s))"


section \<open>ICMP\<close>

definition push_event :: "icmp_event \<Rightarrow> 'w net \<Rightarrow> 'w net" where
  "push_event e s =
     (let idx = (ev_head s + ev_count s) mod EV_MAX;
          s = (if ev_count s = EV_MAX then s\<lparr>ev_head := (ev_head s + 1) mod EV_MAX, ev_count := ev_count s - 1\<rparr> else s)
      in s\<lparr>g_ev := (g_ev s)(idx := e), ev_count := ev_count s + 1\<rparr>)"

fun shift_events :: "nat list \<Rightarrow> 'w net \<Rightarrow> 'w net" where
  "shift_events [] s = s"
| "shift_events (j # js) s =
     shift_events js (s\<lparr>g_ev := (g_ev s)((ev_head s + j) mod EV_MAX := g_ev s ((ev_head s + j + 1) mod EV_MAX))\<rparr>)"

fun poll_from :: "u16 \<Rightarrow> nat list \<Rightarrow> 'w net \<Rightarrow> icmp_event option \<times> 'w net" where
  "poll_from ident [] s = (None, s)"
| "poll_from ident (i # is) s =
     (let e = g_ev s ((ev_head s + i) mod EV_MAX)
      in if ev_id e \<noteq> ident then poll_from ident is s
         else (Some e, (shift_events [i..<ev_count s - 1] s)\<lparr>ev_count := ev_count s - 1\<rparr>))"

definition icmp_poll_event :: "u16 \<Rightarrow> 'w net \<Rightarrow> icmp_event option \<times> 'w net" where
  "icmp_poll_event ident s = poll_from ident [0..<ev_count s] s"

definition echo_data :: "nat \<Rightarrow> u32 \<Rightarrow> byte list" where
  "echo_data n t = (let d = map (\<lambda>i. of_nat (0x10 + i)) [0..<n] in if 4 \<le> n then wr32 t @ drop 4 d else d)"

definition icmp_echo_send :: "'w env \<Rightarrow> ip4 \<Rightarrow> u16 \<Rightarrow> u16 \<Rightarrow> nat \<Rightarrow> 'w net \<Rightarrow> int \<times> 'w net" where
  "icmp_echo_send env dst ident sq data_len s =
     (let n = (if 1472 < data_len then 1472 else data_len);
          rest = wr16 ident @ wr16 sq @ echo_data n (now s);
          cs = net_checksum ([8, 0] @ wr16 0 @ rest)
      in ip_send env dst IP_PROTO_ICMP ([8, 0] @ wr16 cs @ rest) s)"

definition icmp_rx :: "'w env \<Rightarrow> ip4 \<Rightarrow> byte list \<Rightarrow> byte \<Rightarrow> 'w net \<Rightarrow> 'w net" where
  "icmp_rx env src msg ttl s =
     (if length msg < 8 \<or> net_checksum msg \<noteq> 0 then s
      else if msg ! 0 = 8
      then if 8 + 1472 < length msg then s
           else let cs = net_checksum ([0, msg ! 1] @ wr16 0 @ drop 4 msg)
                in snd (ip_send env src IP_PROTO_ICMP ([0, msg ! 1] @ wr16 cs @ drop 4 msg) s)
      else let e = \<lparr>ev_src = src, ev_id = 0, ev_seq = 0, ev_ttl = ttl, ev_type = msg ! 0, ev_bytes = 0, recv_ms = now s\<rparr>
           in if msg ! 0 = 0
              then push_event (e\<lparr>ev_id := rd16 msg 4, ev_seq := rd16 msg 6, ev_bytes := of_nat (length msg)\<rparr>) s
              else if (msg ! 0 = 3 \<or> msg ! 0 = 11) \<and> 8 + 20 + 8 \<le> length msg
              then let ihl = unat (msg ! 8 AND 0x0F) * 4
                   in if msg ! (8 + 9) \<noteq> IP_PROTO_ICMP \<or> length msg < 8 + ihl + 8 then s
                      else if msg ! (8 + ihl) \<noteq> 8 then s
                      else push_event (e\<lparr>ev_id := rd16 msg (8 + ihl + 4), ev_seq := rd16 msg (8 + ihl + 6)\<rparr>) s
              else s)"


section \<open>UDP\<close>

definition bound_to :: "u16 \<Rightarrow> udp_binding \<Rightarrow> bool" where
  "bound_to port b \<longleftrightarrow> ub_handler b \<noteq> None \<and> ub_port b = port"

definition udp_bind :: "u16 \<Rightarrow> nat \<Rightarrow> nat \<Rightarrow> 'w net \<Rightarrow> int \<times> 'w net" where
  "udp_bind port h ctx s =
     (if list_ex (bound_to port) (binds s) then (-1, s)
      else case first_idx (\<lambda>b. ub_handler b = None) (binds s) of
             None \<Rightarrow> (-1, s)
           | Some i \<Rightarrow> (0, s\<lparr>binds := (binds s)[i := \<lparr>ub_port = port, ub_handler = Some h, ub_ctx = ctx\<rparr>]\<rparr>))"

definition udp_unbind :: "u16 \<Rightarrow> 'w net \<Rightarrow> 'w net" where
  "udp_unbind port s = s\<lparr>binds := map (\<lambda>b. if bound_to port b then b\<lparr>ub_handler := None\<rparr> else b) (binds s)\<rparr>"

text \<open>The random numbers are a parameter; the loop ends when one of them is a port that is not in use.\<close>

partial_function (option) udp_ephemeral_port :: "(nat \<Rightarrow> u32) \<Rightarrow> nat \<Rightarrow> 'w net \<Rightarrow> u16 option" where
  "udp_ephemeral_port rnd i s =
     (let p = ucast (49152 + rnd i mod 16384)
      in if list_ex (bound_to p) (binds s) then udp_ephemeral_port rnd (i + 1) s else Some p)"

text \<open>The pseudo header of the checksum: the addresses, the protocol and the length.\<close>

definition pseudo_header :: "ip4 \<Rightarrow> ip4 \<Rightarrow> u16 \<Rightarrow> byte list" where
  "pseudo_header src dst len = wr32 src @ wr32 dst @ [0, IP_PROTO_UDP] @ wr16 len"

definition udp_send :: "'w env \<Rightarrow> ip4 \<Rightarrow> u16 \<Rightarrow> u16 \<Rightarrow> byte list \<Rightarrow> 'w net \<Rightarrow> int \<times> 'w net" where
  "udp_send env dst sport dport data s =
     (let s = s\<lparr>fwall := fw_out_udp (now s) sport (fwall s)\<rparr>
      in if IP_MAX_PAYLOAD - 8 < length data then (NET_ERR_PROTO, s)
         else let len = of_nat (8 + length data) :: u16;
                  src = (if drop_bit 24 dst = 127 then dst else if configured s then if_ip s else 0);
                  cs = net_csum_fold (net_csum_add (net_csum_add 0 (pseudo_header src dst len)) (wr16 sport @ wr16 dport @ wr16 len @ wr16 0 @ data))
              in ip_send env dst IP_PROTO_UDP
                   (wr16 sport @ wr16 dport @ wr16 len @ wr16 (if cs \<noteq> 0 then cs else 0xFFFF) @ data) s)"

definition udp_rx :: "'w env \<Rightarrow> ip4 \<Rightarrow> ip4 \<Rightarrow> byte list \<Rightarrow> 'w net \<Rightarrow> 'w net" where
  "udp_rx env src dst d s =
     (if length d < 8 then s
      else let ulen = rd16 d 4
           in if unat ulen < 8 \<or> length d < unat ulen then s
              else if rd16 d 6 \<noteq> 0 \<and>
                      net_csum_fold (net_csum_add (net_csum_add 0 (pseudo_header src dst ulen)) (take (unat ulen) d)) \<noteq> 0 then s
              else case find (bound_to (rd16 d 2)) (binds s) of
                     None \<Rightarrow> s
                   | Some b \<Rightarrow> e_up env (Udp_In (the (ub_handler b)) (ub_ctx b) src (rd16 d 0) (drop 8 (take (unat ulen) d))) s)"


section \<open>Receiving\<close>

definition ip_filter :: "byte \<Rightarrow> byte list \<Rightarrow> ip4 \<Rightarrow> 'w net \<Rightarrow> bool \<times> 'w net" where
  "ip_filter proto payload src s =
     (if fw_enabled (fwall s) \<and> drop_bit 24 src \<noteq> 127 \<and> \<not> (configured s \<and> src = if_ip s)
      then let from_text = ip4_to_str src; plen = length payload;
               (ok, f) =
                 (if proto = IP_PROTO_TCP \<and> 14 \<le> plen then fw_in_tcp from_text (rd16 payload 2) (payload ! 13 AND 0x12 = 0x02) (fwall s)
                  else if proto = IP_PROTO_UDP \<and> 8 \<le> plen then fw_in_udp (now s) from_text (rd16 payload 0) (rd16 payload 2) (fwall s)
                  else if proto = IP_PROTO_ICMP \<and> 1 \<le> plen \<and> payload ! 0 = 8 then fw_in_ping from_text (fwall s)
                  else (True, fwall s))
           in (ok, s\<lparr>fwall := f\<rparr>)
      else (True, s))"

definition ip_drop :: "'w net \<Rightarrow> 'w net" where
  "ip_drop s = s\<lparr>rx_dropped := rx_dropped s + 1\<rparr>"

definition ip_rx :: "'w env \<Rightarrow> byte list \<Rightarrow> 'w net \<Rightarrow> 'w net" where
  "ip_rx env p s =
     (if length p < 20 \<or> drop_bit 4 (p ! 0) \<noteq> 4 then s
      else let ihl = unat (p ! 0 AND 0x0F) * 4; total = unat (rd16 p 2)
           in if ihl < 20 \<or> total < ihl \<or> length p < total then ip_drop s
              else if net_checksum (take ihl p) \<noteq> 0 then ip_drop s
              else if rd16 p 6 AND 0x2000 \<noteq> 0 \<or> rd16 p 6 AND 0x1FFF \<noteq> 0 then ip_drop s
              else let src = rd32 p 12; dst = rd32 p 16;
                       for_us = (dst = IP4_BROADCAST \<or> \<not> configured s \<or> dst = if_ip s \<or> drop_bit 24 dst = 127 \<or>
                                 (netmask s \<noteq> 0 \<and> dst = (if_ip s AND netmask s) OR NOT (netmask s)))
                   in if \<not> for_us then s
                      else let payload = drop ihl (take total p); (ok, s) = ip_filter (p ! 9) payload src s
                           in if \<not> ok then s
                              else if p ! 9 = IP_PROTO_ICMP then icmp_rx env src payload (p ! 8) s
                              else if p ! 9 = IP_PROTO_UDP then udp_rx env src dst payload s
                              else if p ! 9 = IP_PROTO_TCP
                              then (if configured s \<or> drop_bit 24 dst = 127 then e_up env (Tcp_In src dst payload) s else s)
                              else s)"

definition drain_one :: "'w env \<Rightarrow> nat \<Rightarrow> 'w net \<Rightarrow> 'w net" where
  "drain_one env i s =
     (case loopq s ! i of
        None \<Rightarrow> s
      | Some p \<Rightarrow> ip_rx env p (s\<lparr>loopq := (loopq s)[i := None]\<rparr>))"

definition ip_loopback_drain :: "'w env \<Rightarrow> 'w net \<Rightarrow> 'w net" where
  "ip_loopback_drain env s = fold (drain_one env) [0..<LOOP_MAX] s"

definition ip6_is_loopback :: "byte list \<Rightarrow> bool" where
  "ip6_is_loopback a \<longleftrightarrow> a = replicate 15 0 @ [1]"

definition net_rx :: "'w env \<Rightarrow> nat \<Rightarrow> byte list \<Rightarrow> 'w net \<Rightarrow> 'w net" where
  "net_rx env nd frame s =
     (if map_option fst (dev s) \<noteq> Some nd \<or> length frame < 14 then s
      else let type = rd16 frame 12
           in if type = ETH_TYPE_ARP then arp_rx env (drop 14 frame) s
              else if type = ETH_TYPE_IP
              then (if 34 \<le> length frame \<and> (frame ! 26 = 127 \<or> frame ! 30 = 127) then s else ip_rx env (drop 14 frame) s)
              else if type = 0x86DD
              then (if 54 \<le> length frame \<and> (ip6_is_loopback (take 16 (drop 22 frame)) \<or> ip6_is_loopback (take 16 (drop 38 frame))) then s
                    else e_up env (Ip6_In (drop 14 frame)) s)
              else s)"


section \<open>The interface\<close>

definition net_set_static :: "'w env \<Rightarrow> ip4 \<Rightarrow> ip4 \<Rightarrow> ip4 \<Rightarrow> ip4 \<Rightarrow> 'w net \<Rightarrow> 'w net" where
  "net_set_static env ip msk gw dns s =
     (let s = e_up env Dhcp_Stop s
      in s\<lparr>if_ip := ip, netmask := msk, gateway := gw, if_dns := (if dns \<noteq> 0 then dns else if_dns s), if_dhcp := False,
           configured := (ip \<noteq> 0), bound_ms := now s\<rparr>)"

definition net_select_device :: "'w env \<Rightarrow> (nat \<times> byte list) option \<Rightarrow> 'w net \<Rightarrow> 'w net" where
  "net_select_device env nd s =
     (let changed = (map_option fst (dev s) \<noteq> map_option fst nd);
          s = (if changed then e_up env Tcp_Changed s else s);
          s = s\<lparr>dev := nd, configured := False, if_ip := 0, netmask := 0, gateway := 0, if_dns := 0, lease_s := 0\<rparr>;
          s = arp_flush s;
          s = (if changed then e_up env Dns_Flush (e_up env Ip6_Changed s) else s)
      in case nd of None \<Rightarrow> e_up env Dhcp_Stop s | Some _ \<Rightarrow> e_up env Dhcp_Start s)"

end
