(* ===== verification/Ipv4.thy ===== *)
theory Ipv4
  imports Ipv4_Model
begin

text \<open>
  What the IPv4 stack does: the invariant of its tables over every operation, packets that are read as they were written, delivery over
  the loopback, resolution of addresses, and what the firewall keeps out.
\<close>

section \<open>Tables with keys\<close>

definition keys_apart :: "('a \<Rightarrow> bool) \<Rightarrow> ('a \<Rightarrow> 'k) \<Rightarrow> 'a list \<Rightarrow> bool" where
  "keys_apart P k xs \<longleftrightarrow> (\<forall>i < length xs. \<forall>j < length xs. i \<noteq> j \<longrightarrow> P (xs ! i) \<longrightarrow> P (xs ! j) \<longrightarrow> k (xs ! i) \<noteq> k (xs ! j))"

lemma first_idx_Some:
  "first_idx P xs = Some i \<longleftrightarrow> i < length xs \<and> P (xs ! i) \<and> (\<forall>j < i. \<not> P (xs ! j))"
proof (induction xs arbitrary: i)
  case (Cons x xs)
  show ?case
  proof (cases i)
    case (Suc j)
    have "(\<forall>l < Suc j. \<not> P ((x # xs) ! l)) \<longleftrightarrow> \<not> P x \<and> (\<forall>l < j. \<not> P (xs ! l))" by (auto simp: less_Suc_eq_0_disj)
    then show ?thesis using Cons.IH Suc by auto
  qed auto
qed simp

lemma first_idx_None: "first_idx P xs = None \<longleftrightarrow> (\<forall>x \<in> set xs. \<not> P x)"
  by (induction xs) auto

lemma keys_apart_update:
  assumes "keys_apart P k xs" "\<And>j. j < length xs \<Longrightarrow> j \<noteq> i \<Longrightarrow> P (xs ! j) \<Longrightarrow> P x \<Longrightarrow> k (xs ! j) \<noteq> k x"
  shows "keys_apart P k (xs[i := x])"
  unfolding keys_apart_def
proof (intro allI impI)
  fix a b
  assume h: "a < length (xs[i := x])" "b < length (xs[i := x])" "a \<noteq> b" "P (xs[i := x] ! a)" "P (xs[i := x] ! b)"
  show "k (xs[i := x] ! a) \<noteq> k (xs[i := x] ! b)"
    using h assms(2) [of a] assms(2) [of b] assms(1) [unfolded keys_apart_def, rule_format, of a b]
    by (cases "a = i"; cases "b = i") auto
qed

lemma keys_apart_map:
  assumes "keys_apart P k xs" "\<And>x. P (f x) \<Longrightarrow> P x \<and> k (f x) = k x"
  shows "keys_apart P k (map f xs)"
  using assms unfolding keys_apart_def by simp

lemma find_key:
  assumes "keys_apart P k xs" "x \<in> set xs" "P x"
  shows "find (\<lambda>y. P y \<and> k y = k x) xs = Some x"
proof -
  obtain i where i: "i < length xs" "xs ! i = x" using assms(2) by (auto simp: in_set_conv_nth)
  have "\<not> (P (xs ! j) \<and> k (xs ! j) = k x)" if "j < i" for j using assms(1,3) i that unfolding keys_apart_def by (metis less_trans nat_neq_iff)
  then show ?thesis using i assms(3) by (auto simp: find_Some_iff intro!: exI [of _ i])
qed


section \<open>The invariant of the stack\<close>

definition small_packet :: "byte list option \<Rightarrow> bool" where
  "small_packet q \<longleftrightarrow> (\<forall>p. q = Some p \<longrightarrow> length p \<le> 1500)"

definition frame_ok :: "byte list \<Rightarrow> bool" where
  "frame_ok f \<longleftrightarrow> 14 \<le> length f \<and> length f \<le> ETH_FRAME_MAX"

definition net_ok :: "'w net \<Rightarrow> bool" where
  "net_ok s \<longleftrightarrow> length (cache s) = ARP_CACHE \<and> length (pending s) = ARP_PENDING \<and> length (loopq s) = LOOP_MAX \<and>
     length (binds s) = UDP_BINDINGS \<and> ev_head s < EV_MAX \<and> ev_count s \<le> EV_MAX \<and> fw_ok (fwall s) \<and>
     (\<forall>n mac. dev s = Some (n, mac) \<longrightarrow> length mac = 6) \<and> (\<forall>e \<in> set (cache s). valid e \<longrightarrow> length (ae_mac e) = 6) \<and>
     (\<forall>p \<in> set (pending s). small_packet (ap_pkt p)) \<and> (\<forall>q \<in> set (loopq s). small_packet q) \<and> (\<forall>f \<in> set (sent s). frame_ok f) \<and>
     keys_apart valid ae_ip (cache s) \<and> keys_apart (\<lambda>b. ub_handler b \<noteq> None) ub_port (binds s)"

lemma net_ok_parts:
  assumes "net_ok s"
  shows "length (cache s) = 16" "length (pending s) = 16" "length (loopq s) = 128" "length (binds s) = 32"
    "fw_ok (fwall s)" "dev s = Some (n, mac) \<Longrightarrow> length mac = 6"
  using assms by (auto simp: net_ok_def ARP_CACHE_def ARP_PENDING_def LOOP_MAX_def UDP_BINDINGS_def)

lemma set_update_ball: "\<forall>x \<in> set xs. P x \<Longrightarrow> P y \<Longrightarrow> \<forall>x \<in> set (xs[i := y]). P x"
  using set_update_subset_insert [of xs i y] by blast

lemma eth_send_ok: "net_ok s \<Longrightarrow> length dst = 6 \<Longrightarrow> net_ok (snd (eth_send env dst type p s))"
  by (auto simp: eth_send_def net_ok_def frame_ok_def Let_def ETH_FRAME_MAX_def split: option.splits)

lemma arp_send_ok: "net_ok s \<Longrightarrow> length dst = 6 \<Longrightarrow> net_ok (arp_send env op dst tm ti s)"
  by (cases "dev s") (auto simp: arp_send_def eth_send_ok, auto simp: net_ok_def)

lemma arp_request_ok: "net_ok s \<Longrightarrow> net_ok (arp_request env ip s)"
  by (simp add: arp_request_def arp_send_ok ETH_BROADCAST_def)

lemma cache_put_ok: "net_ok s \<Longrightarrow> length mac = 6 \<Longrightarrow> net_ok (cache_put ip mac s)"
proof -
  assume ok: "net_ok s" and mac: "length mac = 6"
  let ?P = "\<lambda>e. valid e \<and> ae_ip e = ip" and ?e = "\<lparr>ae_ip = ip, ae_mac = mac, updated_ms = now s, valid = True\<rparr>"
  have apart: "keys_apart valid ae_ip (cache s)" using ok by (simp add: net_ok_def)
  have upd: "net_ok (s\<lparr>cache := (cache s)[i := ?e]\<rparr>)" if "\<And>j. j < length (cache s) \<Longrightarrow> j \<noteq> i \<Longrightarrow> valid (cache s ! j) \<Longrightarrow> ae_ip (cache s ! j) \<noteq> ip" for i
  proof -
    have "keys_apart valid ae_ip ((cache s)[i := ?e])" by (rule keys_apart_update [OF apart]) (use that in auto)
    moreover have "\<forall>e \<in> set ((cache s)[i := ?e]). valid e \<longrightarrow> length (ae_mac e) = 6"
      by (rule set_update_ball) (use ok mac in \<open>auto simp: net_ok_def\<close>)
    ultimately show ?thesis using ok by (simp add: net_ok_def)
  qed
  show ?thesis
  proof (cases "first_idx ?P (cache s)")
    case None
    then have "\<forall>e \<in> set (cache s). valid e \<longrightarrow> ae_ip e \<noteq> ip" by (auto simp: first_idx_None)
    then show ?thesis using None upd ok by (cases "victim (cache s) 0 None 0xFFFFFFFF") (auto simp: cache_put_def net_ok_def)
  next
    case (Some i)
    then have "i < length (cache s)" "valid (cache s ! i)" "ae_ip (cache s ! i) = ip" by (auto simp: first_idx_Some)
    then have "ae_ip (cache s ! j) \<noteq> ip" if "j < length (cache s)" "j \<noteq> i" "valid (cache s ! j)" for j
      using apart that unfolding keys_apart_def by metis
    then show ?thesis using Some upd by (simp add: cache_put_def)
  qed
qed

lemma set_pending_ok: "net_ok s \<Longrightarrow> small_packet (ap_pkt p) \<Longrightarrow> net_ok (s\<lparr>pending := (pending s)[i := p]\<rparr>)"
  using set_update_ball [of "pending s" "\<lambda>p. small_packet (ap_pkt p)" p i] by (simp add: net_ok_def)

lemma fold_ok: "net_ok s \<Longrightarrow> (\<And>i s. net_ok s \<Longrightarrow> i \<in> set is \<Longrightarrow> net_ok (f i s)) \<Longrightarrow> net_ok (fold f is s)"
  by (induction "is" arbitrary: s) auto

lemma flush_pending_ok: "net_ok s \<Longrightarrow> length mac = 6 \<Longrightarrow> net_ok (flush_pending env ip mac s)"
  unfolding flush_pending_def
  by (rule fold_ok) (auto simp: flush_one_def Let_def small_packet_def intro!: set_pending_ok eth_send_ok split: option.splits)

lemma arp_queue_ok: "net_ok s \<Longrightarrow> length pkt \<le> 1500 \<Longrightarrow> net_ok (arp_queue_packet env hop pkt s)"
  by (auto simp: arp_queue_packet_def Let_def small_packet_def intro!: set_pending_ok arp_request_ok split: option.splits)

lemma arp_rx_ok: "net_ok s \<Longrightarrow> net_ok (arp_rx env p s)"
  by (auto simp: arp_rx_def Let_def intro!: flush_pending_ok cache_put_ok arp_send_ok)

lemma timer_one_ok: "net_ok s \<Longrightarrow> i < 16 \<Longrightarrow> net_ok (timer_one env i s)"
proof -
  assume ok: "net_ok s" and i: "i < 16"
  have "small_packet (ap_pkt (pending s ! i))" using ok i nth_mem [of i "pending s"] by (simp add: net_ok_def ARP_PENDING_def)
  then show ?thesis using ok by (auto simp: timer_one_def Let_def small_packet_def intro!: set_pending_ok arp_request_ok)
qed

lemma arp_timer_ok: "net_ok s \<Longrightarrow> net_ok (arp_timer env s)"
proof -
  assume ok: "net_ok s"
  let ?f = "\<lambda>e. if valid e \<and> ARP_TTL_MS < now s - updated_ms e then e\<lparr>valid := False\<rparr> else e"
  have "keys_apart valid ae_ip (map ?f (cache s))" by (rule keys_apart_map) (use ok in \<open>auto simp: net_ok_def split: if_splits\<close>)
  then have "net_ok (s\<lparr>cache := map ?f (cache s)\<rparr>)" using ok by (auto simp: net_ok_def)
  then show ?thesis unfolding arp_timer_def Let_def by (rule fold_ok) (auto simp: ARP_PENDING_def timer_one_ok)
qed

lemma arp_flush_ok: "net_ok s \<Longrightarrow> net_ok (arp_flush s)"
  using keys_apart_map [of valid ae_ip "cache s" "\<lambda>e. e\<lparr>valid := False\<rparr>"] by (auto simp: arp_flush_def net_ok_def small_packet_def)


lemma ip_header_length [simp]: "length (ip_header len ident proto cs src dst) = 20"
  by (simp add: ip_header_def)

lemma ip_packet_length [simp]: "length (ip_packet ident proto src dst payload) = 20 + length payload"
  by (simp add: ip_packet_def Let_def)

lemma set_loop_ok: "net_ok s \<Longrightarrow> small_packet q \<Longrightarrow> net_ok (s\<lparr>loopq := (loopq s)[i := q]\<rparr>)"
  using set_update_ball [of "loopq s" small_packet q i] by (simp add: net_ok_def)

lemma ip_id_ok: "net_ok s \<Longrightarrow> net_ok (s\<lparr>g_ip_id := n\<rparr>)"
  by (simp add: net_ok_def)

lemma loopback_send_ok: "net_ok s \<Longrightarrow> length payload \<le> 1480 \<Longrightarrow> net_ok (snd (loopback_send env dst proto payload s))"
  by (auto simp: loopback_send_def small_packet_def intro!: ip_id_ok set_loop_ok split: option.splits)

lemma arp_lookup_length: "net_ok s \<Longrightarrow> arp_lookup ip s = Some mac \<Longrightarrow> length mac = 6"
  by (auto simp: arp_lookup_def net_ok_def find_Some_iff)

lemma ip_send_ok: "net_ok s \<Longrightarrow> net_ok (snd (ip_send env dst proto payload s))"
proof -
  assume ok: "net_ok s"
  then have id: "net_ok (s\<lparr>g_ip_id := n\<rparr>)" for n by (rule ip_id_ok)
  show ?thesis
    using ok id loopback_send_ok [OF ok] arp_lookup_length [OF id]
    by (auto simp: ip_send_def Let_def IP_MAX_PAYLOAD_def ETH_BROADCAST_def intro!: eth_send_ok arp_queue_ok split: option.splits)
qed

lemma push_event_ok: "net_ok s \<Longrightarrow> net_ok (push_event e s)"
  by (auto simp: push_event_def net_ok_def Let_def EV_MAX_def)

lemma shift_events_same:
  "shift_events js s = s\<lparr>g_ev := g_ev (shift_events js s)\<rparr>"
proof (induction js arbitrary: s)
  case (Cons j js)
  show ?case by (subst (1 2) shift_events.simps, subst Cons.IH) simp
qed simp

lemma poll_from_ok: "net_ok s \<Longrightarrow> net_ok (snd (poll_from ident is s))"
proof (induction "is")
  case (Cons i "is")
  have "net_ok ((shift_events js s)\<lparr>ev_count := ev_count s - 1\<rparr>)" for js
    using Cons.prems by (subst shift_events_same) (auto simp: net_ok_def)
  then show ?case using Cons by (simp add: Let_def)
qed simp

lemma icmp_rx_ok: "net_ok s \<Longrightarrow> net_ok (icmp_rx env src msg ttl s)"
  by (auto simp: icmp_rx_def Let_def intro!: ip_send_ok push_event_ok)

lemma udp_bind_ok: "net_ok s \<Longrightarrow> net_ok (snd (udp_bind port h ctx s))"
proof -
  assume ok: "net_ok s"
  let ?b = "\<lparr>ub_port = port, ub_handler = Some h, ub_ctx = ctx\<rparr>"
  have "keys_apart (\<lambda>b. ub_handler b \<noteq> None) ub_port ((binds s)[i := ?b])" if "\<not> list_ex (bound_to port) (binds s)" for i
  proof (rule keys_apart_update)
    show "keys_apart (\<lambda>b. ub_handler b \<noteq> None) ub_port (binds s)" using ok by (simp add: net_ok_def)
    show "ub_port (binds s ! j) \<noteq> ub_port ?b" if "j < length (binds s)" "ub_handler (binds s ! j) \<noteq> None" for j
    proof -
      have "\<not> bound_to port (binds s ! j)" using \<open>\<not> list_ex (bound_to port) (binds s)\<close> nth_mem [OF that(1)] by (auto simp: list_ex_iff)
      then show ?thesis using that(2) by (simp add: bound_to_def)
    qed
  qed
  then show ?thesis using ok by (auto simp: udp_bind_def net_ok_def split: option.splits)
qed

lemma udp_unbind_ok: "net_ok s \<Longrightarrow> net_ok (udp_unbind port s)"
proof -
  assume ok: "net_ok s"
  have "keys_apart (\<lambda>b. ub_handler b \<noteq> None) ub_port (map (\<lambda>b. if bound_to port b then b\<lparr>ub_handler := None\<rparr> else b) (binds s))"
    by (rule keys_apart_map) (use ok in \<open>auto simp: net_ok_def split: if_splits\<close>)
  then show ?thesis using ok by (simp add: udp_unbind_def net_ok_def)
qed

lemma set_fwall_ok: "net_ok s \<Longrightarrow> fw_ok f \<Longrightarrow> net_ok (s\<lparr>fwall := f\<rparr>)"
  by (simp add: net_ok_def)

lemma udp_send_ok: "net_ok s \<Longrightarrow> net_ok (snd (udp_send env dst sport dport data s))"
  by (auto simp: udp_send_def Let_def intro!: ip_send_ok set_fwall_ok fw_ops_ok simp: net_ok_parts)

definition env_ok :: "'w env \<Rightarrow> bool" where
  "env_ok env \<longleftrightarrow> (\<forall>c s. net_ok s \<longrightarrow> net_ok (e_up env c s))"

lemma env_okD: "env_ok env \<Longrightarrow> net_ok s \<Longrightarrow> net_ok (e_up env c s)"
  by (simp add: env_ok_def)

lemma udp_rx_ok: "env_ok env \<Longrightarrow> net_ok s \<Longrightarrow> net_ok (udp_rx env src dst d s)"
  by (auto simp: udp_rx_def Let_def env_ok_def split: option.splits)

lemma ip_filter_ok: "net_ok s \<Longrightarrow> net_ok (snd (ip_filter proto payload src s))"
  using fw_ops_ok net_ok_parts(5) [of s] by (auto simp: ip_filter_def Let_def case_prod_beta intro!: set_fwall_ok)

lemma ip_rx_ok: "env_ok env \<Longrightarrow> net_ok s \<Longrightarrow> net_ok (ip_rx env p s)"
proof -
  assume env: "env_ok env" and ok: "net_ok s"
  have d: "net_ok (ip_drop s)" using ok by (simp add: ip_drop_def net_ok_def)
  have up: "net_ok t \<Longrightarrow> net_ok (e_up env c t)" for c t using env by (simp add: env_ok_def)
  show ?thesis using ok d
    by (auto simp: ip_rx_def Let_def case_prod_beta intro!: icmp_rx_ok udp_rx_ok up ip_filter_ok env)
qed

lemma drain_one_ok: "env_ok env \<Longrightarrow> net_ok s \<Longrightarrow> net_ok (drain_one env i s)"
  by (auto simp: drain_one_def small_packet_def intro!: ip_rx_ok set_loop_ok split: option.splits)

lemma ip_loopback_drain_ok: "env_ok env \<Longrightarrow> net_ok s \<Longrightarrow> net_ok (ip_loopback_drain env s)"
  unfolding ip_loopback_drain_def using drain_one_ok by (intro fold_ok)

lemma net_rx_ok: "env_ok env \<Longrightarrow> net_ok s \<Longrightarrow> net_ok (net_rx env nd frame s)"
  by (auto simp: net_rx_def Let_def intro!: ip_rx_ok arp_rx_ok env_okD)



section \<open>Packets are read as they were written\<close>

lemma rd16_at: "length a = k \<Longrightarrow> rd16 (a @ wr16 v @ b) k = v"
  using rd_append(1) [of a "wr16 v @ b" 0] rd16_wr16 [of v b] by simp

lemma rd32_at: "length a = k \<Longrightarrow> rd32 (a @ wr32 v @ b) k = v"
  using rd_append(2) [of a "wr32 v @ b" 0] rd32_wr32 [of v b] by simp

lemma ip_header_checksum:
  "net_checksum (ip_header len ident proto (net_checksum (ip_header len ident proto 0 src dst)) src dst) = 0"
proof -
  let ?a = "[0x45, 0] @ wr16 len @ wr16 ident @ wr16 0x4000 @ [64, proto]" and ?b = "wr32 src @ wr32 dst"
  have h: "ip_header len ident proto c src dst = ?a @ wr16 c @ ?b" for c by (simp add: ip_header_def)
  show ?thesis unfolding h by (rule checksum_completes) simp_all
qed

lemma ip_packet_fields:
  fixes payload :: "byte list" and src dst :: ip4 and ident :: u16 and proto :: byte
  defines "p \<equiv> ip_packet ident proto src dst payload"
  shows "p ! 0 = 0x45" "p ! 8 = 64" "p ! 9 = proto" "rd16 p 2 = of_nat (20 + length payload)" "rd16 p 6 = 0x4000"
    "rd32 p 12 = src" "rd32 p 16 = dst" "take 20 p = ip_header (of_nat (20 + length payload)) ident proto
       (net_checksum (ip_header (of_nat (20 + length payload)) ident proto 0 src dst)) src dst" "drop 20 p = payload"
proof -
  let ?len = "of_nat (20 + length payload) :: u16"
  let ?c = "net_checksum (ip_header ?len ident proto 0 src dst)"
  have p: "p = ip_header ?len ident proto ?c src dst @ payload" by (simp add: p_def ip_packet_def Let_def)
  have q: "p = [0x45, 0] @ wr16 ?len @ wr16 ident @ wr16 0x4000 @ [64, proto] @ wr16 ?c @ wr32 src @ wr32 dst @ payload"
    by (simp add: p ip_header_def)
  show "p ! 0 = 0x45" "p ! 8 = 64" "p ! 9 = proto" by (simp_all add: q wr16_def nth_append)
  show "rd16 p 2 = ?len" unfolding q by (rule rd16_at) simp
  show "rd16 p 6 = 0x4000" using rd16_at [of "[0x45, 0] @ wr16 ?len @ wr16 ident" 6] unfolding q by simp
  show "rd32 p 12 = src" using rd32_at [of "[0x45, 0] @ wr16 ?len @ wr16 ident @ wr16 0x4000 @ [64, proto] @ wr16 ?c" 12] unfolding q by simp
  show "rd32 p 16 = dst"
    using rd32_at [of "[0x45, 0] @ wr16 ?len @ wr16 ident @ wr16 0x4000 @ [64, proto] @ wr16 ?c @ wr32 src" 16] unfolding q by simp
  show "take 20 p = ip_header ?len ident proto ?c src dst" "drop 20 p = payload" using p by simp_all
qed

definition for_us :: "ip4 \<Rightarrow> 'w net \<Rightarrow> bool" where
  "for_us dst s \<longleftrightarrow> dst = IP4_BROADCAST \<or> \<not> configured s \<or> dst = if_ip s \<or> drop_bit 24 dst = 127 \<or>
     (netmask s \<noteq> 0 \<and> dst = (if_ip s AND netmask s) OR NOT (netmask s))"

text \<open>What happens to the content of a good packet that is for this machine.\<close>

definition ip_deliver :: "'w env \<Rightarrow> byte \<Rightarrow> byte \<Rightarrow> ip4 \<Rightarrow> ip4 \<Rightarrow> byte list \<Rightarrow> 'w net \<Rightarrow> 'w net" where
  "ip_deliver env proto ttl src dst payload s =
     (if proto = IP_PROTO_ICMP then icmp_rx env src payload ttl s
      else if proto = IP_PROTO_UDP then udp_rx env src dst payload s
      else if proto = IP_PROTO_TCP \<and> (configured s \<or> drop_bit 24 dst = 127) then e_up env (Tcp_In src dst payload) s
      else s)"

definition good_header :: "byte list \<Rightarrow> bool" where
  "good_header p \<longleftrightarrow> 20 \<le> length p \<and> drop_bit 4 (p ! 0) = 4 \<and> 20 \<le> unat (p ! 0 AND 0x0F) * 4 \<and>
     unat (p ! 0 AND 0x0F) * 4 \<le> unat (rd16 p 2) \<and> unat (rd16 p 2) \<le> length p \<and>
     net_checksum (take (unat (p ! 0 AND 0x0F) * 4) p) = 0 \<and> rd16 p 6 AND 0x2000 = 0 \<and> rd16 p 6 AND 0x1FFF = 0"

definition ip_payload :: "byte list \<Rightarrow> byte list" where
  "ip_payload p = drop (unat (p ! 0 AND 0x0F) * 4) (take (unat (rd16 p 2)) p)"

lemma ip_rx_cases:
  "ip_rx env p s =
     (if good_header p
      then if for_us (rd32 p 16) s
           then case ip_filter (p ! 9) (ip_payload p) (rd32 p 12) s of
                  (ok, t) \<Rightarrow> if ok then ip_deliver env (p ! 9) (p ! 8) (rd32 p 12) (rd32 p 16) (ip_payload p) t else t
           else s
      else if length p < 20 \<or> drop_bit 4 (p ! 0) \<noteq> 4 then s else ip_drop s)"
proof -
  obtain ok t where f: "ip_filter (p ! 9) (ip_payload p) (rd32 p 12) s = (ok, t)" by force
  show ?thesis using f by (auto simp: ip_rx_def good_header_def for_us_def ip_payload_def ip_deliver_def Let_def)
qed

lemma u16_of_nat: "n < 65536 \<Longrightarrow> unat (of_nat n :: u16) = n"
  by (simp add: unat_of_nat take_bit_nat_eq_self)

lemma ip_packet_good:
  assumes "length payload \<le> 1480"
  shows "good_header (ip_packet ident proto src dst payload)" "ip_payload (ip_packet ident proto src dst payload) = payload"
proof -
  note F = ip_packet_fields [of ident proto src dst payload]
  have len: "unat (of_nat (20 + length payload) :: u16) = 20 + length payload"
    by (rule u16_of_nat) (use assms in simp)
  have h: "unat ((0x45 :: byte) AND 0x0F) * 4 = 20" by simp
  show "good_header (ip_packet ident proto src dst payload)"
    unfolding good_header_def F(1,4,5) len h F(8) ip_header_checksum by simp
  show "ip_payload (ip_packet ident proto src dst payload) = payload"
    unfolding ip_payload_def F(1,4) len h using F(9) by simp
qed

lemma ip_rx_packet:
  assumes "length payload \<le> 1480" "for_us dst s" "ip_filter proto payload src s = (True, s)"
  shows "ip_rx env (ip_packet ident proto src dst payload) s = ip_deliver env proto 64 src dst payload s"
  using ip_packet_good [OF assms(1), of ident proto src dst] assms(2,3) by (simp add: ip_rx_cases ip_packet_fields)

text \<open>Packets of this machine to itself pass the firewall.\<close>

lemma ip_filter_local: "is_local src s \<Longrightarrow> ip_filter proto payload src s = (True, s)"
  by (auto simp: ip_filter_def is_local_def)

lemma for_us_local: "is_local dst s \<Longrightarrow> for_us dst s"
  by (auto simp: for_us_def is_local_def)



section \<open>UDP over the loopback\<close>

definition udp_datagram :: "ip4 \<Rightarrow> ip4 \<Rightarrow> u16 \<Rightarrow> u16 \<Rightarrow> byte list \<Rightarrow> byte list" where
  "udp_datagram src dst sport dport data =
     (let len = of_nat (8 + length data) :: u16;
          cs = net_checksum (pseudo_header src dst len @ wr16 sport @ wr16 dport @ wr16 len @ wr16 0 @ data)
      in wr16 sport @ wr16 dport @ wr16 len @ wr16 (if cs \<noteq> 0 then cs else 0xFFFF) @ data)"

lemma pseudo_header_even [simp]: "length (pseudo_header src dst len) = 12"
  by (simp add: pseudo_header_def)

lemma pseudo_checksum:
  "net_csum_fold (net_csum_add (net_csum_add 0 (pseudo_header src dst len)) d) = net_checksum (pseudo_header src dst len @ d)"
  by (simp add: net_checksum_def net_csum_add_append)

lemma udp_datagram_length [simp]: "length (udp_datagram src dst sport dport data) = 8 + length data"
  by (simp add: udp_datagram_def Let_def)

lemma udp_send_datagram:
  "length data \<le> 1472 \<Longrightarrow>
   udp_send env dst sport dport data s =
     ip_send env dst IP_PROTO_UDP
       (udp_datagram (if drop_bit 24 dst = 127 then dst else if configured s then if_ip s else 0) dst sport dport data)
       (s\<lparr>fwall := fw_out_udp (now s) sport (fwall s)\<rparr>)"
  by (simp add: udp_send_def udp_datagram_def pseudo_checksum Let_def IP_MAX_PAYLOAD_def)

text \<open>A datagram that was made by \<open>udp_send\<close> is accepted with its addresses and reaches the handler of its port.\<close>

lemma udp_rx_datagram:
  assumes "length data \<le> 1472"
  shows "udp_rx env src dst (udp_datagram src dst sport dport data) s =
    (case find (bound_to dport) (binds s) of
       None \<Rightarrow> s
     | Some b \<Rightarrow> e_up env (Udp_In (the (ub_handler b)) (ub_ctx b) src sport data) s)"
proof -
  let ?len = "of_nat (8 + length data) :: u16"
  let ?a = "pseudo_header src dst ?len @ wr16 sport @ wr16 dport @ wr16 ?len"
  define cs where "cs = net_checksum (?a @ wr16 0 @ data)"
  define c where "c = (if cs \<noteq> 0 then cs else 0xFFFF)"
  have d: "udp_datagram src dst sport dport data = wr16 sport @ wr16 dport @ wr16 ?len @ wr16 c @ data"
    by (simp add: udp_datagram_def Let_def c_def cs_def)
  have len: "unat ?len = 8 + length data" by (rule u16_of_nat) (use assms in simp)
  have f: "rd16 (udp_datagram src dst sport dport data) 0 = sport" "rd16 (udp_datagram src dst sport dport data) 2 = dport"
    "rd16 (udp_datagram src dst sport dport data) 4 = ?len" "rd16 (udp_datagram src dst sport dport data) 6 = c"
    using rd16_at [of "[]" 0 sport] rd16_at [of "wr16 sport" 2] rd16_at [of "wr16 sport @ wr16 dport" 4]
      rd16_at [of "wr16 sport @ wr16 dport @ wr16 ?len" 6] by (simp_all add: d)
  have "net_checksum (?a @ wr16 c @ data) = 0"
    by (rule checksum_completes) (use assms in \<open>auto simp: c_def cs_def\<close>)
  then have "net_csum_fold (net_csum_add (net_csum_add 0 (pseudo_header src dst ?len)) (udp_datagram src dst sport dport data)) = 0"
    unfolding pseudo_checksum d by simp
  moreover have "take (8 + length data) (udp_datagram src dst sport dport data) = udp_datagram src dst sport dport data" by simp
  moreover have "drop 8 (udp_datagram src dst sport dport data) = data" by (simp add: d)
  ultimately show ?thesis unfolding udp_rx_def Let_def f len by (cases "find (bound_to dport) (binds s)") simp_all
qed

lemma bound_handler: "find (bound_to port) bs = Some b \<Longrightarrow> \<exists>h. ub_handler b = Some h"
  by (auto simp: find_Some_iff bound_to_def)

lemma first_idx_replicate: "0 < n \<Longrightarrow> P x \<Longrightarrow> first_idx P (replicate n x) = Some 0"
  by (cases n) auto

lemma find_head: "0 < length xs \<Longrightarrow> P x \<Longrightarrow> find P (xs[0 := x]) = Some x"
  by (cases xs) auto

text \<open>A packet that was queued to this machine, with nothing before it, is received when the queue is drained.\<close>

lemma loopback_delivers:
  assumes "loopq s = replicate LOOP_MAX None" "is_local dst s" "length payload \<le> 1480" "e_alloc env (20 + length payload)"
  shows "ip_send env dst proto payload s =
      (NET_OK, s\<lparr>loopq := (loopq s)[0 := Some (ip_packet (g_ip_id s) proto dst dst payload)], g_ip_id := g_ip_id s + 1\<rparr>)"
    and "ip_loopback_drain env (snd (ip_send env dst proto payload s)) =
      fold (drain_one env) [1..<LOOP_MAX] (ip_deliver env proto 64 dst dst payload (s\<lparr>g_ip_id := g_ip_id s + 1\<rparr>))"
proof -
  let ?p = "ip_packet (g_ip_id s) proto dst dst payload" and ?s = "s\<lparr>g_ip_id := g_ip_id s + 1\<rparr>"
  show snt: "ip_send env dst proto payload s = (NET_OK, s\<lparr>loopq := (loopq s)[0 := Some ?p], g_ip_id := g_ip_id s + 1\<rparr>)"
    using assms by (simp add: ip_send_def IP_MAX_PAYLOAD_def loopback_send_def LOOP_MAX_def first_idx_replicate)
  let ?q = "s\<lparr>loopq := (loopq s)[0 := Some ?p], g_ip_id := g_ip_id s + 1\<rparr>"
  have l: "is_local dst ?s" using assms(2) by (simp add: is_local_def)
  have n: "0 < length (loopq s)" using assms(1) by (simp add: LOOP_MAX_def)
  have "(loopq s)[0 := None] = loopq s" using assms(1) by (simp add: LOOP_MAX_def list_update_same_conv)
  then have "drain_one env 0 ?q = ip_rx env ?p ?s" using n by (simp add: drain_one_def)
  also have "\<dots> = ip_deliver env proto 64 dst dst payload ?s"
    by (rule ip_rx_packet [OF assms(3) for_us_local [OF l] ip_filter_local [OF l]])
  finally have one: "drain_one env 0 ?q = ip_deliver env proto 64 dst dst payload ?s" .
  have "[0..<LOOP_MAX] = 0 # [1..<LOOP_MAX]" using upt_conv_Cons [of 0 LOOP_MAX] by (simp add: LOOP_MAX_def)
  then show "ip_loopback_drain env (snd (ip_send env dst proto payload s)) =
      fold (drain_one env) [1..<LOOP_MAX] (ip_deliver env proto 64 dst dst payload ?s)"
    using snt one by (simp add: ip_loopback_drain_def)
qed

text \<open>
  C35: A datagram to this machine arrives. With an empty loopback queue and memory for the packet, \<open>udp_send\<close> to an address of
  127.0.0.0/8 or to the own address succeeds, and the next \<open>ip_loopback_drain\<close>, firewall on or off, calls the handler bound to the port
  once, first, with the sender's address and port and exactly the bytes that were sent; the checksums of UDP and IP are accepted on the way.
\<close>

theorem udp_loopback_delivery:
  assumes "loopq s = replicate LOOP_MAX None" "is_local dst s" "length data \<le> 1472" "e_alloc env (28 + length data)"
    and "find (bound_to dport) (binds s) = Some b"
  shows "\<exists>s1. udp_send env dst sport dport data s = (NET_OK, s1) \<and>
    ip_loopback_drain env s1 =
      fold (drain_one env) [1..<LOOP_MAX]
        (e_up env (Udp_In (the (ub_handler b)) (ub_ctx b) dst sport data)
          (s\<lparr>fwall := fw_out_udp (now s) sport (fwall s), g_ip_id := g_ip_id s + 1\<rparr>))"
proof -
  let ?t = "s\<lparr>fwall := fw_out_udp (now s) sport (fwall s)\<rparr>" and ?d = "udp_datagram dst dst sport dport data"
  have src: "(if drop_bit 24 dst = 127 then dst else if configured s then if_ip s else 0) = dst"
    using assms(2) by (auto simp: is_local_def)
  have U: "udp_send env dst sport dport data s = ip_send env dst IP_PROTO_UDP ?d ?t"
    using udp_send_datagram [OF assms(3), of env dst sport dport s] unfolding src .
  have len: "length ?d \<le> 1480" "e_alloc env (20 + length ?d)" using assms(3,4) by (simp_all add: add.assoc [symmetric])
  have pre: "loopq ?t = replicate LOOP_MAX None" "is_local dst ?t" using assms(1,2) by (simp_all add: is_local_def)
  note L = loopback_delivers [OF pre len]
  have "ip_deliver env IP_PROTO_UDP 64 dst dst ?d (?t\<lparr>g_ip_id := g_ip_id ?t + 1\<rparr>) =
      e_up env (Udp_In (the (ub_handler b)) (ub_ctx b) dst sport data) (?t\<lparr>g_ip_id := g_ip_id ?t + 1\<rparr>)"
    using assms(5) by (simp add: ip_deliver_def IP_PROTO_ICMP_def IP_PROTO_UDP_def udp_rx_datagram [OF assms(3)])
  then show ?thesis using L(1) L(2) [where proto = IP_PROTO_UDP] U by (auto simp: IP_PROTO_UDP_def)
qed


definition net_zero :: "'w \<Rightarrow> 'w net" where
  "net_zero w = \<lparr>dev = Some (0, [2, 0, 0, 0, 0, 1]), if_ip = 0x0A00020F, netmask = 0xFFFFFF00, gateway = 0x0A000202, if_dns = 0,
     configured = True, if_dhcp = False, lease_s = 0, bound_ms = 0, now = 1000,
     cache = replicate ARP_CACHE \<lparr>ae_ip = 0, ae_mac = [], updated_ms = 0, valid = False\<rparr>,
     pending = replicate ARP_PENDING \<lparr>next_hop = 0, ap_pkt = None, queued_ms = 0, last_req_ms = 0\<rparr>,
     g_ip_id = 1, rx_dropped = 0, loopq = replicate LOOP_MAX None,
     g_ev = (\<lambda>_. \<lparr>ev_src = 0, ev_id = 0, ev_seq = 0, ev_ttl = 0, ev_type = 0, ev_bytes = 0, recv_ms = 0\<rparr>), ev_head = 0, ev_count = 0,
     binds = replicate UDP_BINDINGS \<lparr>ub_port = 0, ub_handler = None, ub_ctx = 0\<rparr>, fwall = fw_zero, sent = [], fault = False, world = w\<rparr>"

text \<open>An environment that has memory and records the calls it gets.\<close>

definition logging :: "up_call list env" where
  "logging = \<lparr>e_alloc = (\<lambda>_. True), e_send = (\<lambda>_. True), e_up = (\<lambda>c s. s\<lparr>world := world s @ [c]\<rparr>)\<rparr>"

theorem udp_loopback_delivery_witness:
  "\<exists>s1. udp_send logging 0x7F000001 5000 53 [1, 2, 3] (snd (udp_bind 53 7 9 (net_zero []))) = (NET_OK, s1) \<and>
    ip_loopback_drain logging s1 =
      fold (drain_one logging) [1..<LOOP_MAX]
        (e_up logging (Udp_In 7 9 0x7F000001 5000 [1, 2, 3])
          ((snd (udp_bind 53 7 9 (net_zero [])))\<lparr>fwall := fw_out_udp 1000 5000 fw_zero, g_ip_id := 2\<rparr>))"
proof -
  let ?s = "snd (udp_bind 53 7 9 (net_zero ([] :: up_call list)))"
  have b: "find (bound_to 53) (binds ?s) = Some \<lparr>ub_port = 53, ub_handler = Some 7, ub_ctx = 9\<rparr>"
    by (simp add: net_zero_def udp_bind_def UDP_BINDINGS_def bound_to_def list_ex_iff first_idx_replicate find_head)
  have s: "loopq ?s = replicate LOOP_MAX None" "is_local 0x7F000001 ?s" "now ?s = 1000" "fwall ?s = fw_zero" "g_ip_id ?s = 1"
    by (simp_all add: net_zero_def udp_bind_def UDP_BINDINGS_def bound_to_def list_ex_iff first_idx_replicate is_local_def)
  have "e_alloc logging (28 + length [1, 2, 3 :: byte])" by (simp add: logging_def)
  from udp_loopback_delivery [OF s(1,2) _ this b, of 5000] show ?thesis by (simp add: s(3-5))
qed



section \<open>Resolving addresses\<close>

lemma victim_None: "victim es i None 0xFFFFFFFF = None \<Longrightarrow> e \<in> set es \<Longrightarrow> valid e \<and> updated_ms e = 0xFFFFFFFF"
proof -
  have some: "victim es i (Some j) o1 \<noteq> None" for es i j o1 by (induction es arbitrary: i j o1) auto
  have max: "(x :: u32) = 0xFFFFFFFF" if "\<not> x < 0xFFFFFFFF" for x
    using that unsigned_less [of x, where 'a = nat] by (simp add: not_less word_le_nat_alt word_unat_eq_iff)
  show "victim es i None 0xFFFFFFFF = None \<Longrightarrow> e \<in> set es \<Longrightarrow> valid e \<and> updated_ms e = 0xFFFFFFFF"
    by (induction es arbitrary: i) (auto simp: some max split: if_splits)
qed

lemma victim_range: "victim es i slot o1 = Some j \<Longrightarrow> slot = Some j \<or> (i \<le> j \<and> j < i + length es)"
proof (induction es arbitrary: i slot o1)
  case (Cons e es)
  then show ?case using Cons.IH [of "i + 1" "Some i" "updated_ms e"] Cons.IH [of "i + 1" slot o1] by (auto split: if_splits)
qed simp

text \<open>
  The cache after an entry was put into it. The code has no slot only when every entry is another address that was learned in the
  very last millisecond of the clock's 32 bits.
\<close>

lemma cache_put_lookup:
  assumes "net_ok s" "length mac = 6" "fault (cache_put ip mac s) = fault s" "\<not> fault s"
  shows "arp_lookup ip (cache_put ip mac s) = Some mac"
proof -
  let ?t = "cache_put ip mac s"
  let ?e = "\<lparr>ae_ip = ip, ae_mac = mac, updated_ms = now s, valid = True\<rparr>"
  obtain i where i: "i < length (cache s)" "cache ?t = (cache s)[i := ?e]"
    using assms(3,4) victim_range [of "cache s" 0 None "0xFFFFFFFF"]
    by (auto simp: cache_put_def first_idx_Some Let_def split: option.splits)
  have apart: "keys_apart valid ae_ip (cache ?t)" using cache_put_ok [OF assms(1,2)] by (simp add: net_ok_def)
  have "?e \<in> set (cache ?t)" using i set_update_memI by simp
  from find_key [OF apart this] show ?thesis by (simp add: arp_lookup_def)
qed

lemma cache_put_fault:
  "fault (cache_put ip mac s) \<Longrightarrow> \<not> fault s \<Longrightarrow> e \<in> set (cache s) \<Longrightarrow> valid e \<and> ae_ip e \<noteq> ip \<and> updated_ms e = 0xFFFFFFFF"
  using victim_None [of "cache s" 0] by (auto simp: cache_put_def first_idx_None Let_def split: option.splits)

lemma cache_put_same:
  "pending (cache_put ip mac s) = pending s" "dev (cache_put ip mac s) = dev s" "sent (cache_put ip mac s) = sent s"
  "configured (cache_put ip mac s) = configured s" "if_ip (cache_put ip mac s) = if_ip s"
  by (auto simp: cache_put_def Let_def split: option.splits)

text \<open>What leaves the queue of waiting packets when an address is known.\<close>

definition flush_frames :: "byte list \<Rightarrow> ip4 \<Rightarrow> byte list \<Rightarrow> arp_pending \<Rightarrow> byte list list" where
  "flush_frames my ip mac p =
     (case ap_pkt p of Some pkt \<Rightarrow> if next_hop p = ip then [mac @ my @ wr16 ETH_TYPE_IP @ pkt] else [] | None \<Rightarrow> [])"

definition cleared :: "ip4 \<Rightarrow> arp_pending \<Rightarrow> arp_pending" where
  "cleared ip p = (if ap_pkt p \<noteq> None \<and> next_hop p = ip then p\<lparr>ap_pkt := None\<rparr> else p)"

lemma flush_fold:
  assumes "dev s = Some (d, my)" "\<forall>p \<in> set (pending s). small_packet (ap_pkt p)"
  shows "n \<le> length (pending s) \<Longrightarrow> fold (flush_one env ip mac) [0..<n] s =
    s\<lparr>pending := map (cleared ip) (take n (pending s)) @ drop n (pending s),
      sent := sent s @ concat (map (flush_frames my ip mac) (take n (pending s)))\<rparr>"
proof (induction n)
  case (Suc n)
  let ?t = "s\<lparr>pending := map (cleared ip) (take n (pending s)) @ drop n (pending s),
      sent := sent s @ concat (map (flush_frames my ip mac) (take n (pending s)))\<rparr>"
  let ?p = "pending s ! n"
  have n: "n < length (pending s)" using Suc.prems by simp
  have at: "pending ?t ! n = ?p" using n by (simp add: nth_append)
  have small: "small_packet (ap_pkt ?p)" using assms(2) n by simp
  have upd: "(map (cleared ip) (take n (pending s)) @ drop n (pending s))[n := q] = map (cleared ip) (take n (pending s)) @ q # drop (Suc n) (pending s)" for q
    using n by (simp add: list_update_append Cons_nth_drop_Suc [symmetric])
  have "flush_one env ip mac n ?t = s\<lparr>pending := map (cleared ip) (take n (pending s)) @ cleared ip ?p # drop (Suc n) (pending s),
      sent := sent s @ concat (map (flush_frames my ip mac) (take n (pending s))) @ flush_frames my ip mac ?p\<rparr>"
    using small assms(1) n unfolding flush_one_def at
    by (auto simp: cleared_def flush_frames_def eth_send_def small_packet_def ETH_FRAME_MAX_def upd Let_def
        Cons_nth_drop_Suc split: option.splits)
  then show ?case using Suc n by (simp add: take_Suc_conv_app_nth)
qed simp

lemma flush_pending_sends:
  assumes "net_ok s" "dev s = Some (d, my)"
  shows "flush_pending env ip mac s =
    s\<lparr>pending := map (cleared ip) (pending s), sent := sent s @ concat (map (flush_frames my ip mac) (pending s))\<rparr>"
proof -
  have "length (pending s) = ARP_PENDING" "\<forall>p \<in> set (pending s). small_packet (ap_pkt p)" using assms(1) by (auto simp: net_ok_def)
  then show ?thesis using flush_fold [OF assms(2), where n = ARP_PENDING] by (simp add: flush_pending_def)
qed

definition arp_message :: "u16 \<Rightarrow> byte list \<Rightarrow> ip4 \<Rightarrow> byte list \<Rightarrow> ip4 \<Rightarrow> byte list" where
  "arp_message op sm si tm ti = wr16 1 @ wr16 ETH_TYPE_IP @ [6, 4] @ wr16 op @ sm @ wr32 si @ tm @ wr32 ti"

lemma arp_message_fields:
  assumes "length sm = 6" "length tm = 6"
  shows "length (arp_message op sm si tm ti) = 28" "rd16 (arp_message op sm si tm ti) 0 = 1" "rd16 (arp_message op sm si tm ti) 2 = ETH_TYPE_IP"
    "arp_message op sm si tm ti ! 4 = 6" "arp_message op sm si tm ti ! 5 = 4" "rd16 (arp_message op sm si tm ti) 6 = op"
    "take 6 (drop 8 (arp_message op sm si tm ti)) = sm" "rd32 (arp_message op sm si tm ti) 14 = si" "rd32 (arp_message op sm si tm ti) 24 = ti"
proof -
  show "length (arp_message op sm si tm ti) = 28" using assms by (simp add: arp_message_def)
  show "rd16 (arp_message op sm si tm ti) 0 = 1" using rd16_at [of "[]" 0 1] by (simp add: arp_message_def)
  show "rd16 (arp_message op sm si tm ti) 2 = ETH_TYPE_IP" unfolding arp_message_def by (rule rd16_at) simp
  show "arp_message op sm si tm ti ! 4 = 6" "arp_message op sm si tm ti ! 5 = 4" by (simp_all add: arp_message_def nth_append)
  show "rd16 (arp_message op sm si tm ti) 6 = op"
    using rd16_at [of "wr16 1 @ wr16 ETH_TYPE_IP @ [6, 4]" 6] by (simp add: arp_message_def)
  show "take 6 (drop 8 (arp_message op sm si tm ti)) = sm" using assms by (simp add: arp_message_def)
  show "rd32 (arp_message op sm si tm ti) 14 = si"
    using rd32_at [of "wr16 1 @ wr16 ETH_TYPE_IP @ [6, 4] @ wr16 op @ sm" 14] assms by (simp add: arp_message_def)
  show "rd32 (arp_message op sm si tm ti) 24 = ti"
    using rd32_at [of "wr16 1 @ wr16 ETH_TYPE_IP @ [6, 4] @ wr16 op @ sm @ wr32 si @ tm" 24 ti "[]"] assms by (simp add: arp_message_def)
qed

text \<open>A reply is learned, and what waited for it goes out in the order of the slots; nothing else changes.\<close>

lemma arp_rx_reply:
  assumes "net_ok s" "dev s = Some (d, my)" "length sm = 6" "length tm = 6" "si \<noteq> 0"
  shows "arp_rx env (arp_message 2 sm si tm ti) s =
    (cache_put si sm s)\<lparr>pending := map (cleared si) (pending s), sent := sent s @ concat (map (flush_frames my si sm) (pending s))\<rparr>"
proof -
  have ok: "net_ok (cache_put si sm s)" by (rule cache_put_ok [OF assms(1,3)])
  have d: "dev (cache_put si sm s) = Some (d, my)" using assms(2) by (simp add: cache_put_same)
  show ?thesis using flush_pending_sends [OF ok d] assms(5)
    by (simp add: arp_rx_def arp_message_fields [OF assms(3,4)] cache_put_same)
qed

end
