(* ===== verification/Ipv4_Rx.thy ===== *)
theory Ipv4_Rx
  imports Ipv4
begin

text \<open>
  What the stack promises as a whole: packets that wait for an address leave when it is known, pings of this machine are answered, the
  firewall decides exactly as its rules say, the way around it, and the invariant over everything that can happen.
\<close>

section \<open>Resolution\<close>

definition unicast :: "ip4 \<Rightarrow> 'w net \<Rightarrow> bool" where
  "unicast dst s \<longleftrightarrow> \<not> is_local dst s \<and> dst \<noteq> IP4_BROADCAST \<and> drop_bit 28 dst \<noteq> 0xE \<and>
     \<not> (configured s \<and> netmask s \<noteq> 0 \<and> dst OR netmask s = IP4_BROADCAST \<and> dst AND netmask s = if_ip s AND netmask s)"

definition route :: "ip4 \<Rightarrow> 'w net \<Rightarrow> ip4" where
  "route dst s = (if dst AND netmask s \<noteq> if_ip s AND netmask s then gateway s else dst)"

lemma arp_request_frame:
  "dev s = Some (d, my) \<Longrightarrow> length my = 6 \<Longrightarrow> arp_request env ip s =
     s\<lparr>sent := sent s @ [ETH_BROADCAST @ my @ wr16 ETH_TYPE_ARP @ arp_message 1 my (if_ip s) (replicate 6 0) ip]\<rparr>"
  by (simp add: arp_request_def arp_send_def eth_send_def arp_message_def ETH_FRAME_MAX_def Let_def)

lemma ip_send_waits:
  assumes "dev s = Some (d, my)" "configured s" "unicast dst s" "route dst s \<noteq> 0" "arp_lookup (route dst s) s = None" "length payload \<le> 1480"
  shows "ip_send env dst proto payload s =
    (NET_OK, arp_queue_packet env (route dst s) (ip_packet (g_ip_id s) proto (if_ip s) dst payload) (s\<lparr>g_ip_id := g_ip_id s + 1\<rparr>))"
  using assms by (auto simp: ip_send_def unicast_def route_def arp_lookup_def Let_def IP_MAX_PAYLOAD_def split: if_splits)

text \<open>
  C36: A packet to a machine whose Ethernet address is not known yet is sent when the address is learned. With a free slot and memory,
  \<open>ip_send\<close> keeps it and asks for the next hop, unless it is asking already. When the answer of the next hop comes in (\<open>arp_rx\<close>), a frame to
  exactly that Ethernet address with exactly that packet goes out, no packet waits for the hop any more, and the cache
  has the address, except when the code found no slot for it.
\<close>

theorem arp_resolution:
  assumes "net_ok s" "dev s = Some (d, my)" "configured s" "unicast dst s" "route dst s \<noteq> 0" "arp_lookup (route dst s) s = None"
    and "length payload \<le> 1480" "e_alloc env (20 + length payload)" "\<exists>p \<in> set (pending s). ap_pkt p = None" "\<not> fault s"
    and "length mac = 6" "length tm = 6"
  shows "\<exists>s1. ip_send env dst proto payload s = (NET_OK, s1) \<and>
    sent s1 = sent s @ (if \<exists>p \<in> set (pending s). ap_pkt p \<noteq> None \<and> next_hop p = route dst s then []
      else [ETH_BROADCAST @ my @ wr16 ETH_TYPE_ARP @ arp_message 1 my (if_ip s) (replicate 6 0) (route dst s)]) \<and>
    (let t = arp_rx env (arp_message 2 mac (route dst s) tm ti) s1
     in mac @ my @ wr16 ETH_TYPE_IP @ ip_packet (g_ip_id s) proto (if_ip s) dst payload \<in> set (sent t) \<and>
        (\<forall>p \<in> set (pending t). ap_pkt p \<noteq> None \<longrightarrow> next_hop p \<noteq> route dst s) \<and>
        (fault t \<or> arp_lookup (route dst s) t = Some mac))"
proof -
  let ?h = "route dst s" and ?pkt = "ip_packet (g_ip_id s) proto (if_ip s) dst payload"
  let ?s = "s\<lparr>g_ip_id := g_ip_id s + 1\<rparr>" and ?e = "\<lparr>next_hop = route dst s, ap_pkt = Some ?pkt, queued_ms = now s, last_req_ms = now s\<rparr>"
  have my: "length my = 6" using net_ok_parts(6) [OF assms(1,2)] .
  obtain i where i: "first_idx (\<lambda>p. ap_pkt p = None) (pending s) = Some i"
    using assms(9) first_idx_None [of "\<lambda>p. ap_pkt p = None" "pending s"] by (cases "first_idx (\<lambda>p. ap_pkt p = None) (pending s)") auto
  then have il: "i < length (pending s)" by (simp add: first_idx_Some)
  define q where "q = ?s\<lparr>pending := (pending s)[i := ?e]\<rparr>"
  define asks where "asks \<longleftrightarrow> (\<exists>p \<in> set (pending s). ap_pkt p \<noteq> None \<and> next_hop p = ?h)"
  define s1 where "s1 = (if asks then q else arp_request env ?h q)"
  have send: "ip_send env dst proto payload s = (NET_OK, s1)"
    unfolding ip_send_waits [OF assms(2-7)] using i assms(8)
    by (cases asks) (auto simp: arp_queue_packet_def list_ex_iff s1_def q_def asks_def Let_def)
  have dq: "dev q = Some (d, my)" using assms(2) by (simp add: q_def)
  have s1: "dev s1 = Some (d, my)" "pending s1 = (pending s)[i := ?e]" "fault s1 = fault s"
    "sent s1 = sent s @ (if asks then [] else [ETH_BROADCAST @ my @ wr16 ETH_TYPE_ARP @ arp_message 1 my (if_ip s) (replicate 6 0) ?h])"
    using arp_request_frame [OF dq my, of env ?h] assms(2) by (simp_all add: s1_def q_def)
  have ok: "net_ok s1" using ip_send_ok [OF assms(1), of env dst proto payload] send by simp
  define t where "t = arp_rx env (arp_message 2 mac ?h tm ti) s1"
  have t: "t = (cache_put ?h mac s1)\<lparr>pending := map (cleared ?h) (pending s1), sent := sent s1 @ concat (map (flush_frames my ?h mac) (pending s1))\<rparr>"
    unfolding t_def by (rule arp_rx_reply [OF ok s1(1) assms(11,12,5)])
  have "?e \<in> set (pending s1)" using set_update_memI [OF il] s1(2) by simp
  moreover have "flush_frames my ?h mac ?e = [mac @ my @ wr16 ETH_TYPE_IP @ ?pkt]" by (simp add: flush_frames_def)
  ultimately have "mac @ my @ wr16 ETH_TYPE_IP @ ?pkt \<in> set (sent t)" unfolding t by force
  moreover have "\<forall>p \<in> set (pending t). ap_pkt p \<noteq> None \<longrightarrow> next_hop p \<noteq> ?h" unfolding t by (auto simp: cleared_def split: if_splits)
  moreover have "fault t \<or> arp_lookup ?h t = Some mac"
    using cache_put_lookup [OF ok assms(11), of ?h] s1(3) assms(10) unfolding t by (auto simp: arp_lookup_def)
  ultimately show ?thesis using send s1(4) unfolding t_def asks_def Let_def by blast
qed

theorem arp_resolution_witness:
  "\<exists>s1. ip_send logging 0x0A000203 17 [1, 2] (net_zero []) = (NET_OK, s1) \<and>
    [2, 0, 0, 0, 0, 9] @ [2, 0, 0, 0, 0, 1] @ wr16 ETH_TYPE_IP @ ip_packet 1 17 0x0A00020F 0x0A000203 [1, 2]
      \<in> set (sent (arp_rx logging (arp_message 2 [2, 0, 0, 0, 0, 9] 0x0A000203 [2, 0, 0, 0, 0, 1] 0x0A00020F) s1))"
proof -
  let ?s = "net_zero ([] :: up_call list)"
  have "net_ok ?s"
    by (simp add: net_zero_def net_ok_def fw_zero_def fw_ok_def keys_apart_def small_packet_def ARP_CACHE_def ARP_PENDING_def LOOP_MAX_def
        UDP_BINDINGS_def EV_MAX_def MAX_PORTS_def UDP_OUT_def LOG_N_def)
  moreover have "route 0x0A000203 ?s = 0x0A000203" by (simp add: route_def net_zero_def)
  ultimately show ?thesis
    using arp_resolution [of ?s 0 "[2, 0, 0, 0, 0, 1]" "0x0A000203" "[1, 2]" logging "[2, 0, 0, 0, 0, 9]" "[2, 0, 0, 0, 0, 1]" 17 "0x0A00020F"]
    by (simp add: net_zero_def logging_def unicast_def is_local_def IP4_BROADCAST_def arp_lookup_def ARP_CACHE_def ARP_PENDING_def
        find_None_iff Let_def)
      (meson)
qed



section \<open>The firewall\<close>

text \<open>What the rules of the firewall keep out, and how it is written down.\<close>

definition unwanted :: "byte \<Rightarrow> byte list \<Rightarrow> 'w net \<Rightarrow> bool" where
  "unwanted proto pl s \<longleftrightarrow>
     (proto = IP_PROTO_TCP \<and> 14 \<le> length pl \<and> pl ! 13 AND 0x12 = 0x02 \<and> rd16 pl 2 \<notin> set (g_tcp (fwall s))) \<or>
     (proto = IP_PROTO_UDP \<and> 8 \<le> length pl \<and> rd16 pl 2 \<notin> set (g_udp (fwall s)) \<and> rd16 pl 2 \<noteq> 68 \<and>
        (\<forall>ms. (rd16 pl 2, ms) \<in> set (g_out (fwall s)) \<longrightarrow> ms = 0 \<or> UDP_OUT_MS \<le> now s - ms)) \<or>
     (proto = IP_PROTO_ICMP \<and> 1 \<le> length pl \<and> pl ! 0 = 8 \<and> \<not> g_ping (fwall s))"

definition proto_word :: "byte \<Rightarrow> byte list" where
  "proto_word proto =
     (if proto = IP_PROTO_TCP then [116, 99, 112] else if proto = IP_PROTO_UDP then [117, 100, 112] else [112, 105, 110, 103])"

definition log_port :: "byte \<Rightarrow> byte list \<Rightarrow> u16" where
  "log_port proto pl = (if proto = IP_PROTO_ICMP then 0 else rd16 pl 2)"

lemmas proto_defs = IP_PROTO_TCP_def IP_PROTO_UDP_def IP_PROTO_ICMP_def

lemma ip_filter_exact:
  assumes "g_on (fwall s)" "drop_bit 24 src \<noteq> 127" "\<not> (configured s \<and> src = if_ip s)"
  shows "ip_filter proto pl src s =
    (if unwanted proto pl s then (False, s\<lparr>fwall := blocked (proto_word proto) (ip4_to_str src) (log_port proto pl) (fwall s)\<rparr>) else (True, s))"
proof -
  have same: "s\<lparr>fwall := fwall s\<rparr> = s" by simp
  have t: "fw_in_tcp f (rd16 pl 2) b (fwall s) = (if b \<and> rd16 pl 2 \<notin> set (g_tcp (fwall s)) then (False, blocked [116, 99, 112] f (rd16 pl 2) (fwall s)) else (True, fwall s))" for f b
    using assms(1) by (auto simp: fw_in_tcp_def fw_allowed_def port_table_def list_ex_iff FW_TCP_def FW_UDP_def)
  have ex: "list_ex (\<lambda>(q, ms). q = port \<and> ms \<noteq> 0 \<and> now s - ms < UDP_OUT_MS) (g_out (fwall s)) \<longleftrightarrow>
      \<not> (\<forall>ms. (port, ms) \<in> set (g_out (fwall s)) \<longrightarrow> ms = 0 \<or> UDP_OUT_MS \<le> now s - ms)" for port
    by (auto simp: list_ex_iff not_less [symmetric])
  have u: "fw_in_udp (now s) f sp port (fwall s) =
      (if port \<notin> set (g_udp (fwall s)) \<and> port \<noteq> 68 \<and> (\<forall>ms. (port, ms) \<in> set (g_out (fwall s)) \<longrightarrow> ms = 0 \<or> UDP_OUT_MS \<le> now s - ms)
       then (False, blocked [117, 100, 112] f port (fwall s)) else (True, fwall s))" for f sp port
    using assms(1) unfolding fw_in_udp_def ex by (auto simp: fw_allowed_def port_table_def list_ex_iff)
  show ?thesis
  proof (cases "proto = IP_PROTO_TCP \<or> proto = IP_PROTO_UDP \<or> proto = IP_PROTO_ICMP")
    case True
    then show ?thesis using assms
      by (elim disjE) (simp_all add: ip_filter_def fw_enabled_def t u fw_in_ping_def unwanted_def proto_word_def log_port_def proto_defs same Let_def)
  next
    case False
    then show ?thesis using assms by (simp add: ip_filter_def fw_enabled_def unwanted_def Let_def)
  qed
qed

lemma rd32_top: "drop_bit 24 (rd32 p k) = ucast (p ! k)"
  by (rule bit_word_eqI) (auto simp: rd32_def bit_simps dest: bit_imp_le_length)

text \<open>
  C33: With the firewall on, what comes in from the card is decided by its rules alone. For every frame with a good IP packet that is for this
  machine and does not carry its own address as the sender: if the packet opens a TCP connection to a port that is not
  allowed, is a UDP datagram to a port that is neither allowed nor 68 nor was sent from in the last five minutes, or is an echo request with
  pings refused, the only effect is the count and the line in the log; nothing is answered and no program sees it. Every other packet is
  delivered and the firewall keeps no note of it. Frames with a loopback address are dropped.
\<close>

theorem firewall_exact:
  assumes "g_on (fwall s)" "map_option fst (dev s) = Some nd" "34 \<le> length frame" "rd16 frame 12 = ETH_TYPE_IP"
    and "good_header (drop 14 frame)" "for_us (rd32 (drop 14 frame) 16) s" "\<not> (configured s \<and> rd32 (drop 14 frame) 12 = if_ip s)"
  shows "net_rx env nd frame s =
    (let p = drop 14 frame; src = rd32 p 12; dst = rd32 p 16; pl = ip_payload p
     in if drop_bit 24 src = 127 \<or> drop_bit 24 dst = 127 then s
        else if unwanted (p ! 9) pl s
        then s\<lparr>fwall := blocked (proto_word (p ! 9)) (ip4_to_str src) (log_port (p ! 9) pl) (fwall s)\<rparr>
        else ip_deliver env (p ! 9) (p ! 8) src dst pl s)"
proof -
  let ?p = "drop 14 frame"
  have byte: "(ucast (b :: byte) :: u32) = 127 \<longleftrightarrow> b = 127" for b
  proof
    assume "(ucast b :: u32) = 127"
    then have "(ucast (ucast b :: u32) :: byte) = ucast (127 :: u32)" by simp
    moreover have "(ucast (ucast b :: u32) :: byte) = b" by (rule bit_word_eqI) (simp add: bit_simps)
    ultimately show "b = 127" by simp
  qed simp
  have top: "drop_bit 24 (rd32 ?p 12) = 127 \<longleftrightarrow> frame ! 26 = 127" "drop_bit 24 (rd32 ?p 16) = 127 \<longleftrightarrow> frame ! 30 = 127"
    using assms(3) by (simp_all add: rd32_top byte)
  have rx: "net_rx env nd frame s = (if frame ! 26 = 127 \<or> frame ! 30 = 127 then s else ip_rx env ?p s)"
    using assms(2-4) by (simp add: net_rx_def ETH_TYPE_ARP_def ETH_TYPE_IP_def)
  show ?thesis
  proof (cases "frame ! 26 = 127 \<or> frame ! 30 = 127")
    case True
    then show ?thesis using rx top by (auto simp: Let_def)
  next
    case False
    then have "drop_bit 24 (rd32 ?p 12) \<noteq> 127" using top by simp
    note F = ip_filter_exact [OF assms(1) this assms(7), of "?p ! 9" "ip_payload ?p"]
    show ?thesis using False rx top assms(5,6) by (simp add: ip_rx_cases F Let_def)
  qed
qed


text \<open>A frame with an IP packet, as a neighbour sends it.\<close>

definition ip_frame :: "byte list \<Rightarrow> byte list \<Rightarrow> byte list \<Rightarrow> byte list" where
  "ip_frame dmac smac pkt = dmac @ smac @ wr16 ETH_TYPE_IP @ pkt"

lemma ip_frame_fields:
  assumes "length dmac = 6" "length smac = 6"
  shows "drop 14 (ip_frame dmac smac pkt) = pkt" "rd16 (ip_frame dmac smac pkt) 12 = ETH_TYPE_IP"
    "length (ip_frame dmac smac pkt) = 14 + length pkt"
  using assms rd16_at [of "dmac @ smac" 12 ETH_TYPE_IP pkt] by (simp_all add: ip_frame_def)

definition fw_on :: "'w net \<Rightarrow> 'w net" where
  "fw_on s = s\<lparr>fwall := (fwall s)\<lparr>g_on := True, g_tcp := [80]\<rparr>\<rparr>"

text \<open>A connection to port 22 from 10.0.2.99; only port 80 is allowed.\<close>

definition syn22 :: "byte list" where
  "syn22 = wr16 40000 @ wr16 22 @ wr32 0 @ wr32 0 @ [0x50, 0x02] @ wr16 0 @ wr16 0 @ wr16 0"

theorem firewall_exact_witness:
  "let s = fw_on (net_zero [])
   in net_rx logging 0 (ip_frame [2, 0, 0, 0, 0, 1] [2, 0, 0, 0, 0, 9] (ip_packet 7 6 0x0A000263 0x0A00020F syn22)) s =
      s\<lparr>fwall := blocked [116, 99, 112] (ip4_to_str 0x0A000263) 22 (fwall s)\<rparr>"
proof -
  let ?s = "fw_on (net_zero ([] :: up_call list))" and ?p = "ip_packet 7 6 0x0A000263 0x0A00020F syn22"
  let ?f = "ip_frame [2, 0, 0, 0, 0, 1] [2, 0, 0, 0, 0, 9] ?p"
  have len: "length syn22 = 20" by (simp add: syn22_def)
  have fr: "drop 14 ?f = ?p" "rd16 ?f 12 = ETH_TYPE_IP" "34 \<le> length ?f" by (simp_all add: ip_frame_fields len)
  have good: "good_header ?p" "ip_payload ?p = syn22" using ip_packet_good [of syn22] len by simp_all
  note F = ip_packet_fields [of 7 6 "0x0A000263" "0x0A00020F" syn22]
  have port: "rd16 syn22 2 = 22" unfolding syn22_def by (rule rd16_at) simp
  have flags: "syn22 ! 13 = 2" by (simp add: syn22_def wr16_def wr32_def nth_append)
  have un: "unwanted 6 syn22 ?s" using len port flags by (simp add: unwanted_def fw_on_def proto_defs)
  have st: "g_on (fwall ?s)" "map_option fst (dev ?s) = Some 0" "for_us 0x0A00020F ?s" "\<not> (configured ?s \<and> 0x0A000263 = if_ip ?s)"
    by (simp_all add: fw_on_def net_zero_def for_us_def)
  have "net_rx logging 0 ?f ?s = ?s\<lparr>fwall := blocked (proto_word 6) (ip4_to_str 0x0A000263) (log_port 6 syn22) (fwall ?s)\<rparr>"
    using firewall_exact [of ?s 0 ?f logging, unfolded fr F(3,6,7) good(2), OF st(1,2) fr(3) refl good(1) st(3,4)] un
    by (simp add: Let_def F good(2))
  then show ?thesis by (simp add: proto_word_def log_port_def port proto_defs Let_def)
qed

text \<open>
  C40: The way around the firewall. \<open>net_rx\<close> drops frames that pretend to come from 127.0.0.0/8, so that a packet from outside cannot pass as
  one of this machine, but \<open>ip_rx\<close> trusts the own address in the same way and nothing checks for it: a datagram from the card with the
  machine's own address as its sender, to a port the firewall keeps out, is handed to the handler of that port.
\<close>

theorem firewall_own_address:
  assumes "g_on (fwall s)" "configured s" "dev s = Some (nd, my)" "drop_bit 24 (if_ip s) \<noteq> 127"
    and "length dmac = 6" "length smac = 6" "length data \<le> 1472" "find (bound_to port) (binds s) = Some b"
    and "unwanted IP_PROTO_UDP (udp_datagram (if_ip s) (if_ip s) sport port data) s"
  shows "net_rx env nd (ip_frame dmac smac (ip_packet ident IP_PROTO_UDP (if_ip s) (if_ip s)
      (udp_datagram (if_ip s) (if_ip s) sport port data))) s =
    e_up env (Udp_In (the (ub_handler b)) (ub_ctx b) (if_ip s) sport data) s"
proof -
  let ?d = "udp_datagram (if_ip s) (if_ip s) sport port data"
  let ?p = "ip_packet ident IP_PROTO_UDP (if_ip s) (if_ip s) ?d"
  note fr = ip_frame_fields [OF assms(5,6), of ?p]
  have l: "is_local (if_ip s) s" using assms(2) by (simp add: is_local_def)
  have "ip_rx env ?p s = ip_deliver env IP_PROTO_UDP 64 (if_ip s) (if_ip s) ?d s"
    by (rule ip_rx_packet) (use assms(7) for_us_local [OF l] ip_filter_local [OF l] in auto)
  also have "\<dots> = e_up env (Udp_In (the (ub_handler b)) (ub_ctx b) (if_ip s) sport data) s"
    using assms(8) by (simp add: ip_deliver_def proto_defs udp_rx_datagram [OF assms(7)])
  finally have rx: "ip_rx env ?p s = e_up env (Udp_In (the (ub_handler b)) (ub_ctx b) (if_ip s) sport data) s" .
  have at: "ip_frame dmac smac ?p ! 26 = ?p ! 12" "ip_frame dmac smac ?p ! 30 = ?p ! 16"
    using assms(5,6) by (simp_all add: ip_frame_def wr16_def nth_append)
  have "(ucast (?p ! 12) :: u32) \<noteq> 127" "(ucast (?p ! 16) :: u32) \<noteq> 127"
    using rd32_top [of ?p 12] rd32_top [of ?p 16] assms(4) ip_packet_fields(6,7) [of ident IP_PROTO_UDP "if_ip s" "if_ip s" ?d] by simp_all
  then have "?p ! 12 \<noteq> 127" "?p ! 16 \<noteq> 127" by auto
  then show ?thesis using rx at fr assms(3) by (simp add: net_rx_def ETH_TYPE_ARP_def ETH_TYPE_IP_def)
qed

theorem firewall_own_address_witness:
  "let s = fw_on (snd (udp_bind 53 7 9 (net_zero [])))
   in net_rx logging 0 (ip_frame [2, 0, 0, 0, 0, 1] [2, 0, 0, 0, 0, 9]
        (ip_packet 7 IP_PROTO_UDP 0x0A00020F 0x0A00020F (udp_datagram 0x0A00020F 0x0A00020F 5000 53 [1, 2]))) s =
      e_up logging (Udp_In 7 9 0x0A00020F 5000 [1, 2]) s"
proof -
  let ?s = "fw_on (snd (udp_bind 53 7 9 (net_zero ([] :: up_call list))))"
  have b: "find (bound_to 53) (binds ?s) = Some \<lparr>ub_port = 53, ub_handler = Some 7, ub_ctx = 9\<rparr>"
    by (simp add: fw_on_def net_zero_def udp_bind_def UDP_BINDINGS_def bound_to_def list_ex_iff first_idx_replicate find_head)
  have s: "g_on (fwall ?s)" "configured ?s" "dev ?s = Some (0, [2, 0, 0, 0, 0, 1])" "if_ip ?s = 0x0A00020F" "g_udp (fwall ?s) = []"
    "g_out (fwall ?s) = replicate UDP_OUT (0, 0)"
    by (simp_all add: fw_on_def net_zero_def udp_bind_def UDP_BINDINGS_def bound_to_def list_ex_iff first_idx_replicate fw_zero_def)
  have "rd16 (udp_datagram 0x0A00020F 0x0A00020F 5000 53 [1, 2]) 2 = 53"
    unfolding udp_datagram_def Let_def by (rule rd16_at) simp
  then have "unwanted IP_PROTO_UDP (udp_datagram 0x0A00020F 0x0A00020F 5000 53 [1, 2]) ?s" using s by (simp add: unwanted_def)
  then show ?thesis
    using firewall_own_address [OF s(1-3) _ _ _ _ b, of "[2, 0, 0, 0, 0, 1]" "[2, 0, 0, 0, 0, 9]" "[1, 2]" 5000 logging 7] s(4)
    by (simp add: Let_def)
qed



section \<open>Pings of this machine\<close>

lemma drain_rest: "\<forall>i \<in> set is. loopq s ! i = None \<Longrightarrow> fold (drain_one env) is s = s"
  by (induction "is") (auto simp: drain_one_def)

lemma icmp_checksum:
  assumes "length b + 4 \<le> 1480"
  shows "net_checksum ([x, y] @ wr16 (net_checksum ([x, y] @ wr16 0 @ b)) @ b) = 0"
  by (rule checksum_completes) (use assms in auto)

lemma echo_data_length [simp]: "length (echo_data n t) = n"
  by (simp add: echo_data_def Let_def)

text \<open>The message of type \<open>ty\<close> with a number and a sequence number.\<close>

definition echo_message :: "byte \<Rightarrow> u16 \<Rightarrow> u16 \<Rightarrow> byte list \<Rightarrow> byte list" where
  "echo_message ty ident sq data =
     (let rest = wr16 ident @ wr16 sq @ data in [ty, 0] @ wr16 (net_checksum ([ty, 0] @ wr16 0 @ rest)) @ rest)"

lemma echo_message_fields:
  assumes "length data \<le> 1472"
  shows "length (echo_message ty ident sq data) = 8 + length data" "net_checksum (echo_message ty ident sq data) = 0"
    "echo_message ty ident sq data ! 0 = ty" "echo_message ty ident sq data ! 1 = 0"
    "drop 4 (echo_message ty ident sq data) = wr16 ident @ wr16 sq @ data"
    "rd16 (echo_message ty ident sq data) 4 = ident" "rd16 (echo_message ty ident sq data) 6 = sq"
proof -
  let ?c = "wr16 (net_checksum ([ty, 0] @ wr16 0 @ wr16 ident @ wr16 sq @ data))"
  show "length (echo_message ty ident sq data) = 8 + length data" by (simp add: echo_message_def Let_def)
  show "net_checksum (echo_message ty ident sq data) = 0"
    unfolding echo_message_def Let_def by (rule icmp_checksum) (use assms in simp)
  show "echo_message ty ident sq data ! 0 = ty" "echo_message ty ident sq data ! 1 = 0"
    "drop 4 (echo_message ty ident sq data) = wr16 ident @ wr16 sq @ data" by (simp_all add: echo_message_def Let_def)
  show "rd16 (echo_message ty ident sq data) 4 = ident" "rd16 (echo_message ty ident sq data) 6 = sq"
    using rd16_at [of "[ty, 0] @ ?c" 4 ident] rd16_at [of "[ty, 0] @ ?c @ wr16 ident" 6 sq]
    by (simp_all add: echo_message_def Let_def)
qed

lemma icmp_echo_send_message:
  "icmp_echo_send env dst ident sq n s = ip_send env dst IP_PROTO_ICMP (echo_message 8 ident sq (echo_data (min n 1472) (now s))) s"
  by (simp add: icmp_echo_send_def echo_message_def Let_def min_def)

lemma icmp_rx_request:
  "length data \<le> 1472 \<Longrightarrow> icmp_rx env src (echo_message 8 ident sq data) ttl s = snd (ip_send env src IP_PROTO_ICMP (echo_message 0 ident sq data) s)"
  using echo_message_fields [of data 8 ident sq] by (simp add: icmp_rx_def echo_message_def Let_def)

definition echo_event :: "ip4 \<Rightarrow> u16 \<Rightarrow> u16 \<Rightarrow> nat \<Rightarrow> u32 \<Rightarrow> icmp_event" where
  "echo_event src ident sq n t =
     \<lparr>ev_src = src, ev_id = ident, ev_seq = sq, ev_ttl = 64, ev_type = 0, ev_bytes = of_nat (8 + n), recv_ms = t\<rparr>"

lemma icmp_rx_reply:
  "length data \<le> 1472 \<Longrightarrow> icmp_rx env src (echo_message 0 ident sq data) 64 s = push_event (echo_event src ident sq (length data) (now s)) s"
  using echo_message_fields [of data 0 ident sq] by (simp add: icmp_rx_def echo_event_def Let_def)

text \<open>
  A ping of this machine is answered. With an empty loopback queue, memory and no event waiting, \<open>icmp_echo_send\<close> to an address of this
  machine succeeds; after two rounds of \<open>ip_loopback_drain\<close> (the request, then the reply it caused) \<open>icmp_poll_event\<close> for the number of
  the ping gives one echo reply, from the pinged address, with its sequence number and the size of the message, and then nothing more. The firewall,
  on or off, plays no part.
\<close>

lemma ping_loopback:
  assumes "net_ok s" "loopq s = replicate LOOP_MAX None" "is_local dst s" "\<forall>n \<le> 1500. e_alloc env n" "ev_count s = 0"
  shows "\<exists>s1. icmp_echo_send env dst ident sq n s = (NET_OK, s1) \<and>
    (let s2 = ip_loopback_drain env (ip_loopback_drain env s1)
     in \<exists>s3. icmp_poll_event ident s2 = (Some (echo_event dst ident sq (min n 1472) (now s)), s3) \<and>
        icmp_poll_event ident s3 = (None, s3) \<and> loopq s3 = loopq s)"
proof -
  let ?d = "echo_data (min n 1472) (now s)"
  let ?q = "echo_message 8 ident sq ?d" and ?r = "echo_message 0 ident sq ?d"
  have len: "length ?d \<le> 1472" "length ?q \<le> 1480" "length ?r \<le> 1480" using echo_message_fields(1) [of ?d] by simp_all
  have al: "e_alloc env (20 + length ?q)" "e_alloc env (20 + length ?r)" using assms(4) len by simp_all
  define a where "a = s\<lparr>g_ip_id := g_ip_id s + 1\<rparr>"
  define b where "b = a\<lparr>g_ip_id := g_ip_id a + 1\<rparr>"
  have a: "loopq a = replicate LOOP_MAX None" "is_local dst a" "now a = now s" using assms(2,3) by (simp_all add: a_def is_local_def)
  note L1 = loopback_delivers [OF assms(2,3) len(2) al(1), of IP_PROTO_ICMP, folded a_def]
  note L2 = loopback_delivers [OF a(1,2) len(3) al(2), of IP_PROTO_ICMP, folded b_def]
  have empty: "fold (drain_one env) [1..<LOOP_MAX] (t\<lparr>loopq := (replicate LOOP_MAX None)[0 := x]\<rparr>) = t\<lparr>loopq := (replicate LOOP_MAX None)[0 := x]\<rparr>" for t x
    by (rule drain_rest) auto
  have one: "ip_loopback_drain env (snd (ip_send env dst IP_PROTO_ICMP ?q s)) = snd (ip_send env dst IP_PROTO_ICMP ?r a)"
  proof -
    have "ip_loopback_drain env (snd (ip_send env dst IP_PROTO_ICMP ?q s)) =
        fold (drain_one env) [1..<LOOP_MAX] (snd (ip_send env dst IP_PROTO_ICMP ?r a))"
      using L1(2) icmp_rx_request [OF len(1), of env dst ident sq 64 a] by (simp add: ip_deliver_def)
    also have "\<dots> = snd (ip_send env dst IP_PROTO_ICMP ?r a)" unfolding L2(1) snd_conv a(1) by (rule drain_rest) auto
    finally show ?thesis .
  qed
  let ?e = "echo_event dst ident sq (min n 1472) (now s)"
  have two: "ip_loopback_drain env (snd (ip_send env dst IP_PROTO_ICMP ?r a)) = push_event ?e b"
  proof -
    have "loopq (push_event ?e b) = replicate LOOP_MAX None" using a(1) by (simp add: push_event_def b_def Let_def)
    then have "fold (drain_one env) [1..<LOOP_MAX] (push_event ?e b) = push_event ?e b" by (intro drain_rest) auto
    then show ?thesis using L2(2) icmp_rx_reply [OF len(1), of env dst ident sq b] a(3) by (simp add: ip_deliver_def b_def)
  qed
  have c: "ev_count b = 0" "ev_head b < 16" "loopq b = loopq s" using assms(1,5) by (simp_all add: a_def b_def net_ok_def EV_MAX_def)
  define s3 where "s3 = (push_event ?e b)\<lparr>ev_count := 0\<rparr>"
  have "icmp_poll_event ident (push_event ?e b) = (Some ?e, s3)"
    using c by (simp add: icmp_poll_event_def push_event_def echo_event_def EV_MAX_def s3_def Let_def)
  moreover have "icmp_poll_event ident s3 = (None, s3)" by (simp add: icmp_poll_event_def s3_def)
  moreover have "loopq s3 = loopq s" using c by (simp add: s3_def push_event_def Let_def)
  ultimately show ?thesis using L1(1) one two by (auto simp: icmp_echo_send_message Let_def)
qed

lemma net_zero_ok: "net_ok (net_zero w)"
  by (simp add: net_zero_def net_ok_def fw_zero_def fw_ok_def keys_apart_def small_packet_def ARP_CACHE_def ARP_PENDING_def LOOP_MAX_def
      UDP_BINDINGS_def EV_MAX_def MAX_PORTS_def UDP_OUT_def LOG_N_def)

lemma ping_loopback_example:
  "\<exists>s1 s3. icmp_echo_send logging 0x7F000001 77 3 56 (net_zero []) = (NET_OK, s1) \<and>
    icmp_poll_event 77 (ip_loopback_drain logging (ip_loopback_drain logging s1)) = (Some (echo_event 0x7F000001 77 3 56 1000), s3)"
proof -
  let ?s = "net_zero ([] :: up_call list)"
  have s: "loopq ?s = replicate LOOP_MAX None" "is_local 0x7F000001 ?s" "\<forall>n \<le> 1500. e_alloc logging n" "ev_count ?s = 0" "now ?s = 1000"
    by (simp_all add: net_zero_def is_local_def logging_def)
  have "min 56 1472 = (56 :: nat)" by simp
  then show ?thesis using ping_loopback [OF net_zero_ok s(1-4), of 77 3 56] unfolding s(5) Let_def by metis
qed



section \<open>Everything that can happen\<close>

text \<open>
  The steps of the stack: what the card, the clock and the programs do to it. Ports of the firewall are not 0, cards have addresses of six bytes.
\<close>

inductive net_step :: "'w env \<Rightarrow> 'w net \<Rightarrow> 'w net \<Rightarrow> bool" for env where
  frame_in: "net_step env s (net_rx env nd frame s)"
| loop_in: "net_step env s (ip_loopback_drain env s)"
| tick: "net_step env s (s\<lparr>now := t\<rparr>)"
| timer: "net_step env s (arp_timer env s)"
| flush: "net_step env s (arp_flush s)"
| request: "net_step env s (arp_request env ip s)"
| send: "net_step env s (snd (ip_send env dst proto payload s))"
| udp: "net_step env s (snd (udp_send env dst sport dport data s))"
| bind: "net_step env s (snd (udp_bind port h ctx s))"
| unbind: "net_step env s (udp_unbind port s)"
| echo: "net_step env s (snd (icmp_echo_send env dst ident sq n s))"
| poll: "net_step env s (snd (icmp_poll_event ident s))"
| static: "net_step env s (net_set_static env ip msk gw dns s)"
| select: "(\<forall>n mac. nd = Some (n, mac) \<longrightarrow> length mac = 6) \<Longrightarrow> net_step env s (net_select_device env nd s)"
| fw: "(\<forall>proto b. c \<noteq> Allow proto 0 b) \<Longrightarrow> net_step env s (s\<lparr>fwall := fw_do c (fwall s)\<rparr>)"

inductive_simps net_step_simps: "net_step env s t"

lemma fw_do_ok: "fw_ok f \<Longrightarrow> \<forall>proto b. c \<noteq> Allow proto 0 b \<Longrightarrow> fw_ok (fw_do c f)"
proof -
  assume ok: "fw_ok f" and nz: "\<forall>proto b. c \<noteq> Allow proto 0 b"
  show ?thesis
  proof (cases c)
    case (Allow proto port b)
    let ?t = "snd (fw_allow (\<lambda>_. True) (\<lambda>_. True) proto port b f)"
    obtain r where r: "fw_allow (\<lambda>_. True) (\<lambda>_. True) proto port b f = (r, ?t)" by (cases "fw_allow (\<lambda>_. True) (\<lambda>_. True) proto port b f") simp
    note T = fw_allow_table [OF r]
    have p: "port \<noteq> 0" using nz Allow by auto
    have old: "0 \<notin> set (port_table proto f)" "length (port_table proto f) \<le> MAX_PORTS" for proto
      using ok by (auto simp: port_table_def fw_ok_def)
    have "set_mset (mset (port_table proto ?t)) \<subseteq> insert port (set (port_table proto f))"
      unfolding T(1) by (auto dest: in_diffD)
    then have new: "0 \<notin> set (port_table proto ?t)" "length (port_table proto ?t) \<le> MAX_PORTS"
      using old [of proto] p T(4) by auto
    have tabs: "g_tcp ?t = port_table FW_TCP ?t" "g_udp ?t = port_table FW_UDP ?t" by (simp_all add: port_table_def FW_TCP_def FW_UDP_def)
    have both: "0 \<notin> set (port_table k ?t) \<and> length (port_table k ?t) \<le> MAX_PORTS" if "k \<in> {FW_TCP, FW_UDP}" for k
      using new T(3) old [of FW_TCP] old [of FW_UDP] that by (cases "proto = FW_UDP") (auto simp: port_table_def FW_TCP_def FW_UDP_def)
    have rest: "g_out ?t = g_out f" "g_log_at ?t = g_log_at f" "g_log_n ?t = g_log_n f"
      by (auto simp: fw_allow_def save_ports_def set_port_table_def Let_def)
    show ?thesis using ok both Allow by (simp add: fw_do_def fw_ok_def tabs rest)
  qed (use ok in \<open>simp_all add: fw_do_def fw_enable_def fw_set_ping_def fw_ok_def\<close>)
qed

lemma net_select_ok:
  assumes "env_ok env" "net_ok s" "\<forall>n mac. nd = Some (n, mac) \<longrightarrow> length mac = 6"
  shows "net_ok (net_select_device env nd s)"
proof -
  define t where "t = (if map_option fst (dev s) \<noteq> map_option fst nd then e_up env Tcp_Changed s else s)"
  define u where "u = arp_flush (t\<lparr>dev := nd, configured := False, if_ip := 0, netmask := 0, gateway := 0, if_dns := 0, lease_s := 0\<rparr>)"
  note up = env_okD [OF assms(1)]
  have "net_ok t" using assms(2) up by (simp add: t_def)
  then have u: "net_ok u" using assms(3) unfolding u_def by (intro arp_flush_ok) (simp add: net_ok_def)
  show ?thesis unfolding net_select_device_def Let_def t_def [symmetric] u_def [symmetric] by (cases nd) (simp_all add: u up)
qed

lemma net_step_ok: "net_step env s t \<Longrightarrow> env_ok env \<Longrightarrow> net_ok s \<Longrightarrow> net_ok t"
proof (induction rule: net_step.induct)
  case (static s ip msk gw dns)
  have "net_ok (e_up env Dhcp_Stop s)" using static by (simp add: env_okD)
  then show ?case by (simp add: net_set_static_def net_ok_def Let_def)
next
  case (tick s t)
  then show ?case by (simp add: net_ok_def)
qed (simp_all add: net_rx_ok ip_loopback_drain_ok arp_timer_ok arp_flush_ok arp_request_ok ip_send_ok udp_send_ok udp_bind_ok
    udp_unbind_ok icmp_echo_send_message icmp_poll_event_def poll_from_ok net_select_ok set_fwall_ok fw_do_ok net_ok_parts)



end
