(* ===== verification/Spec2Isabelle.thy ===== *)
theory Spec2Isabelle
  imports Kheap_Aligned Kheap_Check Kprintf Rtc Pty Textbuf Sha2 Md5 Chacha Gcm Wifi_Crypto Deflate Ipv4_Rx
begin

text \<open>
  Banana OS is an operating system for PCs: one C kernel (\<open>src/kernel\<close>) with its own heap, terminals, editor, file systems and desktop, a
  network stack (\<open>src/net\<close>) and cryptography (\<open>src/crypto\<close>). This development models the parts of it that other parts build on, as HOL
  functions translated from the C code definition by definition under the names of the code, and proves what makes them correct. All models
  are executable; loops whose end is not obvious are partial functions with the value \<open>None\<close> for a loop that does not end, and the
  theorems say that there is a result.

  \<^bold>\<open>How the parts interact.\<close> Every part takes memory from the heap (\<open>kheap.c\<close>) and uses the memory, string and format functions
  (\<open>kstring.c\<close>). The editor and the notepad keep their text in \<open>textbuf.c\<close> and move in it with \<open>utf8.h\<close>; programs and the terminal
  window talk over \<open>pty.c\<close>; \<open>rtc.c\<close> and \<open>tz.c\<close> keep the time; packages and screenshots are compressed by \<open>deflate.c\<close>; TLS, SSH, remote desktop and
  Wi-Fi use \<open>src/crypto\<close>. A frame from a network card comes to \<open>net_rx\<close> (\<open>net.c\<close>), from there to ARP (\<open>arp.c\<close>) or IP (\<open>ip.c\<close>), which asks the
  firewall (\<open>firewall.c\<close>) and hands it to ICMP, UDP or TCP; the firewall keeps its rules in the settings (\<open>settings.c\<close> over \<open>config.c\<close>), printed
  with \<open>ksnprintf\<close> and read with \<open>k_parse_u32\<close>.

  \<^bold>\<open>Shared theories.\<close>
  \<^item> \<open>Prelude\<close>: the C integer types, 32-bit wrap-around on natural numbers, bit scans, doubly linked lists in a heap of links.
  \<^item> \<open>Interfaces\<close>, \<open>Fifo\<close>, \<open>Block_Stream\<close>, \<open>Ciphers\<close>, \<open>Config\<close>: the contracts between parts, as locales: an allocator
    (\<open>allocator\<close>), a bounded queue (\<open>bounded_fifo\<close>), a function that takes its input in pieces (\<open>block_stream\<close>, \<open>padded_stream\<close>, \<open>stream_hash\<close>), an authenticated cipher
    (\<open>aead\<close>), a store of settings (\<open>settings_store\<close>). Each is interpreted on the model's own definitions in the theory of its provider.

  \<^bold>\<open>The kernel heap\<close> (\<open>kernel/kheap.c\<close>). \<open>Kheap_Model\<close> has the state (block headers, links of the bins, bitmaps, contents) and every
  operation; \<open>Kheap_Bins\<close> and \<open>Kheap_Blocks\<close> the invariants of the bins and of the block list; \<open>Kheap\<close> that every operation keeps them;
  \<open>Kheap_Api\<close> what users see: allocations are aligned, big enough and disjoint, a request succeeds when a block is a sixteenth larger, freeing
  removes exactly one allocation, resizing keeps the bytes, and over any run the live set is what the clients hold. \<open>Kheap_Aligned\<close>, \<open>Kheap_Boot\<close> and
  \<open>Kheap_Check\<close> add aligned allocation, the choice of the region from the Multiboot2 map with later additions, and the self check with the
  statistics. Sizes are at their 32 bits; the memory that a driver may reclaim, and the map the loader left, are parameters.

  \<^bold>\<open>Text.\<close> \<open>Kstring\<close> has the memory and string functions over a byte memory (equal to copying, filling and comparing byte by byte, also for
  overlapping areas); \<open>Kprintf\<close> the formatted output (the buffer holds the text of the format, cut to its size); \<open>Ktext\<close> both as
  functions on texts; \<open>Utf8\<close> the UTF-8 functions of \<open>kernel/utf8.h\<close>; \<open>Textbuf\<close> the text of the editor with every editing operation, where an argument says which allocations succeed.

  \<^bold>\<open>Time.\<close> \<open>Calendar\<close> (civil dates), \<open>Timezone\<close> (the table of zones and the summer time rules of \<open>kernel/tz.c\<close>) and \<open>Rtc\<close> (the CMOS clock of
  \<open>kernel/rtc.c\<close>, its reads a parameter so that it may change while it is read): conversions are inverse up to the repeated and skipped hours.

  \<^bold>\<open>Pseudo terminals\<close> (\<open>kernel/pty.c\<close>). \<open>Pty_Model\<close> has the table of terminals and the line discipline, \<open>Pty\<close> the invariant over every
  sequence of operations and the refinement of the rings to a queue of lines and a queue of bytes.

  \<^bold>\<open>Cryptography\<close> (\<open>src/crypto\<close>). \<open>Sha2\<close>, \<open>Md5\<close>: the hashes with their contexts give the padded message through the compression function, however it is cut,
  with HMAC, HKDF, PBKDF2 and RC4. \<open>Poly1305\<close>: the 26-bit limbs compute the polynomial modulo \<open>2^130 - 5\<close>. \<open>Chacha\<close>,
  \<open>Aes\<close>, \<open>Gcm\<close>: the T-tables and 4-bit tables are AES and the field of \<open>2^128\<close> elements, both authenticated ciphers open exactly what was
  sealed. \<open>Wifi_Crypto\<close>: the keys of WPA2, key unwrapping and CCMP.

  \<^bold>\<open>Compression\<close> (\<open>kernel/deflate.c\<close>). \<open>Deflate_Model\<close> has the compressor; \<open>Huffman_Lengths\<close> and \<open>Huffman_Codes\<close> show that its code lengths satisfy
  Kraft's inequality and that its codes are the canonical prefix-free ones; \<open>Inflate\<close> is a decoder written from RFC 1951; \<open>Deflate_Bits\<close>, \<open>Deflate_Blocks\<close>,
  \<open>Deflate_Dynamic\<close> and \<open>Deflate\<close> show that what is written decodes to the input and how large it can be.

  \<^bold>\<open>Network.\<close> \<open>Config\<close>: settings files. \<open>Net_Base\<close>: byte order, the Internet checksum, addresses as text. \<open>Firewall\<close>: its rules, log and
  settings. \<open>Ipv4_Model\<close>: Ethernet, ARP, IP with loopback, ICMP and UDP over one state record with the static variables of these files; memory, the card and
  the calls into TCP, IPv6, DHCP, DNS and port handlers are fields of a parameter (\<open>env\<close>), the time is a field of the state. \<open>Ipv4\<close> and \<open>Ipv4_Rx\<close> show
  that packets are read as they were written, that datagrams and pings to this machine arrive, that packets waiting for an address are sent when it is
  known, what the firewall keeps out and how it is passed, and the well-formedness of the state over every step (\<open>net_step\<close>).

  \<^bold>\<open>What the theorems found.\<close> \<open>krealloc\<close> cuts its size to 32 bits; \<open>kheap_check\<close> calls a sound heap damaged when a region was added below; the clock
  repeats an hour when its mode is changed in autumn; the capacity of the compressor's output wraps at 2 GiB; the length in the tag of AES-GCM wraps
  at 512 MiB; a forged sender address passes the firewall; a full ARP cache can have no slot in one millisecond of 49 days.

  \<^bold>\<open>Not modelled.\<close> Code that works on devices, page tables, interrupts and other processors (drivers, USB, block devices, virtual memory, tasks, graphics,
  boot loader), since its effect is outside the sources; the desktop, shell and applications, which are user interface; the
  on-disk file systems, TCP and the other network protocols and services, public-key cryptography, the web engine and the media codecs, which are large
  parts of their own built on what is modelled here; generated data and third-party code. Locks are not modelled: each operation that the code runs
  under a lock is one step.
\<close>

end
